(* ===== verification/Go_Prelude.thy ===== *)
theory Go_Prelude
  imports Complex_Main "HOL-Library.Multiset" "HOL-Library.Char_ord"
    "HOL-Library.List_Lexorder" "HOL-Library.Word"
begin

section \<open>What the components use of Go: floats, integers, strings, sorting\<close>

text \<open>
  This theory holds the model of the Go language and library features that every component
  shares, and the generic lemmas about them:

  \<^item> \<open>float64\<close>: a float is NaN, an infinity or a finite value, and a finite value is
    represented by the real number it denotes. The modelled code compares floats and copies
    them; it does no arithmetic on them, so a theorem for all reals is in particular one for
    the representable reals. The two zeros compare equal everywhere in the code and are one
    value here. Go's comparison operators are \<open>f_lt\<close>, \<open>f_le\<close>, \<open>f_eq\<close>: a
    comparison with NaN is false.
  \<^item> \<open>int64\<close>: two's complement 64-bit words compared as signed numbers.
  \<^item> strings are byte lists, ordered bytewise (List\_Lexorder over Char\_ord), as in Go.
  \<^item> \<open>sort_slice\<close> models \<open>sort.Slice\<close> by the insertion sort that the Go library runs
    on short slices. \<open>sort.Slice\<close> promises a sorted permutation only; the locale
    \<open>weak_less\<close> proves that wherever ties are equal elements every sorted permutation is
    the one computed here, so nothing proved below depends on the algorithm.
\<close>

named_theorems go_float "comparison of floats reduced to the order of reals"

subsection \<open>Floats\<close>

datatype float64 = NaN | NegInf | Fin real | PosInf

text \<open>A total order on floats (NaN least), so that the library's order lemmas apply.\<close>

instantiation float64 :: linorder
begin

fun less_eq_float64 :: "float64 \<Rightarrow> float64 \<Rightarrow> bool" where
  "less_eq_float64 NaN y = True"
| "less_eq_float64 NegInf y = (y \<noteq> NaN)"
| "less_eq_float64 (Fin a) y = (case y of Fin b \<Rightarrow> a \<le> b | PosInf \<Rightarrow> True | _ \<Rightarrow> False)"
| "less_eq_float64 PosInf y = (y = PosInf)"

definition less_float64 :: "float64 \<Rightarrow> float64 \<Rightarrow> bool" where
  "less_float64 x y = (x \<le> y \<and> \<not> y \<le> x)"

instance
proof
  fix x y z :: float64
  show "(x < y) = (x \<le> y \<and> \<not> y \<le> x)" by (simp add: less_float64_def)
  show "x \<le> x" by (cases x) auto
  show "x \<le> y \<Longrightarrow> y \<le> z \<Longrightarrow> x \<le> z"
    by (cases x; cases y; cases z) auto
  show "x \<le> y \<Longrightarrow> y \<le> x \<Longrightarrow> x = y" by (cases x; cases y) auto
  show "x \<le> y \<or> y \<le> x" by (cases x; cases y) auto
qed

end

lemma Fin_less_iff [simp, go_float]: "Fin a < Fin b \<longleftrightarrow> a < b"
  by (auto simp: less_float64_def)

lemma Fin_le_iff [simp, go_float]: "Fin a \<le> Fin b \<longleftrightarrow> a \<le> b"
  by simp

text \<open>Go's \<open><\<close>, \<open><=\<close> and \<open>==\<close> on floats.\<close>

definition f_lt :: "float64 \<Rightarrow> float64 \<Rightarrow> bool" where
  "f_lt x y \<longleftrightarrow> x \<noteq> NaN \<and> y \<noteq> NaN \<and> x < y"

definition f_le :: "float64 \<Rightarrow> float64 \<Rightarrow> bool" where
  "f_le x y \<longleftrightarrow> x \<noteq> NaN \<and> y \<noteq> NaN \<and> x \<le> y"

definition f_eq :: "float64 \<Rightarrow> float64 \<Rightarrow> bool" where
  "f_eq x y \<longleftrightarrow> x \<noteq> NaN \<and> x = y"

definition IsNaN :: "float64 \<Rightarrow> bool" where
  "IsNaN x \<longleftrightarrow> x = NaN"

definition IsInf :: "float64 \<Rightarrow> bool" where
  "IsInf x \<longleftrightarrow> x = NegInf \<or> x = PosInf"

definition is_fin :: "float64 \<Rightarrow> bool" where
  "is_fin x \<longleftrightarrow> \<not> IsNaN x \<and> \<not> IsInf x"

lemma f_lt_Fin [simp, go_float]: "f_lt (Fin a) (Fin b) \<longleftrightarrow> a < b"
  by (simp add: f_lt_def)

lemma f_le_Fin [simp, go_float]: "f_le (Fin a) (Fin b) \<longleftrightarrow> a \<le> b"
  by (simp add: f_le_def)

lemma f_eq_Fin [simp, go_float]: "f_eq (Fin a) (Fin b) \<longleftrightarrow> a = b"
  by (simp add: f_eq_def)

lemma IsNaN_Fin [simp]: "\<not> IsNaN (Fin a)"
  by (simp add: IsNaN_def)

lemma IsInf_Fin [simp]: "\<not> IsInf (Fin a)"
  by (simp add: IsInf_def)

lemma is_fin_iff: "is_fin x \<longleftrightarrow> (\<exists>a. x = Fin a)"
  by (cases x) (auto simp: is_fin_def IsNaN_def IsInf_def)

lemma is_fin_Fin [simp]: "is_fin (Fin a)"
  by (simp add: is_fin_iff)

lemma is_finE: "is_fin x \<Longrightarrow> (\<And>a. x = Fin a \<Longrightarrow> P) \<Longrightarrow> P"
  by (auto simp: is_fin_iff)

subsection \<open>64-bit integers\<close>

type_synonym int64 = "64 word"

text \<open>Go's \<open><\<close> and \<open><=\<close> on \<open>int64\<close>.\<close>

definition i_lt :: "int64 \<Rightarrow> int64 \<Rightarrow> bool" where
  "i_lt a b \<longleftrightarrow> sint a < sint b"

definition i_le :: "int64 \<Rightarrow> int64 \<Rightarrow> bool" where
  "i_le a b \<longleftrightarrow> sint a \<le> sint b"

definition max_int64 :: int64 where
  "max_int64 = 2 ^ 63 - 1"

lemma sint_eq_iff: "sint (a :: int64) = sint b \<longleftrightarrow> a = b"
  by (metis signed_word_eqI)

lemma i_lt_total: "\<not> i_lt a b \<Longrightarrow> \<not> i_lt b a \<Longrightarrow> a = b"
  by (simp add: i_lt_def sint_eq_iff)

subsection \<open>Sorting\<close>

fun insert_by :: "('a \<Rightarrow> 'a \<Rightarrow> bool) \<Rightarrow> 'a \<Rightarrow> 'a list \<Rightarrow> 'a list" where
  "insert_by lt x [] = [x]"
| "insert_by lt x (y # ys) = (if lt x y then x # y # ys else y # insert_by lt x ys)"

definition sort_slice :: "('a \<Rightarrow> 'a \<Rightarrow> bool) \<Rightarrow> 'a list \<Rightarrow> 'a list" where
  "sort_slice lt xs = fold (insert_by lt) xs []"

lemma mset_insert_by [simp]: "mset (insert_by lt x ys) = add_mset x (mset ys)"
  by (induction ys) auto

lemma mset_fold_insert_by: "mset (fold (insert_by lt) xs ys) = mset xs + mset ys"
  by (induction xs arbitrary: ys) auto

lemma mset_sort_slice [simp]: "mset (sort_slice lt xs) = mset xs"
  by (simp add: sort_slice_def mset_fold_insert_by)

lemma set_sort_slice [simp]: "set (sort_slice lt xs) = set xs"
  using mset_sort_slice [of lt xs] by (metis set_mset_mset)

lemma length_sort_slice [simp]: "length (sort_slice lt xs) = length xs"
  using mset_sort_slice [of lt xs] by (metis size_mset)

lemma distinct_sort_slice [simp]: "distinct (sort_slice lt xs) = distinct xs"
  using mset_sort_slice [of lt xs] by (metis mset_eq_imp_distinct_iff)

lemma sort_slice_Nil [simp]: "sort_slice lt [] = []"
  by (simp add: sort_slice_def)

lemma set_insert_by [simp]: "set (insert_by lt x ys) = insert x (set ys)"
  using mset_insert_by [of lt x ys] by (metis set_mset_add_mset_insert set_mset_mset)

text \<open>
  The contract of a \<open>less\<close> function handed to the library's sort or heap: a strict weak
  order on the values that can occur (\<open>ok\<close>).
\<close>

locale weak_less =
  fixes lt :: "'a \<Rightarrow> 'a \<Rightarrow> bool" and ok :: "'a \<Rightarrow> bool"
  assumes lt_asym: "ok x \<Longrightarrow> ok y \<Longrightarrow> lt x y \<Longrightarrow> \<not> lt y x"
    and lt_negtrans: "ok x \<Longrightarrow> ok y \<Longrightarrow> ok z \<Longrightarrow> lt x z \<Longrightarrow> lt x y \<or> lt y z"
begin

abbreviation in_order :: "'a list \<Rightarrow> bool" where
  "in_order xs \<equiv> sorted_wrt (\<lambda>a b. \<not> lt b a) xs"

lemma lt_irrefl: "ok x \<Longrightarrow> \<not> lt x x"
  using lt_asym by blast

lemma lt_trans: "ok x \<Longrightarrow> ok y \<Longrightarrow> ok z \<Longrightarrow> lt x y \<Longrightarrow> lt y z \<Longrightarrow> lt x z"
  using lt_asym lt_negtrans by blast

lemma not_lt_trans: "ok x \<Longrightarrow> ok y \<Longrightarrow> ok z \<Longrightarrow> \<not> lt y x \<Longrightarrow> \<not> lt z y \<Longrightarrow> \<not> lt z x"
  using lt_negtrans by blast

lemma in_order_insert_by:
  assumes "ok x" and "\<forall>y\<in>set ys. ok y" and "in_order ys"
  shows "in_order (insert_by lt x ys)"
  using assms
proof (induction ys)
  case Nil
  then show ?case by simp
next
  case (Cons y ys)
  then have y: "ok y" and tail: "\<forall>z\<in>set ys. ok z \<and> \<not> lt z y" by auto
  show ?case
  proof (cases "lt x y")
    case True
    have "\<not> lt z x" if "z \<in> set ys" for z
      using that tail True y Cons.prems(1) lt_trans by blast
    with True Cons.prems y show ?thesis
      by (auto dest: lt_asym)
  next
    case False
    with Cons show ?thesis by auto
  qed
qed

lemma in_order_fold:
  "\<forall>x\<in>set xs \<union> set ys. ok x \<Longrightarrow> in_order ys \<Longrightarrow> in_order (fold (insert_by lt) xs ys)"
  by (induction xs arbitrary: ys) (auto simp: in_order_insert_by)

lemma in_order_sort_slice: "\<forall>x\<in>set xs. ok x \<Longrightarrow> in_order (sort_slice lt xs)"
  by (simp add: sort_slice_def in_order_fold)

text \<open>
  Any algorithm that returns a sorted permutation returns the same list, when elements
  that tie are equal.
\<close>

lemma in_order_unique:
  assumes "mset xs = mset ys" and "in_order xs" and "in_order ys" and "\<forall>x\<in>set xs. ok x"
    and "\<forall>x\<in>set xs. \<forall>y\<in>set xs. \<not> lt x y \<longrightarrow> \<not> lt y x \<longrightarrow> x = y"
  shows "xs = ys"
  using assms
proof (induction xs arbitrary: ys)
  case Nil
  then show ?case by simp
next
  case (Cons x xs)
  obtain y ys' where ys: "ys = y # ys'"
    using Cons.prems(1) by (cases ys) auto
  have sets: "set (x # xs) = set ys"
    using Cons.prems(1) by (metis set_mset_mset)
  have "x = y"
  proof (rule ccontr)
    assume "x \<noteq> y"
    then have "y \<in> set xs" and "x \<in> set ys'"
      using sets ys by auto
    then have "\<not> lt y x" and "\<not> lt x y"
      using Cons.prems(2,3) ys by auto
    then show False
      using Cons.prems(5) \<open>x \<noteq> y\<close> \<open>y \<in> set xs\<close> by auto
  qed
  moreover have "xs = ys'"
    using Cons.prems ys \<open>x = y\<close> by (intro Cons.IH) auto
  ultimately show ?case by (simp add: ys)
qed

lemma sort_slice_unique:
  assumes "mset xs = mset ys" and "in_order xs" and "\<forall>x\<in>set xs. ok x"
    and "\<forall>x\<in>set xs. \<forall>y\<in>set xs. \<not> lt x y \<longrightarrow> \<not> lt y x \<longrightarrow> x = y"
  shows "sort_slice lt ys = xs"
proof (rule in_order_unique [symmetric])
  have "set xs = set ys" using assms(1) by (metis set_mset_mset)
  with assms(3) show "in_order (sort_slice lt ys)"
    by (intro in_order_sort_slice) auto
qed (use assms in auto)

lemma sort_slice_cong:
  assumes "mset xs = mset ys" and "\<forall>x\<in>set xs. ok x"
    and "\<forall>x\<in>set xs. \<forall>y\<in>set xs. \<not> lt x y \<longrightarrow> \<not> lt y x \<longrightarrow> x = y"
  shows "sort_slice lt xs = sort_slice lt ys"
  using assms by (intro sort_slice_unique [symmetric]) (auto simp: in_order_sort_slice)

text \<open>In an ordered list the first element with a property is a least one with it.\<close>

lemma find_in_order:
  assumes "in_order xs" and "\<forall>x\<in>set xs. ok x" and "find P xs = Some v"
  shows "v \<in> set xs \<and> P v \<and> (\<forall>u\<in>set xs. P u \<longrightarrow> \<not> lt u v)"
  using assms by (induction xs) (auto split: if_splits intro: lt_irrefl dest: lt_irrefl)

lemma find_in_order_iff:
  assumes "in_order xs" and "\<forall>x\<in>set xs. ok x"
    and "\<forall>x\<in>set xs. \<forall>y\<in>set xs. \<not> lt x y \<longrightarrow> \<not> lt y x \<longrightarrow> x = y"
  shows "find P xs = Some v \<longleftrightarrow> v \<in> set xs \<and> P v \<and> (\<forall>u\<in>set xs. P u \<longrightarrow> \<not> lt u v)"
proof
  assume v: "v \<in> set xs \<and> P v \<and> (\<forall>u\<in>set xs. P u \<longrightarrow> \<not> lt u v)"
  then obtain u where u: "find P xs = Some u" using find_None_iff [of P xs] by (cases "find P xs") auto
  from find_in_order [OF assms(1,2) u] v assms(3) have "u = v" by blast
  with u show "find P xs = Some v" by simp
qed (use find_in_order [OF assms(1,2)] in blast)

end

subsection \<open>Lists\<close>

lemma concat_map_filter_fold:
  "fold (\<lambda>x acc. if P x then acc @ [f x] else acc) xs acc = acc @ map f (filter P xs)"
  by (induction xs arbitrary: acc) auto

lemma sorted_wrt_filter_map:
  "sorted_wrt P (map f xs) \<Longrightarrow> sorted_wrt P (map f (filter Q xs))"
  by (induction xs) auto

subsection \<open>Binary search\<close>

text \<open>\<open>sort.Search\<close>, on the interval \<open>[i, j)\<close> still open.\<close>

function search_between :: "(nat \<Rightarrow> bool) \<Rightarrow> nat \<Rightarrow> nat \<Rightarrow> nat" where
  "search_between f i j =
     (if i < j then
        (let h = (i + j) div 2 in if \<not> f h then search_between f (h + 1) j else search_between f i h)
      else i)"
  by pat_completeness auto
termination by (relation "measure (\<lambda>(f, i, j). j - i)") auto

declare search_between.simps [simp del]

definition sort_Search :: "nat \<Rightarrow> (nat \<Rightarrow> bool) \<Rightarrow> nat" where
  "sort_Search n f = search_between f 0 n"

lemma search_between_first:
  assumes "i \<le> k" "k \<le> j" "\<forall>h. i \<le> h \<and> h < k \<longrightarrow> \<not> f h" "\<forall>h. k \<le> h \<and> h < j \<longrightarrow> f h"
  shows "search_between f i j = k"
  using assms
proof (induction f i j rule: search_between.induct)
  case (1 f i j)
  show ?case
  proof (cases "i < j")
    case True
    let ?h = "(i + j) div 2"
    have h: "i \<le> ?h" "?h < j" using True by auto
    show ?thesis
    proof (cases "f ?h")
      case fh: True
      then have "k \<le> ?h" using "1.prems" h by (meson not_le)
      with fh True "1.IH"(2) [OF True refl] "1.prems" h show ?thesis
        by (subst search_between.simps) (simp add: Let_def)
    next
      case fh: False
      then have "?h < k" using "1.prems" h by (meson not_le)
      with fh True "1.IH"(1) [OF True refl] "1.prems" h show ?thesis
        by (subst search_between.simps) (simp add: Let_def)
    qed
  qed (use "1.prems" in \<open>simp add: search_between.simps\<close>)
qed

lemma search_between_le: "i \<le> j \<Longrightarrow> search_between f i j \<le> j"
proof (induction f i j rule: search_between.induct)
  case (1 f i j)
  have "(i + j) div 2 \<le> j" "i \<le> (i + j) div 2" using "1.prems" by simp_all
  with 1 show ?case
    by (subst search_between.simps) (auto simp: Let_def intro: order_trans)
qed

lemma search_between_cong:
  "(\<And>h. i \<le> h \<Longrightarrow> h < j \<Longrightarrow> f h = g h) \<Longrightarrow> search_between f i j = search_between g i j"
proof (induction f i j rule: search_between.induct)
  case (1 f i j)
  show ?case
  proof (cases "i < j")
    case True
    let ?h = "(i + j) div 2"
    have h: "i \<le> ?h" "?h < j" "f ?h = g ?h" using True "1.prems" [of ?h] by auto
    have "\<not> f ?h \<Longrightarrow> search_between f (?h + 1) j = search_between g (?h + 1) j"
      using "1.IH"(1) [OF True refl] "1.prems" h by simp
    moreover have "f ?h \<Longrightarrow> search_between f i ?h = search_between g i ?h"
      using "1.IH"(2) [OF True refl] "1.prems" h by simp
    ultimately show ?thesis
      using True h(3) by (subst (1 2) search_between.simps) (simp add: Let_def)
  qed (simp add: search_between.simps)
qed

lemma sort_Search_le: "sort_Search n f \<le> n"
  by (simp add: sort_Search_def search_between_le)

lemma sort_Search_cong: "(\<And>h. h < n \<Longrightarrow> f h = g h) \<Longrightarrow> sort_Search n f = sort_Search n g"
  unfolding sort_Search_def by (rule search_between_cong) simp

lemma sort_Search_takeWhile:
  assumes "\<forall>i j. i < j \<longrightarrow> j < length xs \<longrightarrow> P (xs ! j) \<longrightarrow> P (xs ! i)"
  shows "sort_Search (length xs) (\<lambda>i. \<not> P (xs ! i)) = length (takeWhile P xs)"
  unfolding sort_Search_def
proof (rule search_between_first)
  let ?k = "length (takeWhile P xs)"
  show "?k \<le> length xs" by (rule length_takeWhile_le)
  show "\<forall>h. 0 \<le> h \<and> h < ?k \<longrightarrow> \<not> \<not> P (xs ! h)"
    by (metis nth_mem set_takeWhileD takeWhile_nth)
  show "\<forall>h. ?k \<le> h \<and> h < length xs \<longrightarrow> \<not> P (xs ! h)"
    using assms by (metis le_eq_less_or_eq nth_length_takeWhile order.strict_trans)
qed simp

subsection \<open>Pairs of positions\<close>

text \<open>The pairs \<open>i < j\<close> in the order of two nested loops, and the first of them with a property.\<close>

definition pairs_below :: "nat \<Rightarrow> (nat \<times> nat) list" where
  "pairs_below n = concat (map (\<lambda>i. map (Pair i) [Suc i..<n]) [0..<n])"

lemma set_pairs_below: "set (pairs_below n) = {(i, j). i < j \<and> j < n}"
  by (force simp: pairs_below_def)

definition pair_before :: "nat \<times> nat \<Rightarrow> nat \<times> nat \<Rightarrow> bool" where
  "pair_before p q \<longleftrightarrow> fst p < fst q \<or> fst p = fst q \<and> snd p < snd q"

lemma pairs_below_sorted: "sorted_wrt pair_before (pairs_below n)"
proof -
  have row: "sorted_wrt pair_before (map (Pair i) [a..<b])" for i a b
    by (simp add: sorted_wrt_map pair_before_def sorted_wrt_iff_nth_less)
  have "sorted_wrt pair_before (concat (map (\<lambda>i. map (Pair i) [Suc i..<n]) [a..<b]))" for a b
  proof (induction b)
    case (Suc b)
    have "pair_before x y" if "x \<in> set (concat (map (\<lambda>i. map (Pair i) [Suc i..<n]) [a..<b]))" "y \<in> set (map (Pair b) [Suc b..<n])" for x y
      using that by (auto simp: pair_before_def)
    with Suc show ?case by (auto simp: sorted_wrt_append row)
  qed simp
  then show ?thesis by (simp add: pairs_below_def)
qed

lemma find_first:
  assumes "sorted_wrt R xs" "x \<in> set xs" "P x" "\<And>y. y \<in> set xs \<Longrightarrow> P y \<Longrightarrow> \<not> R y x"
  shows "find P xs = Some x"
  using assms
proof (induction xs)
  case (Cons y ys)
  show ?case
  proof (cases "P y")
    case True
    then have "\<not> R y x" using Cons.prems(4) [of y] by simp
    with Cons.prems(1,2) True show ?thesis by auto
  next
    case False
    with Cons show ?thesis by auto
  qed
qed simp

end
