(* ===== verification/Intervals.thy ===== *)
theory Intervals
  imports Go_Prelude
begin

section \<open>One interval (interval/interval.go)\<close>

text \<open>
  The data type of \<open>interval/interval.go\<close>, every operation on one or two intervals, and
  the doubled line of \<open>interval/sweep.go\<close> (\<open>finePoint\<close>, \<open>fine\<close>,
  \<open>fromFine\<close>), on which the correctness arguments run: a well-formed interval is a
  half-open span \<open>lo \<le> p < hi\<close> of fine points, whatever its bounds. The lemmas relate
  each operation to the span and to the set of reals the interval contains (\<open>points\<close>).
  A \<open>Bound\<close> is one of the two constants of the source; the decoder of the stored form
  accepts no other.
\<close>

subsection \<open>Bounds\<close>

datatype bound = Closed | Open

definition Bound_String :: "bound \<Rightarrow> string" where
  "Bound_String b = (if b = Closed then ''closed'' else ''open'')"

definition Bound_UnmarshalText :: "string \<Rightarrow> string + bound" where
  "Bound_UnmarshalText text =
     (if text = ''closed'' then Inr Closed
      else if text = ''open'' then Inr Open
      else Inl (''invalid bound '' @ text))"

definition invert :: "bound \<Rightarrow> bound" where
  "invert b = (if b = Closed then Open else Closed)"

subsection \<open>Intervals and their validation\<close>

record interval =
  Start :: float64
  End :: float64
  StartBound :: bound
  EndBound :: bound

datatype interval_error = ErrNaN | ErrInfinite | ErrInverted | ErrEmpty

definition Interval_Validate :: "interval \<Rightarrow> interval_error option" where
  "Interval_Validate iv =
     (if IsNaN (Start iv) \<or> IsNaN (End iv) then Some ErrNaN
      else if IsInf (Start iv) \<or> IsInf (End iv) then Some ErrInfinite
      else if f_lt (End iv) (Start iv) then Some ErrInverted
      else if f_eq (Start iv) (End iv) \<and> (StartBound iv = Open \<or> EndBound iv = Open)
        then Some ErrEmpty
      else None)"

definition Interval_Contains :: "interval \<Rightarrow> float64 \<Rightarrow> bool" where
  "Interval_Contains iv x =
     (if f_lt x (Start iv) \<or> f_lt (End iv) x then False
      else if f_eq x (Start iv) \<and> StartBound iv = Open then False
      else if f_eq x (End iv) \<and> EndBound iv = Open then False
      else True)"

definition Interval_empty :: "interval \<Rightarrow> bool" where
  "Interval_empty iv \<longleftrightarrow>
     f_lt (End iv) (Start iv) \<or>
     (f_eq (Start iv) (End iv) \<and> (StartBound iv = Open \<or> EndBound iv = Open))"

text \<open>The standard notation; \<open>fmtv\<close> is the library's \<open>%v\<close> rendering of a float.\<close>

definition Interval_String :: "(float64 \<Rightarrow> string) \<Rightarrow> interval \<Rightarrow> string" where
  "Interval_String fmtv iv =
     (if StartBound iv = Open then ''('' else ''['') @ fmtv (Start iv) @ '','' @
     fmtv (End iv) @ (if EndBound iv = Open then '')'' else '']'')"

subsection \<open>Operations on two intervals\<close>

definition maxStart :: "interval \<Rightarrow> interval \<Rightarrow> float64 \<times> bound" where
  "maxStart a b =
     (if f_lt (Start b) (Start a) then (Start a, StartBound a)
      else if f_lt (Start a) (Start b) then (Start b, StartBound b)
      else if StartBound a = Closed \<or> StartBound b = Closed then (Start a, Closed)
      else (Start a, Open))"

definition minEnd :: "interval \<Rightarrow> interval \<Rightarrow> float64 \<times> bound" where
  "minEnd a b =
     (if f_lt (End a) (End b) then (End a, EndBound a)
      else if f_lt (End b) (End a) then (End b, EndBound b)
      else if EndBound a = Closed \<or> EndBound b = Closed then (End a, Closed)
      else (End a, Open))"

definition Interval_Overlaps :: "interval \<Rightarrow> interval \<Rightarrow> bool" where
  "Interval_Overlaps iv b =
     (let (lo, loB) = maxStart iv b; (hi, hiB) = minEnd iv b
      in if f_lt hi lo then False
         else if f_lt lo hi then True
         else loB = Closed \<and> hiB = Closed)"

definition Interval_Touches :: "interval \<Rightarrow> interval \<Rightarrow> bool" where
  "Interval_Touches iv b =
     (if f_eq (End iv) (Start b) then
        (if EndBound iv = Open \<and> StartBound b = Open then False
         else \<not> Interval_Overlaps iv b)
      else if f_eq (End b) (Start iv) then
        (if EndBound b = Open \<and> StartBound iv = Open then False
         else \<not> Interval_Overlaps iv b)
      else False)"

definition Merge :: "interval \<Rightarrow> interval \<Rightarrow> interval" where
  "Merge a b =
     (let (s, sb) =
        (if f_lt (Start b) (Start a) \<or>
            (f_eq (Start b) (Start a) \<and> StartBound a = Open \<and> StartBound b = Closed)
         then (Start b, StartBound b) else (Start a, StartBound a));
       (e, eb) =
        (if f_lt (End a) (End b) \<or>
            (f_eq (End b) (End a) \<and> EndBound a = Open \<and> EndBound b = Closed)
         then (End b, EndBound b) else (End a, EndBound a))
      in \<lparr>Start = s, End = e, StartBound = sb, EndBound = eb\<rparr>)"

definition leftPart :: "interval \<Rightarrow> interval \<Rightarrow> interval option" where
  "leftPart iv ct =
     (if f_lt (Start iv) (Start ct) then
        Some \<lparr>Start = Start iv, End = Start ct, StartBound = StartBound iv,
          EndBound = invert (StartBound ct)\<rparr>
      else if f_eq (Start iv) (Start ct) \<and> StartBound iv = Closed \<and> StartBound ct = Open then
        Some \<lparr>Start = Start iv, End = Start ct, StartBound = Closed, EndBound = Closed\<rparr>
      else None)"

definition rightPart :: "interval \<Rightarrow> interval \<Rightarrow> interval option" where
  "rightPart iv ct =
     (if f_lt (End ct) (End iv) then
        Some \<lparr>Start = End ct, End = End iv, StartBound = invert (EndBound ct),
          EndBound = EndBound iv\<rparr>
      else if f_eq (End ct) (End iv) \<and> EndBound ct = Open \<and> EndBound iv = Closed then
        Some \<lparr>Start = End ct, End = End iv, StartBound = Closed, EndBound = Closed\<rparr>
      else None)"

definition Subtract :: "interval \<Rightarrow> interval \<Rightarrow> interval list" where
  "Subtract iv ct =
     (if \<not> Interval_Overlaps iv ct \<and> \<not> Interval_Touches iv ct then [iv]
      else (case leftPart iv ct of None \<Rightarrow> [] | Some l \<Rightarrow> [l]) @
           (case rightPart iv ct of None \<Rightarrow> [] | Some r \<Rightarrow> [r]))"

definition Intersection :: "interval \<Rightarrow> interval \<Rightarrow> interval" where
  "Intersection a b =
     (let (s, sb) = maxStart a b; (e, eb) = minEnd a b
      in \<lparr>Start = s, End = e, StartBound = sb, EndBound = eb\<rparr>)"

subsection \<open>The doubled line (interval/sweep.go)\<close>

text \<open>
  Every coordinate occurs twice: as itself and as the point just after it. A struct of the
  source, written as a datatype so that it can be an instance of \<open>linorder\<close>; the order
  is \<open>fineLess\<close> of the source.
\<close>

datatype finePoint = FinePoint (fx: float64) (past: bool)

definition fineLess :: "finePoint \<Rightarrow> finePoint \<Rightarrow> bool" where
  "fineLess a b =
     (if \<not> f_eq (fx a) (fx b) then f_lt (fx a) (fx b) else \<not> past a \<and> past b)"

definition fine :: "interval \<Rightarrow> finePoint \<times> finePoint" where
  "fine iv = (FinePoint (Start iv) (StartBound iv = Open), FinePoint (End iv) (EndBound iv = Closed))"

definition fromFine :: "finePoint \<Rightarrow> finePoint \<Rightarrow> interval" where
  "fromFine lo hi =
     \<lparr>Start = fx lo, End = fx hi,
      StartBound = (if \<not> past lo then Closed else Open),
      EndBound = (if past hi then Closed else Open)\<rparr>"

instantiation finePoint :: linorder
begin

definition less_eq_finePoint :: "finePoint \<Rightarrow> finePoint \<Rightarrow> bool" where
  "less_eq_finePoint p q \<longleftrightarrow> fx p < fx q \<or> (fx p = fx q \<and> (past p \<longrightarrow> past q))"

definition less_finePoint :: "finePoint \<Rightarrow> finePoint \<Rightarrow> bool" where
  "less_finePoint p q \<longleftrightarrow> p \<le> q \<and> \<not> q \<le> p"

instance
proof
  fix x y z :: finePoint
  show "(x < y) = (x \<le> y \<and> \<not> y \<le> x)" by (simp add: less_finePoint_def)
  show "x \<le> x" by (simp add: less_eq_finePoint_def)
  show "x \<le> y \<Longrightarrow> y \<le> z \<Longrightarrow> x \<le> z" by (auto simp: less_eq_finePoint_def)
  show "x \<le> y \<Longrightarrow> y \<le> x \<Longrightarrow> x = y"
    by (cases x; cases y) (auto simp: less_eq_finePoint_def)
  show "x \<le> y \<or> y \<le> x" by (auto simp: less_eq_finePoint_def)
qed

end

lemma finePoint_le [simp]:
  "FinePoint x b \<le> FinePoint y c \<longleftrightarrow> x < y \<or> (x = y \<and> (b \<longrightarrow> c))"
  by (simp add: less_eq_finePoint_def)

lemma finePoint_less [simp]:
  "FinePoint x b < FinePoint y c \<longleftrightarrow> x < y \<or> (x = y \<and> \<not> b \<and> c)"
  by (auto simp: less_finePoint_def)

lemma fineLess_iff_less: "fx p \<noteq> NaN \<Longrightarrow> fx q \<noteq> NaN \<Longrightarrow> fineLess p q \<longleftrightarrow> p < q"
  by (cases p; cases q) (auto simp: fineLess_def f_eq_def f_lt_def)

abbreviation ilo :: "interval \<Rightarrow> finePoint" where
  "ilo iv \<equiv> fst (fine iv)"

abbreviation ihi :: "interval \<Rightarrow> finePoint" where
  "ihi iv \<equiv> snd (fine iv)"

lemma ilo_def: "ilo iv = FinePoint (Start iv) (StartBound iv = Open)"
  by (simp add: fine_def)

lemma ihi_def: "ihi iv = FinePoint (End iv) (EndBound iv = Closed)"
  by (simp add: fine_def)

lemma bound_neq [simp]:
  "b \<noteq> Closed \<longleftrightarrow> b = Open" "b \<noteq> Open \<longleftrightarrow> b = Closed"
  "Closed \<noteq> b \<longleftrightarrow> b = Open" "Open \<noteq> b \<longleftrightarrow> b = Closed"
  by (cases b; simp)+

lemma fine_fromFine [simp]: "fine (fromFine p q) = (p, q)"
  by (cases p; cases q) (simp add: fine_def fromFine_def)

lemma fromFine_fine [simp]: "fromFine (ilo iv) (ihi iv) = iv"
  by (cases iv) (simp add: fine_def fromFine_def)

lemma fine_inject: "ilo a = ilo b \<Longrightarrow> ihi a = ihi b \<Longrightarrow> a = b"
  by (metis fromFine_fine)

subsection \<open>Well-formed intervals as spans\<close>

definition valid_iv :: "interval \<Rightarrow> bool" where
  "valid_iv iv \<longleftrightarrow> Interval_Validate iv = None"

definition fin_point :: "finePoint \<Rightarrow> bool" where
  "fin_point p \<longleftrightarrow> is_fin (fx p)"

definition fspan :: "interval \<Rightarrow> finePoint set" where
  "fspan iv = {ilo iv..<ihi iv}"

definition points :: "interval \<Rightarrow> real set" where
  "points iv = {x. Interval_Contains iv (Fin x)}"

lemma validE:
  assumes "valid_iv iv"
  obtains s e sb eb where "iv = \<lparr>Start = Fin s, End = Fin e, StartBound = sb, EndBound = eb\<rparr>"
    and "s < e \<or> (s = e \<and> sb = Closed \<and> eb = Closed)"
proof -
  have "is_fin (Start iv)" "is_fin (End iv)"
    using assms by (auto simp: valid_iv_def Interval_Validate_def is_fin_def split: if_splits)
  then obtain s e where se: "Start iv = Fin s" "End iv = Fin e"
    by (auto simp: is_fin_iff)
  show ?thesis
    using assms se
    by (intro that [of s e "StartBound iv" "EndBound iv"])
      (auto simp: valid_iv_def Interval_Validate_def split: if_splits)
qed

lemma valid_iff: "valid_iv iv \<longleftrightarrow> fin_point (ilo iv) \<and> fin_point (ihi iv) \<and> ilo iv < ihi iv"
proof
  assume "valid_iv iv"
  then show "fin_point (ilo iv) \<and> fin_point (ihi iv) \<and> ilo iv < ihi iv"
    by (elim validE) (auto simp: fin_point_def fine_def)
next
  assume *: "fin_point (ilo iv) \<and> fin_point (ihi iv) \<and> ilo iv < ihi iv"
  then obtain s e where "Start iv = Fin s" "End iv = Fin e"
    by (auto simp: fin_point_def is_fin_iff fine_def)
  with * show "valid_iv iv"
    by (auto simp: valid_iv_def Interval_Validate_def fine_def)
qed

lemma valid_fine [simp]:
  assumes "valid_iv iv"
  shows "fin_point (ilo iv)" "fin_point (ihi iv)" "ilo iv < ihi iv"
  using assms by (auto simp: valid_iff)

lemma valid_fromFine [simp]: "valid_iv (fromFine p q) \<longleftrightarrow> fin_point p \<and> fin_point q \<and> p < q"
  by (simp add: valid_iff)

lemma mem_points_iff: "valid_iv iv \<Longrightarrow> x \<in> points iv \<longleftrightarrow> FinePoint (Fin x) False \<in> fspan iv"
  by (elim validE) (auto simp: points_def fspan_def fine_def Interval_Contains_def)

lemma valid_points_nonempty: "valid_iv iv \<Longrightarrow> \<exists>x. x \<in> points iv"
proof (elim validE)
  fix s e sb eb
  assume iv: "iv = \<lparr>Start = Fin s, End = Fin e, StartBound = sb, EndBound = eb\<rparr>"
    and "s < e \<or> s = e \<and> sb = Closed \<and> eb = Closed"
  then show "\<exists>x. x \<in> points iv"
    by (intro exI [of _ "(s + e) / 2"]) (auto simp: points_def Interval_Contains_def)
qed

lemma empty_iff_points:
  assumes "is_fin (Start iv)" and "is_fin (End iv)"
  shows "Interval_empty iv \<longleftrightarrow> points iv = {}"
proof
  show "Interval_empty iv \<Longrightarrow> points iv = {}"
    using assms by (auto simp: is_fin_iff Interval_empty_def points_def Interval_Contains_def)
  assume "points iv = {}"
  then have "\<not> valid_iv iv" using valid_points_nonempty by auto
  then show "Interval_empty iv"
    using assms by (auto simp: is_fin_iff Interval_empty_def valid_iv_def Interval_Validate_def
        split: if_splits)
qed

lemma valid_not_empty: "valid_iv iv \<Longrightarrow> \<not> Interval_empty iv"
  by (elim validE) (auto simp: Interval_empty_def)

subsection \<open>The two-interval operations on spans\<close>

text \<open>
  Overlapping or touching is exactly contiguity of the spans. \<open>Overlaps\<close> alone is not
  exactly "share a point": see the theorems on it in the root theory.
\<close>

lemma overlaps_or_touches_iff:
  assumes "valid_iv a" and "valid_iv b"
  shows "Interval_Overlaps a b \<or> Interval_Touches a b \<longleftrightarrow> ilo a \<le> ihi b \<and> ilo b \<le> ihi a"
proof -
  from assms obtain s e sb eb where a: "a = \<lparr>Start = Fin s, End = Fin e, StartBound = sb, EndBound = eb\<rparr>"
    and se: "s < e \<or> s = e \<and> sb = Closed \<and> eb = Closed" by (elim validE)
  from assms obtain t f tb fb where b: "b = \<lparr>Start = Fin t, End = Fin f, StartBound = tb, EndBound = fb\<rparr>"
    and tf: "t < f \<or> t = f \<and> tb = Closed \<and> fb = Closed" by (elim validE)
  have "Interval_Touches a b \<longleftrightarrow>
      (e = t \<and> (eb = Closed \<or> tb = Closed) \<or> e \<noteq> t \<and> f = s \<and> (fb = Closed \<or> sb = Closed))
      \<and> \<not> Interval_Overlaps a b"
    by (auto simp: a b Interval_Touches_def)
  then have "Interval_Overlaps a b \<or> Interval_Touches a b \<longleftrightarrow> Interval_Overlaps a b \<or>
      e = t \<and> (eb = Closed \<or> tb = Closed) \<or> e \<noteq> t \<and> f = s \<and> (fb = Closed \<or> sb = Closed)"
    by blast
  also have "\<dots> \<longleftrightarrow> ilo a \<le> ihi b \<and> ilo b \<le> ihi a"
    using se tf
    by (cases sb; cases eb; cases tb; cases fb)
      (auto simp: a b Interval_Overlaps_def maxStart_def minEnd_def fine_def)
  finally show ?thesis .
qed

lemma ilo_Merge: "valid_iv a \<Longrightarrow> valid_iv b \<Longrightarrow> ilo (Merge a b) = min (ilo a) (ilo b)"
  by (elim validE) (auto simp: Merge_def fine_def min_def split: if_splits)

lemma ihi_Merge: "valid_iv a \<Longrightarrow> valid_iv b \<Longrightarrow> ihi (Merge a b) = max (ihi a) (ihi b)"
  by (elim validE) (auto simp: Merge_def fine_def max_def split: if_splits)

lemma valid_Merge:
  assumes "valid_iv a" and "valid_iv b"
  shows "valid_iv (Merge a b)"
proof -
  have "min (ilo a) (ilo b) < max (ihi a) (ihi b)"
    using valid_fine(3) [OF assms(1)] by (simp add: min_less_iff_disj less_max_iff_disj)
  moreover have "fin_point (min (ilo a) (ilo b))" "fin_point (max (ihi a) (ihi b))"
    using assms by (simp_all add: min_def max_def)
  ultimately show ?thesis
    by (simp add: valid_iff [of "Merge a b"] ilo_Merge ihi_Merge assms)
qed

lemma fspan_Merge:
  assumes "valid_iv a" and "valid_iv b" and "ilo a \<le> ihi b" and "ilo b \<le> ihi a"
  shows "fspan (Merge a b) = fspan a \<union> fspan b"
  using assms unfolding fspan_def ilo_Merge [OF assms(1,2)] ihi_Merge [OF assms(1,2)]
  by (auto simp: min_def max_def split: if_splits)

lemma leftPart_span:
  assumes "valid_iv iv" and "valid_iv ct"
  shows "leftPart iv ct =
    (if ilo iv < ilo ct then Some (fromFine (ilo iv) (ilo ct)) else None)"
  using assms by (elim validE) (auto simp: leftPart_def fine_def fromFine_def invert_def)

lemma rightPart_span:
  assumes "valid_iv iv" and "valid_iv ct"
  shows "rightPart iv ct =
    (if ihi ct < ihi iv then Some (fromFine (ihi ct) (ihi iv)) else None)"
  using assms by (elim validE) (auto simp: rightPart_def fine_def fromFine_def invert_def)

lemma Subtract_pieces:
  assumes "valid_iv iv" and "valid_iv ct"
  shows "\<forall>p\<in>set (Subtract iv ct). valid_iv p"
    and "(\<Union>p\<in>set (Subtract iv ct). fspan p) = fspan iv - fspan ct"
    and "sorted_wrt (\<lambda>a b. ihi a < ilo b) (Subtract iv ct)"
proof -
  note j = overlaps_or_touches_iff [OF assms]
  have parts: "Subtract iv ct = [iv]" if "\<not> (ilo iv \<le> ihi ct \<and> ilo ct \<le> ihi iv)"
    using that j by (auto simp: Subtract_def)
  have pieces: "Subtract iv ct =
      (if ilo iv < ilo ct then [fromFine (ilo iv) (ilo ct)] else []) @
      (if ihi ct < ihi iv then [fromFine (ihi ct) (ihi iv)] else [])"
    if "ilo iv \<le> ihi ct \<and> ilo ct \<le> ihi iv"
    using that j by (auto simp: Subtract_def leftPart_span [OF assms] rightPart_span [OF assms])
  show "\<forall>p\<in>set (Subtract iv ct). valid_iv p"
    using assms by (cases "ilo iv \<le> ihi ct \<and> ilo ct \<le> ihi iv") (auto simp: parts pieces)
  have lt: "ilo iv < ihi iv" "ilo ct < ihi ct" using assms by auto
  show "(\<Union>p\<in>set (Subtract iv ct). fspan p) = fspan iv - fspan ct"
  proof (cases "ilo iv \<le> ihi ct \<and> ilo ct \<le> ihi iv")
    case True
    with lt show ?thesis by (auto simp: pieces [OF True] fspan_def)
  next
    case False
    with lt show ?thesis by (auto simp: parts [OF False] fspan_def)
  qed
  show "sorted_wrt (\<lambda>a b. ihi a < ilo b) (Subtract iv ct)"
    using lt by (cases "ilo iv \<le> ihi ct \<and> ilo ct \<le> ihi iv") (auto simp: parts pieces)
qed

lemma points_Un_fspan:
  assumes "\<forall>p\<in>set ps. valid_iv p"
  shows "(\<Union>p\<in>set ps. points p) = {x. FinePoint (Fin x) False \<in> (\<Union>p\<in>set ps. fspan p)}"
  using assms mem_points_iff by auto

end
