(* ===== verification/Interval_Sets.thy ===== *)
theory Interval_Sets
  imports Intervals
begin

section \<open>Canonical interval sets (interval/set.go)\<close>

text \<open>
  The set operations of \<open>interval/set.go\<close> that need no sweep: \<open>Less\<close>,
  \<open>Normalize\<close>, \<open>Union\<close>, \<open>Contains\<close>, \<open>Overlaps\<close>, \<open>Equal\<close>
  (\<open>Difference\<close> is in the theory of the sweep it calls). A set is canonical when its
  intervals are well-formed and separated in order; the main facts are that
  \<open>Normalize\<close> yields the canonical form of the points it was given and that the canonical
  form of a point set is unique.
\<close>

definition Less :: "interval \<Rightarrow> interval \<Rightarrow> bool" where
  "Less a b =
     (if \<not> f_eq (Start a) (Start b) then f_lt (Start a) (Start b)
      else if StartBound a \<noteq> StartBound b then StartBound a = Closed
      else if \<not> f_eq (End a) (End b) then f_lt (End a) (End b)
      else if EndBound a \<noteq> EndBound b then EndBound a = Closed
      else False)"

text \<open>One iteration of the merge loop: the accumulated slice and the next interval.\<close>

definition Normalize_step :: "interval \<Rightarrow> interval list \<Rightarrow> interval list" where
  "Normalize_step iv out =
     (if Interval_empty iv then out
      else if out \<noteq> [] \<and> (Interval_Overlaps (last out) iv \<or> Interval_Touches (last out) iv)
        then butlast out @ [Merge (last out) iv]
      else out @ [iv])"

definition Normalize :: "interval list \<Rightarrow> interval list" where
  "Normalize ivs = (if ivs = [] then [] else fold Normalize_step (sort_slice Less ivs) [])"

definition interval_Union :: "interval list \<Rightarrow> interval list \<Rightarrow> interval list" where
  "interval_Union a b = Normalize (a @ b)"

definition set_Contains :: "interval list \<Rightarrow> float64 \<Rightarrow> bool" where
  "set_Contains ivs x = list_ex (\<lambda>iv. Interval_Contains iv x) ivs"

definition set_Overlaps :: "interval list \<Rightarrow> interval \<Rightarrow> bool" where
  "set_Overlaps ivs iv = list_ex (\<lambda>x. Interval_Overlaps x iv) ivs"

text \<open>Go's \<open>==\<close> on the interval struct.\<close>

definition interval_eq :: "interval \<Rightarrow> interval \<Rightarrow> bool" where
  "interval_eq a b \<longleftrightarrow> f_eq (Start a) (Start b) \<and> f_eq (End a) (End b) \<and>
     StartBound a = StartBound b \<and> EndBound a = EndBound b"

definition interval_Equal :: "interval list \<Rightarrow> interval list \<Rightarrow> bool" where
  "interval_Equal a b \<longleftrightarrow> length a = length b \<and> list_all2 interval_eq a b"

subsection \<open>The order\<close>

text \<open>On well-formed intervals \<open>Less\<close> compares two keys lexicographically.\<close>

definition end_key :: "interval \<Rightarrow> finePoint" where
  "end_key iv = FinePoint (End iv) (EndBound iv = Open)"

lemma Less_iff:
  "valid_iv a \<Longrightarrow> valid_iv b \<Longrightarrow>
     Less a b \<longleftrightarrow> ilo a < ilo b \<or> (ilo a = ilo b \<and> end_key a < end_key b)"
  by (elim validE) (auto simp: Less_def fine_def end_key_def split: if_splits)

lemma Less_start: "valid_iv a \<Longrightarrow> valid_iv b \<Longrightarrow> \<not> Less b a \<Longrightarrow> ilo a \<le> ilo b"
  by (auto simp: Less_iff)

lemma Less_total: "valid_iv x \<Longrightarrow> valid_iv y \<Longrightarrow> \<not> Less x y \<Longrightarrow> \<not> Less y x \<Longrightarrow> x = y"
proof -
  assume "valid_iv x" "valid_iv y" "\<not> Less x y" "\<not> Less y x"
  then have "ilo x = ilo y" and "end_key x = end_key y"
    by (metis Less_iff linorder_less_linear)+
  then show "x = y"
    by (cases x; cases y) (auto simp: fine_def end_key_def; metis bound.exhaust)
qed

interpretation iv_order: weak_less Less valid_iv
  by unfold_locales (auto simp: Less_iff)

subsection \<open>Canonical sets\<close>

definition separated :: "interval list \<Rightarrow> bool" where
  "separated ivs \<longleftrightarrow> sorted_wrt (\<lambda>a b. ihi a < ilo b) ivs"

definition canonical :: "interval list \<Rightarrow> bool" where
  "canonical ivs \<longleftrightarrow> (\<forall>iv\<in>set ivs. valid_iv iv) \<and> separated ivs"

definition set_span :: "interval list \<Rightarrow> finePoint set" where
  "set_span ivs = (\<Union>iv\<in>set ivs. fspan iv)"

definition set_points :: "interval list \<Rightarrow> real set" where
  "set_points ivs = (\<Union>iv\<in>set ivs. points iv)"

lemma set_span_simps [simp]:
  "set_span [] = {}" "set_span (a # as) = fspan a \<union> set_span as"
  "set_span (xs @ ys) = set_span xs \<union> set_span ys"
  by (auto simp: set_span_def)

lemma canonical_Nil [simp]: "canonical []"
  by (simp add: canonical_def separated_def)

lemma canonical_append1:
  "canonical (xs @ [x]) \<longleftrightarrow> canonical xs \<and> valid_iv x \<and> (\<forall>y\<in>set xs. ihi y < ilo x)"
  by (auto simp: canonical_def separated_def sorted_wrt_append)

lemma set_Contains_iff: "set_Contains ivs (Fin x) \<longleftrightarrow> x \<in> set_points ivs"
  by (auto simp: set_Contains_def set_points_def points_def list_ex_iff)

lemma mem_set_points_iff:
  "\<forall>iv\<in>set ivs. valid_iv iv \<Longrightarrow> x \<in> set_points ivs \<longleftrightarrow> FinePoint (Fin x) False \<in> set_span ivs"
  using mem_points_iff by (auto simp: set_points_def set_span_def)

lemma set_points_cong:
  "\<forall>iv\<in>set a \<union> set b. valid_iv iv \<Longrightarrow> set_span a = set_span b \<Longrightarrow> set_points a = set_points b"
  by (auto simp: mem_set_points_iff)

text \<open>In any linear order a set is the union of at most one list of separated spans.\<close>

lemma spans_unique:
  fixes xs ys :: "('p :: linorder \<times> 'p) list"
  assumes "\<forall>(l, h)\<in>set xs. l < h" and "\<forall>(l, h)\<in>set ys. l < h"
    and "sorted_wrt (\<lambda>a b. snd a < fst b) xs" and "sorted_wrt (\<lambda>a b. snd a < fst b) ys"
    and "(\<Union>(l, h)\<in>set xs. {l..<h}) = (\<Union>(l, h)\<in>set ys. {l..<h})"
  shows "xs = ys"
  using assms
proof (induction xs arbitrary: ys)
  case Nil
  then show ?case by (cases ys) fastforce+
next
  case (Cons x xs)
  obtain l h where x: "x = (l, h)" by force
  have lh: "l < h" using Cons.prems(1) x by auto
  obtain y ys' where ys: "ys = y # ys'"
    using Cons.prems(5) x lh by (cases ys) auto
  obtain l' h' where y: "y = (l', h')" by force
  have lh': "l' < h'" using Cons.prems(2) ys y by auto
  let ?U = "\<lambda>zs :: ('p \<times> 'p) list. \<Union>(l, h)\<in>set zs. {l..<h}"
  have eq: "{l..<h} \<union> ?U xs = {l'..<h'} \<union> ?U ys'"
    using Cons.prems(5) x ys y by simp
  have after: "h < p" if "p \<in> ?U xs" for p
    using that Cons.prems(3) x by fastforce
  have after': "h' < p" if "p \<in> ?U ys'" for p
    using that Cons.prems(4) ys y by fastforce
  have "l \<in> {l..<h} \<union> ?U xs" and "l' \<in> {l'..<h'} \<union> ?U ys'"
    using lh lh' by simp_all
  then have "l \<in> {l'..<h'} \<union> ?U ys'" and "l' \<in> {l..<h} \<union> ?U xs"
    by (simp_all only: eq)
  then have "l' \<le> l" and "l \<le> l'"
    using after [of l'] after' [of l] lh lh' by fastforce+
  then have ll: "l = l'" by simp
  have "h \<notin> {l..<h} \<union> ?U xs" and "h' \<notin> {l'..<h'} \<union> ?U ys'"
    using after [of h] after' [of h'] by (meson UnE atLeastLessThan_iff less_irrefl)+
  then have "\<not> h < h'" and "\<not> h' < h"
    using eq ll lh lh' by auto
  then have hh: "h = h'" by simp
  have "?U xs = ?U ys'"
  proof -
    have "{l..<h} \<inter> ?U xs = {}" and "{l'..<h'} \<inter> ?U ys' = {}"
      using after after' by (meson atLeastLessThan_iff disjoint_iff less_asym)+
    with eq ll hh show ?thesis by blast
  qed
  then have "xs = ys'"
    using Cons.prems ys by (intro Cons.IH) auto
  then show ?case using x y ys ll hh by simp
qed

lemma canonical_span_unique:
  assumes "canonical a" and "canonical b" and "set_span a = set_span b"
  shows "a = b"
proof -
  have "map fine a = map fine b"
  proof (rule spans_unique)
    show "\<forall>(l, h)\<in>set (map fine a). l < h"
      using assms(1) by (auto simp: canonical_def case_prod_beta)
    show "\<forall>(l, h)\<in>set (map fine b). l < h"
      using assms(2) by (auto simp: canonical_def case_prod_beta)
    show "sorted_wrt (\<lambda>a b. snd a < fst b) (map fine a)"
      "sorted_wrt (\<lambda>a b. snd a < fst b) (map fine b)"
      using assms(1,2) by (simp_all add: canonical_def separated_def sorted_wrt_map)
    show "(\<Union>(l, h)\<in>set (map fine a). {l..<h}) = (\<Union>(l, h)\<in>set (map fine b). {l..<h})"
      using assms(3) by (simp add: set_span_def fspan_def case_prod_beta)
  qed
  then show ?thesis
    by (metis (no_types, lifting) fine_inject list.inj_map_strong)
qed

subsection \<open>Normalize\<close>

lemma Normalize_step_keeps:
  assumes "canonical out" and "valid_iv iv" and "\<forall>x\<in>set out. ilo x \<le> ilo iv"
  shows "canonical (Normalize_step iv out)"
    and "set_span (Normalize_step iv out) = set_span out \<union> fspan iv"
    and "\<forall>x\<in>set (Normalize_step iv out). ilo x \<le> ilo iv"
proof -
  have ne: "\<not> Interval_empty iv" using assms(2) by (rule valid_not_empty)
  have "canonical (Normalize_step iv out) \<and>
    set_span (Normalize_step iv out) = set_span out \<union> fspan iv \<and>
    (\<forall>x\<in>set (Normalize_step iv out). ilo x \<le> ilo iv)"
  proof (cases out rule: rev_cases)
    case Nil
    then show ?thesis using ne assms(2)
      by (simp add: Normalize_step_def canonical_def separated_def)
  next
    case (snoc init l)
    have l: "valid_iv l" "ilo l \<le> ilo iv" and init: "canonical init" "\<forall>y\<in>set init. ihi y < ilo l"
      using assms(1,3) by (auto simp: snoc canonical_append1)
    note lt = valid_fine(3) [OF assms(2)] valid_fine(3) [OF l(1)]
    note j = overlaps_or_touches_iff [OF l(1) assms(2)]
    show ?thesis
    proof (cases "ilo iv \<le> ihi l")
      case True
      then have join: "ilo l \<le> ihi iv" using l(2) lt by simp
      have step: "Normalize_step iv out = init @ [Merge l iv]"
        using True join j ne by (simp add: Normalize_step_def snoc)
      have "ilo (Merge l iv) = ilo l"
        using l assms(2) by (simp add: ilo_Merge min_def)
      then show ?thesis
        using step init l assms True join
        by (simp add: canonical_append1 valid_Merge fspan_Merge snoc Un_assoc)
    next
      case False
      then have "Normalize_step iv out = out @ [iv]"
        using j ne by (simp add: Normalize_step_def snoc)
      moreover have "ihi y < ilo iv" if "y \<in> set out" for y
        using that False init(2) lt by (auto simp: snoc)
      ultimately show ?thesis
        using assms by (simp add: canonical_append1)
    qed
  qed
  then show "canonical (Normalize_step iv out)"
    "set_span (Normalize_step iv out) = set_span out \<union> fspan iv"
    "\<forall>x\<in>set (Normalize_step iv out). ilo x \<le> ilo iv" by blast+
qed

lemma Normalize_fold:
  assumes "\<forall>iv\<in>set ivs. valid_iv iv" and "iv_order.in_order ivs" and "canonical out"
    and "\<forall>x\<in>set out. \<forall>y\<in>set ivs. ilo x \<le> ilo y"
  shows "canonical (fold Normalize_step ivs out) \<and>
    set_span (fold Normalize_step ivs out) = set_span out \<union> set_span ivs"
  using assms
proof (induction ivs arbitrary: out)
  case Nil
  then show ?case by simp
next
  case (Cons iv ivs)
  note step = Normalize_step_keeps [OF Cons.prems(3), of iv]
  have iv: "valid_iv iv" "\<forall>x\<in>set out. ilo x \<le> ilo iv" using Cons.prems by auto
  have "ilo iv \<le> ilo y" if "y \<in> set ivs" for y
    using that Cons.prems(1,2) by (auto intro: Less_start)
  then have "\<forall>x\<in>set (Normalize_step iv out). \<forall>y\<in>set ivs. ilo x \<le> ilo y"
    using step(3) [OF iv] by fastforce
  then have "canonical (fold Normalize_step ivs (Normalize_step iv out)) \<and>
    set_span (fold Normalize_step ivs (Normalize_step iv out)) =
      set_span (Normalize_step iv out) \<union> set_span ivs"
    using Cons.prems step(1) [OF iv] by (intro Cons.IH) auto
  then show ?case using step(2) [OF iv] by (simp add: Un_assoc)
qed

lemma set_span_cong_set: "set xs = set ys \<Longrightarrow> set_span xs = set_span ys"
  by (simp add: set_span_def)

lemma Normalize_spec:
  assumes "\<forall>iv\<in>set ivs. valid_iv iv"
  shows "canonical (Normalize ivs)" and "set_span (Normalize ivs) = set_span ivs"
proof -
  have "iv_order.in_order (sort_slice Less ivs)"
    using assms by (rule iv_order.in_order_sort_slice)
  then have "canonical (fold Normalize_step (sort_slice Less ivs) []) \<and>
      set_span (fold Normalize_step (sort_slice Less ivs) []) = set_span [] \<union> set_span (sort_slice Less ivs)"
    using assms by (intro Normalize_fold) auto
  then show "canonical (Normalize ivs)" "set_span (Normalize ivs) = set_span ivs"
    by (auto simp: Normalize_def set_span_cong_set [OF set_sort_slice])
qed

lemma valid_Normalize: "\<forall>iv\<in>set ivs. valid_iv iv \<Longrightarrow> x \<in> set (Normalize ivs) \<Longrightarrow> valid_iv x"
  using Normalize_spec(1) by (auto simp: canonical_def)

lemma Normalize_points:
  assumes "\<forall>iv\<in>set ivs. valid_iv iv"
  shows "set_points (Normalize ivs) = set_points ivs"
  using assms Normalize_spec [OF assms] by (intro set_points_cong) (auto simp: canonical_def)

lemma Normalize_canonical: "canonical ivs \<Longrightarrow> Normalize ivs = ivs"
  using Normalize_spec [of ivs] by (intro canonical_span_unique) (simp_all add: canonical_def)

subsection \<open>Real points determine the fine points\<close>

lemma gap_right_of:
  assumes "\<forall>iv\<in>set ivs. valid_iv iv" and "FinePoint (Fin x) True \<notin> set_span ivs"
  shows "\<exists>e>0. \<forall>y. x < y \<longrightarrow> y < x + e \<longrightarrow> y \<notin> set_points ivs"
  using assms
proof (induction ivs)
  case Nil
  then show ?case by (intro exI [of _ 1]) (simp add: set_points_def)
next
  case (Cons iv ivs)
  then obtain e where e: "e > 0" "\<forall>y. x < y \<longrightarrow> y < x + e \<longrightarrow> y \<notin> set_points ivs" by auto
  have "\<exists>d>0. \<forall>y. x < y \<longrightarrow> y < x + d \<longrightarrow> y \<notin> points iv"
  proof -
    obtain s t sb tb where iv: "iv = \<lparr>Start = Fin s, End = Fin t, StartBound = sb, EndBound = tb\<rparr>"
      using Cons.prems(1) by (auto elim: validE)
    have "FinePoint (Fin x) True \<notin> fspan iv" using Cons.prems(2) by simp
    then have "x < s \<or> t \<le> x"
      by (auto simp: iv fspan_def fine_def)
    then show ?thesis
      by (intro exI [of _ "if x < s then s - x else 1"])
        (auto simp: iv points_def Interval_Contains_def)
  qed
  then obtain d where "d > 0" "\<forall>y. x < y \<longrightarrow> y < x + d \<longrightarrow> y \<notin> points iv" by blast
  with e show ?case
    by (intro exI [of _ "min d e"]) (auto simp: set_points_def)
qed

lemma near_right_of:
  assumes "valid_iv iv" and "FinePoint (Fin x) True \<in> fspan iv"
  shows "\<exists>e>0. \<forall>y. x < y \<longrightarrow> y < x + e \<longrightarrow> y \<in> points iv"
proof -
  obtain s t sb tb where iv: "iv = \<lparr>Start = Fin s, End = Fin t, StartBound = sb, EndBound = tb\<rparr>"
    using assms(1) by (auto elim: validE)
  then have "s \<le> x \<and> x < t" using assms(2) by (auto simp: fspan_def fine_def)
  then show ?thesis
    by (intro exI [of _ "t - x"]) (auto simp: iv points_def Interval_Contains_def)
qed

lemma fspan_finite_coord: "valid_iv iv \<Longrightarrow> p \<in> fspan iv \<Longrightarrow> is_fin (fx p)"
  by (cases p; cases "fx p"; elim validE)
    (auto simp: fspan_def fine_def less_float64_def)

lemma set_span_subset_of_points:
  assumes "\<forall>iv\<in>set a. valid_iv iv" and "\<forall>iv\<in>set b. valid_iv iv" and "set_points a \<subseteq> set_points b"
  shows "set_span a \<subseteq> set_span b"
proof
  fix p assume p: "p \<in> set_span a"
  then obtain iv where iv: "iv \<in> set a" "p \<in> fspan iv" by (auto simp: set_span_def)
  then have "is_fin (fx p)" using assms(1) fspan_finite_coord by blast
  then obtain x c where px: "p = FinePoint (Fin x) c"
    by (cases p) (auto elim: is_finE)
  show "p \<in> set_span b"
  proof (cases c)
    case False
    then have "x \<in> set_points a" using p px assms(1) by (simp add: mem_set_points_iff)
    then have "x \<in> set_points b" using assms(3) by auto
    then show ?thesis using px False assms(2) by (simp add: mem_set_points_iff)
  next
    case True
    obtain e where e: "e > 0" "\<forall>y. x < y \<longrightarrow> y < x + e \<longrightarrow> y \<in> points iv"
      using near_right_of [of iv x] iv px True assms(1) by auto
    show ?thesis
    proof (rule ccontr)
      assume "p \<notin> set_span b"
      then obtain d where d: "d > 0" "\<forall>y. x < y \<longrightarrow> y < x + d \<longrightarrow> y \<notin> set_points b"
        using gap_right_of [OF assms(2), of x] px True by auto
      let ?y = "x + min d e / 2"
      have "?y \<in> points iv" and "?y \<notin> set_points b"
        using d e by auto
      then show False using iv assms(3) by (auto simp: set_points_def)
    qed
  qed
qed

lemma canonical_points_unique:
  assumes "canonical a" and "canonical b" and "set_points a = set_points b"
  shows "a = b"
  using assms by (intro canonical_span_unique equalityI set_span_subset_of_points)
    (auto simp: canonical_def)

lemma interval_eq_iff: "valid_iv a \<Longrightarrow> interval_eq a b \<longleftrightarrow> a = b"
  by (cases a; cases b; elim validE) (auto simp: interval_eq_def f_eq_def)

lemma interval_Equal_iff: "\<forall>iv\<in>set a. valid_iv iv \<Longrightarrow> interval_Equal a b \<longleftrightarrow> a = b"
proof (induction a arbitrary: b)
  case Nil
  then show ?case by (auto simp: interval_Equal_def)
next
  case (Cons x a)
  then show ?case
    by (cases b) (auto simp: interval_Equal_def interval_eq_iff)
qed

end
