(* ===== verification/Go_Heap.thy ===== *)
theory Go_Heap
  imports Go_Prelude
begin

section \<open>The library heap (container/heap)\<close>

text \<open>
  The sweep and the indexed merge keep their candidates in Go's \<open>container/heap\<close>. This
  theory transcribes its \<open>up\<close>, \<open>down\<close>, \<open>Push\<close> and \<open>Pop\<close> over a slice and a
  comparison, and proves, for every comparison that meets the contract of
  \<open>weak_less\<close>, that they keep the heap property and the multiset of items, so that the
  item at index 0 is never outranked.
\<close>

subsection \<open>Operations\<close>

definition swap :: "'a list \<Rightarrow> nat \<Rightarrow> nat \<Rightarrow> 'a list" where
  "swap xs i j = xs[i := xs ! j, j := xs ! i]"

function heap_up :: "('a \<Rightarrow> 'a \<Rightarrow> bool) \<Rightarrow> 'a list \<Rightarrow> nat \<Rightarrow> 'a list" where
  "heap_up lt xs j =
     (let i = (j - 1) div 2
      in if i = j \<or> \<not> lt (xs ! j) (xs ! i) then xs else heap_up lt (swap xs i j) i)"
  by pat_completeness auto
termination
  by (relation "measure (\<lambda>(lt, xs, j). j)") auto

function heap_down :: "('a \<Rightarrow> 'a \<Rightarrow> bool) \<Rightarrow> 'a list \<Rightarrow> nat \<Rightarrow> nat \<Rightarrow> 'a list" where
  "heap_down lt xs i n =
     (let j1 = 2 * i + 1
      in if n \<le> j1 then xs
         else let j = (if j1 + 1 < n \<and> lt (xs ! (j1 + 1)) (xs ! j1) then j1 + 1 else j1)
              in if \<not> lt (xs ! j) (xs ! i) then xs else heap_down lt (swap xs i j) j n)"
  by pat_completeness auto
termination
  by (relation "measure (\<lambda>(lt, xs, i, n). n - i)") (auto split: if_splits)

declare heap_up.simps [simp del] heap_down.simps [simp del]

definition heap_Push :: "('a \<Rightarrow> 'a \<Rightarrow> bool) \<Rightarrow> 'a \<Rightarrow> 'a list \<Rightarrow> 'a list" where
  "heap_Push lt x xs = heap_up lt (xs @ [x]) (length xs)"

text \<open>\<open>Pop\<close> on a non-empty heap: the popped item and the remaining items.\<close>

definition heap_Pop :: "('a \<Rightarrow> 'a \<Rightarrow> bool) \<Rightarrow> 'a list \<Rightarrow> 'a \<times> 'a list" where
  "heap_Pop lt xs =
     (let n = length xs - 1; ys = heap_down lt (swap xs 0 n) 0 n
      in (last ys, butlast ys))"

subsection \<open>Items are kept\<close>

lemma length_swap [simp]: "length (swap xs i j) = length xs"
  by (simp add: swap_def)

lemma swap_nth:
  "i < length xs \<Longrightarrow> j < length xs \<Longrightarrow> k < length xs \<Longrightarrow>
     swap xs i j ! k = (if k = j then xs ! i else if k = i then xs ! j else xs ! k)"
  by (auto simp: swap_def nth_list_update)

lemma mset_swap [simp]: "i < length xs \<Longrightarrow> j < length xs \<Longrightarrow> mset (swap xs i j) = mset xs"
  by (simp add: swap_def mset_swap)

lemma mset_heap_up: "j < length xs \<Longrightarrow> mset (heap_up lt xs j) = mset xs"
proof (induction lt xs j rule: heap_up.induct)
  case (1 lt xs j)
  then show ?case
    by (subst heap_up.simps) (auto simp: Let_def)
qed

lemma mset_heap_down: "i < length xs \<Longrightarrow> n \<le> length xs \<Longrightarrow> mset (heap_down lt xs i n) = mset xs"
proof (induction lt xs i n rule: heap_down.induct)
  case (1 lt xs i n)
  then show ?case
    by (subst heap_down.simps) (auto simp: Let_def)
qed

lemma length_heap_down: "length (heap_down lt xs i n) = length xs"
proof (induction lt xs i n rule: heap_down.induct)
  case (1 lt xs i n)
  then show ?case
    by (subst heap_down.simps) (auto simp: Let_def)
qed

lemma heap_down_beyond: "i < n \<Longrightarrow> n \<le> k \<Longrightarrow> k < length xs \<Longrightarrow> heap_down lt xs i n ! k = xs ! k"
proof (induction lt xs i n rule: heap_down.induct)
  case (1 lt xs i n)
  then show ?case
    by (subst heap_down.simps) (auto simp: Let_def swap_nth)
qed

lemma mset_heap_Push: "mset (heap_Push lt x xs) = add_mset x (mset xs)"
  by (simp add: heap_Push_def mset_heap_up)

lemma set_heap_Push: "set (heap_Push lt x xs) = insert x (set xs)"
  using mset_heap_Push [of lt x xs] by (metis set_mset_add_mset_insert set_mset_mset)

subsection \<open>The heap property\<close>

definition is_heap :: "('a \<Rightarrow> 'a \<Rightarrow> bool) \<Rightarrow> 'a list \<Rightarrow> nat \<Rightarrow> bool" where
  "is_heap lt xs n \<longleftrightarrow> (\<forall>k. 0 < k \<longrightarrow> k < n \<longrightarrow> \<not> lt (xs ! k) (xs ! ((k - 1) div 2)))"

text \<open>All edges but the one above \<open>j\<close>; the items below \<open>j\<close> are not before its parent.\<close>

definition heap_except_up :: "('a \<Rightarrow> 'a \<Rightarrow> bool) \<Rightarrow> 'a list \<Rightarrow> nat \<Rightarrow> nat \<Rightarrow> bool" where
  "heap_except_up lt xs n j \<longleftrightarrow>
     (\<forall>k. 0 < k \<longrightarrow> k < n \<longrightarrow> k \<noteq> j \<longrightarrow> \<not> lt (xs ! k) (xs ! ((k - 1) div 2))) \<and>
     (\<forall>k. 0 < k \<longrightarrow> k < n \<longrightarrow> (k - 1) div 2 = j \<longrightarrow> 0 < j \<longrightarrow> \<not> lt (xs ! k) (xs ! ((j - 1) div 2)))"

text \<open>All edges but the ones below \<open>i\<close>; the items below \<open>i\<close> are not before its parent.\<close>

definition heap_except_down :: "('a \<Rightarrow> 'a \<Rightarrow> bool) \<Rightarrow> 'a list \<Rightarrow> nat \<Rightarrow> nat \<Rightarrow> bool" where
  "heap_except_down lt xs n i \<longleftrightarrow>
     (\<forall>k. 0 < k \<longrightarrow> k < n \<longrightarrow> (k - 1) div 2 \<noteq> i \<longrightarrow> \<not> lt (xs ! k) (xs ! ((k - 1) div 2))) \<and>
     (\<forall>k. 0 < k \<longrightarrow> k < n \<longrightarrow> (k - 1) div 2 = i \<longrightarrow> 0 < i \<longrightarrow> \<not> lt (xs ! k) (xs ! ((i - 1) div 2)))"

lemma is_heap_prefix: "is_heap lt xs n \<Longrightarrow> m \<le> n \<Longrightarrow> is_heap lt xs m"
  by (simp add: is_heap_def)

lemma child_cases: "0 < k \<Longrightarrow> (k - 1) div 2 = (i :: nat) \<longleftrightarrow> k = 2 * i + 1 \<or> k = 2 * i + 2"
  by auto

definition smaller_child :: "('a \<Rightarrow> 'a \<Rightarrow> bool) \<Rightarrow> 'a list \<Rightarrow> nat \<Rightarrow> nat \<Rightarrow> nat" where
  "smaller_child lt xs i n =
     (if 2 * i + 2 < n \<and> lt (xs ! (2 * i + 2)) (xs ! (2 * i + 1)) then 2 * i + 2 else 2 * i + 1)"

lemma heap_down_unfold:
  "heap_down lt xs i n =
     (if n \<le> 2 * i + 1 \<or> \<not> lt (xs ! smaller_child lt xs i n) (xs ! i) then xs
      else heap_down lt (swap xs i (smaller_child lt xs i n)) (smaller_child lt xs i n) n)"
  by (subst heap_down.simps) (simp add: Let_def smaller_child_def)

context weak_less
begin

lemma up_step:
  assumes ok: "\<forall>x\<in>set xs. ok x" and n: "length xs = n" "j < n" and j: "0 < j"
    and ex: "heap_except_up lt xs n j" and i: "i = (j - 1) div 2" and lt: "lt (xs ! j) (xs ! i)"
  shows "heap_except_up lt (swap xs i j) n i"
proof -
  have ij: "i < j" "i < n" using j n i by auto
  have okn: "ok (xs ! k)" if "k < n" for k using ok n that by auto
  have sw: "swap xs i j ! k = (if k = j then xs ! i else if k = i then xs ! j else xs ! k)"
    if "k < n" for k using that ij n by (simp add: swap_nth)
  have edge: "\<not> lt (xs ! k) (xs ! ((k - 1) div 2))" if "0 < k" "k < n" "k \<noteq> j" for k
    using ex that by (simp add: heap_except_up_def)
  have below: "\<not> lt (xs ! k) (xs ! i)" if "0 < k" "k < n" "(k - 1) div 2 = j" for k
    using ex that j i by (auto simp: heap_except_up_def)
  have "\<not> lt (swap xs i j ! k) (swap xs i j ! ((k - 1) div 2))" if k: "0 < k" "k < n" "k \<noteq> i" for k
  proof -
    have p: "(k - 1) div 2 < k" using k by auto
    consider "k = j" | "k \<noteq> j" "(k - 1) div 2 = j" | "k \<noteq> j" "(k - 1) div 2 = i"
      | "k \<noteq> j" "(k - 1) div 2 \<noteq> j" "(k - 1) div 2 \<noteq> i" by blast
    then show ?thesis
    proof cases
      case 1
      have "\<not> lt (xs ! i) (xs ! j)" using lt lt_asym okn ij n by blast
      then show ?thesis using 1 ij n i [symmetric] by (simp add: sw)
    next
      case 2
      then show ?thesis using below [of k] k p ij n by (simp add: sw)
    next
      case 3
      then have "\<not> lt (xs ! k) (xs ! i)" using edge [of k] k by simp
      then have "\<not> lt (xs ! k) (xs ! j)"
        using lt lt_trans okn ij n k by blast
      then show ?thesis using 3 k p ij n by (simp add: sw)
    next
      case 4
      then show ?thesis using edge [of k] k p n by (simp add: sw)
    qed
  qed
  moreover have "\<not> lt (swap xs i j ! k) (swap xs i j ! ((i - 1) div 2))"
    if k: "0 < k" "k < n" "(k - 1) div 2 = i" "0 < i" for k
  proof -
    have p: "(i - 1) div 2 < i" using k by auto
    have up: "\<not> lt (xs ! i) (xs ! ((i - 1) div 2))" using edge [of i] k ij by simp
    have ki: "k \<noteq> i" using k by auto
    show ?thesis
    proof (cases "k = j")
      case True
      then show ?thesis using up p ij n k by (simp add: sw)
    next
      case False
      then have "\<not> lt (xs ! k) (xs ! i)" using edge [of k] k by simp
      then have "\<not> lt (xs ! k) (xs ! ((i - 1) div 2))"
        using up not_lt_trans okn p ij k by (meson order.strict_trans)
      then show ?thesis using False ki p ij n k by (simp add: sw)
    qed
  qed
  ultimately show ?thesis by (auto simp: heap_except_up_def)
qed

lemma heap_up_is_heap:
  assumes "\<forall>x\<in>set xs. ok x" and "j < length xs" and "heap_except_up lt xs (length xs) j"
  shows "is_heap lt (heap_up lt xs j) (length xs)"
  using assms
proof (induction j arbitrary: xs rule: less_induct)
  case (less j)
  let ?i = "(j - 1) div 2"
  show ?case
  proof (cases "?i = j \<or> \<not> lt (xs ! j) (xs ! ?i)")
    case True
    then have "is_heap lt xs (length xs)"
      using less.prems(3) by (auto simp: heap_except_up_def is_heap_def)
    then show ?thesis using True by (subst heap_up.simps) (simp add: Let_def)
  next
    case False
    then have j: "0 < j" and i: "?i < j" by auto
    have "heap_except_up lt (swap xs ?i j) (length xs) ?i"
      using less.prems False j by (intro up_step) auto
    moreover have "set (swap xs ?i j) = set xs"
      using less.prems(2) i by (metis mset_swap order.strict_trans set_mset_mset)
    ultimately have "is_heap lt (heap_up lt (swap xs ?i j) ?i) (length (swap xs ?i j))"
      using less.prems i by (intro less.IH) auto
    then show ?thesis using False by (subst heap_up.simps) (simp add: Let_def)
  qed
qed

lemma is_heap_Push:
  assumes "\<forall>y\<in>set xs. ok y" and "ok x" and "is_heap lt xs (length xs)"
  shows "is_heap lt (heap_Push lt x xs) (length (heap_Push lt x xs))"
proof -
  have "heap_except_up lt (xs @ [x]) (length (xs @ [x])) (length xs)"
    using assms(3) by (auto simp: heap_except_up_def is_heap_def nth_append)
  moreover have "length (heap_Push lt x xs) = length (xs @ [x])"
    by (metis length_append_singleton mset_heap_Push size_add_mset size_mset)
  ultimately show ?thesis
    using heap_up_is_heap [of "xs @ [x]" "length xs"] assms by (simp add: heap_Push_def)
qed

lemma down_step:
  assumes ok: "\<forall>x\<in>set xs. ok x" and n: "n \<le> length xs"
    and ex: "heap_except_down lt xs n i" and j: "j = 2 * i + 1 \<or> j = 2 * i + 2" "j < n"
    and least: "\<And>k. k = 2 * i + 1 \<or> k = 2 * i + 2 \<Longrightarrow> k < n \<Longrightarrow> \<not> lt (xs ! k) (xs ! j)"
    and lt: "lt (xs ! j) (xs ! i)"
  shows "heap_except_down lt (swap xs i j) n j"
proof -
  have ij: "i < j" "i < n" using j by auto
  have pj: "(j - 1) div 2 = i" using j by auto
  have okn: "ok (xs ! k)" if "k < n" for k using ok n that by auto
  have sw: "swap xs i j ! k = (if k = j then xs ! i else if k = i then xs ! j else xs ! k)"
    if "k < n" for k using that ij j n by (simp add: swap_nth)
  have edge: "\<not> lt (xs ! k) (xs ! ((k - 1) div 2))" if "0 < k" "k < n" "(k - 1) div 2 \<noteq> i" for k
    using ex that by (simp add: heap_except_down_def)
  have "\<not> lt (swap xs i j ! k) (swap xs i j ! ((k - 1) div 2))"
    if k: "0 < k" "k < n" "(k - 1) div 2 \<noteq> j" for k
  proof -
    have p: "(k - 1) div 2 < k" using k by auto
    consider "k = j" | "k \<noteq> j" "(k - 1) div 2 = i" | "k = i" | "k \<noteq> j" "k \<noteq> i" "(k - 1) div 2 \<noteq> i"
      by blast
    then show ?thesis
    proof cases
      case 1
      have "\<not> lt (xs ! i) (xs ! j)" using lt lt_asym okn ij j(2) by blast
      then show ?thesis using 1 ij j(2) pj by (simp add: sw)
    next
      case 2
      then have "\<not> lt (xs ! k) (xs ! j)" using least [of k] k child_cases by blast
      then show ?thesis using 2 k p ij by (simp add: sw)
    next
      case 3
      then have "\<not> lt (xs ! j) (xs ! ((i - 1) div 2))"
        using ex k j pj ij by (auto simp: heap_except_down_def)
      then show ?thesis using 3 k p ij by (simp add: sw)
    next
      case 4
      then show ?thesis using edge [of k] k p by (simp add: sw)
    qed
  qed
  moreover have "\<not> lt (swap xs i j ! k) (swap xs i j ! ((j - 1) div 2))"
    if k: "0 < k" "k < n" "(k - 1) div 2 = j" for k
  proof -
    have "k \<noteq> i" "k \<noteq> j" using k ij by auto
    then show ?thesis using edge [of k] k ij pj by (simp add: sw)
  qed
  ultimately show ?thesis by (auto simp: heap_except_down_def)
qed

lemma smaller_child_least:
  assumes "k = 2 * i + 1 \<or> k = 2 * i + 2" and "k < n" and okn: "\<And>k. k < n \<Longrightarrow> ok (xs ! k)"
  shows "\<not> lt (xs ! k) (xs ! smaller_child lt xs i n)"
proof (cases "2 * i + 2 < n \<and> lt (xs ! (2 * i + 2)) (xs ! (2 * i + 1))")
  case True
  then have "\<not> lt (xs ! (2 * i + 1)) (xs ! (2 * i + 2))" "\<not> lt (xs ! (2 * i + 2)) (xs ! (2 * i + 2))"
    using lt_asym lt_irrefl okn [of "2 * i + 1"] okn [of "2 * i + 2"] by auto
  then show ?thesis using assms(1) True by (auto simp: smaller_child_def)
next
  case False
  then show ?thesis using assms(1,2) lt_irrefl okn [of "2 * i + 1"] by (auto simp: smaller_child_def)
qed

lemma heap_down_is_heap:
  assumes "\<forall>x\<in>set xs. ok x" and "n \<le> length xs" and "i < n" and "heap_except_down lt xs n i"
  shows "is_heap lt (heap_down lt xs i n) n"
  using assms
proof (induction "n - i" arbitrary: xs i rule: less_induct)
  case less
  let ?j1 = "2 * i + 1"
  let ?j = "smaller_child lt xs i n"
  have okn: "ok (xs ! k)" if "k < n" for k using less.prems that by auto
  have edge: "\<not> lt (xs ! k) (xs ! ((k - 1) div 2))" if "0 < k" "k < n" "(k - 1) div 2 \<noteq> i" for k
    using less.prems(4) that by (simp add: heap_except_down_def)
  have least: "\<not> lt (xs ! k) (xs ! ?j)" if "k = ?j1 \<or> k = 2 * i + 2" "k < n" for k
    using that okn by (rule smaller_child_least)
  consider "n \<le> ?j1" | "?j1 < n" "\<not> lt (xs ! ?j) (xs ! i)" | "?j1 < n" "lt (xs ! ?j) (xs ! i)"
    by linarith
  then show ?case
  proof cases
    case 1
    then have "is_heap lt xs n"
      using edge child_cases by (auto simp: is_heap_def)
    then show ?thesis using 1 by (subst heap_down_unfold) simp
  next
    case 2
    have "\<not> lt (xs ! k) (xs ! i)" if "0 < k" "k < n" "(k - 1) div 2 = i" for k
    proof (rule not_lt_trans [of _ "xs ! ?j"])
      show "\<not> lt (xs ! k) (xs ! ?j)" using least [of k] that child_cases by blast
    qed (use 2 okn that less.prems(3) in \<open>auto simp: smaller_child_def\<close>)
    then have "is_heap lt xs n" using edge by (auto simp: is_heap_def)
    then show ?thesis using 2 by (subst heap_down_unfold) simp
  next
    case 3
    have j: "?j = 2 * i + 1 \<or> ?j = 2 * i + 2" "?j < n"
      using 3 by (auto simp: smaller_child_def)
    have "heap_except_down lt (swap xs i ?j) n ?j"
      using less.prems 3 j least by (intro down_step) auto
    moreover have "set (swap xs i ?j) = set xs"
      using less.prems(2,3) j by (metis mset_swap order.strict_trans2 set_mset_mset)
    ultimately have "is_heap lt (heap_down lt (swap xs i ?j) ?j n) n"
      using less.prems j by (intro less.hyps) auto
    then show ?thesis using 3 by (subst heap_down_unfold) simp
  qed
qed

lemma heap_root_least:
  assumes "is_heap lt xs n" and "n \<le> length xs" and "\<forall>x\<in>set xs. ok x" and "k < n"
  shows "\<not> lt (xs ! k) (xs ! 0)"
  using assms(4)
proof (induction k rule: less_induct)
  case (less k)
  have okn: "ok (xs ! k)" if "k < n" for k using assms that by auto
  show ?case
  proof (cases "k = 0")
    case True
    then show ?thesis using lt_irrefl okn less.prems by simp
  next
    case False
    let ?p = "(k - 1) div 2"
    have p: "?p < k" using False by auto
    then have "\<not> lt (xs ! ?p) (xs ! 0)" using less by simp
    moreover have "\<not> lt (xs ! k) (xs ! ?p)"
      using assms(1) False less.prems by (simp add: is_heap_def)
    moreover have "ok (xs ! 0)" "ok (xs ! ?p)" "ok (xs ! k)"
      using okn [of 0] okn [of ?p] okn [of k] p less.prems by auto
    ultimately show ?thesis using not_lt_trans by blast
  qed
qed

lemma heap_Pop_spec:
  assumes "is_heap lt xs (length xs)" and "xs \<noteq> []" and "\<forall>x\<in>set xs. ok x"
    and pop: "heap_Pop lt xs = (x, ys)"
  shows "x = xs ! 0" and "mset xs = add_mset x (mset ys)" and "is_heap lt ys (length ys)"
proof -
  define n where "n = length xs - 1"
  define zs where "zs = swap xs 0 n"
  define ws where "ws = heap_down lt zs 0 n"
  have len: "length xs = Suc n" using assms(2) by (cases xs) (auto simp: n_def)
  have lens: "length zs = Suc n" "length ws = Suc n"
    by (simp_all add: zs_def ws_def len length_heap_down)
  have x: "x = last ws" and ys: "ys = butlast ws"
    using pop by (simp_all add: heap_Pop_def Let_def ws_def zs_def n_def)
  have zs: "zs ! k = (if k = n then xs ! 0 else if k = 0 then xs ! n else xs ! k)" if "k < Suc n" for k
    using that len by (simp add: zs_def swap_nth)
  have "ws ! n = zs ! n"
  proof (cases "n = 0")
    case True
    then show ?thesis by (simp add: ws_def heap_down.simps [of lt zs 0 0])
  next
    case False
    then show ?thesis by (simp add: ws_def heap_down_beyond lens)
  qed
  then show "x = xs ! 0"
    using x lens zs [of n] by (metis diff_Suc_1 last_conv_nth length_0_conv lessI nat.distinct(1))
  have m: "mset ws = mset xs" "set zs = set xs"
    using len mset_heap_down [of 0 zs n lt] lens
    by (auto simp: ws_def zs_def) (metis mset_swap set_mset_mset lessI zero_less_Suc)+
  have ws: "ws = ys @ [x]" using lens x ys by (metis append_butlast_last_id length_0_conv nat.distinct(1))
  then show "mset xs = add_mset x (mset ys)" using m(1) by simp
  have "is_heap lt ws n"
  proof (cases "n = 0")
    case True
    then show ?thesis by (simp add: is_heap_def)
  next
    case False
    have "\<not> lt (zs ! k) (zs ! ((k - 1) div 2))" if k: "0 < k" "k < n" "(k - 1) div 2 \<noteq> 0" for k
    proof -
      have "(k - 1) div 2 < k" using k by auto
      then show ?thesis using assms(1) k len zs [of k] zs [of "(k - 1) div 2"] by (simp add: is_heap_def)
    qed
    then have "heap_except_down lt zs n 0" by (auto simp: heap_except_down_def)
    then show ?thesis
      using False assms(3) m(2) lens by (auto simp: ws_def intro: heap_down_is_heap)
  qed
  moreover have "length ys = n" using ws lens by simp
  moreover have "ws ! k = ys ! k" if "k < n" for k
    using that ws \<open>length ys = n\<close> by (simp add: nth_append)
  moreover have "(k - 1) div 2 < n" if "k < n" for k :: nat using that by auto
  ultimately show "is_heap lt ys (length ys)" by (simp add: is_heap_def)
qed

end

end
