(* ===== verification/Sweeps.thy ===== *)
theory Sweeps
  imports Interval_Sets Go_Heap
begin

section \<open>The sweep over ranked intervals (interval/sweep.go)\<close>

text \<open>
  \<open>Sweep\<close> partitions the union of intervals into maximal pieces, each labelled with the
  index of the best interval covering it. The model keeps its parts: the event list, the
  heap of active intervals with lazy deletion (\<open>gone\<close>), the runs on the doubled line and
  the main loop. The slice index \<open>i\<close> of the source is the suffix of events not yet
  processed. The loop advances only past events whose point equals itself, so with a NaN
  coordinate it does not end: \<open>sweep_loop\<close> is a partial function into \<open>option\<close>,
  and \<open>sweep_total\<close> proves that it returns for well-formed intervals.

  The ranking is a parameter with the contract \<open>ranked\<close>; the lemmas on the sweep are
  proved once inside that locale and used through its interpretations for set difference
  (below) and for the conflict-resolution strategies.
\<close>

subsection \<open>Data\<close>

record cover =
  Interval :: interval
  Index :: nat

record sweepEvent =
  ev_p :: finePoint
  ev_idx :: nat
  ev_start :: bool

record fineRun =
  run_lo :: finePoint
  run_hi :: finePoint
  run_idx :: nat

record coverHeap =
  ch_better :: "nat \<Rightarrow> nat \<Rightarrow> bool"
  ch_gone :: "bool list"
  ch_items :: "nat list"

subsection \<open>Events\<close>

definition lessEvent :: "sweepEvent \<Rightarrow> sweepEvent \<Rightarrow> bool" where
  "lessEvent a b =
     (if fineLess (ev_p a) (ev_p b) then True
      else if fineLess (ev_p b) (ev_p a) then False
      else ev_idx a < ev_idx b)"

definition interval_events :: "nat \<times> interval \<Rightarrow> sweepEvent list" where
  "interval_events iiv =
     (case iiv of (i, iv) \<Rightarrow>
       [\<lparr>ev_p = ilo iv, ev_idx = i, ev_start = True\<rparr>,
        \<lparr>ev_p = ihi iv, ev_idx = i, ev_start = False\<rparr>])"

definition sweepEvents :: "interval list \<Rightarrow> sweepEvent list" where
  "sweepEvents ivs = sort_slice lessEvent (concat (map interval_events (enumerate 0 ivs)))"

text \<open>Go's \<open>==\<close> on the fine point struct.\<close>

definition fine_eq :: "finePoint \<Rightarrow> finePoint \<Rightarrow> bool" where
  "fine_eq p q \<longleftrightarrow> f_eq (fx p) (fx q) \<and> past p = past q"

subsection \<open>The heap of active intervals\<close>

definition coverHeap_Less :: "(nat \<Rightarrow> nat \<Rightarrow> bool) \<Rightarrow> nat \<Rightarrow> nat \<Rightarrow> bool" where
  "coverHeap_Less better a b =
     (if better a b then True else if better b a then False else a < b)"

lemma length_heap_Pop: "xs \<noteq> [] \<Longrightarrow> length (snd (heap_Pop lt xs)) = length xs - 1"
  by (simp add: heap_Pop_def Let_def length_heap_down)

function coverHeap_best :: "coverHeap \<Rightarrow> nat option \<times> coverHeap" where
  "coverHeap_best h =
     (if ch_items h = [] then (None, h)
      else if \<not> ch_gone h ! (ch_items h ! 0) then (Some (ch_items h ! 0), h)
      else coverHeap_best
        (h\<lparr>ch_items := snd (heap_Pop (coverHeap_Less (ch_better h)) (ch_items h))\<rparr>))"
  by pat_completeness auto
termination
  by (relation "measure (\<lambda>h. length (ch_items h))") (auto simp: length_heap_Pop)

declare coverHeap_best.simps [simp del]

fun applyEvents :: "coverHeap \<Rightarrow> sweepEvent list \<Rightarrow> finePoint \<Rightarrow> coverHeap \<times> sweepEvent list" where
  "applyEvents h [] p = (h, [])"
| "applyEvents h (e # es) p =
     (if fine_eq (ev_p e) p then
        applyEvents
          (if ev_start e
           then h\<lparr>ch_items := heap_Push (coverHeap_Less (ch_better h)) (ev_idx e) (ch_items h)\<rparr>
           else h\<lparr>ch_gone := (ch_gone h)[ev_idx e := True]\<rparr>) es p
      else (h, e # es))"

subsection \<open>Runs and the main loop\<close>

definition appendRun :: "fineRun list \<Rightarrow> finePoint \<Rightarrow> finePoint \<Rightarrow> nat \<Rightarrow> fineRun list" where
  "appendRun runs p q i =
     (if runs \<noteq> [] \<and> run_idx (last runs) = i \<and> fine_eq (run_hi (last runs)) p
      then butlast runs @ [(last runs)\<lparr>run_hi := q\<rparr>]
      else runs @ [\<lparr>run_lo = p, run_hi = q, run_idx = i\<rparr>])"

definition coverList :: "fineRun list \<Rightarrow> cover list" where
  "coverList runs =
     map (\<lambda>r. \<lparr>Interval = fromFine (run_lo r) (run_hi r), Index = run_idx r\<rparr>) runs"

text \<open>
  One turn of the loop before the events of the next point are applied: \<open>prev\<close> is
  \<open>None\<close> until the loop has started.
\<close>

definition close_run :: "coverHeap \<Rightarrow> fineRun list \<Rightarrow> finePoint option \<Rightarrow> finePoint \<Rightarrow>
    coverHeap \<times> fineRun list" where
  "close_run h runs prev p =
     (case prev of
        None \<Rightarrow> (h, runs)
      | Some q \<Rightarrow>
          (case coverHeap_best h of
             (Some i, h') \<Rightarrow> (h', appendRun runs q p i)
           | (None, h') \<Rightarrow> (h', runs)))"

partial_function (option) sweep_loop ::
    "coverHeap \<Rightarrow> fineRun list \<Rightarrow> finePoint option \<Rightarrow> sweepEvent list \<Rightarrow> fineRun list option" where
  "sweep_loop h runs prev es =
     (case es of
        [] \<Rightarrow> Some runs
      | e # _ \<Rightarrow>
          (case close_run h runs prev (ev_p e) of
             (h1, runs1) \<Rightarrow>
               (case applyEvents h1 es (ev_p e) of
                  (h2, es2) \<Rightarrow> sweep_loop h2 runs1 (Some (ev_p e)) es2)))"

definition Sweep_result :: "interval list \<Rightarrow> (nat \<Rightarrow> nat \<Rightarrow> bool) \<Rightarrow> cover list option" where
  "Sweep_result ivs better =
     map_option coverList
       (sweep_loop \<lparr>ch_better = better, ch_gone = replicate (length ivs) False, ch_items = []\<rparr>
          [] None (sweepEvents ivs))"

text \<open>The covers a caller continues with; callers pass well-formed intervals only.\<close>

definition Sweep :: "interval list \<Rightarrow> (nat \<Rightarrow> nat \<Rightarrow> bool) \<Rightarrow> cover list" where
  "Sweep ivs better = (case Sweep_result ivs better of Some cs \<Rightarrow> cs | None \<Rightarrow> [])"

subsection \<open>The event list\<close>

definition valid_all :: "interval list \<Rightarrow> bool" where
  "valid_all ivs \<longleftrightarrow> (\<forall>iv\<in>set ivs. valid_iv iv)"

definition event_ok :: "sweepEvent \<Rightarrow> bool" where
  "event_ok e \<longleftrightarrow> fin_point (ev_p e)"

lemma fin_point_not_NaN: "fin_point p \<Longrightarrow> fx p \<noteq> NaN"
  by (auto simp: fin_point_def is_fin_iff)

lemma fine_eq_iff: "fin_point p \<Longrightarrow> fine_eq p q \<longleftrightarrow> p = q"
  by (cases p; cases q) (auto simp: fine_eq_def f_eq_def fin_point_def is_fin_iff)

lemma lessEvent_iff:
  "event_ok a \<Longrightarrow> event_ok b \<Longrightarrow>
     lessEvent a b \<longleftrightarrow> ev_p a < ev_p b \<or> (ev_p a = ev_p b \<and> ev_idx a < ev_idx b)"
  by (auto simp: lessEvent_def event_ok_def fineLess_iff_less fin_point_not_NaN)

interpretation ev_order: weak_less lessEvent event_ok
  by unfold_locales (auto simp: lessEvent_iff)

lemma set_enumerate0: "set (enumerate 0 xs) = (\<lambda>i. (i, xs ! i)) ` {..<length xs}"
  by (auto simp: in_set_enumerate_eq)

lemma set_sweepEvents:
  "set (sweepEvents ivs) =
     {\<lparr>ev_p = ilo (ivs ! i), ev_idx = i, ev_start = True\<rparr> | i. i < length ivs} \<union>
     {\<lparr>ev_p = ihi (ivs ! i), ev_idx = i, ev_start = False\<rparr> | i. i < length ivs}"
  by (auto simp: sweepEvents_def interval_events_def set_enumerate0)

lemma sweepEvents_ok: "valid_all ivs \<Longrightarrow> e \<in> set (sweepEvents ivs) \<Longrightarrow> event_ok e"
  by (auto simp: set_sweepEvents event_ok_def valid_all_def)

lemma sorted_sweepEvents:
  assumes "valid_all ivs"
  shows "sorted (map ev_p (sweepEvents ivs))"
proof -
  have ok: "\<forall>e\<in>set (sweepEvents ivs). event_ok e" using sweepEvents_ok [OF assms] by blast
  then have "ev_order.in_order (sweepEvents ivs)"
    unfolding sweepEvents_def by (intro ev_order.in_order_sort_slice) simp
  then show ?thesis
    using ok by (auto simp: sorted_wrt_map lessEvent_iff not_less intro: sorted_wrt_mono_rel [rotated])
qed

subsection \<open>The active heap\<close>

text \<open>
  The contract of a ranking on the indices below \<open>n\<close>: a strict weak order. Ties go to
  the lower index, which makes the heap's order total.
\<close>

locale ranked =
  fixes better :: "nat \<Rightarrow> nat \<Rightarrow> bool" and n :: nat
  assumes better_asym: "i < n \<Longrightarrow> j < n \<Longrightarrow> better i j \<Longrightarrow> \<not> better j i"
    and better_negtrans: "i < n \<Longrightarrow> j < n \<Longrightarrow> k < n \<Longrightarrow> better i k \<Longrightarrow> better i j \<or> better j k"
begin

abbreviation outranks :: "nat \<Rightarrow> nat \<Rightarrow> bool" where
  "outranks \<equiv> coverHeap_Less better"

lemma outranks_total: "\<not> outranks i j \<Longrightarrow> \<not> outranks j i \<Longrightarrow> i = j"
  by (auto simp: coverHeap_Less_def split: if_splits)

lemma outranks_asym: "i < n \<Longrightarrow> j < n \<Longrightarrow> outranks i j \<Longrightarrow> \<not> outranks j i"
  using better_asym [of i j] by (simp add: coverHeap_Less_def split: if_splits)

lemma outranks_negtrans:
  "i < n \<Longrightarrow> j < n \<Longrightarrow> k < n \<Longrightarrow> outranks i k \<Longrightarrow> outranks i j \<or> outranks j k"
proof (rule ccontr)
  assume n: "i < n" "j < n" "k < n" and ik: "outranks i k"
    and "\<not> (outranks i j \<or> outranks j k)"
  then have no: "\<not> better i j" "\<not> better j k" and alt: "better j i \<or> j \<le> i" "better k j \<or> k \<le> j"
    by (auto simp: coverHeap_Less_def split: if_splits)
  have tie: "\<not> better i k"
    using better_negtrans [of i j k] no n by blast
  then have k: "\<not> better k i" "i < k"
    using ik by (auto simp: coverHeap_Less_def split: if_splits)
  have "\<not> better j i" using better_negtrans [of j k i] no k n by blast
  moreover have "\<not> better k j" using better_negtrans [of k i j] no k n by blast
  ultimately show False using alt k by simp
qed

end

sublocale ranked \<subseteq> cover: weak_less "coverHeap_Less better" "\<lambda>i. i < n"
  by unfold_locales (blast intro: outranks_asym outranks_negtrans dest: outranks_asym outranks_negtrans)+

text \<open>
  The heap when the indices \<open>S\<close> have started and \<open>G\<close> have ended: every active
  index is in it, and everything in it has started.
\<close>

definition heap_state :: "(nat \<Rightarrow> nat \<Rightarrow> bool) \<Rightarrow> nat \<Rightarrow> coverHeap \<Rightarrow> nat set \<Rightarrow> nat set \<Rightarrow> bool" where
  "heap_state better n h S G \<longleftrightarrow>
     ch_better h = better \<and> length (ch_gone h) = n \<and> (\<forall>i<n. ch_gone h ! i \<longleftrightarrow> i \<in> G) \<and>
     is_heap (coverHeap_Less better) (ch_items h) (length (ch_items h)) \<and>
     set (ch_items h) \<subseteq> S \<and> S - G \<subseteq> set (ch_items h) \<and> S \<subseteq> {..<n}"

context ranked
begin

lemma coverHeap_best_spec:
  assumes "heap_state better n h S G" and "coverHeap_best h = (r, h')"
  shows "heap_state better n h' S G \<and>
    (case r of None \<Rightarrow> S - G = {} | Some i \<Rightarrow> i \<in> S - G \<and> (\<forall>j\<in>S - G. \<not> outranks j i))"
  using assms
proof (induction h rule: coverHeap_best.induct)
  case (1 h)
  let ?xs = "ch_items h"
  have ok: "\<forall>x\<in>set ?xs. x < n" using "1.prems"(1) by (auto simp: heap_state_def)
  have hp: "is_heap outranks ?xs (length ?xs)" using "1.prems"(1) by (simp add: heap_state_def)
  consider "?xs = []" | "?xs \<noteq> []" "\<not> ch_gone h ! (?xs ! 0)" | "?xs \<noteq> []" "ch_gone h ! (?xs ! 0)"
    by blast
  then show ?case
  proof cases
    case 1
    then show ?thesis using "1.prems" coverHeap_best.simps [of h] by (auto simp: heap_state_def)
  next
    case 2
    then have r: "r = Some (?xs ! 0)" "h' = h"
      using "1.prems"(2) coverHeap_best.simps [of h] by auto
    have "?xs ! 0 \<in> set ?xs" using 2 by simp
    moreover have "\<not> outranks j (?xs ! 0)" if "j \<in> S - G" for j
    proof -
      from that "1.prems"(1) have "j \<in> set ?xs" by (auto simp: heap_state_def)
      then obtain k where "k < length ?xs" "j = ?xs ! k" by (auto simp: in_set_conv_nth)
      then show ?thesis using cover.heap_root_least [OF hp _ ok] by auto
    qed
    ultimately show ?thesis
      using r "1.prems"(1) 2 ok by (auto simp: heap_state_def)
  next
    case 3
    obtain x ys where pop: "heap_Pop outranks ?xs = (x, ys)" by force
    note spec = cover.heap_Pop_spec [OF hp 3(1) ok pop]
    have sets: "set ?xs = insert x (set ys)"
      using spec(2) by (metis set_mset_add_mset_insert set_mset_mset)
    have "x \<in> G" using 3(2) spec(1) "1.prems"(1) ok 3(1) by (auto simp: heap_state_def)
    then have st: "heap_state better n (h\<lparr>ch_items := ys\<rparr>) S G"
      using "1.prems"(1) spec(3) sets by (auto simp: heap_state_def)
    have b: "ch_better h = better" using "1.prems"(1) by (simp add: heap_state_def)
    have "coverHeap_best (h\<lparr>ch_items := ys\<rparr>) = (r, h')"
      using "1.prems"(2) 3 coverHeap_best.simps [of h] pop b by simp
    then show ?thesis using "1.IH" 3 st pop b by simp
  qed
qed

lemma applyEvents_spec:
  assumes "heap_state better n h S G" and "\<forall>e\<in>set es. ev_idx e < n \<and> event_ok e"
    and "applyEvents h es p = (h', es')"
  shows "heap_state better n h'
      (S \<union> set (map ev_idx (filter ev_start (takeWhile (\<lambda>e. ev_p e = p) es))))
      (G \<union> set (map ev_idx (filter (\<lambda>e. \<not> ev_start e) (takeWhile (\<lambda>e. ev_p e = p) es)))) \<and>
    es' = dropWhile (\<lambda>e. ev_p e = p) es"
  using assms
proof (induction es arbitrary: h S G)
  case Nil
  then show ?case by simp
next
  case (Cons e es)
  have e: "ev_idx e < n" "fine_eq (ev_p e) p \<longleftrightarrow> ev_p e = p"
    using Cons.prems(2) by (auto simp: event_ok_def fine_eq_iff)
  have b: "ch_better h = better" using Cons.prems(1) by (simp add: heap_state_def)
  show ?case
  proof (cases "ev_p e = p")
    case False
    then show ?thesis using Cons.prems e by auto
  next
    case True
    show ?thesis
    proof (cases "ev_start e")
      case start: True
      let ?h = "h\<lparr>ch_items := heap_Push outranks (ev_idx e) (ch_items h)\<rparr>"
      have "is_heap outranks (ch_items ?h) (length (ch_items ?h))"
        using cover.is_heap_Push [of "ch_items h" "ev_idx e"] Cons.prems(1) e
        by (simp add: heap_state_def subset_iff)
      then have "heap_state better n ?h (insert (ev_idx e) S) G"
        using Cons.prems(1) e by (auto simp: heap_state_def set_heap_Push)
      from Cons.IH [OF this] show ?thesis
        using Cons.prems True start e b by simp
    next
      case ending: False
      let ?h = "h\<lparr>ch_gone := (ch_gone h)[ev_idx e := True]\<rparr>"
      have "heap_state better n ?h S (insert (ev_idx e) G)"
        using Cons.prems(1) e by (auto simp: heap_state_def nth_list_update)
      from Cons.IH [OF this] show ?thesis
        using Cons.prems True ending e b by simp
    qed
  qed
qed

end

subsection \<open>Correctness of the sweep\<close>

text \<open>The best interval covering a fine point.\<close>

definition is_winner :: "(nat \<Rightarrow> nat \<Rightarrow> bool) \<Rightarrow> interval list \<Rightarrow> finePoint \<Rightarrow> nat \<Rightarrow> bool" where
  "is_winner better ivs x i \<longleftrightarrow>
     i < length ivs \<and> x \<in> fspan (ivs ! i) \<and>
     (\<forall>j<length ivs. x \<in> fspan (ivs ! j) \<longrightarrow> \<not> coverHeap_Less better j i)"

definition in_run :: "fineRun \<Rightarrow> finePoint \<Rightarrow> bool" where
  "in_run r x \<longleftrightarrow> run_lo r \<le> x \<and> x < run_hi r"

text \<open>
  Runs in order, disjoint, and maximal: where two runs meet, their labels differ. They
  label exactly the points below \<open>q\<close> that have a winner.
\<close>

definition runs_in_order :: "fineRun list \<Rightarrow> bool" where
  "runs_in_order runs \<longleftrightarrow>
     (\<forall>r\<in>set runs. run_lo r < run_hi r \<and> fin_point (run_lo r) \<and> fin_point (run_hi r)) \<and>
     sorted_wrt (\<lambda>a b. run_hi a \<le> run_lo b \<and> (run_hi a = run_lo b \<longrightarrow> run_idx a \<noteq> run_idx b)) runs"

definition runs_upto :: "(nat \<Rightarrow> nat \<Rightarrow> bool) \<Rightarrow> interval list \<Rightarrow> finePoint \<Rightarrow> fineRun list \<Rightarrow> bool" where
  "runs_upto better ivs q runs \<longleftrightarrow>
     runs_in_order runs \<and> (\<forall>r\<in>set runs. run_hi r \<le> q) \<and>
     (\<forall>x<q. \<forall>i. (\<exists>r\<in>set runs. in_run r x \<and> run_idx r = i) \<longleftrightarrow> is_winner better ivs x i)"

lemma appendRun_spec:
  assumes inv: "runs_upto better ivs q runs" and qp: "q < p" "fin_point q" "fin_point p"
    and win: "\<forall>x. q \<le> x \<longrightarrow> x < p \<longrightarrow> (\<forall>j. is_winner better ivs x j \<longleftrightarrow> j = i)"
  shows "runs_upto better ivs p (appendRun runs q p i)"
proof (cases "runs \<noteq> [] \<and> run_idx (last runs) = i \<and> run_hi (last runs) = q")
  case True
  then obtain init r where runs: "runs = init @ [r]" and r: "run_idx r = i" "run_hi r = q"
    by (metis append_butlast_last_id)
  let ?r = "r\<lparr>run_hi := p\<rparr>"
  have eq: "appendRun runs q p i = init @ [?r]"
    using r qp by (simp add: appendRun_def runs fine_eq_iff)
  have mem: "in_run ?r x \<longleftrightarrow> in_run r x \<or> q \<le> x \<and> x < p" for x
  proof -
    have "run_lo r < q" using inv r by (auto simp: runs_upto_def runs_in_order_def runs)
    then show ?thesis using qp r by (auto simp: in_run_def)
  qed
  have ord: "runs_in_order (init @ [?r])"
    using inv qp r by (auto simp: runs_upto_def runs_in_order_def runs sorted_wrt_append)
  have old: "in_run s x \<Longrightarrow> x < q" if "s \<in> set runs" for s x
    using inv that by (auto simp: runs_upto_def in_run_def)
  have "(\<exists>s\<in>set (init @ [?r]). in_run s x \<and> run_idx s = j) \<longleftrightarrow> is_winner better ivs x j" if "x < p" for x j
  proof (cases "x < q")
    case True
    then have "(\<exists>s\<in>set (init @ [?r]). in_run s x \<and> run_idx s = j) \<longleftrightarrow>
        (\<exists>s\<in>set runs. in_run s x \<and> run_idx s = j)"
      using mem by (auto simp: runs)
    then show ?thesis using inv True by (simp add: runs_upto_def)
  next
    case False
    then have "\<not> in_run s x" if "s \<in> set init" for s
      using old [of s x] that by (auto simp: runs)
    then show ?thesis using win False that mem r by auto
  qed
  moreover have "\<forall>s\<in>set (init @ [?r]). run_hi s \<le> p"
    using inv qp by (auto simp: runs_upto_def runs)
  ultimately show ?thesis using ord by (simp add: runs_upto_def eq)
next
  case False
  let ?r = "\<lparr>run_lo = q, run_hi = p, run_idx = i\<rparr>"
  have eq: "appendRun runs q p i = runs @ [?r]"
  proof -
    have "\<not> fine_eq (run_hi (last runs)) q" if "runs \<noteq> []" "run_idx (last runs) = i"
      using False that inv by (auto simp: runs_upto_def runs_in_order_def fine_eq_iff)
    then show ?thesis by (auto simp: appendRun_def)
  qed
  have "run_hi s \<le> q \<and> (run_hi s = q \<longrightarrow> run_idx s \<noteq> i)" if s: "s \<in> set runs" for s
  proof -
    have "run_hi s = q \<Longrightarrow> s = last runs"
    proof (rule ccontr)
      assume h: "run_hi s = q" and "s \<noteq> last runs"
      then obtain init r where runs: "runs = init @ [r]" "s \<in> set init"
        using s by (cases runs rule: rev_cases) auto
      then have "q \<le> run_lo r" "run_lo r < run_hi r" "run_hi r \<le> q"
        using inv h by (auto simp: runs_upto_def runs_in_order_def sorted_wrt_append)
      then show False by simp
    qed
    then show ?thesis using False inv s by (auto simp: runs_upto_def)
  qed
  then have ord: "runs_in_order (runs @ [?r])"
    using inv qp by (auto simp: runs_upto_def runs_in_order_def sorted_wrt_append)
  have "(\<exists>s\<in>set (runs @ [?r]). in_run s x \<and> run_idx s = j) \<longleftrightarrow> is_winner better ivs x j" if "x < p" for x j
  proof (cases "x < q")
    case True
    then have "(\<exists>s\<in>set (runs @ [?r]). in_run s x \<and> run_idx s = j) \<longleftrightarrow>
        (\<exists>s\<in>set runs. in_run s x \<and> run_idx s = j)" by (auto simp: in_run_def)
    then show ?thesis using inv True by (simp add: runs_upto_def)
  next
    case False
    then have "\<not> in_run s x" if "s \<in> set runs" for s
      using inv that by (auto simp: runs_upto_def in_run_def)
    then show ?thesis using win False that by (auto simp: in_run_def)
  qed
  moreover have "\<forall>s\<in>set (runs @ [?r]). run_hi s \<le> p"
    using inv qp by (auto simp: runs_upto_def)
  ultimately show ?thesis using ord by (simp add: runs_upto_def eq)
qed

lemma runs_upto_gap:
  assumes inv: "runs_upto better ivs q runs" and "q < p"
    and "\<forall>x. q \<le> x \<longrightarrow> x < p \<longrightarrow> (\<forall>j. \<not> is_winner better ivs x j)"
  shows "runs_upto better ivs p runs"
proof -
  have "(\<exists>r\<in>set runs. in_run r x \<and> run_idx r = i) \<longleftrightarrow> is_winner better ivs x i" if "x < p" for x i
    using assms that by (cases "x < q") (force simp: runs_upto_def in_run_def)+
  moreover have "\<forall>r\<in>set runs. run_hi r \<le> p" using assms by (force simp: runs_upto_def)
  ultimately show ?thesis using inv by (simp add: runs_upto_def)
qed

lemma take_drop_sorted:
  fixes f :: "'a \<Rightarrow> 'b :: linorder"
  assumes "sorted (map f es)" and "\<forall>e\<in>set es. p \<le> f e"
  shows "takeWhile (\<lambda>e. f e = p) es = filter (\<lambda>e. f e = p) es"
    and "dropWhile (\<lambda>e. f e = p) es = filter (\<lambda>e. p < f e) es"
proof -
  have "takeWhile (\<lambda>e. f e = p) es = filter (\<lambda>e. f e = p) es \<and>
      dropWhile (\<lambda>e. f e = p) es = filter (\<lambda>e. p < f e) es"
    using assms
  proof (induction es)
    case Nil
    then show ?case by simp
  next
    case (Cons e es)
    show ?case
    proof (cases "f e = p")
      case True
      then show ?thesis using Cons by auto
    next
      case False
      then have all: "p < f x" if "x \<in> set (e # es)" for x using Cons.prems that by force
      have "filter (\<lambda>e. f e = p) (e # es) = []"
        using all by (auto simp only: filter_empty_conv less_irrefl)
      moreover have "filter (\<lambda>e. p < f e) (e # es) = e # es"
        using all by (intro filter_True) blast
      ultimately show ?thesis using False by simp
    qed
  qed
  then show "takeWhile (\<lambda>e. f e = p) es = filter (\<lambda>e. f e = p) es"
    "dropWhile (\<lambda>e. f e = p) es = filter (\<lambda>e. p < f e) es" by blast+
qed

definition begun :: "interval list \<Rightarrow> finePoint \<Rightarrow> nat set" where
  "begun ivs q = {i. i < length ivs \<and> ilo (ivs ! i) \<le> q}"

definition ended :: "interval list \<Rightarrow> finePoint \<Rightarrow> nat set" where
  "ended ivs q = {i. i < length ivs \<and> ihi (ivs ! i) \<le> q}"

definition events_after :: "interval list \<Rightarrow> finePoint \<Rightarrow> sweepEvent list" where
  "events_after ivs q = filter (\<lambda>e. q < ev_p e) (sweepEvents ivs)"

text \<open>A fine point before every well-formed one, where the loop starts.\<close>

definition origin :: finePoint where
  "origin = FinePoint NaN False"

lemma origin_less: "fin_point p \<Longrightarrow> origin < p"
  by (cases p) (auto simp: origin_def fin_point_def is_fin_iff less_float64_def)

lemma not_less_origin: "\<not> p < origin"
  by (cases p) (auto simp: origin_def less_float64_def)

text \<open>No interval begins or ends strictly between two consecutive event points.\<close>

lemma next_point:
  assumes "valid_all ivs" and "events_after ivs q = e # es"
  shows "q < ev_p e" and "fin_point (ev_p e)"
    and "i < length ivs \<Longrightarrow> q < ilo (ivs ! i) \<Longrightarrow> ev_p e \<le> ilo (ivs ! i)"
    and "i < length ivs \<Longrightarrow> q < ihi (ivs ! i) \<Longrightarrow> ev_p e \<le> ihi (ivs ! i)"
    and "\<forall>x\<in>set (e # es). ev_p e \<le> ev_p x" and "sorted (map ev_p (e # es))"
proof -
  have mem: "e \<in> set (events_after ivs q)" using assms(2) by simp
  then show "q < ev_p e" "fin_point (ev_p e)"
    using sweepEvents_ok [OF assms(1)] by (auto simp: events_after_def event_ok_def)
  show srt: "sorted (map ev_p (e # es))"
    using sorted_filter [OF sorted_sweepEvents [OF assms(1)]] assms(2) by (metis events_after_def)
  then show least: "\<forall>x\<in>set (e # es). ev_p e \<le> ev_p x" by auto
  have all: "ev_p e \<le> ev_p x" if "x \<in> set (sweepEvents ivs)" "q < ev_p x" for x
  proof -
    have "x \<in> set (events_after ivs q)" using that by (simp add: events_after_def)
    then show ?thesis using least assms(2) by auto
  qed
  show "i < length ivs \<Longrightarrow> q < ilo (ivs ! i) \<Longrightarrow> ev_p e \<le> ilo (ivs ! i)"
    using all [of "\<lparr>ev_p = ilo (ivs ! i), ev_idx = i, ev_start = True\<rparr>"] by (auto simp: set_sweepEvents)
  show "i < length ivs \<Longrightarrow> q < ihi (ivs ! i) \<Longrightarrow> ev_p e \<le> ihi (ivs ! i)"
    using all [of "\<lparr>ev_p = ihi (ivs ! i), ev_idx = i, ev_start = False\<rparr>"] by (auto simp: set_sweepEvents)
qed

lemma events_at_point:
  assumes "valid_all ivs" and "events_after ivs q = e # es"
  shows "begun ivs q \<union> set (map ev_idx (filter ev_start (takeWhile (\<lambda>x. ev_p x = ev_p e) (e # es))))
      = begun ivs (ev_p e)"
    and "ended ivs q \<union> set (map ev_idx (filter (\<lambda>x. \<not> ev_start x)
        (takeWhile (\<lambda>x. ev_p x = ev_p e) (e # es)))) = ended ivs (ev_p e)"
    and "dropWhile (\<lambda>x. ev_p x = ev_p e) (e # es) = events_after ivs (ev_p e)"
proof -
  note np = next_point [OF assms]
  note td = take_drop_sorted [OF np(6,5)]
  have at: "takeWhile (\<lambda>x. ev_p x = ev_p e) (e # es) = filter (\<lambda>x. ev_p x = ev_p e) (sweepEvents ivs)"
  proof -
    have "filter (\<lambda>x. ev_p x = ev_p e) (events_after ivs q) = filter (\<lambda>x. ev_p x = ev_p e) (sweepEvents ivs)"
      unfolding events_after_def filter_filter using np(1) by (intro filter_cong) auto
    then show ?thesis unfolding td(1) assms(2) .
  qed
  show "begun ivs q \<union> set (map ev_idx (filter ev_start (takeWhile (\<lambda>x. ev_p x = ev_p e) (e # es))))
      = begun ivs (ev_p e)"
    unfolding at using np(1,3) by (force simp: begun_def set_sweepEvents)
  show "ended ivs q \<union> set (map ev_idx (filter (\<lambda>x. \<not> ev_start x)
        (takeWhile (\<lambda>x. ev_p x = ev_p e) (e # es)))) = ended ivs (ev_p e)"
    unfolding at using np(1,4) by (force simp: ended_def set_sweepEvents)
  show "dropWhile (\<lambda>x. ev_p x = ev_p e) (e # es) = events_after ivs (ev_p e)"
  proof -
    have "filter (\<lambda>x. ev_p e < ev_p x) (events_after ivs q) = events_after ivs (ev_p e)"
      unfolding events_after_def filter_filter using np(1) by (intro filter_cong) auto
    then show ?thesis unfolding td(2) assms(2) .
  qed
qed

lemma covering_between:
  assumes "valid_all ivs" and "events_after ivs q = e # es" and "q \<le> x" and "x < ev_p e"
  shows "i < length ivs \<and> x \<in> fspan (ivs ! i) \<longleftrightarrow> i \<in> begun ivs q - ended ivs q"
  using next_point(3,4) [OF assms(1,2)] assms(3,4)
  by (fastforce simp: fspan_def begun_def ended_def)

lemma no_events_no_winner:
  assumes "events_after ivs q = []" and "q \<le> x"
  shows "\<not> is_winner better ivs x i"
proof
  assume w: "is_winner better ivs x i"
  then have "\<lparr>ev_p = ihi (ivs ! i), ev_idx = i, ev_start = False\<rparr> \<in> set (events_after ivs q)"
    using assms(2) by (auto simp: is_winner_def fspan_def events_after_def set_sweepEvents)
  then show False using assms(1) by simp
qed

text \<open>What the sweep promises about its runs, once every event is processed.\<close>

definition runs_complete :: "(nat \<Rightarrow> nat \<Rightarrow> bool) \<Rightarrow> interval list \<Rightarrow> fineRun list \<Rightarrow> bool" where
  "runs_complete better ivs runs \<longleftrightarrow>
     runs_in_order runs \<and>
     (\<forall>x i. (\<exists>r\<in>set runs. in_run r x \<and> run_idx r = i) \<longleftrightarrow> is_winner better ivs x i)"

context ranked
begin

lemma winner_unique: "length ivs = n \<Longrightarrow> is_winner better ivs x i \<Longrightarrow> is_winner better ivs x j \<Longrightarrow> i = j"
  using outranks_total [of i j] by (simp add: is_winner_def)

lemma close_run_spec:
  assumes ivs: "valid_all ivs" "length ivs = n" and ev: "events_after ivs q = e # es"
    and heap: "heap_state better n h (begun ivs q) (ended ivs q)"
    and runs: "runs_upto better ivs q runs" and q: "fin_point q \<or> q = origin"
    and step: "close_run h runs (Some q) (ev_p e) = (h', runs')"
  shows "heap_state better n h' (begun ivs q) (ended ivs q) \<and> runs_upto better ivs (ev_p e) runs'"
proof -
  note np = next_point [OF ivs(1) ev]
  note cov = covering_between [OF ivs(1) ev]
  obtain r h'' where best: "coverHeap_best h = (r, h'')" by force
  note spec = coverHeap_best_spec [OF heap best]
  show ?thesis
  proof (cases r)
    case None
    then have "\<forall>x. q \<le> x \<longrightarrow> x < ev_p e \<longrightarrow> (\<forall>j. \<not> is_winner better ivs x j)"
      using spec cov by (auto simp: is_winner_def)
    from runs_upto_gap [OF runs np(1) this] have "runs_upto better ivs (ev_p e) runs" .
    then show ?thesis using spec None step best by (simp add: close_run_def)
  next
    case (Some i)
    then have i: "i \<in> begun ivs q - ended ivs q" "\<forall>j\<in>begun ivs q - ended ivs q. \<not> outranks j i"
      using spec by auto
    have "is_winner better ivs x i" if "q \<le> x" "x < ev_p e" for x
      using i cov [OF that] unfolding is_winner_def by blast
    then have "\<forall>x. q \<le> x \<longrightarrow> x < ev_p e \<longrightarrow> (\<forall>j. is_winner better ivs x j \<longleftrightarrow> j = i)"
      using winner_unique ivs(2) by blast
    moreover have "fin_point q"
    proof -
      have "ilo (ivs ! i) \<le> q" "fin_point (ilo (ivs ! i))"
        using i ivs(1) by (auto simp: begun_def valid_all_def)
      then show ?thesis using q origin_less leD by blast
    qed
    ultimately have "runs_upto better ivs (ev_p e) (appendRun runs q (ev_p e) i)"
      using runs np by (intro appendRun_spec)
    then show ?thesis using spec Some step best by (simp add: close_run_def)
  qed
qed

lemma sweep_loop_spec:
  assumes "valid_all ivs" and "length ivs = n"
    and "heap_state better n h (begun ivs q) (ended ivs q)"
    and "runs_upto better ivs q runs" and "fin_point q \<or> q = origin"
  shows "\<exists>runs'. sweep_loop h runs (Some q) (events_after ivs q) = Some runs' \<and>
    runs_complete better ivs runs'"
  using assms(3-)
proof (induction "length (events_after ivs q)" arbitrary: h runs q rule: less_induct)
  case less
  show ?case
  proof (cases "events_after ivs q")
    case Nil
    have "(\<exists>r\<in>set runs. in_run r x \<and> run_idx r = i) \<longleftrightarrow> is_winner better ivs x i" for x i
      using less.prems(2) no_events_no_winner [OF Nil, of x better i]
      by (cases "x < q") (force simp: runs_upto_def in_run_def)+
    then have "runs_complete better ivs runs"
      using less.prems(2) by (simp add: runs_complete_def runs_upto_def)
    then show ?thesis by (subst sweep_loop.simps) (simp add: Nil)
  next
    case (Cons e es)
    let ?p = "ev_p e"
    note np = next_point [OF assms(1) Cons]
    note at = events_at_point [OF assms(1) Cons]
    obtain h1 runs1 where cr: "close_run h runs (Some q) ?p = (h1, runs1)" by force
    note close = close_run_spec [OF assms(1,2) Cons less.prems cr]
    obtain h2 es2 where ae: "applyEvents h1 (e # es) ?p = (h2, es2)" by force
    have "\<forall>x\<in>set (e # es). ev_idx x < n \<and> event_ok x"
      unfolding Cons [symmetric] using sweepEvents_ok [OF assms(1)] assms(2)
      by (auto simp: events_after_def set_sweepEvents)
    from applyEvents_spec [OF conjunct1 [OF close] this ae]
    have ap: "heap_state better n h2 (begun ivs ?p) (ended ivs ?p)" "es2 = events_after ivs ?p"
      unfolding at by simp_all
    have "length (events_after ivs ?p) < length (events_after ivs q)"
      unfolding at(3) [symmetric] Cons
      using length_dropWhile_le [of "\<lambda>x. ev_p x = ?p" es] by simp
    from less.hyps [OF this ap(1)] close np(2)
    have "\<exists>runs'. sweep_loop h2 runs1 (Some ?p) (events_after ivs ?p) = Some runs' \<and>
      runs_complete better ivs runs'" by blast
    then show ?thesis
      using cr ae ap(2) by (subst sweep_loop.simps) (simp add: Cons)
  qed
qed

text \<open>The loop returns, and its runs are the maximal pieces of the winners.\<close>

lemma Sweep_runs:
  assumes "valid_all ivs" and "length ivs = n"
  shows "\<exists>runs. Sweep_result ivs better = Some (coverList runs) \<and> runs_complete better ivs runs"
proof -
  let ?h = "\<lparr>ch_better = better, ch_gone = replicate n False, ch_items = []\<rparr> :: coverHeap"
  have none: "\<not> ilo iv \<le> origin" "\<not> ihi iv \<le> origin" if "iv \<in> set ivs" for iv
    using that assms(1) by (auto simp: valid_all_def not_le intro: origin_less)
  then have sets: "begun ivs origin = {}" "ended ivs origin = {}"
    by (auto simp: begun_def ended_def)
  have all: "events_after ivs origin = sweepEvents ivs"
    using sweepEvents_ok [OF assms(1)] by (auto simp: events_after_def event_ok_def origin_less)
  have "heap_state better n ?h {} {}" by (simp add: heap_state_def is_heap_def)
  moreover have "runs_upto better ivs origin []"
    by (simp add: runs_upto_def runs_in_order_def not_less_origin)
  ultimately obtain runs where
    runs: "sweep_loop ?h [] (Some origin) (sweepEvents ivs) = Some runs" "runs_complete better ivs runs"
    using sweep_loop_spec [OF assms, of ?h origin "[]"] sets all by auto
  have "close_run ?h [] (Some origin) p = close_run ?h [] None p" for p
    by (simp add: close_run_def coverHeap_best.simps [of ?h])
  then have "sweep_loop ?h [] None (sweepEvents ivs) = sweep_loop ?h [] (Some origin) (sweepEvents ivs)"
    unfolding sweep_loop.simps [of ?h "[]" None] sweep_loop.simps [of ?h "[]" "Some origin"]
    by (simp split: list.split)
  then show ?thesis using runs assms(2) by (auto simp: Sweep_result_def)
qed

end

subsection \<open>The covers\<close>

lemma fspan_fromFine: "fspan (fromFine p q) = {p..<q}"
  by (simp add: fspan_def)

context ranked
begin

lemma Sweep_spec:
  assumes "valid_all ivs" and "length ivs = n"
  shows "Sweep_result ivs better = Some (Sweep ivs better)"
    and "c \<in> set (Sweep ivs better) \<Longrightarrow> valid_iv (Interval c)"
    and "sorted_wrt (\<lambda>a b. ihi (Interval a) \<le> ilo (Interval b) \<and>
      (ihi (Interval a) = ilo (Interval b) \<longrightarrow> Index a \<noteq> Index b)) (Sweep ivs better)"
    and "(\<exists>c\<in>set (Sweep ivs better). x \<in> fspan (Interval c) \<and> Index c = i) \<longleftrightarrow> is_winner better ivs x i"
proof -
  obtain runs where runs: "Sweep_result ivs better = Some (coverList runs)"
      "runs_complete better ivs runs"
    using Sweep_runs [OF assms] by blast
  then have eq: "Sweep ivs better = coverList runs" by (simp add: Sweep_def)
  show "Sweep_result ivs better = Some (Sweep ivs better)" using runs eq by simp
  show "c \<in> set (Sweep ivs better) \<Longrightarrow> valid_iv (Interval c)"
    using runs(2) by (auto simp: eq coverList_def runs_complete_def runs_in_order_def)
  show "sorted_wrt (\<lambda>a b. ihi (Interval a) \<le> ilo (Interval b) \<and>
      (ihi (Interval a) = ilo (Interval b) \<longrightarrow> Index a \<noteq> Index b)) (Sweep ivs better)"
    using runs(2) by (simp add: eq coverList_def runs_complete_def runs_in_order_def sorted_wrt_map)
  show "(\<exists>c\<in>set (Sweep ivs better). x \<in> fspan (Interval c) \<and> Index c = i) \<longleftrightarrow> is_winner better ivs x i"
    using runs(2) by (simp add: eq coverList_def runs_complete_def fspan_fromFine in_run_def)
qed

lemma Sweep_piece_within:
  assumes "valid_all ivs" and "length ivs = n" and "c \<in> set (Sweep ivs better)"
  shows "Index c < n" and "fspan (Interval c) \<subseteq> fspan (ivs ! Index c)"
proof -
  have "is_winner better ivs x (Index c)" if "x \<in> fspan (Interval c)" for x
    using Sweep_spec(4) [OF assms(1,2)] assms(3) that by blast
  moreover have "ilo (Interval c) \<in> fspan (Interval c)"
    using Sweep_spec(2) [OF assms] by (simp add: fspan_def)
  ultimately show "Index c < n" "fspan (Interval c) \<subseteq> fspan (ivs ! Index c)"
    using assms(2) by (auto simp: is_winner_def)
qed

lemma exists_winner:
  assumes "length ivs = n" and "i < n" and "x \<in> fspan (ivs ! i)"
  shows "\<exists>w. is_winner better ivs x w"
proof -
  let ?A = "filter (\<lambda>j. x \<in> fspan (ivs ! j)) [0..<n]"
  have ok: "\<forall>j\<in>set ?A. j < n" by simp
  obtain w ws where ws: "sort_slice outranks ?A = w # ws"
  proof (cases "sort_slice outranks ?A")
    case Nil
    then have "set ?A = {}" by (metis set_sort_slice set_empty)
    then show ?thesis using assms by auto
  qed blast
  have "\<not> outranks j w" if "j \<in> set ?A" for j
  proof -
    have "j \<in> set (w # ws)" using that ws by (metis set_sort_slice)
    moreover have "\<not> outranks w w" using ws ok cover.lt_irrefl by (metis list.set_intros(1) set_sort_slice)
    ultimately show ?thesis
      using cover.in_order_sort_slice [OF ok] unfolding ws by auto
  qed
  moreover have "w \<in> set ?A" using ws by (metis list.set_intros(1) set_sort_slice)
  ultimately show ?thesis using assms(1) by (auto simp: is_winner_def)
qed

end

subsection \<open>Difference (interval/set.go)\<close>

definition Difference :: "interval list \<Rightarrow> interval list \<Rightarrow> interval list" where
  "Difference a b =
     (if a = [] \<or> b = [] then Normalize a
      else let a' = Normalize a; b' = Normalize b; n = length a';
               covers = Sweep (a' @ b') (\<lambda>i j. n \<le> i \<and> j < n)
           in map Interval (filter (\<lambda>c. Index c < n) covers))"

text \<open>The ranking of \<open>Difference\<close>: every interval of \<open>b\<close> before every one of \<open>a\<close>.\<close>

interpretation cut_rank: ranked "\<lambda>i j. k \<le> i \<and> j < k" m for k m
  by unfold_locales auto

lemma fspan_subset_bounds:
  assumes "valid_iv c" and "fspan c \<subseteq> fspan d"
  shows "ilo d \<le> ilo c" and "ihi c \<le> ihi d"
proof -
  have c: "ilo c < ihi c" using assms(1) by simp
  then have "ilo c \<in> fspan c" by (simp add: fspan_def)
  then have *: "ilo d \<le> ilo c" "ilo c < ihi d" using assms(2) by (auto simp: fspan_def)
  then show "ilo d \<le> ilo c" by simp
  show "ihi c \<le> ihi d"
  proof (rule ccontr)
    assume "\<not> ihi c \<le> ihi d"
    then have "ihi d \<in> fspan c" using * by (auto simp: fspan_def)
    then show False using assms(2) by (auto simp: fspan_def)
  qed
qed

lemma canonical_nth: "canonical ivs \<Longrightarrow> i < j \<Longrightarrow> j < length ivs \<Longrightarrow> ihi (ivs ! i) < ilo (ivs ! j)"
  by (simp add: canonical_def separated_def sorted_wrt_iff_nth_less)

lemma cut_winner:
  assumes "i < length a"
  shows "is_winner (\<lambda>i j. length a \<le> i \<and> j < length a) (a @ b) x i \<Longrightarrow> x \<in> set_span a - set_span b"
proof -
  assume w: "is_winner (\<lambda>i j. length a \<le> i \<and> j < length a) (a @ b) x i"
  have "x \<in> fspan (a ! i)" using w assms by (auto simp: is_winner_def nth_append)
  moreover have "x \<notin> fspan (b ! k)" if "k < length b" for k
    using w that assms by (force simp: is_winner_def nth_append coverHeap_Less_def
        dest: spec [of _ "length a + k"])
  moreover have "a ! i \<in> set a" using assms by simp
  ultimately show ?thesis unfolding set_span_def by (auto simp: in_set_conv_nth [of _ b])
qed

lemma Difference_span_canonical:
  assumes "canonical a" and "canonical b"
  defines "covers \<equiv> Sweep (a @ b) (\<lambda>i j. length a \<le> i \<and> j < length a)"
  shows "canonical (map Interval (filter (\<lambda>c. Index c < length a) covers))"
    and "set_span (map Interval (filter (\<lambda>c. Index c < length a) covers)) = set_span a - set_span b"
proof -
  let ?b = "\<lambda>i j. length a \<le> i \<and> j < length a"
  have va: "valid_all (a @ b)" "length (a @ b) = length a + length b"
    using assms(1,2) by (auto simp: valid_all_def canonical_def)
  note spec = cut_rank.Sweep_spec [OF va, where k = "length a", folded covers_def]
  note within = cut_rank.Sweep_piece_within [OF va, where k = "length a", folded covers_def]
  have strict: "ihi (Interval c) < ilo (Interval d)"
    if c: "c \<in> set covers" "Index c < length a" and d: "d \<in> set covers" "Index d < length a"
      and le: "ihi (Interval c) \<le> ilo (Interval d)"
      and ne: "ihi (Interval c) = ilo (Interval d) \<longrightarrow> Index c \<noteq> Index d" for c d
  proof (rule ccontr)
    assume "\<not> ?thesis"
    then have eq: "ihi (Interval c) = ilo (Interval d)" using le by simp
    have bc: "ilo (a ! Index c) \<le> ilo (Interval c)" "ihi (Interval c) \<le> ihi (a ! Index c)"
      using fspan_subset_bounds [OF spec(2) [OF c(1)] within(2) [OF c(1)]] c by (auto simp: nth_append)
    have bd: "ilo (a ! Index d) \<le> ilo (Interval d)" "ihi (Interval d) \<le> ihi (a ! Index d)"
      using fspan_subset_bounds [OF spec(2) [OF d(1)] within(2) [OF d(1)]] d by (auto simp: nth_append)
    have lt: "ilo (Interval c) < ihi (Interval c)" "ilo (Interval d) < ihi (Interval d)"
      using spec(2) c d by auto
    from ne eq consider "Index c < Index d" | "Index d < Index c" by linarith
    then show False
    proof cases
      case 1
      then show False using canonical_nth [OF assms(1) 1 d(2)] bc bd eq by simp
    next
      case 2
      then show False using canonical_nth [OF assms(1) 2 c(2)] bc bd eq lt by simp
    qed
  qed
  have "sorted_wrt (\<lambda>c d. ihi (Interval c) < ilo (Interval d)) (filter (\<lambda>c. Index c < length a) covers)"
    by (rule sorted_wrt_mono_rel [OF _ sorted_wrt_filter [OF spec(3)]]) (auto intro: strict)
  then show "canonical (map Interval (filter (\<lambda>c. Index c < length a) covers))"
    using spec(2) by (auto simp: canonical_def separated_def sorted_wrt_map)
  show "set_span (map Interval (filter (\<lambda>c. Index c < length a) covers)) = set_span a - set_span b"
  proof (intro equalityI subsetI)
    fix x assume "x \<in> set_span (map Interval (filter (\<lambda>c. Index c < length a) covers))"
    then obtain c where "c \<in> set covers" "Index c < length a" "x \<in> fspan (Interval c)"
      by (auto simp: set_span_def)
    then show "x \<in> set_span a - set_span b" using spec(4) cut_winner by blast
  next
    fix x assume x: "x \<in> set_span a - set_span b"
    then obtain i where "i < length a" "x \<in> fspan ((a @ b) ! i)"
      by (auto simp: set_span_def in_set_conv_nth nth_append)
    then obtain w where w: "is_winner ?b (a @ b) x w"
      using cut_rank.exists_winner [OF va(2), of i x] by auto
    then have "w < length a"
      using x by (auto simp: is_winner_def set_span_def nth_append split: if_splits)
    moreover obtain c where "c \<in> set covers" "x \<in> fspan (Interval c)" "Index c = w"
      using spec(4) w by blast
    ultimately show "x \<in> set_span (map Interval (filter (\<lambda>c. Index c < length a) covers))"
      by (auto simp: set_span_def)
  qed
qed

lemma Difference_spec:
  assumes "valid_all a" and "valid_all b"
  shows "canonical (Difference a b)" and "set_span (Difference a b) = set_span a - set_span b"
proof -
  note na = Normalize_spec [OF assms(1) [unfolded valid_all_def]]
  note nb = Normalize_spec [OF assms(2) [unfolded valid_all_def]]
  have "canonical (Difference a b) \<and> set_span (Difference a b) = set_span a - set_span b"
  proof (cases "a = [] \<or> b = []")
    case True
    then show ?thesis using na by (auto simp: Difference_def)
  next
    case False
    then show ?thesis
      using Difference_span_canonical [OF na(1) nb(1)] na(2) nb(2)
      by (simp add: Difference_def Let_def)
  qed
  then show "canonical (Difference a b)" "set_span (Difference a b) = set_span a - set_span b" by auto
qed

end
