(* ===== verification/Range_Ops.thy ===== *)
theory Range_Ops
  imports Intervals
begin

section \<open>Range operations (op/op.go)\<close>

text \<open>
  The operation record of the event log, its validation and constructors. A \<open>Kind\<close> is a
  byte in the source; \<open>KindOther n\<close> stands for the values other than the two constants,
  which \<open>Validate\<close> rejects. A fresh identifier is a function of the clock reading and
  the random bytes it is built from, so the constructors take the identifier.
\<close>

datatype kind = KindAdd | KindRemove | KindOther nat

definition Kind_String :: "kind \<Rightarrow> string" where
  "Kind_String k = (if k = KindAdd then ''add'' else ''remove'')"

definition Kind_UnmarshalText :: "string \<Rightarrow> string + kind" where
  "Kind_UnmarshalText text =
     (if text = ''add'' then Inr KindAdd
      else if text = ''remove'' then Inr KindRemove
      else Inl (''invalid op kind '' @ text))"

record op =
  ID :: string
  Kind :: kind
  OpInterval :: interval
  TS :: int64
  Origin :: string

datatype op_error = ErrMissingID | ErrInvalidKind nat | ErrInterval interval_error

definition Op_Validate :: "op \<Rightarrow> op_error option" where
  "Op_Validate o' =
     (if ID o' = [] then Some ErrMissingID
      else case Kind o' of
        KindOther k \<Rightarrow> Some (ErrInvalidKind k)
      | _ \<Rightarrow> map_option ErrInterval (Interval_Validate (OpInterval o')))"

definition New :: "string \<Rightarrow> kind \<Rightarrow> interval \<Rightarrow> op" where
  "New newid k iv = \<lparr>ID = newid, Kind = k, OpInterval = iv, TS = 0, Origin = []\<rparr>"

definition op_Add :: "string \<Rightarrow> float64 \<Rightarrow> float64 \<Rightarrow> op" where
  "op_Add newid s e =
     New newid KindAdd \<lparr>Start = s, End = e, StartBound = Closed, EndBound = Closed\<rparr>"

definition op_AddWithBounds :: "string \<Rightarrow> float64 \<Rightarrow> float64 \<Rightarrow> bound \<Rightarrow> bound \<Rightarrow> op" where
  "op_AddWithBounds newid s e sb eb =
     New newid KindAdd \<lparr>Start = s, End = e, StartBound = sb, EndBound = eb\<rparr>"

definition op_Remove :: "string \<Rightarrow> float64 \<Rightarrow> float64 \<Rightarrow> op" where
  "op_Remove newid s e =
     New newid KindRemove \<lparr>Start = s, End = e, StartBound = Closed, EndBound = Closed\<rparr>"

definition op_RemoveWithBounds :: "string \<Rightarrow> float64 \<Rightarrow> float64 \<Rightarrow> bound \<Rightarrow> bound \<Rightarrow> op" where
  "op_RemoveWithBounds newid s e sb eb =
     New newid KindRemove \<lparr>Start = s, End = e, StartBound = sb, EndBound = eb\<rparr>"

subsection \<open>Fresh identifiers\<close>

text \<open>\<open>strconv.FormatInt\<close> in base 36 of a non-negative number, and \<open>hex.EncodeToString\<close>.\<close>

definition digit36 :: "nat \<Rightarrow> char" where
  "digit36 d = char_of (if d < 10 then 48 + d else 87 + d)"

fun format36 :: "nat \<Rightarrow> string" where
  "format36 t = (if t < 36 then [digit36 t] else format36 (t div 36) @ [digit36 (t mod 36)])"

declare format36.simps [simp del]

definition hex_byte :: "8 word \<Rightarrow> string" where
  "hex_byte b = [digit36 (unat b div 16), digit36 (unat b mod 16)]"

definition newID :: "nat \<Rightarrow> 8 word list \<Rightarrow> string" where
  "newID unixnano bytes = format36 unixnano @ ''-'' @ concat (map hex_byte bytes)"

lemma of_char_digit36: "d < 36 \<Longrightarrow> (of_char (digit36 d) :: nat) = (if d < 10 then 48 + d else 87 + d)"
  by (simp add: digit36_def)

lemma digit36_inj:
  assumes "d < 36" and "e < 36" and "digit36 d = digit36 e"
  shows "d = e"
proof -
  have "(if d < 10 then 48 + d else 87 + d) = (if e < 10 then 48 + e else 87 + e)"
    using of_char_digit36 [OF assms(1)] of_char_digit36 [OF assms(2)] assms(3) by metis
  then show ?thesis using assms(1,2) by (auto split: if_splits)
qed

lemma digit36_not_dash: "d < 36 \<Longrightarrow> digit36 d \<noteq> CHR ''-''"
proof
  assume "d < 36" and "digit36 d = CHR ''-''"
  then have "(of_char (digit36 d) :: nat) = 45" by simp
  with of_char_digit36 [OF \<open>d < 36\<close>] show False by (simp split: if_splits)
qed

lemma format36_no_dash: "CHR ''-'' \<notin> set (format36 t)"
proof (induction t rule: format36.induct)
  case (1 t)
  then show ?case
    using digit36_not_dash [of t] digit36_not_dash [of "t mod 36"]
    by (subst format36.simps) auto
qed

lemma format36_inj: "format36 s = format36 t \<Longrightarrow> s = t"
proof (induction s arbitrary: t rule: format36.induct)
  case (1 s)
  have ne: "format36 x \<noteq> []" for x by (subst format36.simps) simp
  show ?case
  proof (cases "s < 36")
    case True
    then have "t < 36"
      using "1.prems" ne [of "t div 36"] format36.simps [of s] format36.simps [of t]
      by (cases "format36 (t div 36)") (auto split: if_splits)
    then show ?thesis
      using True "1.prems" digit36_inj by (simp add: format36.simps)
  next
    case False
    then have t: "\<not> t < 36"
      using "1.prems" ne [of "s div 36"] format36.simps [of s] format36.simps [of t]
      by (cases "format36 (s div 36)") (auto split: if_splits)
    then have "format36 (s div 36) = format36 (t div 36)" "digit36 (s mod 36) = digit36 (t mod 36)"
      using False "1.prems" format36.simps [of s] format36.simps [of t] by auto
    then have "s div 36 = t div 36" "s mod 36 = t mod 36"
      using "1.IH" False digit36_inj [of "s mod 36" "t mod 36"] by auto
    then show ?thesis by (metis div_mult_mod_eq)
  qed
qed

lemma hex_byte_inj: "hex_byte a = hex_byte b \<Longrightarrow> a = b"
proof -
  assume eq: "hex_byte a = hex_byte b"
  have "unat c div 16 < 16" for c :: "8 word"
  proof -
    have "unat c < 2 ^ LENGTH(8)" by (rule unsigned_less)
    then show ?thesis by (simp add: less_mult_imp_div_less)
  qed
  then have "unat c div 16 < 36" for c :: "8 word" by (rule order.strict_trans) simp
  with eq have "unat a div 16 = unat b div 16" "unat a mod 16 = unat b mod 16"
    using digit36_inj [of "unat a div 16" "unat b div 16"] digit36_inj [of "unat a mod 16" "unat b mod 16"]
    by (simp_all add: hex_byte_def)
  then have "unat a = unat b" by (metis div_mult_mod_eq)
  then show "a = b" by (simp add: word_unat_eq_iff)
qed

lemma hex_inj: "concat (map hex_byte xs) = concat (map hex_byte ys) \<Longrightarrow> xs = ys"
proof (induction xs arbitrary: ys)
  case Nil
  then show ?case by (cases ys) (auto simp: hex_byte_def)
next
  case (Cons x xs)
  then obtain y ys' where ys: "ys = y # ys'" by (cases ys) (auto simp: hex_byte_def)
  then have "hex_byte x = hex_byte y" and "concat (map hex_byte xs) = concat (map hex_byte ys')"
    using Cons.prems by (simp_all add: hex_byte_def [of x] hex_byte_def [of y])
  then show ?case using Cons.IH hex_byte_inj ys by auto
qed

lemma newID_parts:
  assumes "newID t bs = newID u cs"
  shows "t = u \<and> bs = cs"
proof -
  have split: "takeWhile (\<lambda>c. c \<noteq> CHR ''-'') (newID t bs) = format36 t" for t bs
    using format36_no_dash [of t] by (auto simp: newID_def takeWhile_tail)
  then have "format36 t = format36 u" using assms by metis
  then have "t = u" by (rule format36_inj)
  then show ?thesis using assms hex_inj by (auto simp: newID_def)
qed

subsection \<open>Well-formed operations\<close>

definition valid_op :: "op \<Rightarrow> bool" where
  "valid_op o' \<longleftrightarrow> Op_Validate o' = None"

lemma valid_op_iff:
  "valid_op o' \<longleftrightarrow> ID o' \<noteq> [] \<and> (Kind o' = KindAdd \<or> Kind o' = KindRemove) \<and> valid_iv (OpInterval o')"
  by (auto simp: valid_op_def Op_Validate_def valid_iv_def split: kind.splits)

end
