(* ===== verification/Strategies.thy ===== *)
theory Strategies
  imports Sweeps Range_Ops
begin

section \<open>Conflict resolution (strategy/strategy.go)\<close>

text \<open>
  The strategies and \<open>Materialize\<close>, which projects a list of operations into a canonical
  interval set. LWW and FWW go through winner-annotated segments computed by the sweep;
  the other two through set difference and normalization. The specification is pointwise:
  \<open>decides\<close> for LWW and FWW (the best operation covering a point), union and difference
  of the operations' spans for the others. \<open>UnknownStrategy n\<close> stands for the byte values
  that name no strategy.
\<close>

datatype strategy = LWW | FWW | AdditiveWins | GrowOnly | UnknownStrategy nat

definition names :: "(strategy \<times> string) list" where
  "names = [(LWW, ''lww''), (FWW, ''fww''), (AdditiveWins, ''additive-wins''), (GrowOnly, ''grow-only'')]"

text \<open>The decimal rendering \<open>%d\<close>, and the byte value of a strategy.\<close>

fun format10 :: "nat \<Rightarrow> string" where
  "format10 t = (if t < 10 then [digit36 t] else format10 (t div 10) @ [digit36 (t mod 10)])"

declare format10.simps [simp del]

fun strategy_byte :: "strategy \<Rightarrow> nat" where
  "strategy_byte LWW = 0"
| "strategy_byte FWW = 1"
| "strategy_byte AdditiveWins = 2"
| "strategy_byte GrowOnly = 3"
| "strategy_byte (UnknownStrategy n) = n"

definition Strategy_String :: "strategy \<Rightarrow> string" where
  "Strategy_String s =
     (case map_of names s of Some name \<Rightarrow> name
      | None \<Rightarrow> ''unknown('' @ format10 (strategy_byte s) @ '')'')"

datatype strategy_error = ErrUnknownStrategy string

definition Strategy_MarshalText :: "strategy \<Rightarrow> strategy_error + string" where
  "Strategy_MarshalText s =
     (case map_of names s of None \<Rightarrow> Inl (ErrUnknownStrategy []) | Some _ \<Rightarrow> Inr (Strategy_String s))"

definition Strategy_Parse :: "string \<Rightarrow> strategy_error + strategy" where
  "Strategy_Parse name =
     (case find (\<lambda>(s, n). n = name) names of
        Some (s, _) \<Rightarrow> Inr s
      | None \<Rightarrow> Inl (ErrUnknownStrategy name))"

definition Strategy_UnmarshalText :: "string \<Rightarrow> strategy_error + strategy" where
  "Strategy_UnmarshalText text =
     (case Strategy_Parse text of Inl e \<Rightarrow> Inl e | Inr parsed \<Rightarrow> Inr parsed)"

subsection \<open>Winners and segments\<close>

record winner =
  W_TS :: int64
  W_ID :: string
  W_Kind :: kind

record segment =
  SegInterval :: interval
  Winner :: winner

definition better :: "strategy \<Rightarrow> winner \<Rightarrow> winner \<Rightarrow> bool" where
  "better s a b =
     (if s = FWW then (if W_TS a \<noteq> W_TS b then i_lt (W_TS a) (W_TS b) else W_ID a < W_ID b)
      else if W_TS a \<noteq> W_TS b then i_lt (W_TS b) (W_TS a) else W_ID b < W_ID a)"

definition seg_normalize :: "strategy \<Rightarrow> segment list \<Rightarrow> segment list" where
  "seg_normalize s segs =
     (if segs = [] then []
      else map (\<lambda>c. \<lparr>SegInterval = Interval c, Winner = Winner (segs ! Index c)\<rparr>)
        (Sweep (map SegInterval segs) (\<lambda>i j. better s (Winner (segs ! i)) (Winner (segs ! j)))))"

definition op_segment :: "op \<Rightarrow> segment" where
  "op_segment o' =
     \<lparr>SegInterval = OpInterval o', Winner = \<lparr>W_TS = TS o', W_ID = ID o', W_Kind = Kind o'\<rparr>\<rparr>"

definition Segments :: "strategy \<Rightarrow> op list \<Rightarrow> segment list" where
  "Segments s ops =
     (if s \<noteq> LWW \<and> s \<noteq> FWW then [] else seg_normalize s (map op_segment ops))"

definition CombineSegments :: "strategy \<Rightarrow> segment list \<Rightarrow> segment list \<Rightarrow> segment list" where
  "CombineSegments s a b = seg_normalize s (a @ b)"

definition ToIntervals :: "segment list \<Rightarrow> interval list" where
  "ToIntervals segs =
     Normalize (map SegInterval (filter (\<lambda>seg. W_Kind (Winner seg) = KindAdd) segs))"

definition IntervalsOf :: "op list \<Rightarrow> kind \<Rightarrow> interval list" where
  "IntervalsOf ops k = Normalize (map OpInterval (filter (\<lambda>o'. Kind o' = k) ops))"

definition Materialize :: "strategy \<Rightarrow> op list \<Rightarrow> interval list" where
  "Materialize s ops =
     (case s of
        LWW \<Rightarrow> ToIntervals (Segments s ops)
      | FWW \<Rightarrow> ToIntervals (Segments s ops)
      | AdditiveWins \<Rightarrow> Difference (IntervalsOf ops KindAdd) (IntervalsOf ops KindRemove)
      | GrowOnly \<Rightarrow> IntervalsOf ops KindAdd
      | UnknownStrategy _ \<Rightarrow> [])"

subsection \<open>Priorities\<close>

definition earlier :: "winner \<Rightarrow> winner \<Rightarrow> bool" where
  "earlier a b \<longleftrightarrow> sint (W_TS a) < sint (W_TS b) \<or> (sint (W_TS a) = sint (W_TS b) \<and> W_ID a < W_ID b)"

lemma better_iff: "better s a b \<longleftrightarrow> (if s = FWW then earlier a b else earlier b a)"
  by (auto simp: better_def earlier_def i_lt_def sint_eq_iff)

lemma earlier_asym: "earlier a b \<Longrightarrow> \<not> earlier b a"
  by (auto simp: earlier_def)

lemma earlier_negtrans: "earlier a c \<Longrightarrow> earlier a b \<or> earlier b c"
  by (auto simp: earlier_def)

lemma better_asym: "better s a b \<Longrightarrow> \<not> better s b a"
  using earlier_asym by (auto simp: better_iff split: if_splits)

lemma better_negtrans: "better s a c \<Longrightarrow> better s a b \<or> better s b c"
  using earlier_negtrans by (auto simp: better_iff split: if_splits)

lemma better_tie: "\<not> better s a b \<Longrightarrow> \<not> better s b a \<Longrightarrow> W_TS a = W_TS b \<and> W_ID a = W_ID b"
  using i_lt_total by (auto simp: better_def split: if_splits)

interpretation seg_rank: ranked "\<lambda>i j. better s (f i) (f j)" n for s f n
  by unfold_locales (use better_asym better_negtrans in blast)+

subsection \<open>Segments decide points\<close>

definition valid_segs :: "segment list \<Rightarrow> bool" where
  "valid_segs segs \<longleftrightarrow> (\<forall>seg\<in>set segs. valid_iv (SegInterval seg))"

text \<open>Equal priorities are the same winner: operations with one identifier are one operation.\<close>

definition consistent :: "winner set \<Rightarrow> bool" where
  "consistent W \<longleftrightarrow> (\<forall>a\<in>W. \<forall>b\<in>W. W_TS a = W_TS b \<longrightarrow> W_ID a = W_ID b \<longrightarrow> a = b)"

definition seg_at :: "segment list \<Rightarrow> finePoint \<Rightarrow> winner \<Rightarrow> bool" where
  "seg_at segs x w \<longleftrightarrow> (\<exists>seg\<in>set segs. x \<in> fspan (SegInterval seg) \<and> Winner seg = w)"

definition best_at :: "strategy \<Rightarrow> segment list \<Rightarrow> finePoint \<Rightarrow> winner \<Rightarrow> bool" where
  "best_at s segs x w \<longleftrightarrow> seg_at segs x w \<and> (\<forall>w'. seg_at segs x w' \<longrightarrow> \<not> better s w' w)"

lemma seg_at_append: "seg_at (a @ b) x w \<longleftrightarrow> seg_at a x w \<or> seg_at b x w"
  by (auto simp: seg_at_def)

lemma seg_at_winner: "seg_at segs x w \<Longrightarrow> w \<in> Winner ` set segs"
  by (auto simp: seg_at_def)

lemma winner_index:
  assumes "consistent (Winner ` set segs)"
  shows "(\<exists>i. is_winner (\<lambda>i j. better s (Winner (segs ! i)) (Winner (segs ! j))) (map SegInterval segs) x i
      \<and> Winner (segs ! i) = w) \<longleftrightarrow> best_at s segs x w"
proof
  assume "\<exists>i. is_winner (\<lambda>i j. better s (Winner (segs ! i)) (Winner (segs ! j))) (map SegInterval segs) x i
      \<and> Winner (segs ! i) = w"
  then show "best_at s segs x w"
    by (fastforce simp: is_winner_def best_at_def seg_at_def in_set_conv_nth coverHeap_Less_def
        split: if_splits)
next
  assume b: "best_at s segs x w"
  then obtain k where k: "k < length segs" "x \<in> fspan (SegInterval (segs ! k))" "Winner (segs ! k) = w"
    by (auto simp: best_at_def seg_at_def in_set_conv_nth)
  then obtain i where i: "is_winner (\<lambda>i j. better s (Winner (segs ! i)) (Winner (segs ! j)))
      (map SegInterval segs) x i"
    using seg_rank.exists_winner [of "map SegInterval segs" "length segs" k x s "\<lambda>i. Winner (segs ! i)"]
    by auto
  then have il: "i < length segs" "x \<in> fspan (SegInterval (segs ! i))" by (auto simp: is_winner_def)
  have "\<not> better s w (Winner (segs ! i))"
    using i k by (auto simp: is_winner_def coverHeap_Less_def split: if_splits)
  moreover have "\<not> better s (Winner (segs ! i)) w"
    using b il(2) nth_mem [OF il(1)] unfolding best_at_def seg_at_def by blast
  ultimately have "Winner (segs ! i) = w"
    using better_tie [of s w "Winner (segs ! i)"] assms k il
    unfolding consistent_def by (metis image_eqI nth_mem)
  then show "\<exists>i. is_winner (\<lambda>i j. better s (Winner (segs ! i)) (Winner (segs ! j))) (map SegInterval segs) x i
      \<and> Winner (segs ! i) = w" using i by blast
qed

lemma seg_normalize_spec:
  assumes "valid_segs segs"
  shows "valid_segs (seg_normalize s segs)"
    and "Winner ` set (seg_normalize s segs) \<subseteq> Winner ` set segs"
    and "consistent (Winner ` set segs) \<Longrightarrow> seg_at (seg_normalize s segs) x w \<longleftrightarrow> best_at s segs x w"
proof -
  let ?b = "\<lambda>i j. better s (Winner (segs ! i)) (Winner (segs ! j))"
  have va: "valid_all (map SegInterval segs)" "length (map SegInterval segs) = length segs"
    using assms by (auto simp: valid_all_def valid_segs_def)
  note spec = seg_rank.Sweep_spec [OF va, where s = s and f = "\<lambda>i. Winner (segs ! i)"]
  note within = seg_rank.Sweep_piece_within [OF va, where s = s and f = "\<lambda>i. Winner (segs ! i)"]
  show "valid_segs (seg_normalize s segs)"
    using spec(2) by (auto simp: valid_segs_def seg_normalize_def)
  show "Winner ` set (seg_normalize s segs) \<subseteq> Winner ` set segs"
    using within(1) by (auto simp: seg_normalize_def)
  assume c: "consistent (Winner ` set segs)"
  have "seg_at (seg_normalize s segs) x w \<longleftrightarrow>
    (\<exists>i. (\<exists>c\<in>set (Sweep (map SegInterval segs) ?b). x \<in> fspan (Interval c) \<and> Index c = i) \<and> Winner (segs ! i) = w)"
  proof (cases "segs = []")
    case True
    then show ?thesis using spec(4) by (auto simp: seg_normalize_def seg_at_def is_winner_def)
  next
    case False
    then show ?thesis by (auto simp: seg_normalize_def seg_at_def)
  qed
  also have "\<dots> \<longleftrightarrow> best_at s segs x w"
    unfolding spec(4) winner_index [OF c] ..
  finally show "seg_at (seg_normalize s segs) x w \<longleftrightarrow> best_at s segs x w" .
qed

lemma exists_best_at: "seg_at segs x w \<Longrightarrow> \<exists>w'. best_at s segs x w'"
proof -
  assume "seg_at segs x w"
  then obtain k where k: "k < length segs" "x \<in> fspan (SegInterval (segs ! k))"
    by (auto simp: seg_at_def in_set_conv_nth)
  then obtain i where "is_winner (\<lambda>i j. better s (Winner (segs ! i)) (Winner (segs ! j)))
      (map SegInterval segs) x i"
    using seg_rank.exists_winner [of "map SegInterval segs" "length segs" k x s "\<lambda>i. Winner (segs ! i)"]
    by auto
  then have "best_at s segs x (Winner (segs ! i))"
    by (fastforce simp: is_winner_def best_at_def seg_at_def in_set_conv_nth coverHeap_Less_def
        split: if_splits)
  then show ?thesis by blast
qed

lemma ToIntervals_spec:
  assumes "valid_segs segs"
  shows "canonical (ToIntervals segs)"
    and "set_span (ToIntervals segs) = {x. \<exists>w. seg_at segs x w \<and> W_Kind w = KindAdd}"
proof -
  have v: "\<forall>iv\<in>set (map SegInterval (filter (\<lambda>seg. W_Kind (Winner seg) = KindAdd) segs)). valid_iv iv"
    using assms by (auto simp: valid_segs_def)
  show "canonical (ToIntervals segs)"
    unfolding ToIntervals_def using v by (rule Normalize_spec(1))
  show "set_span (ToIntervals segs) = {x. \<exists>w. seg_at segs x w \<and> W_Kind w = KindAdd}"
    unfolding ToIntervals_def Normalize_spec(2) [OF v] by (auto simp: set_span_def seg_at_def)
qed

subsection \<open>What a list of operations means\<close>

definition valid_ops :: "op list \<Rightarrow> bool" where
  "valid_ops ops \<longleftrightarrow> (\<forall>o'\<in>set ops. valid_iv (OpInterval o'))"

definition unique_ids :: "op set \<Rightarrow> bool" where
  "unique_ids O' \<longleftrightarrow> inj_on ID O'"

definition winnerOf :: "op \<Rightarrow> winner" where
  "winnerOf o' = \<lparr>W_TS = TS o', W_ID = ID o', W_Kind = Kind o'\<rparr>"

text \<open>The operation that decides a point: it covers the point and none covering it is better.\<close>

definition decides :: "strategy \<Rightarrow> op set \<Rightarrow> finePoint \<Rightarrow> op \<Rightarrow> bool" where
  "decides s O' x o' \<longleftrightarrow> o' \<in> O' \<and> x \<in> fspan (OpInterval o') \<and>
     (\<forall>p\<in>O'. x \<in> fspan (OpInterval p) \<longrightarrow> \<not> better s (winnerOf p) (winnerOf o'))"

definition kind_span :: "op set \<Rightarrow> kind \<Rightarrow> finePoint set" where
  "kind_span O' k = (\<Union>o'\<in>{o'\<in>O'. Kind o' = k}. fspan (OpInterval o'))"

text \<open>The abstract specification of \<open>Materialize\<close>: a set of points for a set of operations.\<close>

fun view_span :: "strategy \<Rightarrow> op set \<Rightarrow> finePoint set" where
  "view_span AdditiveWins O' = kind_span O' KindAdd - kind_span O' KindRemove"
| "view_span GrowOnly O' = kind_span O' KindAdd"
| "view_span (UnknownStrategy _) O' = {}"
| "view_span s O' = {x. \<exists>o'. decides s O' x o' \<and> Kind o' = KindAdd}"

lemma Winner_op_segment [simp]: "Winner (op_segment o') = winnerOf o'"
  by (simp add: op_segment_def winnerOf_def)

lemma consistent_ops: "unique_ids O' \<Longrightarrow> consistent (winnerOf ` O')"
  by (auto simp: unique_ids_def consistent_def winnerOf_def inj_on_def)

lemma valid_segs_ops: "valid_ops ops \<Longrightarrow> valid_segs (map op_segment ops)"
  by (auto simp: valid_ops_def valid_segs_def op_segment_def)

lemma best_at_ops:
  "best_at s (map op_segment ops) x w \<longleftrightarrow> (\<exists>o'. decides s (set ops) x o' \<and> winnerOf o' = w)"
  by (auto simp: best_at_def seg_at_def decides_def op_segment_def winnerOf_def)

lemma IntervalsOf_spec:
  assumes "valid_ops ops"
  shows "canonical (IntervalsOf ops k)" and "set_span (IntervalsOf ops k) = kind_span (set ops) k"
proof -
  have v: "\<forall>iv\<in>set (map OpInterval (filter (\<lambda>o'. Kind o' = k) ops)). valid_iv iv"
    using assms by (auto simp: valid_ops_def)
  show "canonical (IntervalsOf ops k)" unfolding IntervalsOf_def using v by (rule Normalize_spec(1))
  show "set_span (IntervalsOf ops k) = kind_span (set ops) k"
    unfolding IntervalsOf_def Normalize_spec(2) [OF v] by (auto simp: set_span_def kind_span_def)
qed

text \<open>
  A segment list represents a list of operations when it is well-formed and labels each
  point with the winner of the operation that decides it.
\<close>

definition represents :: "strategy \<Rightarrow> segment list \<Rightarrow> op list \<Rightarrow> bool" where
  "represents s segs ops \<longleftrightarrow> valid_segs segs \<and> Winner ` set segs \<subseteq> winnerOf ` set ops \<and>
     (\<forall>x w. seg_at segs x w \<longleftrightarrow> best_at s (map op_segment ops) x w)"

lemma represents_Segments:
  assumes "s = LWW \<or> s = FWW" and "valid_ops ops" and "unique_ids (set ops)"
  shows "represents s (Segments s ops) ops"
proof -
  note v = valid_segs_ops [OF assms(2)]
  have "consistent (Winner ` set (map op_segment ops))"
    using consistent_ops [OF assms(3)] by (simp add: image_image)
  then show ?thesis
    using seg_normalize_spec [OF v, of s] assms(1)
    by (auto simp: represents_def Segments_def image_image)
qed

lemma best_of_bests:
  assumes "\<And>w. seg_at a x w \<longleftrightarrow> best_at s A x w" and "\<And>w. seg_at b x w \<longleftrightarrow> best_at s B x w"
  shows "best_at s (a @ b) x w \<longleftrightarrow> best_at s (A @ B) x w"
proof -
  have beaten: "\<not> better s v w"
    if at: "seg_at C x v" and nb: "\<And>u. best_at s C x u \<Longrightarrow> \<not> better s u w" for C v
  proof -
    obtain u where u: "best_at s C x u" using exists_best_at [OF at] by blast
    then have "\<not> better s v u" "\<not> better s u w" using at nb by (auto simp: best_at_def)
    then show ?thesis using better_negtrans by blast
  qed
  show ?thesis
  proof
    assume h: "best_at s (a @ b) x w"
    then have "best_at s A x w \<or> best_at s B x w" using assms by (auto simp: best_at_def seg_at_append)
    moreover have "\<not> better s v w" if "seg_at (A @ B) x v" for v
      using that h assms beaten [of A v] beaten [of B v] by (auto simp: best_at_def seg_at_append)
    ultimately show "best_at s (A @ B) x w" by (auto simp: best_at_def seg_at_append)
  next
    assume h: "best_at s (A @ B) x w"
    then have "seg_at a x w \<or> seg_at b x w" using assms by (auto simp: best_at_def seg_at_append)
    then show "best_at s (a @ b) x w" using h assms by (auto simp: best_at_def seg_at_append)
  qed
qed

lemma represents_CombineSegments:
  assumes "represents s a A" and "represents s b B" and "unique_ids (set A \<union> set B)"
  shows "represents s (CombineSegments s a b) (A @ B)"
proof -
  have v: "valid_segs (a @ b)" using assms(1,2) by (auto simp: represents_def valid_segs_def)
  have sub: "Winner ` set (a @ b) \<subseteq> winnerOf ` (set A \<union> set B)"
    using assms(1,2) by (auto simp: represents_def)
  then have "consistent (Winner ` set (a @ b))"
    using consistent_ops [OF assms(3)] unfolding consistent_def by blast
  then have "seg_at (CombineSegments s a b) x w \<longleftrightarrow> best_at s (map op_segment (A @ B)) x w" for x w
    using seg_normalize_spec(3) [OF v] best_of_bests [of a x s "map op_segment A" b "map op_segment B" w]
      assms(1,2) by (simp add: CombineSegments_def represents_def)
  then show ?thesis
    using seg_normalize_spec(1,2) [OF v, of s] sub by (auto simp: represents_def CombineSegments_def)
qed

lemma represents_ToIntervals:
  assumes "represents s segs ops"
  shows "canonical (ToIntervals segs)"
    and "set_span (ToIntervals segs) = {x. \<exists>o'. decides s (set ops) x o' \<and> Kind o' = KindAdd}"
proof -
  show "canonical (ToIntervals segs)" using assms ToIntervals_spec(1) by (simp add: represents_def)
  have "W_Kind (winnerOf o') = Kind o'" for o' by (simp add: winnerOf_def)
  then show "set_span (ToIntervals segs) = {x. \<exists>o'. decides s (set ops) x o' \<and> Kind o' = KindAdd}"
    using assms ToIntervals_spec(2) [of segs] best_at_ops unfolding represents_def by auto
qed

lemma Materialize_spec:
  assumes "valid_ops ops" and "unique_ids (set ops)"
  shows "canonical (Materialize s ops)" and "set_span (Materialize s ops) = view_span s (set ops)"
proof -
  have "canonical (Materialize s ops) \<and> set_span (Materialize s ops) = view_span s (set ops)"
  proof (cases s)
    case AdditiveWins
    have "valid_all (IntervalsOf ops k)" for k
      using IntervalsOf_spec(1) [OF assms(1)] by (auto simp: canonical_def valid_all_def)
    then show ?thesis
      using AdditiveWins Difference_spec IntervalsOf_spec [OF assms(1)] by (simp add: Materialize_def)
  qed (use represents_ToIntervals [OF represents_Segments] IntervalsOf_spec [OF assms(1)] assms in
      \<open>auto simp: Materialize_def\<close>)
  then show "canonical (Materialize s ops)" "set_span (Materialize s ops) = view_span s (set ops)"
    by auto
qed

text \<open>The view is a function of the set of operations, whatever their order or multiplicity.\<close>

lemma Materialize_cong:
  assumes "valid_ops ops" and "unique_ids (set ops)" and "set ops = set ops'"
  shows "Materialize s ops = Materialize s ops'"
proof (rule canonical_span_unique)
  have "valid_ops ops'" "unique_ids (set ops')" using assms by (auto simp: valid_ops_def)
  then show "canonical (Materialize s ops')" "set_span (Materialize s ops) = set_span (Materialize s ops')"
    using Materialize_spec assms by auto
qed (use Materialize_spec assms in auto)

lemma ToIntervals_Materialize:
  assumes "s = LWW \<or> s = FWW" and "represents s segs ops" and "valid_ops ops" and "unique_ids (set ops)"
  shows "ToIntervals segs = Materialize s ops"
  using assms Materialize_spec [OF assms(3,4), of s] represents_ToIntervals [OF assms(2)]
  by (intro canonical_span_unique) auto

end
