(* ===== verification/Json_Codec.thy ===== *)
theory Json_Codec
  imports Strategies
begin

section \<open>The stored form of operations and snapshots (encoding/json, struct tags)\<close>

text \<open>
  Operations and snapshots are stored as JSON. A JSON document is its syntax tree here
  (\<open>json\<close>), with the number tokens that denote integers and floats apart; the text of a
  tree, which only matters for its length, is \<open>json_text\<close> with the rendering of a float
  as a parameter. \<open>rawjson\<close> is a byte string that is a JSON document or is not.

  For each struct of the 1-D packages there is the encoder that its field tags prescribe
  (\<open>omitempty\<close> included; a struct with a non-finite float has no encoding) and the
  decoder: fields are looked up by name, the last of several wins, a missing field or
  \<open>null\<close> leaves the zero value, a value of the wrong type is an error. The round-trip
  lemmas at the end are what the stores and the engine rely on. A nil and an empty slice are
  one list here.
\<close>

subsection \<open>Documents\<close>

text \<open>
  \<open>mjson\<close> is the document of a \<open>json.RawMessage\<close> that is never decoded into a struct (a box's metadata):
  its number tokens stay text. The tree of a document follows the struct it is decoded to and has \<open>JRaw\<close>
  exactly where that struct keeps such a message.
\<close>

datatype mjson = MNull | MBool bool | MNum string | MStr string | MArr "mjson list"
  | MObj "(string \<times> mjson) list"

datatype json = JNull | JBool bool | JInt int | JFloat float64 | JStr string
  | JArr "json list" | JObj "(string \<times> json) list" | JRaw mjson

datatype rawjson = Valid json | Invalid string

subsubsection \<open>Text\<close>

definition hex4 :: "nat \<Rightarrow> string" where
  "hex4 n = [digit36 (n div 4096 mod 16), digit36 (n div 256 mod 16), digit36 (n div 16 mod 16), digit36 (n mod 16)]"

text \<open>The escapes \<open>encoding/json\<close> applies to ASCII text, the HTML-relevant ones included.\<close>

definition escape_char :: "char \<Rightarrow> string" where
  "escape_char c =
     (let n = of_char c :: nat in
      if n = 34 \<or> n = 92 then [char_of (92 :: nat), c]
      else if n = 8 then [char_of (92 :: nat), CHR ''b'']
      else if n = 9 then [char_of (92 :: nat), CHR ''t'']
      else if n = 10 then [char_of (92 :: nat), CHR ''n'']
      else if n = 12 then [char_of (92 :: nat), CHR ''f'']
      else if n = 13 then [char_of (92 :: nat), CHR ''r'']
      else if n < 32 \<or> n = 38 \<or> n = 60 \<or> n = 62 then [char_of (92 :: nat), CHR ''u''] @ hex4 n
      else [c])"

definition quote :: "string \<Rightarrow> string" where
  "quote s = [char_of (34 :: nat)] @ concat (map escape_char s) @ [char_of (34 :: nat)]"

definition int_text :: "int \<Rightarrow> string" where
  "int_text i = (if i < 0 then ''-'' @ format10 (nat (- i)) else format10 (nat i))"

definition commas :: "string list \<Rightarrow> string" where
  "commas ss = (case ss of [] \<Rightarrow> [] | t # ts \<Rightarrow> t @ concat (map (\<lambda>u. '','' @ u) ts))"

fun mjson_text :: "mjson \<Rightarrow> string" where
  "mjson_text MNull = ''null''"
| "mjson_text (MBool b) = (if b then ''true'' else ''false'')"
| "mjson_text (MNum s) = s"
| "mjson_text (MStr s) = quote s"
| "mjson_text (MArr js) = ''['' @ commas (map mjson_text js) @ '']''"
| "mjson_text (MObj fs) =
     ''{'' @ commas (map (\<lambda>kv. quote (fst kv) @ '':'' @ mjson_text (snd kv)) fs) @ ''}''"

fun json_text :: "(float64 \<Rightarrow> string) \<Rightarrow> json \<Rightarrow> string" where
  "json_text fmtf JNull = ''null''"
| "json_text fmtf (JBool b) = (if b then ''true'' else ''false'')"
| "json_text fmtf (JInt i) = int_text i"
| "json_text fmtf (JFloat x) = fmtf x"
| "json_text fmtf (JStr s) = quote s"
| "json_text fmtf (JArr js) = ''['' @ commas (map (json_text fmtf) js) @ '']''"
| "json_text fmtf (JObj fs) =
     ''{'' @ commas (map (\<lambda>kv. quote (fst kv) @ '':'' @ json_text fmtf (snd kv)) fs) @ ''}''"
| "json_text fmtf (JRaw m) = mjson_text m"

subsubsection \<open>Decoding\<close>

datatype json_error = UnexpectedEnd | WrongType | BadText string

definition ebind :: "'e + 'a \<Rightarrow> ('a \<Rightarrow> 'e + 'b) \<Rightarrow> 'e + 'b" where
  "ebind r f = (case r of Inl e \<Rightarrow> Inl e | Inr x \<Rightarrow> f x)"

lemma ebind_simps [simp]: "ebind (Inl e) f = Inl e" "ebind (Inr x) f = f x"
  by (simp_all add: ebind_def)

fun emap :: "('a \<Rightarrow> 'e + 'b) \<Rightarrow> 'a list \<Rightarrow> 'e + 'b list" where
  "emap f [] = Inr []"
| "emap f (x # xs) = ebind (f x) (\<lambda>y. ebind (emap f xs) (\<lambda>ys. Inr (y # ys)))"

fun all_some :: "'a option list \<Rightarrow> 'a list option" where
  "all_some [] = Some []"
| "all_some (None # xs) = None"
| "all_some (Some x # xs) = map_option (\<lambda>ys. x # ys) (all_some xs)"

definition get_field :: "string \<Rightarrow> (string \<times> json) list \<Rightarrow> json" where
  "get_field k fs = (case map_of (rev fs) k of Some j \<Rightarrow> j | None \<Rightarrow> JNull)"

fun get_obj :: "json \<Rightarrow> json_error + (string \<times> json) list" where
  "get_obj (JObj fs) = Inr fs"
| "get_obj JNull = Inr []"
| "get_obj _ = Inl WrongType"

fun get_string :: "json \<Rightarrow> json_error + string" where
  "get_string (JStr s) = Inr s"
| "get_string JNull = Inr []"
| "get_string _ = Inl WrongType"

fun get_int64 :: "json \<Rightarrow> json_error + int" where
  "get_int64 (JInt i) = (if - (2 ^ 63) \<le> i \<and> i < 2 ^ 63 then Inr i else Inl WrongType)"
| "get_int64 JNull = Inr 0"
| "get_int64 _ = Inl WrongType"

text \<open>Log versions are unbounded in the model, so their decoder does not check the range.\<close>

fun get_version :: "json \<Rightarrow> json_error + int" where
  "get_version (JInt i) = Inr i"
| "get_version JNull = Inr 0"
| "get_version _ = Inl WrongType"

fun get_float :: "json \<Rightarrow> json_error + float64" where
  "get_float (JFloat x) = Inr x"
| "get_float (JInt i) = Inr (Fin (of_int i))"
| "get_float JNull = Inr (Fin 0)"
| "get_float _ = Inl WrongType"

fun get_arr :: "json \<Rightarrow> json_error + json list" where
  "get_arr (JArr js) = Inr js"
| "get_arr JNull = Inr []"
| "get_arr _ = Inl WrongType"

text \<open>A field with \<open>UnmarshalText\<close>: \<open>null\<close> leaves the zero value.\<close>

fun get_text :: "(string \<Rightarrow> 'e + 'a) \<Rightarrow> 'a \<Rightarrow> json \<Rightarrow> json_error + 'a" where
  "get_text f z (JStr s) = (case f s of Inl _ \<Rightarrow> Inl (BadText s) | Inr x \<Rightarrow> Inr x)"
| "get_text f z JNull = Inr z"
| "get_text f z _ = Inl WrongType"

definition put_float :: "float64 \<Rightarrow> json option" where
  "put_float x = (if is_fin x then Some (JFloat x) else None)"

definition omit_if :: "bool \<Rightarrow> string \<Rightarrow> json \<Rightarrow> (string \<times> json) list" where
  "omit_if c k j = (if c then [] else [(k, j)])"

subsection \<open>The structs\<close>

definition put_interval :: "interval \<Rightarrow> json option" where
  "put_interval iv =
     (case (put_float (Start iv), put_float (End iv)) of
        (Some s, Some e) \<Rightarrow>
          Some (JObj [(''start'', s), (''end'', e),
            (''startBound'', JStr (Bound_String (StartBound iv))),
            (''endBound'', JStr (Bound_String (EndBound iv)))])
      | _ \<Rightarrow> None)"

definition get_interval :: "json \<Rightarrow> json_error + interval" where
  "get_interval j =
     ebind (get_obj j) (\<lambda>fs.
     ebind (get_float (get_field ''start'' fs)) (\<lambda>s.
     ebind (get_float (get_field ''end'' fs)) (\<lambda>e.
     ebind (get_text Bound_UnmarshalText Closed (get_field ''startBound'' fs)) (\<lambda>sb.
     ebind (get_text Bound_UnmarshalText Closed (get_field ''endBound'' fs)) (\<lambda>eb.
       Inr \<lparr>Start = s, End = e, StartBound = sb, EndBound = eb\<rparr>)))))"

definition put_op :: "op \<Rightarrow> json option" where
  "put_op o' =
     map_option (\<lambda>iv. JObj ([(''id'', JStr (ID o')), (''kind'', JStr (Kind_String (Kind o'))),
         (''interval'', iv), (''ts'', JInt (sint (TS o')))] @
         omit_if (Origin o' = []) ''origin'' (JStr (Origin o'))))
       (put_interval (OpInterval o'))"

definition get_op :: "json \<Rightarrow> json_error + op" where
  "get_op j =
     ebind (get_obj j) (\<lambda>fs.
     ebind (get_string (get_field ''id'' fs)) (\<lambda>i.
     ebind (get_text Kind_UnmarshalText KindAdd (get_field ''kind'' fs)) (\<lambda>k.
     ebind (get_interval (get_field ''interval'' fs)) (\<lambda>iv.
     ebind (get_int64 (get_field ''ts'' fs)) (\<lambda>ts.
     ebind (get_string (get_field ''origin'' fs)) (\<lambda>org.
       Inr \<lparr>ID = i, Kind = k, OpInterval = iv, TS = word_of_int ts, Origin = org\<rparr>))))))"

definition put_winner :: "winner \<Rightarrow> json" where
  "put_winner w = JObj [(''ts'', JInt (sint (W_TS w))), (''id'', JStr (W_ID w)),
     (''kind'', JStr (Kind_String (W_Kind w)))]"

definition get_winner :: "json \<Rightarrow> json_error + winner" where
  "get_winner j =
     ebind (get_obj j) (\<lambda>fs.
     ebind (get_int64 (get_field ''ts'' fs)) (\<lambda>ts.
     ebind (get_string (get_field ''id'' fs)) (\<lambda>i.
     ebind (get_text Kind_UnmarshalText KindAdd (get_field ''kind'' fs)) (\<lambda>k.
       Inr \<lparr>W_TS = word_of_int ts, W_ID = i, W_Kind = k\<rparr>))))"

definition put_segment :: "segment \<Rightarrow> json option" where
  "put_segment seg =
     map_option (\<lambda>iv. JObj [(''interval'', iv), (''winner'', put_winner (Winner seg))])
       (put_interval (SegInterval seg))"

definition get_segment :: "json \<Rightarrow> json_error + segment" where
  "get_segment j =
     ebind (get_obj j) (\<lambda>fs.
     ebind (get_interval (get_field ''interval'' fs)) (\<lambda>iv.
     ebind (get_winner (get_field ''winner'' fs)) (\<lambda>w.
       Inr \<lparr>SegInterval = iv, Winner = w\<rparr>)))"

subsection \<open>Round trips\<close>

definition known_kind :: "kind \<Rightarrow> bool" where
  "known_kind k \<longleftrightarrow> k = KindAdd \<or> k = KindRemove"

definition storable_op :: "op \<Rightarrow> bool" where
  "storable_op o' \<longleftrightarrow> known_kind (Kind o') \<and> valid_iv (OpInterval o')"

definition storable_segment :: "segment \<Rightarrow> bool" where
  "storable_segment seg \<longleftrightarrow> known_kind (W_Kind (Winner seg)) \<and> valid_iv (SegInterval seg)"

lemma bound_text: "get_text Bound_UnmarshalText z (JStr (Bound_String b)) = Inr b"
  by (cases b) (simp_all add: Bound_String_def Bound_UnmarshalText_def)

lemma kind_text: "known_kind k \<Longrightarrow> get_text Kind_UnmarshalText z (JStr (Kind_String k)) = Inr k"
  by (auto simp: known_kind_def Kind_String_def Kind_UnmarshalText_def)

lemma int64_text: "get_int64 (JInt (sint (t :: int64))) = Inr (sint t)"
  using sint_lt [of t] sint_ge [of t] by simp

lemma put_interval_valid:
  "valid_iv iv \<Longrightarrow> put_interval iv = Some (JObj [(''start'', JFloat (Start iv)), (''end'', JFloat (End iv)),
     (''startBound'', JStr (Bound_String (StartBound iv))), (''endBound'', JStr (Bound_String (EndBound iv)))])"
  by (elim validE) (simp add: put_interval_def put_float_def)

lemma get_put_interval: "put_interval iv = Some j \<Longrightarrow> get_interval j = Inr iv"
  by (auto simp: put_interval_def put_float_def get_interval_def get_field_def bound_text
      simp del: get_text.simps split: option.splits if_splits)

lemma get_put_op:
  assumes "known_kind (Kind o')" and "put_op o' = Some j"
  shows "get_op j = Inr o'"
proof -
  obtain iv where iv: "put_interval (OpInterval o') = Some iv"
    using assms(2) by (auto simp: put_op_def)
  show ?thesis
    using assms get_put_interval [OF iv] iv
    by (auto simp: put_op_def get_op_def get_field_def omit_if_def kind_text int64_text
        simp del: get_int64.simps get_text.simps)
qed

lemma put_op_storable: "storable_op o' \<Longrightarrow> \<exists>j. put_op o' = Some j"
  by (simp add: storable_op_def put_op_def put_interval_valid)

lemma get_put_winner: "known_kind (W_Kind w) \<Longrightarrow> get_winner (put_winner w) = Inr w"
  by (simp add: put_winner_def get_winner_def get_field_def kind_text int64_text
      del: get_int64.simps get_text.simps)

lemma get_put_segment:
  assumes "known_kind (W_Kind (Winner seg))" and "put_segment seg = Some j"
  shows "get_segment j = Inr seg"
proof -
  obtain iv where iv: "put_interval (SegInterval seg) = Some iv"
    using assms(2) by (auto simp: put_segment_def)
  show ?thesis
    using assms get_put_interval [OF iv] iv get_put_winner
    by (auto simp: put_segment_def get_segment_def get_field_def)
qed

lemma put_segment_storable: "storable_segment seg \<Longrightarrow> \<exists>j. put_segment seg = Some j"
  by (simp add: storable_segment_def put_segment_def put_interval_valid)

text \<open>Lists: if every element encodes and decodes back, so does the list.\<close>

lemma all_some_emap:
  assumes "\<And>x. x \<in> set xs \<Longrightarrow> \<exists>j. put x = Some j \<and> get j = Inr x"
  shows "\<exists>js. all_some (map put xs) = Some js \<and> emap get js = Inr xs"
  using assms
proof (induction xs)
  case Nil
  then show ?case by simp
next
  case (Cons x xs)
  then obtain js j where "all_some (map put xs) = Some js" "emap get js = Inr xs"
      "put x = Some j" "get j = Inr x"
    by (meson list.set_intros)
  then show ?case by simp
qed

end
