(* ===== verification/Metadata.thy ===== *)
theory Metadata
  imports Json_Codec "HOL-Library.AList"
begin

section \<open>Box metadata (meta/meta.go)\<close>

text \<open>
  Metadata is a \<open>json.RawMessage\<close>: no bytes at all, a JSON document, or other bytes. A document is
  its syntax tree with number tokens kept as text, the way a raw message keeps them, so its compact
  text (\<open>meta_text\<close>) needs no rendering of floats; insignificant whitespace is not represented.
  A decoded object is the association list of a Go map: distinct keys, the last of several values.
  \<open>Union\<close> resolves conflicts by comparing texts, so what it promises is stated on texts.
\<close>

subsection \<open>Documents\<close>

datatype metadata = NoMeta | Doc mjson | Garbage string

fun meta_text :: "metadata \<Rightarrow> string" where
  "meta_text NoMeta = []"
| "meta_text (Doc j) = mjson_text j"
| "meta_text (Garbage s) = s"

definition fields_of :: "(string \<times> mjson) list \<Rightarrow> (string \<times> mjson) list" where
  "fields_of fs = fold (\<lambda>kv m. AList.update (fst kv) (snd kv) m) fs []"

lemma fields_of_spec:
  "distinct (map fst (fields_of fs)) \<and> set (fields_of fs) \<subseteq> set fs"
proof -
  have "distinct (map fst m) \<Longrightarrow>
      distinct (map fst (fold (\<lambda>kv m. AList.update (fst kv) (snd kv) m) fs m)) \<and>
      set (fold (\<lambda>kv m. AList.update (fst kv) (snd kv) m) fs m) \<subseteq> set fs \<union> set m" for m
  proof (induction fs arbitrary: m)
    case (Cons f fs)
    have "set (AList.update (fst f) (snd f) m) \<subseteq> insert f (set m)"
      by (induction m) (auto split: if_splits)
    with Cons.IH [of "AList.update (fst f) (snd f) m"] Cons.prems show ?case
      by (auto simp: distinct_update)
  qed simp
  from this [of "[]"] show ?thesis by (simp add: fields_of_def)
qed

lemma distinct_fields_of [simp]: "distinct (map fst (fields_of fs))"
  using fields_of_spec by blast

lemma size_field: "(k, v) \<in> set fs \<Longrightarrow> size v < size (MObj fs)"
  by (induction fs) auto

lemma size_fields_of: "(k, v) \<in> set (fields_of fs) \<Longrightarrow> size v < size (MObj fs)"
  using fields_of_spec size_field by blast

lemma size_fields_of_map: "map_of (fields_of fs) k = Some v \<Longrightarrow> size v < size (MObj fs)"
  using size_fields_of map_of_SomeD by fast

subsection \<open>The join\<close>

text \<open>
  \<open>mergeObjects\<close>, with the join of two values of one key as a parameter: the keys of \<open>a\<close> that \<open>b\<close> has not,
  then those of \<open>b\<close>, and \<open>marshal\<close> sorts the keys.
\<close>

definition mergeFields :: "(mjson \<Rightarrow> mjson \<Rightarrow> mjson) \<Rightarrow> (string \<times> mjson) list \<Rightarrow> (string \<times> mjson) list \<Rightarrow>
    (string \<times> mjson) list" where
  "mergeFields rs a b =
     sort_key fst (filter (\<lambda>kv. map_of b (fst kv) = None) a @
       map (\<lambda>kv. (fst kv, case map_of a (fst kv) of None \<Rightarrow> snd kv | Some p \<Rightarrow> rs p (snd kv))) b)"

lemma mergeFields_cong [fundef_cong]:
  assumes "a = a'" "b = b'"
    "\<And>k p v. map_of a' k = Some p \<Longrightarrow> (k, v) \<in> set b' \<Longrightarrow> rs p v = rs' p v"
  shows "mergeFields rs a b = mergeFields rs' a' b'"
  using assms by (auto simp: mergeFields_def intro!: arg_cong [of _ _ "sort_key fst"] split: option.split)

function meta_resolve :: "mjson \<Rightarrow> mjson \<Rightarrow> mjson" where
  "meta_resolve a b =
     (if mjson_text a = mjson_text b then a
      else case a of
        MObj fa \<Rightarrow>
          (case b of
             MObj fb \<Rightarrow> MObj (mergeFields meta_resolve (fields_of fa) (fields_of fb))
           | _ \<Rightarrow> if mjson_text b < mjson_text a then a else b)
      | _ \<Rightarrow> if mjson_text b < mjson_text a then a else b)"
  by pat_completeness auto
termination
  by (relation "measure (\<lambda>(a, b). size a)") (auto dest: size_fields_of_map [simplified] size_fields_of [simplified])

declare meta_resolve.simps [simp del]

definition meta_object :: "metadata \<Rightarrow> (string \<times> mjson) list option" where
  "meta_object raw = (case raw of Doc (MObj fs) \<Rightarrow> Some (fields_of fs) | _ \<Rightarrow> None)"

definition mergeObjects :: "(string \<times> mjson) list \<Rightarrow> (string \<times> mjson) list \<Rightarrow> metadata" where
  "mergeObjects a b = Doc (MObj (mergeFields meta_resolve a b))"

definition meta_Union :: "metadata \<Rightarrow> metadata \<Rightarrow> metadata" where
  "meta_Union a b =
     (case meta_object a of
        None \<Rightarrow> b
      | Some ao \<Rightarrow> (case meta_object b of None \<Rightarrow> a | Some bo \<Rightarrow> mergeObjects ao bo))"

subsection \<open>What the join promises\<close>

lemma map_of_sort_key:
  assumes "distinct (map fst xs)"
  shows "map_of (sort_key fst xs) = map_of xs"
  using assms by (intro map_of_eqI) (auto simp: distinct_map)

definition lookup_join :: "(mjson \<Rightarrow> mjson \<Rightarrow> mjson) \<Rightarrow> (string \<times> mjson) list \<Rightarrow> (string \<times> mjson) list \<Rightarrow>
    string \<Rightarrow> mjson option" where
  "lookup_join rs a b k =
     (case (map_of a k, map_of b k) of
        (None, y) \<Rightarrow> y | (x, None) \<Rightarrow> x | (Some x, Some y) \<Rightarrow> Some (rs x y))"

lemma mergeFields_spec:
  assumes "distinct (map fst a)" "distinct (map fst b)"
  shows "distinct (map fst (mergeFields rs a b))" and "sorted (map fst (mergeFields rs a b))"
    and "map_of (mergeFields rs a b) k = lookup_join rs a b k"
proof -
  let ?xs = "filter (\<lambda>kv. map_of b (fst kv) = None) a"
  let ?ys = "map (\<lambda>kv. (fst kv, case map_of a (fst kv) of None \<Rightarrow> snd kv | Some p \<Rightarrow> rs p (snd kv))) b"
  have "distinct (map fst ?xs)" using assms(1) by (simp add: distinct_map inj_on_def)
  moreover have "map fst ?ys = map fst b" by simp
  moreover have "fst ` set ?xs \<inter> fst ` set b = {}" by (auto simp: map_of_eq_None_iff)
  ultimately have d: "distinct (map fst (?xs @ ?ys))" using assms(2) by (auto simp: comp_def image_image)
  have "mset (map fst (sort_key fst (?xs @ ?ys))) = mset (map fst (?xs @ ?ys))"
    by (simp only: mset_map mset_sort)
  from mset_eq_imp_distinct_iff [OF this] d show "distinct (map fst (mergeFields rs a b))"
    unfolding mergeFields_def by (simp only:)
  show "sorted (map fst (mergeFields rs a b))" by (simp add: mergeFields_def)
  have x: "map_of ?xs k = (if map_of b k = None then map_of a k else None)"
    by (induction a) auto
  have y: "map_of ?ys k = map_option (\<lambda>v. case map_of a k of None \<Rightarrow> v | Some p \<Rightarrow> rs p v) (map_of b k)"
    by (induction b) auto
  have "map_of (mergeFields rs a b) k = map_of (?xs @ ?ys) k"
    unfolding mergeFields_def by (simp only: map_of_sort_key [OF d])
  also have "\<dots> = lookup_join rs a b k"
    unfolding map_of_append map_add_def x y
    by (auto simp: lookup_join_def split: option.splits)
  finally show "map_of (mergeFields rs a b) k = lookup_join rs a b k" .
qed

lemma mjson_text_objI:
  assumes "sorted (map fst xs)" "distinct (map fst xs)" "sorted (map fst ys)" "distinct (map fst ys)"
    and eq: "\<And>k. map_option mjson_text (map_of xs k) = map_option mjson_text (map_of ys k)"
  shows "mjson_text (MObj xs) = mjson_text (MObj ys)"
proof -
  let ?f = "map (\<lambda>(k, v). (k, mjson_text v))"
  have fst: "map fst (?f zs) = map fst zs" for zs by (simp add: comp_def case_prod_beta)
  have "map_of (?f xs) = map_of (?f ys)" using eq by (simp add: map_of_map fun_eq_iff)
  then have set: "set (?f xs) = set (?f ys)"
    using assms map_of_inject_set [of "?f xs" "?f ys"] by (simp only: fst)
  have "?f xs = ?f ys"
  proof (rule map_sorted_distinct_set_unique [where f = fst])
    show "inj_on fst (set (?f xs) \<union> set (?f ys))"
      using assms(2) set fst [of xs] by (metis Un_absorb distinct_map)
  qed (use assms set in \<open>simp_all only: fst\<close>)
  then have "map (\<lambda>kv. quote (fst kv) @ '':'' @ snd kv) (?f xs) = map (\<lambda>kv. quote (fst kv) @ '':'' @ snd kv) (?f ys)"
    by (simp only:)
  then show ?thesis by (simp add: comp_def case_prod_beta)
qed

lemma meta_resolve_commute: "mjson_text (meta_resolve a b) = mjson_text (meta_resolve b a)"
proof (induction a b rule: meta_resolve.induct)
  case (1 a b)
  show ?case
  proof (cases "\<exists>fa fb. a = MObj fa \<and> b = MObj fb \<and> mjson_text a \<noteq> mjson_text b")
    case True
    then obtain fa fb where ab: "a = MObj fa" "b = MObj fb" "mjson_text a \<noteq> mjson_text b" by blast
    have "map_option mjson_text (lookup_join meta_resolve (fields_of fa) (fields_of fb) k) =
        map_option mjson_text (lookup_join meta_resolve (fields_of fb) (fields_of fa) k)" for k
      using "1.IH" [of fa fb k] ab
      by (auto simp: lookup_join_def dest: map_of_SomeD split: option.split)
    then have "mjson_text (MObj (mergeFields meta_resolve (fields_of fa) (fields_of fb))) =
        mjson_text (MObj (mergeFields meta_resolve (fields_of fb) (fields_of fa)))"
      by (intro mjson_text_objI) (simp_all only: mergeFields_spec distinct_fields_of)
    with ab show ?thesis by (simp add: meta_resolve.simps [of "MObj _"] del: mjson_text.simps)
  next
    case False
    then show ?thesis
      by (auto simp: meta_resolve.simps [of a b] meta_resolve.simps [of b a] simp del: mjson_text.simps
          split: mjson.split)
  qed
qed

definition is_object :: "metadata \<Rightarrow> bool" where
  "is_object m \<longleftrightarrow> meta_object m \<noteq> None"

lemma is_objectE: "is_object m \<Longrightarrow> (\<And>fs. m = Doc (MObj fs) \<Longrightarrow> P) \<Longrightarrow> P"
  by (auto simp: is_object_def meta_object_def split: metadata.splits mjson.splits)

lemma is_object_Doc [simp]: "is_object (Doc (MObj fs))"
  by (simp add: is_object_def meta_object_def)

lemma meta_Union_objects:
  "meta_Union (Doc (MObj fa)) (Doc (MObj fb)) =
     Doc (MObj (mergeFields meta_resolve (fields_of fa) (fields_of fb)))"
  by (simp add: meta_Union_def meta_object_def mergeObjects_def)

lemma meta_Union_commute:
  assumes "is_object a \<or> is_object b"
  shows "meta_text (meta_Union a b) = meta_text (meta_Union b a)"
proof (cases "is_object a \<and> is_object b")
  case True
  then obtain fa fb where ab: "a = Doc (MObj fa)" "b = Doc (MObj fb)" by (auto elim!: is_objectE)
  have "map_option mjson_text (lookup_join meta_resolve (fields_of fa) (fields_of fb) k) =
      map_option mjson_text (lookup_join meta_resolve (fields_of fb) (fields_of fa) k)" for k
    by (auto simp: lookup_join_def meta_resolve_commute split: option.split)
  then have "mjson_text (MObj (mergeFields meta_resolve (fields_of fa) (fields_of fb))) =
      mjson_text (MObj (mergeFields meta_resolve (fields_of fb) (fields_of fa)))"
    by (intro mjson_text_objI) (simp_all only: mergeFields_spec distinct_fields_of)
  then show ?thesis by (simp only: ab meta_Union_objects meta_text.simps)
next
  case False
  with assms show ?thesis by (auto simp: meta_Union_def is_object_def split: option.split)
qed

lemma fields_of_id:
  assumes "distinct (map fst fs)"
  shows "fields_of fs = fs"
proof -
  have "distinct (map fst (m @ fs)) \<Longrightarrow> fold (\<lambda>kv m. AList.update (fst kv) (snd kv) m) fs m = m @ fs" for m
  proof (induction fs arbitrary: m)
    case (Cons f fs)
    have "fst f \<notin> fst ` set m \<Longrightarrow> AList.update (fst f) (snd f) m = m @ [f]"
      by (induction m) (auto split: if_splits)
    with Cons.prems Cons.IH [of "m @ [f]"] show ?case by auto
  qed simp
  from this [of "[]"] assms show ?thesis by (simp add: fields_of_def)
qed

text \<open>The joined object has exactly the keys of the two, each with the value \<open>resolve\<close> picks.\<close>

lemma meta_object_Union:
  assumes "meta_object a = Some ao" "meta_object b = Some bo"
  obtains zs where "meta_object (meta_Union a b) = Some zs" "sorted (map fst zs)" "distinct (map fst zs)"
    "\<And>k. map_of zs k = lookup_join meta_resolve ao bo k"
proof -
  have "is_object a" "is_object b" using assms by (simp_all add: is_object_def)
  then obtain fa fb where ab: "a = Doc (MObj fa)" "b = Doc (MObj fb)" by (auto elim!: is_objectE)
  with assms have o: "ao = fields_of fa" "bo = fields_of fb" by (simp_all add: meta_object_def)
  let ?zs = "mergeFields meta_resolve ao bo"
  have d: "distinct (map fst ?zs)" "sorted (map fst ?zs)" "\<And>k. map_of ?zs k = lookup_join meta_resolve ao bo k"
    using mergeFields_spec [of ao bo meta_resolve] by (simp_all only: o distinct_fields_of simp_thms)
  have "meta_object (meta_Union a b) = Some ?zs"
    using fields_of_id [OF d(1)] by (simp add: ab o meta_Union_objects meta_object_def)
  with d show ?thesis by (intro that)
qed

end
