(* ===== verification/Boxes.thy ===== *)
theory Boxes
  imports Intervals Metadata "HOL-Library.List_Lexorder" "HOL-Library.Product_Lexorder"
begin

section \<open>Boxes (space/space.go)\<close>

text \<open>
  The data type of \<open>space/space.go\<close> and every operation on one or two boxes. A slice is a list, with
  \<open>nil\<close> and the empty slice both \<open>[]\<close>; the code tells them apart nowhere that changes a result. Reading a
  slice past its end panics in Go and is unspecified here, so every lemma asks for boxes of one dimension,
  which the engine's checks establish.

  The correctness arguments run per axis: \<open>axis b i\<close> is the interval a box spans on axis \<open>i\<close>,
  \<open>bspan b\<close> the product of the axes' spans on the doubled line, and \<open>bpoints b\<close> the set of real points the
  code's own \<open>Contains\<close> accepts. \<open>box_ok n\<close> is a box of dimension \<open>n\<close> that passes \<open>Validate\<close>, \<open>good_box n\<close>
  one that is not empty besides.
\<close>

subsection \<open>The source\<close>

datatype box_error = ErrDimensions | ErrNoDimensions | ErrBounds | BErrNaN | BErrInfinite | BErrInverted | BErrEmpty

record box =
  BMin :: "float64 list"
  BMax :: "float64 list"
  MinBound :: "bound list"
  MaxBound :: "bound list"
  Meta :: metadata

definition NewBox :: "float64 list \<Rightarrow> float64 list \<Rightarrow> box" where
  "NewBox lo hi = \<lparr>BMin = lo, BMax = hi, MinBound = [], MaxBound = [], Meta = NoMeta\<rparr>"

definition NewBoxWithBounds :: "float64 list \<Rightarrow> float64 list \<Rightarrow> bound list \<Rightarrow> bound list \<Rightarrow> box" where
  "NewBoxWithBounds lo hi loB hiB =
     \<lparr>BMin = lo, BMax = hi, MinBound = loB, MaxBound = hiB, Meta = NoMeta\<rparr>"

definition loBound :: "box \<Rightarrow> nat \<Rightarrow> bound" where
  "loBound b i = (if i < length (MinBound b) then MinBound b ! i else Closed)"

definition hiBound :: "box \<Rightarrow> nat \<Rightarrow> bound" where
  "hiBound b i = (if i < length (MaxBound b) then MaxBound b ! i else Open)"

definition WithMeta :: "box \<Rightarrow> metadata \<Rightarrow> box" where
  "WithMeta b meta = b\<lparr>Meta := meta\<rparr>"

definition Dims :: "box \<Rightarrow> nat" where
  "Dims b = length (BMin b)"

definition validateCoordinate :: "float64 \<Rightarrow> float64 \<Rightarrow> box_error option" where
  "validateCoordinate lo hi =
     (if IsNaN lo \<or> IsNaN hi then Some BErrNaN
      else if IsInf lo \<or> IsInf hi then Some BErrInfinite
      else if f_lt hi lo then Some BErrInverted
      else None)"

text \<open>The first error of a loop that returns at the first error.\<close>

primrec first_error :: "('a \<Rightarrow> 'e option) \<Rightarrow> 'a list \<Rightarrow> 'e option" where
  "first_error f [] = None"
| "first_error f (x # xs) = (case f x of Some e \<Rightarrow> Some e | None \<Rightarrow> first_error f xs)"

lemma first_error_None [simp]: "first_error f xs = None \<longleftrightarrow> (\<forall>x\<in>set xs. f x = None)"
  by (induction xs) (auto split: option.split)

definition Box_Validate :: "box \<Rightarrow> box_error option" where
  "Box_Validate b =
     (if length (BMin b) \<noteq> length (BMax b) then Some ErrDimensions
      else if length (BMin b) = 0 then Some ErrNoDimensions
      else if length (MinBound b) > 0 \<and> length (MinBound b) \<noteq> length (BMin b) then Some ErrBounds
      else if length (MaxBound b) > 0 \<and> length (MaxBound b) \<noteq> length (BMin b) then Some ErrBounds
      else first_error (\<lambda>i. validateCoordinate (BMin b ! i) (BMax b ! i)) [0..<length (BMin b)])"

definition Box_Empty :: "box \<Rightarrow> bool" where
  "Box_Empty b =
     list_ex (\<lambda>i. f_lt (BMax b ! i) (BMin b ! i) \<or>
         (f_eq (BMin b ! i) (BMax b ! i) \<and> (loBound b i = Open \<or> hiBound b i = Open)))
       [0..<length (BMin b)]"

definition Box_Contains :: "box \<Rightarrow> float64 list \<Rightarrow> bool" where
  "Box_Contains b p =
     list_all (\<lambda>i.
         if f_lt (p ! i) (BMin b ! i) \<or> f_lt (BMax b ! i) (p ! i) then False
         else if f_eq (p ! i) (BMin b ! i) \<and> loBound b i = Open then False
         else if f_eq (p ! i) (BMax b ! i) \<and> hiBound b i = Open then False
         else True)
       [0..<length (BMin b)]"

text \<open>\<open>math.Max\<close> and \<open>math.Min\<close>.\<close>

definition f_max :: "float64 \<Rightarrow> float64 \<Rightarrow> float64" where
  "f_max x y = (if x = PosInf \<or> y = PosInf then PosInf
     else if IsNaN x \<or> IsNaN y then NaN else if f_lt y x then x else y)"

definition f_min :: "float64 \<Rightarrow> float64 \<Rightarrow> float64" where
  "f_min x y = (if x = NegInf \<or> y = NegInf then NegInf
     else if IsNaN x \<or> IsNaN y then NaN else if f_lt x y then x else y)"

definition inInterval :: "float64 \<Rightarrow> float64 \<Rightarrow> float64 \<Rightarrow> bound \<Rightarrow> bound \<Rightarrow> bool" where
  "inInterval x lo hi loB hiB =
     (if f_lt x lo \<or> f_lt hi x then False
      else if f_eq x lo \<and> loB = Open then False
      else if f_eq x hi \<and> hiB = Open then False
      else True)"

definition intervalOverlap :: "float64 \<Rightarrow> float64 \<Rightarrow> float64 \<Rightarrow> float64 \<Rightarrow>
    bound \<Rightarrow> bound \<Rightarrow> bound \<Rightarrow> bound \<Rightarrow> bool" where
  "intervalOverlap alo blo ahi bhi aloB bloB ahiB bhiB =
     (let lo = f_max alo blo; hi = f_min ahi bhi
      in if f_lt lo hi then True
         else if \<not> f_eq lo hi then False
         else inInterval lo alo ahi aloB ahiB \<and> inInterval lo blo bhi bloB bhiB)"

definition Overlaps :: "box \<Rightarrow> box \<Rightarrow> bool" where
  "Overlaps a b =
     list_all (\<lambda>i. intervalOverlap (BMin a ! i) (BMin b ! i) (BMax a ! i) (BMax b ! i)
         (loBound a i) (loBound b i) (hiBound a i) (hiBound b i))
       [0..<length (BMin a)]"

definition intervalContains :: "float64 \<Rightarrow> float64 \<Rightarrow> bound \<Rightarrow> bound \<Rightarrow>
    float64 \<Rightarrow> float64 \<Rightarrow> bound \<Rightarrow> bound \<Rightarrow> bool" where
  "intervalContains blo bhi bloB bhiB alo ahi aloB ahiB =
     (if f_lt alo blo \<or> f_lt bhi ahi then False
      else if f_eq alo blo \<and> aloB = Closed \<and> bloB = Open then False
      else if f_eq ahi bhi \<and> ahiB = Closed \<and> bhiB = Open then False
      else True)"

definition subsumes :: "box \<Rightarrow> box \<Rightarrow> bool" where
  "subsumes b a =
     list_all (\<lambda>i. intervalContains (BMin b ! i) (BMax b ! i) (loBound b i) (hiBound b i)
         (BMin a ! i) (BMax a ! i) (loBound a i) (hiBound a i))
       [0..<length (BMin a)]"

text \<open>The rendering; \<open>fmtg\<close> is the library's \<open>%g\<close> verb.\<close>

fun strings_Join :: "string list \<Rightarrow> string \<Rightarrow> string" where
  "strings_Join [] sep = []"
| "strings_Join [s] sep = s"
| "strings_Join (s # t # ss) sep = s @ sep @ strings_Join (t # ss) sep"

definition Box_String :: "(float64 \<Rightarrow> string) \<Rightarrow> box \<Rightarrow> string" where
  "Box_String fmtg b =
     strings_Join (map (\<lambda>i.
         (if loBound b i = Open then ''('' else ''['') @ fmtg (BMin b ! i) @ '' '' @
         fmtg (BMax b ! i) @ (if hiBound b i = Open then '')'' else '']''))
       [0..<length (BMin b)]) '' x ''"

subsection \<open>Boxes as products of spans\<close>

definition axis :: "box \<Rightarrow> nat \<Rightarrow> interval" where
  "axis b i = \<lparr>Start = BMin b ! i, End = BMax b ! i, StartBound = loBound b i, EndBound = hiBound b i\<rparr>"

lemma axis_sel [simp]:
  "Start (axis b i) = BMin b ! i" "End (axis b i) = BMax b ! i"
  "StartBound (axis b i) = loBound b i" "EndBound (axis b i) = hiBound b i"
  by (simp_all add: axis_def)

lemma bound_Meta [simp]: "loBound (b\<lparr>Meta := m\<rparr>) i = loBound b i" "hiBound (b\<lparr>Meta := m\<rparr>) i = hiBound b i"
  by (simp_all add: loBound_def hiBound_def)

lemma axis_Meta [simp]: "axis (b\<lparr>Meta := m\<rparr>) i = axis b i"
  by (simp add: axis_def)

lemma Dims_Meta [simp]: "Dims (b\<lparr>Meta := m\<rparr>) = Dims b"
  by (simp add: Dims_def)

definition box_ok :: "nat \<Rightarrow> box \<Rightarrow> bool" where
  "box_ok n b \<longleftrightarrow> Box_Validate b = None \<and> Dims b = n"

definition good_box :: "nat \<Rightarrow> box \<Rightarrow> bool" where
  "good_box n b \<longleftrightarrow> box_ok n b \<and> \<not> Box_Empty b"

definition bspan :: "box \<Rightarrow> finePoint list set" where
  "bspan b = {ps. length ps = Dims b \<and> (\<forall>i<Dims b. ps ! i \<in> fspan (axis b i))}"

definition bpoints :: "box \<Rightarrow> real list set" where
  "bpoints b = {xs. length xs = Dims b \<and> Box_Contains b (map Fin xs)}"

definition bcover :: "box list \<Rightarrow> finePoint list set" where
  "bcover bs = (\<Union>b\<in>set bs. bspan b)"

abbreviation fineOf :: "real list \<Rightarrow> finePoint list" where
  "fineOf xs \<equiv> map (\<lambda>x. FinePoint (Fin x) False) xs"

lemma box_ok_iff:
  "box_ok n b \<longleftrightarrow> 0 < n \<and> length (BMin b) = n \<and> length (BMax b) = n \<and>
     length (MinBound b) \<in> {0, n} \<and> length (MaxBound b) \<in> {0, n} \<and>
     (\<forall>i<n. \<exists>lo hi. BMin b ! i = Fin lo \<and> BMax b ! i = Fin hi \<and> lo \<le> hi)"
proof -
  have "validateCoordinate x y = None \<longleftrightarrow> (\<exists>lo hi. x = Fin lo \<and> y = Fin hi \<and> lo \<le> hi)" for x y
    by (cases x; cases y) (auto simp: validateCoordinate_def IsNaN_def IsInf_def)
  then show ?thesis by (auto simp: box_ok_def Box_Validate_def Dims_def split: if_splits)
qed

lemma box_okD:
  assumes "box_ok n b"
  shows "length (BMin b) = n" "length (BMax b) = n" "0 < n" "Dims b = n"
  using assms by (auto simp: box_ok_iff Dims_def)

lemma good_boxD:
  assumes "good_box n b"
  shows "box_ok n b" "length (BMin b) = n" "length (BMax b) = n" "0 < n" "Dims b = n" "\<not> Box_Empty b"
  using assms box_okD by (auto simp: good_box_def)

lemma box_ok_axis:
  assumes "box_ok n b" "i < n"
  obtains lo hi where "BMin b ! i = Fin lo" "BMax b ! i = Fin hi" "lo \<le> hi"
  using assms by (auto simp: box_ok_iff)

lemma box_ok_Meta [simp]: "box_ok n (b\<lparr>Meta := m\<rparr>) = box_ok n b"
  by (simp add: box_ok_iff)

lemma Box_Empty_Meta [simp]: "Box_Empty (b\<lparr>Meta := m\<rparr>) = Box_Empty b"
  by (simp add: Box_Empty_def)

lemma good_box_Meta [simp]: "good_box n (b\<lparr>Meta := m\<rparr>) = good_box n b"
  by (simp add: good_box_def)

lemma Box_Empty_axis: "Box_Empty b \<longleftrightarrow> (\<exists>i<Dims b. Interval_empty (axis b i))"
  by (auto simp: Box_Empty_def Interval_empty_def Dims_def list_ex_iff)

lemma Box_Contains_axis:
  "Box_Contains b p \<longleftrightarrow> (\<forall>i<Dims b. Interval_Contains (axis b i) (p ! i))"
  by (auto simp: Box_Contains_def Interval_Contains_def Dims_def list_all_iff)

lemma good_box_valid:
  assumes "good_box n b" "i < n"
  shows "valid_iv (axis b i)"
proof -
  note g = good_boxD [OF assms(1)]
  from box_ok_axis [OF g(1) assms(2)] obtain lo hi
    where "BMin b ! i = Fin lo" "BMax b ! i = Fin hi" "lo \<le> hi" .
  with g(5,6) assms(2) show ?thesis
    by (auto simp: Box_Empty_axis Interval_empty_def valid_iv_def Interval_Validate_def)
qed

lemma bspan_Meta [simp]: "bspan (b\<lparr>Meta := m\<rparr>) = bspan b"
  by (simp add: bspan_def)

lemma Empty_iff_bspan:
  assumes "box_ok n b"
  shows "Box_Empty b \<longleftrightarrow> bspan b = {}"
proof
  note ok = box_okD [OF assms]
  assume "Box_Empty b"
  then obtain i where i: "i < n" "Interval_empty (axis b i)" by (auto simp: Box_Empty_axis ok)
  from box_ok_axis [OF assms i(1)] obtain lo hi
    where lh: "BMin b ! i = Fin lo" "BMax b ! i = Fin hi" "lo \<le> hi" .
  have "fspan (axis b i) = {}"
    using i(2) lh by (auto simp: Interval_empty_def fspan_def fine_def)
  with i(1) show "bspan b = {}" by (auto simp: bspan_def ok)
next
  note ok = box_okD [OF assms]
  assume *: "bspan b = {}"
  show "Box_Empty b"
  proof (rule ccontr)
    assume "\<not> Box_Empty b"
    with assms have g: "good_box n b" by (simp add: good_box_def)
    have "map (\<lambda>i. ilo (axis b i)) [0..<n] \<in> bspan b"
      using good_box_valid [OF g] by (auto simp: bspan_def ok fspan_def)
    with * show False by simp
  qed
qed

lemma good_box_bspan: "good_box n b \<Longrightarrow> bspan b \<noteq> {}"
  using Empty_iff_bspan by (auto simp: good_box_def)

lemma mem_bpoints_iff:
  assumes "box_ok n b"
  shows "xs \<in> bpoints b \<longleftrightarrow> fineOf xs \<in> bspan b"
proof -
  note ok = box_okD [OF assms]
  have "Interval_Contains (axis b i) (Fin x) \<longleftrightarrow> FinePoint (Fin x) False \<in> fspan (axis b i)"
    if i: "i < n" for i x
  proof -
    from box_ok_axis [OF assms i] obtain lo hi where "BMin b ! i = Fin lo" "BMax b ! i = Fin hi" .
    then show ?thesis by (auto simp: Interval_Contains_def fspan_def fine_def)
  qed
  then show ?thesis by (auto simp: bpoints_def bspan_def Box_Contains_axis ok)
qed

lemma bpoints_cover:
  assumes "\<forall>b\<in>set bs. box_ok n b"
  shows "(\<Union>b\<in>set bs. bpoints b) = {xs. fineOf xs \<in> bcover bs}"
proof -
  have "xs \<in> bpoints b \<longleftrightarrow> fineOf xs \<in> bspan b" if "b \<in> set bs" for b xs
    using assms that mem_bpoints_iff by blast
  then show ?thesis by (auto simp: bcover_def)
qed

lemma good_box_point:
  assumes "good_box n b"
  obtains xs where "xs \<in> bpoints b"
proof -
  have "\<exists>x. x \<in> points (axis b i)" if "i < n" for i
    using valid_points_nonempty [OF good_box_valid [OF assms that]] .
  then obtain f where f: "\<And>i. i < n \<Longrightarrow> f i \<in> points (axis b i)" by metis
  then have "map f [0..<n] \<in> bpoints b"
    by (simp add: bpoints_def Box_Contains_axis points_def good_boxD [OF assms])
  then show ?thesis by (rule that)
qed

subsection \<open>Two boxes\<close>

lemma intervalContains_span:
  assumes "is_fin (Start a)" "is_fin (End a)" "is_fin (Start b)" "is_fin (End b)"
  shows "intervalContains (Start b) (End b) (StartBound b) (EndBound b)
      (Start a) (End a) (StartBound a) (EndBound a) \<longleftrightarrow> ilo b \<le> ilo a \<and> ihi a \<le> ihi b"
  using assms by (cases "StartBound a"; cases "StartBound b"; cases "EndBound a"; cases "EndBound b")
    (auto simp: is_fin_iff intervalContains_def fine_def)

lemma intervalOverlap_span:
  assumes "valid_iv a" "valid_iv b"
  shows "intervalOverlap (Start a) (Start b) (End a) (End b)
      (StartBound a) (StartBound b) (EndBound a) (EndBound b) \<longleftrightarrow>
    max (ilo a) (ilo b) < min (ihi a) (ihi b)"
proof -
  from assms obtain s e sb eb where a: "a = \<lparr>Start = Fin s, End = Fin e, StartBound = sb, EndBound = eb\<rparr>"
    and se: "s < e \<or> s = e \<and> sb = Closed \<and> eb = Closed" by (elim validE)
  from assms obtain t f tb fb where b: "b = \<lparr>Start = Fin t, End = Fin f, StartBound = tb, EndBound = fb\<rparr>"
    and tf: "t < f \<or> t = f \<and> tb = Closed \<and> fb = Closed" by (elim validE)
  show ?thesis
    using se tf
    by (cases sb; cases eb; cases tb; cases fb)
      (auto simp: a b intervalOverlap_def inInterval_def f_max_def f_min_def fine_def)
qed

lemma good_box_fin:
  assumes "good_box n b" "i < n"
  shows "is_fin (BMin b ! i)" "is_fin (BMax b ! i)"
  using good_box_valid [OF assms] by (auto elim!: validE simp: axis_def)

lemma subsumes_axes:
  assumes "good_box n a" "good_box n b"
  shows "subsumes b a \<longleftrightarrow> (\<forall>i<n. ilo (axis b i) \<le> ilo (axis a i) \<and> ihi (axis a i) \<le> ihi (axis b i))"
proof -
  have "intervalContains (BMin b ! i) (BMax b ! i) (loBound b i) (hiBound b i)
      (BMin a ! i) (BMax a ! i) (loBound a i) (hiBound a i) \<longleftrightarrow>
      ilo (axis b i) \<le> ilo (axis a i) \<and> ihi (axis a i) \<le> ihi (axis b i)" if "i < n" for i
    using intervalContains_span [of "axis a i" "axis b i"] good_box_fin that assms by simp
  then show ?thesis by (auto simp: subsumes_def list_all_iff good_boxD(2) [OF assms(1)])
qed

lemma subsumes_iff_bspan:
  assumes a: "good_box n a" and b: "good_box n b"
  shows "subsumes b a \<longleftrightarrow> bspan a \<subseteq> bspan b"
proof
  assume "subsumes b a"
  then show "bspan a \<subseteq> bspan b"
    by (fastforce simp: subsumes_axes [OF a b] bspan_def fspan_def good_boxD [OF a] good_boxD [OF b])
next
  assume sub: "bspan a \<subseteq> bspan b"
  let ?lo = "map (\<lambda>i. ilo (axis a i)) [0..<n]"
  have fb: "x \<in> fspan (axis b i)" if "x \<in> fspan (axis a i)" "i < n" for x i
  proof -
    have "?lo[i := x] \<in> bspan a"
      using good_box_valid [OF a] that
      by (auto simp: bspan_def good_boxD [OF a] fspan_def nth_list_update)
    with sub have "?lo[i := x] \<in> bspan b" by blast
    with that show ?thesis by (auto simp: bspan_def good_boxD [OF b] dest!: spec [of _ i])
  qed
  show "subsumes b a"
    unfolding subsumes_axes [OF a b]
  proof (intro allI impI conjI)
    fix i assume i: "i < n"
    have lt: "ilo (axis a i) < ihi (axis a i)" using good_box_valid [OF a i] by simp
    then show "ilo (axis b i) \<le> ilo (axis a i)" using fb [of "ilo (axis a i)" i] i by (simp add: fspan_def)
    show "ihi (axis a i) \<le> ihi (axis b i)"
    proof (rule ccontr)
      assume "\<not> ?thesis"
      with lt have "max (ilo (axis a i)) (ihi (axis b i)) \<in> fspan (axis a i)" by (simp add: fspan_def)
      from fb [OF this i] show False by (simp add: fspan_def)
    qed
  qed
qed

lemma Overlaps_axes:
  assumes "good_box n a" "good_box n b"
  shows "Overlaps a b \<longleftrightarrow>
    (\<forall>i<n. max (ilo (axis a i)) (ilo (axis b i)) < min (ihi (axis a i)) (ihi (axis b i)))"
proof -
  have "intervalOverlap (BMin a ! i) (BMin b ! i) (BMax a ! i) (BMax b ! i)
      (loBound a i) (loBound b i) (hiBound a i) (hiBound b i) \<longleftrightarrow>
      max (ilo (axis a i)) (ilo (axis b i)) < min (ihi (axis a i)) (ihi (axis b i))" if "i < n" for i
    using intervalOverlap_span [of "axis a i" "axis b i"] good_box_valid that assms by simp
  then show ?thesis
    unfolding Overlaps_def list_all_iff good_boxD(2) [OF assms(1)] by auto
qed

lemma Overlaps_iff_bspan:
  assumes a: "good_box n a" and b: "good_box n b"
  shows "Overlaps a b \<longleftrightarrow> bspan a \<inter> bspan b \<noteq> {}"
proof
  assume o: "Overlaps a b"
  let ?ps = "map (\<lambda>i. max (ilo (axis a i)) (ilo (axis b i))) [0..<n]"
  have "?ps \<in> bspan a \<inter> bspan b"
    using o by (auto simp: Overlaps_axes [OF a b] bspan_def good_boxD [OF a] good_boxD [OF b] fspan_def)
  then show "bspan a \<inter> bspan b \<noteq> {}" by blast
next
  assume "bspan a \<inter> bspan b \<noteq> {}"
  then obtain ps where ps: "ps \<in> bspan a" "ps \<in> bspan b" by blast
  then have "ilo (axis a i) \<le> ps ! i \<and> ilo (axis b i) \<le> ps ! i \<and> ps ! i < ihi (axis a i) \<and>
      ps ! i < ihi (axis b i)" if "i < n" for i
    using that by (auto simp: bspan_def fspan_def good_boxD [OF a] good_boxD [OF b])
  then show "Overlaps a b" by (force simp: Overlaps_axes [OF a b])
qed

text \<open>The overlap of two boxes holds a real point, so \<open>Overlaps\<close> means what its comment says.\<close>

lemma Overlaps_iff_points:
  assumes a: "good_box n a" and b: "good_box n b"
  shows "Overlaps a b \<longleftrightarrow> bpoints a \<inter> bpoints b \<noteq> {}"
proof
  assume o: "Overlaps a b"
  let ?iv = "\<lambda>i. fromFine (max (ilo (axis a i)) (ilo (axis b i))) (min (ihi (axis a i)) (ihi (axis b i)))"
  have v: "valid_iv (?iv i)" if "i < n" for i
    using o that good_box_valid [OF a that] good_box_valid [OF b that]
    by (auto simp: Overlaps_axes [OF a b] max_def min_def)
  then have "\<exists>x. x \<in> points (?iv i)" if "i < n" for i using valid_points_nonempty that by blast
  then obtain f where "\<And>i. i < n \<Longrightarrow> f i \<in> points (?iv i)" by metis
  then have f: "FinePoint (Fin (f i)) False \<in> fspan (?iv i)" if "i < n" for i
    using v [OF that] that mem_points_iff by blast
  have "map f [0..<n] \<in> bpoints a \<inter> bpoints b"
    unfolding Int_iff mem_bpoints_iff [OF good_boxD(1) [OF a]] mem_bpoints_iff [OF good_boxD(1) [OF b]]
    using f by (auto simp: bspan_def fspan_def good_boxD [OF a] good_boxD [OF b])
  then show "bpoints a \<inter> bpoints b \<noteq> {}" by blast
next
  assume "bpoints a \<inter> bpoints b \<noteq> {}"
  then show "Overlaps a b"
    using mem_bpoints_iff [OF good_boxD(1) [OF a]] mem_bpoints_iff [OF good_boxD(1) [OF b]]
    unfolding Overlaps_iff_bspan [OF a b] by blast
qed

end
