(* ===== verification/Box_Sets.thy ===== *)
theory Box_Sets
  imports Boxes
begin

section \<open>Sets of boxes (space/set.go)\<close>

text \<open>
  The canonical cover and the set operations of \<open>space/set.go\<close>. The loops run the way the code runs them:
  \<open>NormalizeMerged\<close> walks the kept boxes from the last to the first, deleting and re-tagging as it goes
  (\<open>absorb\<close>), and \<open>subtractBox\<close> sweeps one axis at a time over a worklist. A metadata join is a parameter
  \<open>merge\<close>, as in the source. The lemmas show that the cover is preserved exactly, that no kept box contains
  another, and that a difference is exact and made of disjoint pieces.
\<close>

subsection \<open>The order of boxes\<close>

definition bound_lt :: "bound \<Rightarrow> bound \<Rightarrow> bool" where
  "bound_lt a b \<longleftrightarrow> a = Closed \<and> b = Open"

fun box_Less_from :: "box \<Rightarrow> box \<Rightarrow> nat list \<Rightarrow> bool" where
  "box_Less_from a b [] = False"
| "box_Less_from a b (i # is) =
     (if \<not> f_eq (BMin a ! i) (BMin b ! i) then f_lt (BMin a ! i) (BMin b ! i)
      else if \<not> f_eq (BMax a ! i) (BMax b ! i) then f_lt (BMax a ! i) (BMax b ! i)
      else if loBound a i \<noteq> loBound b i then bound_lt (loBound a i) (loBound b i)
      else if hiBound a i \<noteq> hiBound b i then bound_lt (hiBound a i) (hiBound b i)
      else box_Less_from a b is)"

definition box_Less :: "box \<Rightarrow> box \<Rightarrow> bool" where
  "box_Less a b = box_Less_from a b [0..<length (BMin a)]"

definition sortBoxes :: "box list \<Rightarrow> box list" where
  "sortBoxes boxes = sort_slice box_Less boxes"

definition equalBox :: "box \<Rightarrow> box \<Rightarrow> bool" where
  "equalBox a b =
     list_all (\<lambda>i. f_eq (BMin a ! i) (BMin b ! i) \<and> f_eq (BMax a ! i) (BMax b ! i) \<and>
         loBound a i = loBound b i \<and> hiBound a i = hiBound b i)
       [0..<length (BMin a)]"

definition cloneBox :: "box \<Rightarrow> box" where
  "cloneBox b = \<lparr>BMin = BMin b, BMax = BMax b, MinBound = MinBound b, MaxBound = MaxBound b, Meta = Meta b\<rparr>"

subsection \<open>The canonical cover\<close>

type_synonym meta_merge = "metadata \<Rightarrow> metadata \<Rightarrow> metadata"

text \<open>
  The inner loop of \<open>NormalizeMerged\<close>: the kept boxes come last first; the result is the new box with the
  metadata it absorbed, the kept boxes left, and whether one of them subsumes it.
\<close>

fun absorb :: "meta_merge \<Rightarrow> box \<Rightarrow> box list \<Rightarrow> box \<times> box list \<times> bool" where
  "absorb merge b [] = (b, [], False)"
| "absorb merge b (k # ks) =
     (if subsumes b k then absorb merge (b\<lparr>Meta := merge (Meta b) (Meta k)\<rparr>) ks
      else if subsumes k b then
        (case absorb merge b ks of (b', ks', _) \<Rightarrow> (b', k\<lparr>Meta := merge (Meta k) (Meta b)\<rparr> # ks', True))
      else (case absorb merge b ks of (b', ks', s) \<Rightarrow> (b', k # ks', s)))"

definition normalizeStep :: "meta_merge \<Rightarrow> box \<Rightarrow> box list \<Rightarrow> box list" where
  "normalizeStep merge b kept =
     (if Box_Empty b then kept
      else case absorb merge b (rev kept) of
        (b', ks, subsumed) \<Rightarrow> if subsumed then rev ks else rev ks @ [b'])"

definition NormalizeMerged :: "box list \<Rightarrow> meta_merge \<Rightarrow> box list" where
  "NormalizeMerged boxes merge = sortBoxes (fold (normalizeStep merge) boxes [])"

definition box_Normalize :: "box list \<Rightarrow> box list" where
  "box_Normalize boxes = NormalizeMerged boxes meta_Union"

definition UnionMerged :: "box list \<Rightarrow> box list \<Rightarrow> meta_merge \<Rightarrow> box list" where
  "UnionMerged a b merge = NormalizeMerged (a @ b) merge"

definition box_Union :: "box list \<Rightarrow> box list \<Rightarrow> box list" where
  "box_Union a b = UnionMerged a b meta_Union"

subsection \<open>Subtraction\<close>

definition invertBound :: "bound \<Rightarrow> bound" where
  "invertBound b = (if b = Closed then Open else Closed)"

definition intervalSubtract :: "float64 \<Rightarrow> float64 \<Rightarrow> float64 \<Rightarrow> float64 \<Rightarrow>
    bound \<Rightarrow> bound \<Rightarrow> bound \<Rightarrow> bound \<Rightarrow> interval list" where
  "intervalSubtract alo blo ahi bhi aloB bloB ahiB bhiB =
     (if f_lt alo blo then
        [\<lparr>Start = alo, End = blo, StartBound = aloB, EndBound = invertBound bloB\<rparr>]
      else if f_eq alo blo \<and> aloB = Closed \<and> bloB = Open then
        [\<lparr>Start = alo, End = alo, StartBound = Closed, EndBound = Closed\<rparr>]
      else []) @
     (if f_lt bhi ahi then
        [\<lparr>Start = bhi, End = ahi, StartBound = invertBound bhiB, EndBound = ahiB\<rparr>]
      else if f_eq ahi bhi \<and> ahiB = Closed \<and> bhiB = Open then
        [\<lparr>Start = ahi, End = ahi, StartBound = Closed, EndBound = Closed\<rparr>]
      else [])"

definition intervalIntersection :: "float64 \<Rightarrow> float64 \<Rightarrow> float64 \<Rightarrow> float64 \<Rightarrow>
    bound \<Rightarrow> bound \<Rightarrow> bound \<Rightarrow> bound \<Rightarrow> interval" where
  "intervalIntersection alo blo ahi bhi aloB bloB ahiB bhiB =
     (let (lo, loB) = (if f_lt alo blo then (blo, bloB)
        else if f_eq blo alo \<and> (aloB = Open \<or> bloB = Open) then (alo, Open) else (alo, aloB));
       (hi, hiB) = (if f_lt bhi ahi then (bhi, bhiB)
        else if f_eq bhi ahi \<and> (ahiB = Open \<or> bhiB = Open) then (ahi, Open) else (ahi, ahiB))
      in \<lparr>Start = lo, End = hi, StartBound = loB, EndBound = hiB\<rparr>)"

definition allClosed :: "bound list \<Rightarrow> bool" where
  "allClosed bounds = list_all (\<lambda>b. b = Closed) bounds"

definition allOpen :: "bound list \<Rightarrow> bool" where
  "allOpen bounds = list_all (\<lambda>b. b = Open) bounds"

definition clipToInterval :: "box \<Rightarrow> nat \<Rightarrow> interval \<Rightarrow> box" where
  "clipToInterval b d iv =
     (let c = cloneBox b;
        minB = (if MinBound c = [] then replicate (length (BMin c)) Closed else MinBound c);
        maxB = (if MaxBound c = [] then replicate (length (BMax c)) Open else MaxBound c);
        minB = minB[d := StartBound iv];
        maxB = maxB[d := EndBound iv]
      in c\<lparr>BMin := (BMin c)[d := Start iv], BMax := (BMax c)[d := End iv],
           MinBound := (if allClosed minB then [] else minB),
           MaxBound := (if allOpen maxB then [] else maxB)\<rparr>)"

text \<open>One pending piece on axis \<open>d\<close>: the piece deferred to the next axis and the pieces outside \<open>q\<close>.\<close>

definition splitAxis :: "box \<Rightarrow> nat \<Rightarrow> box \<Rightarrow> box \<times> box list" where
  "splitAxis q d b =
     (if intervalContains (BMin q ! d) (BMax q ! d) (loBound q d) (hiBound q d)
           (BMin b ! d) (BMax b ! d) (loBound b d) (hiBound b d)
      then (b, [])
      else (clipToInterval b d (intervalIntersection (BMin b ! d) (BMin q ! d) (BMax b ! d) (BMax q ! d)
              (loBound b d) (loBound q d) (hiBound b d) (hiBound q d)),
            map (clipToInterval b d) (intervalSubtract (BMin b ! d) (BMin q ! d) (BMax b ! d) (BMax q ! d)
              (loBound b d) (loBound q d) (hiBound b d) (hiBound q d))))"

definition subtractAxis :: "box \<Rightarrow> nat \<Rightarrow> box list \<times> box list \<Rightarrow> box list \<times> box list" where
  "subtractAxis q d st =
     (case st of (pending, result) \<Rightarrow>
        (map (fst \<circ> splitAxis q d) pending, result @ concat (map (snd \<circ> splitAxis q d) pending)))"

definition subtractBox :: "box \<Rightarrow> box \<Rightarrow> box list" where
  "subtractBox p q =
     (if \<not> Overlaps p q then [cloneBox p]
      else snd (fold (subtractAxis q) [0..<length (BMin p)] ([p], [])))"

definition DifferenceSortedMerged :: "box list \<Rightarrow> box list \<Rightarrow> meta_merge \<Rightarrow> box list" where
  "DifferenceSortedMerged a b merge =
     fold (\<lambda>q result. NormalizeMerged (concat (map (\<lambda>p. subtractBox p q) result)) merge) b
       (NormalizeMerged a merge)"

definition DifferenceMerged :: "box list \<Rightarrow> box list \<Rightarrow> meta_merge \<Rightarrow> box list" where
  "DifferenceMerged a b merge = DifferenceSortedMerged a (NormalizeMerged b merge) merge"

definition box_DifferenceSorted :: "box list \<Rightarrow> box list \<Rightarrow> box list" where
  "box_DifferenceSorted a b = DifferenceSortedMerged a b meta_Union"

definition box_Difference :: "box list \<Rightarrow> box list \<Rightarrow> box list" where
  "box_Difference a b = DifferenceMerged a b meta_Union"

subsection \<open>Insertion and queries\<close>

definition insertSortedBox :: "box list \<Rightarrow> box \<Rightarrow> box list" where
  "insertSortedBox bs b =
     (let i = sort_Search (length bs) (\<lambda>i. \<not> box_Less (bs ! i) b) in take i bs @ b # drop i bs)"

definition InsertNormalized :: "box list \<Rightarrow> box \<Rightarrow> box list" where
  "InsertNormalized bs box =
     (if Box_Empty box then bs
      else let kept = filter (\<lambda>b. \<not> subsumes box b) bs;
             subsumed = list_ex (\<lambda>b. \<not> subsumes box b \<and> subsumes b box) bs
           in if subsumed then kept else insertSortedBox kept box)"

definition boxes_Contains :: "box list \<Rightarrow> float64 list \<Rightarrow> bool" where
  "boxes_Contains bs p = list_ex (\<lambda>b. Box_Contains b p) bs"

definition OverlapsSet :: "box list \<Rightarrow> box \<Rightarrow> bool" where
  "OverlapsSet bs q = list_ex (\<lambda>b. Overlaps b q) bs"

definition box_Equal :: "box list \<Rightarrow> box list \<Rightarrow> bool" where
  "box_Equal a b =
     (let x = box_Normalize a; y = box_Normalize b
      in if length x \<noteq> length y then False else list_all2 equalBox x y)"

subsection \<open>Geometry without metadata\<close>

definition strip :: "box \<Rightarrow> box" where
  "strip b = b\<lparr>Meta := NoMeta\<rparr>"

definition axis_key :: "box \<Rightarrow> nat \<Rightarrow> float64 \<times> float64 \<times> bool \<times> bool" where
  "axis_key b i = (BMin b ! i, BMax b ! i, loBound b i = Open, hiBound b i = Open)"

definition box_key :: "box \<Rightarrow> (float64 \<times> float64 \<times> bool \<times> bool) list" where
  "box_key b = map (axis_key b) [0..<Dims b]"

lemma subsumes_Meta [simp]:
  "subsumes (a\<lparr>Meta := m\<rparr>) b = subsumes a b" "subsumes a (b\<lparr>Meta := m\<rparr>) = subsumes a b"
  by (simp_all add: subsumes_def)

lemma axis_key_Meta [simp]: "axis_key (b\<lparr>Meta := m\<rparr>) = axis_key b"
  by (rule ext) (simp add: axis_key_def)

lemma box_key_Meta [simp]: "box_key (b\<lparr>Meta := m\<rparr>) = box_key b"
  by (simp add: box_key_def)

lemma box_Less_from_Meta [simp]:
  "box_Less_from (a\<lparr>Meta := m\<rparr>) b is = box_Less_from a b is"
  "box_Less_from a (b\<lparr>Meta := m\<rparr>) is = box_Less_from a b is"
  by (induction "is") simp_all

lemma box_Less_Meta [simp]:
  "box_Less (a\<lparr>Meta := m\<rparr>) b = box_Less a b" "box_Less a (b\<lparr>Meta := m\<rparr>) = box_Less a b"
  by (simp_all add: box_Less_def)

lemma strip_simps [simp]:
  "subsumes (strip a) b = subsumes a b" "subsumes a (strip b) = subsumes a b"
  "bspan (strip b) = bspan b" "box_key (strip b) = box_key b" "good_box n (strip b) = good_box n b"
  "Box_Empty (strip b) = Box_Empty b" "box_ok n (strip b) = box_ok n b"
  "box_Less (strip a) b = box_Less a b" "box_Less a (strip b) = box_Less a b"
  "strip (b\<lparr>Meta := m\<rparr>) = strip b" "strip (strip b) = strip b"
  by (simp_all add: strip_def)

text \<open>Facts that read the geometry alone pass through \<open>map strip\<close>.\<close>

lemma map_strip_image:
  assumes "map strip xs = map strip ys" "\<And>b. f (strip b) = f b"
  shows "map f xs = map f ys"
  using assms by (metis (mono_tags, lifting) list.map_comp list.map_cong comp_apply)

lemma map_strip_ball:
  assumes "map strip xs = map strip ys" "\<And>b. P (strip b) = P b"
  shows "(\<forall>b\<in>set xs. P b) \<longleftrightarrow> (\<forall>b\<in>set ys. P b)"
  using map_strip_image [OF assms(1), of P] assms(2)
  by (metis (mono_tags, lifting) image_iff list.set_map)

lemma map_strip_sorted:
  assumes "map strip xs = map strip ys" "\<And>a b. P (strip a) (strip b) = P a b"
  shows "sorted_wrt P xs \<longleftrightarrow> sorted_wrt P ys"
proof -
  have "sorted_wrt P zs \<longleftrightarrow> sorted_wrt P (map strip zs)" for zs
    by (simp add: sorted_wrt_map assms(2))
  with assms(1) show ?thesis by metis
qed

lemma map_strip_bcover: "map strip xs = map strip ys \<Longrightarrow> bcover xs = bcover ys"
  unfolding bcover_def by (metis list.set_map map_strip_image strip_simps(3))

lemma insert_by_strip: "map strip (insert_by box_Less x ys) = insert_by box_Less (strip x) (map strip ys)"
  by (induction ys) auto

lemma sort_slice_strip: "map strip (sort_slice box_Less xs) = sort_slice box_Less (map strip xs)"
proof -
  have "map strip (fold (insert_by box_Less) xs ys) = fold (insert_by box_Less) (map strip xs) (map strip ys)" for ys
    by (induction xs arbitrary: ys) (simp_all add: insert_by_strip)
  from this [of "[]"] show ?thesis by (simp add: sort_slice_def)
qed

subsection \<open>The order is the order of keys\<close>

lemma box_Less_from_keys:
  assumes "\<forall>i\<in>set is. is_fin (BMin a ! i) \<and> is_fin (BMax a ! i) \<and> is_fin (BMin b ! i) \<and> is_fin (BMax b ! i)"
  shows "box_Less_from a b is \<longleftrightarrow> map (axis_key a) is < map (axis_key b) is"
  using assms
proof (induction "is")
  case (Cons i "is")
  have IH: "box_Less_from a b is \<longleftrightarrow> map (axis_key a) is < map (axis_key b) is" using Cons by simp
  obtain p q r s where v: "BMin a ! i = Fin p" "BMax a ! i = Fin q" "BMin b ! i = Fin r" "BMax b ! i = Fin s"
    using Cons.prems by (auto simp: is_fin_iff)
  show ?case
    unfolding box_Less_from.simps IH list.map axis_key_def v bound_lt_def
    by (cases "loBound a i"; cases "loBound b i"; cases "hiBound a i"; cases "hiBound b i") auto
qed simp

lemma box_Less_keys:
  assumes "good_box n a" "good_box n b"
  shows "box_Less a b \<longleftrightarrow> box_key a < box_key b"
  using box_Less_from_keys [of "[0..<n]" a b] good_box_fin [OF assms(1)] good_box_fin [OF assms(2)]
  by (simp add: box_Less_def box_key_def good_boxD [OF assms(1)] good_boxD [OF assms(2)])

interpretation box_order: weak_less box_Less "good_box n" for n
  by unfold_locales (auto simp: box_Less_keys)

lemma box_key_axes:
  assumes "good_box n a" "good_box n b"
  shows "box_key a = box_key b \<longleftrightarrow> (\<forall>i<n. axis a i = axis b i)"
proof -
  have bo: "(x = Open) = (y = Open) \<longleftrightarrow> x = y" for x y :: bound by (cases x; cases y) simp_all
  have "axis_key a i = axis_key b i \<longleftrightarrow> axis a i = axis b i" for i
    by (simp add: axis_key_def axis_def bo)
  then show ?thesis
    by (auto simp: box_key_def good_boxD [OF assms(1)] good_boxD [OF assms(2)])
qed

lemma box_key_bspan:
  assumes a: "good_box n a" and b: "good_box n b"
  shows "box_key a = box_key b \<longleftrightarrow> bspan a = bspan b"
proof
  assume "box_key a = box_key b"
  then show "bspan a = bspan b"
    by (auto simp: box_key_axes [OF a b] bspan_def good_boxD [OF a] good_boxD [OF b])
next
  assume "bspan a = bspan b"
  then have "subsumes a b" "subsumes b a"
    by (simp_all add: subsumes_iff_bspan [OF a b] subsumes_iff_bspan [OF b a])
  then have "ilo (axis a i) = ilo (axis b i)" "ihi (axis a i) = ihi (axis b i)" if "i < n" for i
    using that by (auto simp: subsumes_axes [OF a b] subsumes_axes [OF b a] intro: antisym)
  then show "box_key a = box_key b" by (auto simp: box_key_axes [OF a b] intro: fine_inject)
qed

subsection \<open>The canonical cover, up to metadata\<close>

definition geo_insert :: "box \<Rightarrow> box list \<Rightarrow> box list" where
  "geo_insert b kept =
     (if Box_Empty b then kept
      else if \<exists>k\<in>set kept. \<not> subsumes b k \<and> subsumes k b then filter (\<lambda>k. \<not> subsumes b k) kept
      else filter (\<lambda>k. \<not> subsumes b k) kept @ [b])"

lemma absorb_spec:
  assumes "absorb merge b ks = (b', ks', s)"
  shows "strip b' = strip b" "map strip ks' = map strip (filter (\<lambda>k. \<not> subsumes b k) ks)"
    "s \<longleftrightarrow> (\<exists>k\<in>set ks. \<not> subsumes b k \<and> subsumes k b)"
proof -
  have "strip b' = strip b \<and> map strip ks' = map strip (filter (\<lambda>k. \<not> subsumes b k) ks) \<and>
      (s \<longleftrightarrow> (\<exists>k\<in>set ks. \<not> subsumes b k \<and> subsumes k b))"
    using assms
  proof (induction merge b ks arbitrary: b' ks' s rule: absorb.induct)
    case (2 merge b k ks)
    then show ?case by (auto split: if_splits prod.splits)
  qed simp
  then show "strip b' = strip b" "map strip ks' = map strip (filter (\<lambda>k. \<not> subsumes b k) ks)"
    "s \<longleftrightarrow> (\<exists>k\<in>set ks. \<not> subsumes b k \<and> subsumes k b)" by auto
qed

lemma normalizeStep_geo: "map strip (normalizeStep merge b kept) = map strip (geo_insert b kept)"
proof -
  obtain b' ks s where a: "absorb merge b (rev kept) = (b', ks, s)" by (metis prod_cases3)
  note sp = absorb_spec [OF a]
  have "map strip (rev ks) = map strip (filter (\<lambda>k. \<not> subsumes b k) kept)"
    using arg_cong [OF sp(2), of rev] by (simp add: rev_map rev_filter)
  with sp(1,3) show ?thesis by (auto simp: normalizeStep_def geo_insert_def a)
qed

lemma geo_insert_strip:
  assumes "map strip kept = map strip kept'"
  shows "map strip (geo_insert b kept) = map strip (geo_insert b kept')"
proof -
  have ex: "(\<exists>k\<in>set kept. \<not> subsumes b k \<and> subsumes k b) \<longleftrightarrow> (\<exists>k\<in>set kept'. \<not> subsumes b k \<and> subsumes k b)"
    using map_strip_ball [OF assms, of "\<lambda>k. \<not> (\<not> subsumes b k \<and> subsumes k b)"] by auto
  have "map strip (filter (\<lambda>k. \<not> subsumes b k) zs) = filter (\<lambda>k. \<not> subsumes b k) (map strip zs)" for zs
    by (simp add: filter_map comp_def)
  with assms ex show ?thesis by (auto simp: geo_insert_def)
qed

lemma fold_normalizeStep_geo:
  assumes "map strip kept = map strip kept'"
  shows "map strip (fold (normalizeStep merge) bs kept) = map strip (fold geo_insert bs kept')"
  using assms
proof (induction bs arbitrary: kept kept')
  case (Cons b bs)
  have "map strip (normalizeStep merge b kept) = map strip (geo_insert b kept')"
    using geo_insert_strip [OF Cons.prems] by (simp add: normalizeStep_geo)
  from Cons.IH [OF this] show ?case by simp
qed simp

lemma NormalizeMerged_geo:
  "map strip (NormalizeMerged bs merge) = map strip (sortBoxes (fold geo_insert bs []))"
  by (simp add: NormalizeMerged_def sortBoxes_def sort_slice_strip fold_normalizeStep_geo [of "[]" "[]"])

text \<open>
  What normalizing keeps is the set of inclusion-maximal spans among the non-empty inputs, so it depends on
  the set of boxes alone, not on their order.
\<close>

definition maximal :: "'a set set \<Rightarrow> 'a set set" where
  "maximal S = {x \<in> S. \<forall>y\<in>S. x \<subseteq> y \<longrightarrow> x = y}"

lemma maximal_above:
  assumes "finite S" "x \<in> S"
  obtains m where "m \<in> maximal S" "x \<subseteq> m"
  using finite_has_maximal2 [OF assms] by (auto simp: maximal_def)

lemma Union_maximal: "finite S \<Longrightarrow> \<Union> (maximal S) = \<Union> S"
  by (rule antisym) (force simp: maximal_def, blast elim: maximal_above)

lemma maximal_insert:
  assumes "finite S"
  shows "maximal (insert x S) =
    (if \<exists>k\<in>maximal S. x \<subset> k then {k \<in> maximal S. \<not> k \<subseteq> x} else insert x {k \<in> maximal S. \<not> k \<subseteq> x})"
proof -
  have above: "\<exists>m\<in>maximal S. y \<subseteq> m" if "y \<in> S" for y using maximal_above [OF assms that] by blast
  have x: "x \<in> maximal (insert x S) \<longleftrightarrow> \<not> (\<exists>k\<in>maximal S. x \<subset> k)"
  proof
    assume "x \<in> maximal (insert x S)"
    then show "\<not> (\<exists>k\<in>maximal S. x \<subset> k)" unfolding maximal_def by blast
  next
    assume n: "\<not> (\<exists>k\<in>maximal S. x \<subset> k)"
    have "x = y" if "y \<in> S" "x \<subseteq> y" for y using above [OF that(1)] that n by blast
    then show "x \<in> maximal (insert x S)" by (simp add: maximal_def)
  qed
  have other: "y \<in> maximal (insert x S) \<longleftrightarrow> y \<in> maximal S \<and> \<not> y \<subseteq> x" if "y \<noteq> x" for y
    using that by (auto simp: maximal_def)
  show ?thesis
  proof (rule set_eqI)
    fix y
    show "y \<in> maximal (insert x S) \<longleftrightarrow> y \<in> (if \<exists>k\<in>maximal S. x \<subset> k
        then {k \<in> maximal S. \<not> k \<subseteq> x} else insert x {k \<in> maximal S. \<not> k \<subseteq> x})"
      using x other [of y] by (cases "y = x") simp_all
  qed
qed

definition spans :: "box list \<Rightarrow> finePoint list set set" where
  "spans bs = bspan ` {b \<in> set bs. \<not> Box_Empty b}"

definition antichain :: "box list \<Rightarrow> bool" where
  "antichain bs \<longleftrightarrow> sorted_wrt (\<lambda>a b. \<not> subsumes a b \<and> \<not> subsumes b a) bs"

definition all_good :: "nat \<Rightarrow> box list \<Rightarrow> bool" where
  "all_good n bs \<longleftrightarrow> (\<forall>b\<in>set bs. good_box n b)"

lemma all_good_simps [simp]:
  "all_good n []" "all_good n (b # bs) \<longleftrightarrow> good_box n b \<and> all_good n bs"
  "all_good n (bs @ cs) \<longleftrightarrow> all_good n bs \<and> all_good n cs"
  by (auto simp: all_good_def)

lemma all_good_strip: "map strip xs = map strip ys \<Longrightarrow> all_good n xs = all_good n ys"
  unfolding all_good_def by (rule map_strip_ball) simp_all

lemma antichain_strip: "map strip xs = map strip ys \<Longrightarrow> antichain xs = antichain ys"
  unfolding antichain_def by (rule map_strip_sorted) simp_all

lemma set_sortBoxes [simp]: "set (sortBoxes bs) = set bs"
  by (simp add: sortBoxes_def)

lemma antichain_simps [simp]:
  "antichain []"
  "antichain (b # bs) \<longleftrightarrow> (\<forall>c\<in>set bs. \<not> subsumes b c \<and> \<not> subsumes c b) \<and> antichain bs"
  "antichain (bs @ cs) \<longleftrightarrow> antichain bs \<and> antichain cs \<and>
     (\<forall>b\<in>set bs. \<forall>c\<in>set cs. \<not> subsumes b c \<and> \<not> subsumes c b)"
  by (auto simp: antichain_def sorted_wrt_append)

lemma antichain_sortBoxes [simp]: "antichain (sortBoxes bs) = antichain bs"
proof -
  have ins: "antichain (insert_by box_Less x ys) = antichain (x # ys)" for x ys
    by (induction ys) auto
  have "antichain (fold (insert_by box_Less) bs ys) = antichain (bs @ ys)" for ys
    by (induction bs arbitrary: ys) (auto simp: ins)
  from this [of "[]"] show ?thesis by (simp add: sortBoxes_def sort_slice_def)
qed

lemma geo_insert_good:
  assumes "box_ok n b" "all_good n kept"
  shows "all_good n (geo_insert b kept)"
  using assms by (auto simp: geo_insert_def all_good_def good_box_def)

lemma geo_insert_antichain:
  assumes "antichain kept"
  shows "antichain (geo_insert b kept)"
  using assms sorted_wrt_filter [of _ kept]
  by (auto simp: geo_insert_def antichain_def sorted_wrt_append)

lemma geo_insert_spans:
  assumes "box_ok n b" "all_good n kept" "bspan ` set kept = maximal S" "finite S"
  shows "bspan ` set (geo_insert b kept) = maximal (if Box_Empty b then S else insert (bspan b) S)"
proof (cases "Box_Empty b")
  case True
  with assms show ?thesis by (simp add: geo_insert_def)
next
  case False
  with assms(1) have b: "good_box n b" by (simp add: good_box_def)
  have sub: "subsumes b k \<longleftrightarrow> bspan k \<subseteq> bspan b" "subsumes k b \<longleftrightarrow> bspan b \<subseteq> bspan k" if "k \<in> set kept" for k
    using assms(2) b that subsumes_iff_bspan by (simp_all add: all_good_def) blast+
  have ex: "(\<exists>k\<in>set kept. \<not> subsumes b k \<and> subsumes k b) \<longleftrightarrow> (\<exists>k\<in>maximal S. bspan b \<subset> k)"
    using sub by (auto simp: assms(3) [symmetric])
  have fl: "bspan ` set (filter (\<lambda>k. \<not> subsumes b k) kept) = {k \<in> maximal S. \<not> k \<subseteq> bspan b}"
    using sub by (auto simp: assms(3) [symmetric])
  show ?thesis
    using False ex fl by (simp add: geo_insert_def maximal_insert [OF assms(4)] image_Un)
qed

lemma fold_geo_insert:
  assumes "\<forall>b\<in>set bs. box_ok n b" "all_good n kept" "antichain kept" "bspan ` set kept = maximal S" "finite S"
  shows "all_good n (fold geo_insert bs kept)" "antichain (fold geo_insert bs kept)"
    "bspan ` set (fold geo_insert bs kept) = maximal (spans bs \<union> S)"
proof -
  have "all_good n (fold geo_insert bs kept) \<and> antichain (fold geo_insert bs kept) \<and>
      bspan ` set (fold geo_insert bs kept) = maximal (spans bs \<union> S)"
    using assms
  proof (induction bs arbitrary: kept S)
    case Nil
    then show ?case by (simp add: spans_def)
  next
    case (Cons b bs)
    let ?S = "if Box_Empty b then S else insert (bspan b) S"
    have "all_good n (fold geo_insert bs (geo_insert b kept)) \<and> antichain (fold geo_insert bs (geo_insert b kept)) \<and>
        bspan ` set (fold geo_insert bs (geo_insert b kept)) = maximal (spans bs \<union> ?S)"
      using Cons.prems by (intro Cons.IH geo_insert_good geo_insert_antichain geo_insert_spans) auto
    moreover have "spans bs \<union> ?S = spans (b # bs) \<union> S" by (auto simp: spans_def)
    ultimately show ?case by simp
  qed
  then show "all_good n (fold geo_insert bs kept)" "antichain (fold geo_insert bs kept)"
    "bspan ` set (fold geo_insert bs kept) = maximal (spans bs \<union> S)" by auto
qed

lemma finite_spans [simp]: "finite (spans bs)"
  by (simp add: spans_def)

lemma bcover_image: "bcover bs = \<Union> (bspan ` set bs)"
  by (auto simp: bcover_def)

lemma bcover_simps [simp]:
  "bcover [] = {}" "bcover (b # bs) = bspan b \<union> bcover bs" "bcover (bs @ cs) = bcover bs \<union> bcover cs"
  by (auto simp: bcover_def)

lemma Union_spans: "\<forall>b\<in>set bs. box_ok n b \<Longrightarrow> \<Union> (spans bs) = bcover bs"
  using Empty_iff_bspan by (fastforce simp: spans_def bcover_def)

definition box_canonical :: "nat \<Rightarrow> box list \<Rightarrow> bool" where
  "box_canonical n bs \<longleftrightarrow> all_good n bs \<and> antichain bs \<and> sorted_wrt (\<lambda>a b. \<not> box_Less b a) bs"

lemma NormalizeMerged_spec:
  assumes "\<forall>b\<in>set bs. box_ok n b"
  shows "box_canonical n (NormalizeMerged bs merge)"
    and "bspan ` set (NormalizeMerged bs merge) = maximal (spans bs)"
proof -
  note g = NormalizeMerged_geo [of bs merge]
  note f = fold_geo_insert [OF assms, of "[]" "{}"]
  let ?k = "sortBoxes (fold geo_insert bs [])"
  have f': "all_good n ?k" "antichain ?k" "bspan ` set ?k = maximal (spans bs)"
    using f by (simp_all add: all_good_def maximal_def set_sortBoxes)
  have "sorted_wrt (\<lambda>a b. \<not> box_Less b a) ?k"
    using f'(1) box_order.in_order_sort_slice [of "fold geo_insert bs []" n]
    by (simp add: sortBoxes_def all_good_def)
  with f' show "box_canonical n (NormalizeMerged bs merge)"
    using all_good_strip [OF g] antichain_strip [OF g] map_strip_sorted [OF g, of "\<lambda>a b. \<not> box_Less b a"]
    by (simp add: box_canonical_def)
  show "bspan ` set (NormalizeMerged bs merge) = maximal (spans bs)"
    using f'(3) map_strip_image [OF g, of bspan] by (metis list.set_map strip_simps(3))
qed

lemma NormalizeMerged_bcover:
  "\<forall>b\<in>set bs. box_ok n b \<Longrightarrow> bcover (NormalizeMerged bs merge) = bcover bs"
  by (simp add: bcover_image [of "NormalizeMerged bs merge"] NormalizeMerged_spec(2) Union_maximal Union_spans)

lemma NormalizeMerged_good: "\<forall>b\<in>set bs. box_ok n b \<Longrightarrow> all_good n (NormalizeMerged bs merge)"
  using NormalizeMerged_spec(1) by (simp add: box_canonical_def)

lemma all_goodD: "all_good n bs \<Longrightarrow> \<forall>b\<in>set bs. box_ok n b"
  by (simp add: all_good_def good_box_def)

text \<open>A canonical list is determined by its spans: same spans, same boxes up to metadata and bound slices.\<close>

lemma canonical_keys:
  assumes "box_canonical n bs"
  shows "sorted (map box_key bs)" "distinct (map box_key bs)"
proof -
  have g: "\<forall>b\<in>set bs. good_box n b" using assms by (simp add: box_canonical_def all_good_def)
  have "sorted_wrt (\<lambda>a b. \<not> box_Less b a) bs" using assms by (simp add: box_canonical_def)
  then have "sorted_wrt (\<lambda>a b. box_key a \<le> box_key b) bs"
  proof (rule sorted_wrt_mono_rel [rotated])
    fix x y assume "x \<in> set bs" "y \<in> set bs" "\<not> box_Less y x"
    with g show "box_key x \<le> box_key y" using box_Less_keys [of n y x] by (simp add: not_less)
  qed
  then show "sorted (map box_key bs)" by (simp add: sorted_wrt_map)
  have "distinct (map box_key bs)" if "antichain bs" "\<forall>b\<in>set bs. good_box n b" for bs
    using that
  proof (induction bs)
    case (Cons b bs)
    have "box_key b \<noteq> box_key c" if "c \<in> set bs" for c
      using Cons.prems that box_key_bspan [of n b c] subsumes_iff_bspan [of n b c] by auto
    with Cons show ?case by auto
  qed simp
  with assms g show "distinct (map box_key bs)" by (simp add: box_canonical_def)
qed

lemma keys_of_spans:
  assumes "all_good n bs" "all_good n cs" "bspan ` set bs \<subseteq> bspan ` set cs"
  shows "box_key ` set bs \<subseteq> box_key ` set cs"
proof
  fix k assume "k \<in> box_key ` set bs"
  then obtain b where b: "b \<in> set bs" "k = box_key b" by blast
  then obtain c where c: "c \<in> set cs" "bspan b = bspan c" using assms(3) by blast
  with assms(1,2) b have "k = box_key c" using box_key_bspan unfolding all_good_def by blast
  with c show "k \<in> box_key ` set cs" by blast
qed

lemma canonical_unique:
  assumes "box_canonical n bs" "box_canonical n cs" "bspan ` set bs = bspan ` set cs"
  shows "map box_key bs = map box_key cs"
proof -
  have "set (map box_key bs) = set (map box_key cs)"
    using keys_of_spans [of n bs cs] keys_of_spans [of n cs bs] assms by (simp add: box_canonical_def)
  then show ?thesis
    using canonical_keys [OF assms(1)] canonical_keys [OF assms(2)] by (intro sorted_distinct_set_unique) auto
qed

lemma NormalizeMerged_set_only:
  assumes "\<forall>b\<in>set bs. box_ok n b" "set bs = set cs"
  shows "map box_key (NormalizeMerged bs merge) = map box_key (NormalizeMerged cs merge')"
  using assms NormalizeMerged_spec [of bs n merge] NormalizeMerged_spec [of cs n merge']
  by (intro canonical_unique [of n]) (auto simp: spans_def)

subsection \<open>Insertion into a canonical cover\<close>

lemma insertSortedBox_order:
  assumes "all_good n bs" "good_box n b" "sorted_wrt (\<lambda>a b. \<not> box_Less b a) bs"
  shows "insertSortedBox bs b = takeWhile (\<lambda>s. box_Less s b) bs @ b # dropWhile (\<lambda>s. box_Less s b) bs"
    and "sorted_wrt (\<lambda>a b. \<not> box_Less b a) (insertSortedBox bs b)"
proof -
  have g: "\<forall>b\<in>set bs. good_box n b" using assms(1) by (simp add: all_good_def)
  have "box_Less (bs ! i) b" if "i < j" "j < length bs" "box_Less (bs ! j) b" for i j
  proof -
    have "good_box n (bs ! i)" "good_box n (bs ! j)" using g that by simp_all
    moreover have "\<not> box_Less (bs ! j) (bs ! i)" using assms(3) that by (simp add: sorted_wrt_iff_nth_less)
    ultimately show ?thesis using box_order.lt_negtrans that(3) assms(2) by blast
  qed
  then have mono: "\<forall>i j. i < j \<longrightarrow> j < length bs \<longrightarrow> box_Less (bs ! j) b \<longrightarrow> box_Less (bs ! i) b" by blast
  let ?P = "\<lambda>s. box_Less s b"
  show eq: "insertSortedBox bs b = takeWhile ?P bs @ b # dropWhile ?P bs"
    using sort_Search_takeWhile [OF mono]
    by (simp add: insertSortedBox_def Let_def takeWhile_eq_take [symmetric] dropWhile_eq_drop [symmetric])
  have sw: "sorted_wrt (\<lambda>a b. \<not> box_Less b a) (takeWhile ?P bs @ dropWhile ?P bs)" using assms(3) by simp
  have tw: "\<not> box_Less b x" if "x \<in> set (takeWhile ?P bs)" for x
    using set_takeWhileD [OF that] g assms(2) box_order.lt_asym by blast
  have dw: "\<not> box_Less x b" if x: "x \<in> set (dropWhile ?P bs)" for x
  proof -
    obtain y ys where d: "dropWhile ?P bs = y # ys"
      using x by (cases "dropWhile ?P bs") (simp_all del: dropWhile_eq_Nil_conv)
    then have "y \<in> set bs" by (metis list.set_intros(1) set_dropWhileD)
    with d have y: "\<not> box_Less y b" "y \<in> set bs" "x = y \<or> \<not> box_Less x y"
      using x sw hd_dropWhile [of ?P bs] by (auto simp: sorted_wrt_append)
    have "x \<in> set bs" using x by (rule set_dropWhileD)
    with y g assms(2) show ?thesis using box_order.not_lt_trans by blast
  qed
  show "sorted_wrt (\<lambda>a b. \<not> box_Less b a) (insertSortedBox bs b)"
    using sw tw dw unfolding eq sorted_wrt_append sorted_wrt.simps list.set by blast
qed

lemma InsertNormalized_spec:
  assumes "box_canonical n bs" "box_ok n b"
  shows "box_canonical n (InsertNormalized bs b)"
    and "set (InsertNormalized bs b) = set (geo_insert b bs)"
proof -
  let ?k = "filter (\<lambda>k. \<not> subsumes b k) bs"
  have k: "all_good n ?k" "antichain ?k" "sorted_wrt (\<lambda>a b. \<not> box_Less b a) ?k"
    using assms(1) by (auto simp: box_canonical_def all_good_def antichain_def intro: sorted_wrt_filter)
  have s: "list_ex (\<lambda>k. \<not> subsumes b k \<and> subsumes k b) bs \<longleftrightarrow> (\<exists>k\<in>set bs. \<not> subsumes b k \<and> subsumes k b)"
    by (simp add: list_ex_iff)
  have split: "set (insertSortedBox ?k b) = insert b (set ?k)" if "good_box n b"
    using insertSortedBox_order(1) [OF k(1) that k(3)]
    by (metis Un_insert_right list.simps(15) set_append takeWhile_dropWhile_id)
  show set: "set (InsertNormalized bs b) = set (geo_insert b bs)"
    using split assms(2) by (auto simp: InsertNormalized_def geo_insert_def s Let_def good_box_def)
  have "antichain (insertSortedBox ?k b)" if "good_box n b" "\<not> (\<exists>k\<in>set bs. \<not> subsumes b k \<and> subsumes k b)"
  proof -
    have ins: "antichain (xs @ b # ys) \<longleftrightarrow> antichain (xs @ ys) \<and>
        (\<forall>c\<in>set (xs @ ys). \<not> subsumes b c \<and> \<not> subsumes c b)" for xs ys
      unfolding antichain_simps set_append list.set by blast
    have "\<forall>c\<in>set ?k. \<not> subsumes b c \<and> \<not> subsumes c b" using that(2) by auto
    with k(2) show ?thesis
      unfolding insertSortedBox_order(1) [OF k(1) that(1) k(3)] ins takeWhile_dropWhile_id by (rule conjI)
  qed
  moreover have "all_good n (InsertNormalized bs b)"
    using geo_insert_good [of n b bs] assms by (simp add: all_good_def box_canonical_def set)
  ultimately show "box_canonical n (InsertNormalized bs b)"
    using assms k insertSortedBox_order(2) [OF k(1) _ k(3)]
    by (auto simp: InsertNormalized_def s Let_def box_canonical_def good_box_def)
qed

text \<open>The incremental form agrees with normalizing the extended list.\<close>

lemma InsertNormalized_incremental:
  assumes "box_canonical n bs" "box_ok n b"
  shows "map box_key (InsertNormalized bs b) = map box_key (NormalizeMerged (bs @ [b]) merge)"
proof (rule canonical_unique [of n])
  have g: "\<forall>b\<in>set bs. good_box n b" using assms(1) by (simp add: box_canonical_def all_good_def)
  then have ok: "\<forall>c\<in>set (bs @ [b]). box_ok n c" using assms(2) by (auto simp: good_box_def)
  show "box_canonical n (InsertNormalized bs b)" using InsertNormalized_spec(1) [OF assms] .
  show "box_canonical n (NormalizeMerged (bs @ [b]) merge)" using NormalizeMerged_spec(1) [OF ok] .
  have sub: "x = y" if "x \<in> set bs" "y \<in> set bs" "bspan x \<subseteq> bspan y" for x y
  proof (rule ccontr)
    assume "x \<noteq> y"
    with that(1,2) have "(\<exists>as bs' cs. bs = as @ x # bs' @ y # cs) \<or> (\<exists>as bs' cs. bs = as @ y # bs' @ x # cs)"
      by (metis append_Cons append_assoc in_set_conv_decomp set_ConsD Un_iff set_append)
    then have "\<not> subsumes y x" using assms(1) by (auto simp: box_canonical_def)
    with that g show False using subsumes_iff_bspan by blast
  qed
  then have "bspan ` set bs = maximal (bspan ` set bs)" by (auto simp: maximal_def)
  from geo_insert_spans [OF assms(2) _ this] assms(1)
  have "bspan ` set (geo_insert b bs) = maximal (if Box_Empty b then bspan ` set bs else insert (bspan b) (bspan ` set bs))"
    by (simp add: box_canonical_def)
  also have "\<dots> = maximal (spans (bs @ [b]))"
    using g by (intro arg_cong [of _ _ maximal]) (auto simp: spans_def good_box_def)
  finally show "bspan ` set (InsertNormalized bs b) = bspan ` set (NormalizeMerged (bs @ [b]) merge)"
    by (simp only: InsertNormalized_spec(2) [OF assms] NormalizeMerged_spec(2) [OF ok])
qed

end
