(* ===== verification/Box_Difference.thy ===== *)
theory Box_Difference
  imports Box_Sets
begin

section \<open>Exact differences of boxes (space/set.go)\<close>

text \<open>
  The correctness of \<open>subtractBox\<close>, of the difference of two sets and of the queries. The sweep over the axes
  keeps one pending piece; the invariant (\<open>carved\<close>) says that the finished pieces and the pending one
  partition \<open>p\<close>, that the finished ones avoid \<open>q\<close>, and that the pending one is inside \<open>q\<close> on the axes swept.
\<close>

subsection \<open>Clipping one axis\<close>

lemma cloneBox_id [simp]: "cloneBox b = b"
  by (simp add: cloneBox_def)

lemma clipToInterval_sel:
  "BMin (clipToInterval b d iv) = (BMin b)[d := Start iv]"
  "BMax (clipToInterval b d iv) = (BMax b)[d := End iv]"
  "Meta (clipToInterval b d iv) = Meta b" "Dims (clipToInterval b d iv) = Dims b"
  by (simp_all add: clipToInterval_def Let_def Dims_def)

lemma clipToInterval_bounds:
  assumes "box_ok n b" "i < n" "d < n"
  shows "loBound (clipToInterval b d iv) i = (if i = d then StartBound iv else loBound b i)"
    and "hiBound (clipToInterval b d iv) i = (if i = d then EndBound iv else hiBound b i)"
proof -
  have len: "length (BMin b) = n" "length (BMax b) = n" "length (MinBound b) \<in> {0, n}"
    "length (MaxBound b) \<in> {0, n}" using assms(1) by (simp_all add: box_ok_iff)
  let ?l = "(if MinBound b = [] then replicate n Closed else MinBound b)[d := StartBound iv]"
  let ?h = "(if MaxBound b = [] then replicate n Open else MaxBound b)[d := EndBound iv]"
  have l: "length ?l = n" "?l ! i = (if i = d then StartBound iv else loBound b i)"
    using len assms by (auto simp: loBound_def nth_list_update)
  have h: "length ?h = n" "?h ! i = (if i = d then EndBound iv else hiBound b i)"
    using len assms by (auto simp: hiBound_def nth_list_update)
  have "loBound (clipToInterval b d iv) i = ?l ! i"
    using assms(2) l(1) len by (auto simp: loBound_def clipToInterval_def Let_def allClosed_def list_all_length)
  with l(2) show "loBound (clipToInterval b d iv) i = (if i = d then StartBound iv else loBound b i)" by simp
  have "hiBound (clipToInterval b d iv) i = ?h ! i"
    using assms(2) h(1) len by (auto simp: hiBound_def clipToInterval_def Let_def allOpen_def list_all_length)
  with h(2) show "hiBound (clipToInterval b d iv) i = (if i = d then EndBound iv else hiBound b i)" by simp
qed

lemma axis_clipToInterval:
  assumes "box_ok n b" "i < n" "d < n"
  shows "axis (clipToInterval b d iv) i = (if i = d then iv else axis b i)"
  using assms clipToInterval_bounds [OF assms, of iv] box_okD [OF assms(1)]
  by (simp add: axis_def clipToInterval_sel)

lemma good_box_axes:
  "good_box n b \<longleftrightarrow> 0 < n \<and> length (BMin b) = n \<and> length (BMax b) = n \<and>
     length (MinBound b) \<in> {0, n} \<and> length (MaxBound b) \<in> {0, n} \<and> (\<forall>i<n. valid_iv (axis b i))"
    (is "_ \<longleftrightarrow> ?shape \<and> ?h0 \<and> ?h1 \<and> ?b0 \<and> ?b1 \<and> ?valid")
proof
  assume g: "good_box n b"
  then show "?shape \<and> ?h0 \<and> ?h1 \<and> ?b0 \<and> ?b1 \<and> ?valid"
    using good_boxD(1) [OF g] good_box_valid [OF g] unfolding box_ok_iff by blast
next
  assume r: "?shape \<and> ?h0 \<and> ?h1 \<and> ?b0 \<and> ?b1 \<and> ?valid"
  have "(\<exists>lo hi. BMin b ! i = Fin lo \<and> BMax b ! i = Fin hi \<and> lo \<le> hi) \<and> \<not> Interval_empty (axis b i)"
    if "i < n" for i
    using r that by (auto simp: axis_def Interval_empty_def dest!: spec [of _ i] elim!: validE)
  then have "box_ok n b \<and> (\<forall>i<n. \<not> Interval_empty (axis b i))" unfolding box_ok_iff using r by blast
  with r show "good_box n b" by (simp add: good_box_def Box_Empty_axis Dims_def)
qed

lemma good_clipToInterval:
  assumes "good_box n b" "d < n" "valid_iv iv"
  shows "good_box n (clipToInterval b d iv)"
proof -
  note ok = good_boxD(1) [OF assms(1)]
  have "\<forall>i<n. valid_iv (axis (clipToInterval b d iv) i)"
    using axis_clipToInterval [OF ok _ assms(2)] good_box_valid [OF assms(1)] assms(3) by simp
  moreover have "length (MinBound (clipToInterval b d iv)) \<in> {0, n}" "length (MaxBound (clipToInterval b d iv)) \<in> {0, n}"
    using ok by (auto simp: clipToInterval_def Let_def box_ok_iff)
  ultimately show ?thesis
    using ok by (simp add: good_box_axes clipToInterval_sel box_ok_iff)
qed

lemma bspan_clipToInterval:
  assumes "good_box n b" "d < n" "fspan iv \<subseteq> fspan (axis b d)"
  shows "bspan (clipToInterval b d iv) = {ps \<in> bspan b. ps ! d \<in> fspan iv}"
proof -
  have "(\<forall>i<n. ps ! i \<in> fspan (axis (clipToInterval b d iv) i)) \<longleftrightarrow>
      (\<forall>i<n. ps ! i \<in> fspan (axis b i)) \<and> ps ! d \<in> fspan iv" for ps
    using axis_clipToInterval [OF good_boxD(1) [OF assms(1)] _ assms(2)] assms(2,3) by (auto split: if_splits)
  then show ?thesis by (auto simp: bspan_def clipToInterval_sel good_boxD [OF assms(1)])
qed

subsection \<open>One axis of the sweep\<close>

lemma intervalIntersection_span:
  assumes "valid_iv a" "valid_iv b"
  shows "intervalIntersection (Start a) (Start b) (End a) (End b)
      (StartBound a) (StartBound b) (EndBound a) (EndBound b) =
    fromFine (max (ilo a) (ilo b)) (min (ihi a) (ihi b))"
  using assms by (elim validE) (auto simp: intervalIntersection_def fine_def fromFine_def max_def min_def)

lemma intervalSubtract_span:
  assumes "valid_iv a" "valid_iv b"
  shows "intervalSubtract (Start a) (Start b) (End a) (End b)
      (StartBound a) (StartBound b) (EndBound a) (EndBound b) =
    (if ilo a < ilo b then [fromFine (ilo a) (ilo b)] else []) @
    (if ihi b < ihi a then [fromFine (ihi b) (ihi a)] else [])"
  using assms by (elim validE) (auto simp: intervalSubtract_def fine_def fromFine_def invertBound_def)

definition bdisjoint :: "box list \<Rightarrow> bool" where
  "bdisjoint bs \<longleftrightarrow> sorted_wrt (\<lambda>a b. bspan a \<inter> bspan b = {}) bs"

lemma bdisjoint_simps [simp]:
  "bdisjoint []" "bdisjoint [b]"
  "bdisjoint (bs @ cs) \<longleftrightarrow> bdisjoint bs \<and> bdisjoint cs \<and> bcover bs \<inter> bcover cs = {}"
  by (auto simp: bdisjoint_def sorted_wrt_append bcover_def)

lemma splitAxis_spec:
  assumes b: "good_box n b" and q: "good_box n q" and d: "d < n"
    and o: "max (ilo (axis b d)) (ilo (axis q d)) < min (ihi (axis b d)) (ihi (axis q d))"
    and s: "splitAxis q d b = (c, ps)"
  shows "good_box n c" "\<forall>i<n. i \<noteq> d \<longrightarrow> axis c i = axis b i" "Meta c = Meta b"
    and "bspan c = {x \<in> bspan b. x ! d \<in> fspan (axis q d)}"
    and "all_good n ps" "\<forall>p\<in>set ps. Meta p = Meta b" "bdisjoint ps"
    and "bcover ps = {x \<in> bspan b. x ! d \<notin> fspan (axis q d)}"
proof -
  let ?a = "axis b d" and ?b = "axis q d"
  have v: "valid_iv ?a" "valid_iv ?b" using good_box_valid b q d by blast+
  note fin = good_box_fin [OF b d] good_box_fin [OF q d]
  note ct = intervalContains_span [of ?a ?b, unfolded axis_sel, OF fin]
  note sub = intervalSubtract_span [OF v, unfolded axis_sel]
  note int = intervalIntersection_span [OF v, unfolded axis_sel]
  note ax = axis_clipToInterval [OF good_boxD(1) [OF b] _ d]
  note sp = bspan_clipToInterval [OF b d]
  have at: "x ! d \<in> fspan ?a" if "x \<in> bspan b" for x
    using that d by (simp add: bspan_def good_boxD [OF b])
  have "good_box n c \<and> (\<forall>i<n. i \<noteq> d \<longrightarrow> axis c i = axis b i) \<and> Meta c = Meta b \<and>
      bspan c = {x \<in> bspan b. x ! d \<in> fspan ?b} \<and> all_good n ps \<and> (\<forall>p\<in>set ps. Meta p = Meta b) \<and>
      bdisjoint ps \<and> bcover ps = {x \<in> bspan b. x ! d \<notin> fspan ?b}"
  proof (cases "ilo ?b \<le> ilo ?a \<and> ihi ?a \<le> ihi ?b")
    case True
    with s ct have "c = b" "ps = []" by (simp_all add: splitAxis_def)
    moreover have "fspan ?a \<subseteq> fspan ?b" using True by (auto simp: fspan_def)
    ultimately show ?thesis using b at by auto
  next
    case False
    let ?i = "fromFine (max (ilo ?a) (ilo ?b)) (min (ihi ?a) (ihi ?b))"
    let ?l = "fromFine (ilo ?a) (ilo ?b)" and ?r = "fromFine (ihi ?b) (ihi ?a)"
    have c: "c = clipToInterval b d ?i"
      and ps: "ps = map (clipToInterval b d)
        ((if ilo ?a < ilo ?b then [?l] else []) @ (if ihi ?b < ihi ?a then [?r] else []))"
      using s False ct sub int by (auto simp: splitAxis_def)
    have fp: "fin_point (max (ilo ?a) (ilo ?b))" "fin_point (min (ihi ?a) (ihi ?b))"
      using v by (simp_all add: max_def min_def)
    have i: "valid_iv ?i" "fspan ?i \<subseteq> fspan ?a" "fspan ?i = fspan ?a \<inter> fspan ?b"
      using o fp by (auto simp: fspan_def)
    have l: "valid_iv ?l" "fspan ?l \<subseteq> fspan ?a" if "ilo ?a < ilo ?b"
      using v that o by (auto simp: fspan_def)
    have r: "valid_iv ?r" "fspan ?r \<subseteq> fspan ?a" if "ihi ?b < ihi ?a"
      using v that o by (auto simp: fspan_def)
    have "bspan c = {x \<in> bspan b. x ! d \<in> fspan ?b}" using sp [OF i(2)] at i(3) by (auto simp: c)
    moreover have "bcover ps = {x \<in> bspan b. x ! d \<notin> fspan ?b}"
    proof -
      have "y \<notin> fspan ?b \<longleftrightarrow> ilo ?a < ilo ?b \<and> y \<in> fspan ?l \<or> ihi ?b < ihi ?a \<and> y \<in> fspan ?r"
        if "y \<in> fspan ?a" for y using that by (auto simp: fspan_def)
      then have "{x \<in> bspan b. x ! d \<notin> fspan ?b} =
          {x \<in> bspan b. ilo ?a < ilo ?b \<and> x ! d \<in> fspan ?l \<or> ihi ?b < ihi ?a \<and> x ! d \<in> fspan ?r}"
        using at by blast
      also have "\<dots> = bcover ps" using sp [OF l(2)] sp [OF r(2)] by (auto simp: ps)
      finally show ?thesis by simp
    qed
    moreover have "bdisjoint ps"
    proof -
      have "fspan ?l \<inter> fspan ?r = {}" using valid_fine(3) [OF v(2)] by (auto simp: fspan_def)
      then show ?thesis using sp [OF l(2)] sp [OF r(2)] by (auto simp: ps bdisjoint_def)
    qed
    moreover have "all_good n ps" using l r b d by (simp add: ps good_clipToInterval)
    moreover have "\<forall>p\<in>set ps. Meta p = Meta b" by (auto simp: ps clipToInterval_sel)
    moreover have "good_box n c" "Meta c = Meta b" "\<forall>i<n. i \<noteq> d \<longrightarrow> axis c i = axis b i"
      using good_clipToInterval [OF b d i(1)] ax by (simp_all add: c clipToInterval_sel)
    ultimately show ?thesis by (intro conjI)
  qed
  then show "good_box n c" "\<forall>i<n. i \<noteq> d \<longrightarrow> axis c i = axis b i" "Meta c = Meta b"
    "bspan c = {x \<in> bspan b. x ! d \<in> fspan (axis q d)}" "all_good n ps" "\<forall>p\<in>set ps. Meta p = Meta b"
    "bdisjoint ps" "bcover ps = {x \<in> bspan b. x ! d \<notin> fspan (axis q d)}" by blast+
qed

subsection \<open>The sweep\<close>

definition carved :: "nat \<Rightarrow> box \<Rightarrow> box \<Rightarrow> nat \<Rightarrow> box \<Rightarrow> box list \<Rightarrow> bool" where
  "carved n p q d b result \<longleftrightarrow>
     good_box n b \<and> all_good n result \<and> (\<forall>i<n. d \<le> i \<longrightarrow> axis b i = axis p i) \<and>
     Meta b = Meta p \<and> (\<forall>r\<in>set result. Meta r = Meta p) \<and>
     bspan b = {x \<in> bspan p. \<forall>i<d. x ! i \<in> fspan (axis q i)} \<and>
     bcover result = {x \<in> bspan p. \<exists>i<d. x ! i \<notin> fspan (axis q i)} \<and> bdisjoint result"

lemma carved_step:
  assumes p: "good_box n p" and q: "good_box n q" and o: "Overlaps p q" and d: "d < n"
    and c: "carved n p q d b result"
  obtains b' result' where "subtractAxis q d ([b], result) = ([b'], result')" "carved n p q (Suc d) b' result'"
proof -
  obtain b' ps where s: "splitAxis q d b = (b', ps)" by (metis surj_pair)
  have b: "good_box n b" and ax: "axis b d = axis p d" using c d by (auto simp: carved_def)
  have "max (ilo (axis b d)) (ilo (axis q d)) < min (ihi (axis b d)) (ihi (axis q d))"
    using o d by (simp add: ax Overlaps_axes [OF p q])
  note sp = splitAxis_spec [OF b q d this s]
  have "carved n p q (Suc d) b' (result @ ps)"
    unfolding carved_def
  proof (intro conjI)
    show "good_box n b'" by (rule sp)
    show "all_good n (result @ ps)" using sp c by (simp add: carved_def)
    show "\<forall>i<n. Suc d \<le> i \<longrightarrow> axis b' i = axis p i" using sp(2) c by (simp add: carved_def)
    show "Meta b' = Meta p" using sp(3) c by (simp add: carved_def)
    show "\<forall>r\<in>set (result @ ps). Meta r = Meta p" using sp(6) c by (auto simp: carved_def)
    show "bspan b' = {x \<in> bspan p. \<forall>i<Suc d. x ! i \<in> fspan (axis q i)}"
      using c by (auto simp: sp(4) carved_def less_Suc_eq)
    show "bcover (result @ ps) = {x \<in> bspan p. \<exists>i<Suc d. x ! i \<notin> fspan (axis q i)}"
      using c by (auto simp: sp(8) carved_def less_Suc_eq)
    show "bdisjoint (result @ ps)" using c by (auto simp: sp carved_def)
  qed
  then show ?thesis using that by (simp add: subtractAxis_def s)
qed

lemma carved_sweep:
  assumes "good_box n p" "good_box n q" "Overlaps p q" "d \<le> n"
  shows "\<exists>b result. fold (subtractAxis q) [0..<d] ([p], []) = ([b], result) \<and> carved n p q d b result"
  using assms(4)
proof (induction d)
  case 0
  show ?case using assms(1) by (auto simp: carved_def)
next
  case (Suc d)
  then obtain b result where f: "fold (subtractAxis q) [0..<d] ([p], []) = ([b], result)"
    and c: "carved n p q d b result" by auto
  from carved_step [OF assms(1-3) _ c] Suc.prems obtain b' result'
    where "subtractAxis q d ([b], result) = ([b'], result')" "carved n p q (Suc d) b' result'" by auto
  then show ?case by (simp add: f)
qed

lemma subtractBox_spec:
  assumes p: "good_box n p" and q: "good_box n q"
  shows "all_good n (subtractBox p q)" "bcover (subtractBox p q) = bspan p - bspan q"
    and "bdisjoint (subtractBox p q)" "\<forall>r\<in>set (subtractBox p q). Meta r = Meta p"
proof -
  have "all_good n (subtractBox p q) \<and> bcover (subtractBox p q) = bspan p - bspan q \<and>
      bdisjoint (subtractBox p q) \<and> (\<forall>r\<in>set (subtractBox p q). Meta r = Meta p)"
  proof (cases "Overlaps p q")
    case True
    from carved_sweep [OF p q True, of n] obtain b result
      where f: "fold (subtractAxis q) [0..<n] ([p], []) = ([b], result)" and c: "carved n p q n b result" by auto
    have "subtractBox p q = result" using True by (simp add: subtractBox_def good_boxD [OF p] f)
    moreover have "bspan p - bspan q = {x \<in> bspan p. \<exists>i<n. x ! i \<notin> fspan (axis q i)}"
      by (auto simp: bspan_def good_boxD [OF p] good_boxD [OF q])
    ultimately show ?thesis using c by (simp add: carved_def)
  next
    case False
    then show ?thesis
      using p Overlaps_iff_bspan [OF p q] by (auto simp: subtractBox_def)
  qed
  then show "all_good n (subtractBox p q)" "bcover (subtractBox p q) = bspan p - bspan q"
    "bdisjoint (subtractBox p q)" "\<forall>r\<in>set (subtractBox p q). Meta r = Meta p" by blast+
qed

subsection \<open>Differences of sets\<close>

lemma subtract_each:
  assumes "all_good n ps" "good_box n q"
  shows "all_good n (concat (map (\<lambda>p. subtractBox p q) ps))"
    and "bcover (concat (map (\<lambda>p. subtractBox p q) ps)) = bcover ps - bspan q"
proof -
  have "all_good n (concat (map (\<lambda>p. subtractBox p q) ps)) \<and>
      bcover (concat (map (\<lambda>p. subtractBox p q) ps)) = bcover ps - bspan q"
    using assms(1)
  proof (induction ps)
    case (Cons p ps)
    then show ?case
      using subtractBox_spec(1,2) [OF _ assms(2), of p] by (simp add: Un_Diff)
  qed simp
  then show "all_good n (concat (map (\<lambda>p. subtractBox p q) ps))"
    "bcover (concat (map (\<lambda>p. subtractBox p q) ps)) = bcover ps - bspan q" by blast+
qed

lemma DifferenceSortedMerged_spec:
  assumes "\<forall>p\<in>set a. box_ok n p" "all_good n b"
  shows "box_canonical n (DifferenceSortedMerged a b merge)"
    and "bcover (DifferenceSortedMerged a b merge) = bcover a - bcover b"
proof -
  let ?f = "\<lambda>q result. NormalizeMerged (concat (map (\<lambda>p. subtractBox p q) result)) merge"
  have "box_canonical n r \<Longrightarrow> all_good n qs \<Longrightarrow>
      box_canonical n (fold ?f qs r) \<and> bcover (fold ?f qs r) = bcover r - bcover qs" for qs r
  proof (induction qs arbitrary: r)
    case (Cons q qs)
    let ?c = "concat (map (\<lambda>p. subtractBox p q) r)"
    have g: "all_good n r" "good_box n q" using Cons.prems by (simp_all add: box_canonical_def)
    note ok = all_goodD [OF subtract_each(1) [OF g]]
    have "box_canonical n (?f q r)" "bcover (?f q r) = bcover r - bspan q"
      using NormalizeMerged_spec(1) [OF ok] NormalizeMerged_bcover [OF ok] subtract_each(2) [OF g] by simp_all
    with Cons.IH [of "?f q r"] Cons.prems show ?case by auto
  qed simp
  from this [OF NormalizeMerged_spec(1) [OF assms(1)] assms(2)]
  show "box_canonical n (DifferenceSortedMerged a b merge)"
    "bcover (DifferenceSortedMerged a b merge) = bcover a - bcover b"
    by (simp_all add: DifferenceSortedMerged_def NormalizeMerged_bcover [OF assms(1)])
qed

lemma DifferenceMerged_spec:
  assumes "\<forall>p\<in>set a. box_ok n p" "\<forall>q\<in>set b. box_ok n q"
  shows "box_canonical n (DifferenceMerged a b merge)"
    and "bcover (DifferenceMerged a b merge) = bcover a - bcover b"
  using DifferenceSortedMerged_spec [OF assms(1) NormalizeMerged_good [OF assms(2)], of merge merge]
  by (simp_all add: DifferenceMerged_def NormalizeMerged_bcover [OF assms(2)])

lemma UnionMerged_spec:
  assumes "\<forall>p\<in>set a. box_ok n p" "\<forall>q\<in>set b. box_ok n q"
  shows "box_canonical n (UnionMerged a b merge)" "bcover (UnionMerged a b merge) = bcover a \<union> bcover b"
proof -
  have ok: "\<forall>p\<in>set (a @ b). box_ok n p" using assms by auto
  show "box_canonical n (UnionMerged a b merge)" "bcover (UnionMerged a b merge) = bcover a \<union> bcover b"
    using NormalizeMerged_spec(1) [OF ok] NormalizeMerged_bcover [OF ok] by (simp_all add: UnionMerged_def)
qed

subsection \<open>Queries\<close>

definition box_points :: "box list \<Rightarrow> real list set" where
  "box_points bs = (\<Union>b\<in>set bs. bpoints b)"

lemma box_points_bcover: "\<forall>b\<in>set bs. box_ok n b \<Longrightarrow> xs \<in> box_points bs \<longleftrightarrow> fineOf xs \<in> bcover bs"
  using bpoints_cover [of bs n] by (auto simp: box_points_def)

lemma boxes_Contains_iff:
  assumes "\<forall>b\<in>set bs. box_ok n b" "length xs = n"
  shows "boxes_Contains bs (map Fin xs) \<longleftrightarrow> xs \<in> box_points bs"
proof -
  have "Dims b = n" if "b \<in> set bs" for b using assms(1) that box_okD(4) by blast
  with assms(2) show ?thesis by (auto simp: boxes_Contains_def box_points_def bpoints_def list_ex_iff)
qed

lemma OverlapsSet_iff:
  assumes "all_good n bs" "good_box n q"
  shows "OverlapsSet bs q \<longleftrightarrow> box_points bs \<inter> bpoints q \<noteq> {}"
proof -
  have "Overlaps b q \<longleftrightarrow> bpoints b \<inter> bpoints q \<noteq> {}" if "b \<in> set bs" for b
    using assms that Overlaps_iff_points [of n b q] by (simp add: all_good_def)
  then show ?thesis by (auto simp: OverlapsSet_def box_points_def list_ex_iff)
qed

lemma equalBox_bspan:
  assumes "good_box n a" "good_box n b"
  shows "equalBox a b \<longleftrightarrow> bspan a = bspan b"
proof -
  have "f_eq (BMin a ! i) (BMin b ! i) \<and> f_eq (BMax a ! i) (BMax b ! i) \<and>
         loBound a i = loBound b i \<and> hiBound a i = hiBound b i \<longleftrightarrow> axis a i = axis b i" if "i < n" for i
    using good_box_fin [OF assms(1) that] by (auto simp: axis_def f_eq_def is_fin_iff)
  then show ?thesis
    unfolding box_key_bspan [OF assms, symmetric] box_key_axes [OF assms]
    by (auto simp: equalBox_def list_all_iff good_boxD [OF assms(1)])
qed

text \<open>\<open>Equal\<close> compares canonical covers: the maximal boxes agree. It implies equal coverage.\<close>

lemma box_Equal_iff:
  assumes "\<forall>p\<in>set a. box_ok n p" "\<forall>q\<in>set b. box_ok n q"
  shows "box_Equal a b \<longleftrightarrow> maximal (spans a) = maximal (spans b)"
proof -
  let ?x = "box_Normalize a" and ?y = "box_Normalize b"
  have c: "box_canonical n ?x" "box_canonical n ?y"
    "bspan ` set ?x = maximal (spans a)" "bspan ` set ?y = maximal (spans b)"
    using NormalizeMerged_spec assms by (auto simp: box_Normalize_def)
  have eq: "equalBox u v \<longleftrightarrow> bspan u = bspan v" if "u \<in> set ?x" "v \<in> set ?y" for u v
    using c(1,2) that equalBox_bspan [of n u v] by (simp add: box_canonical_def all_good_def)
  have "box_Equal a b \<longleftrightarrow> list_all2 equalBox ?x ?y"
    by (auto simp: box_Equal_def Let_def list_all2_lengthD)
  also have "\<dots> \<longleftrightarrow> list_all2 (\<lambda>u v. bspan u = bspan v) ?x ?y"
    using eq by (auto simp: list_all2_conv_all_nth)
  also have "\<dots> \<longleftrightarrow> map bspan ?x = map bspan ?y"
    by (simp add: list_all2_conv_all_nth list_eq_iff_nth_eq) auto
  also have "\<dots> \<longleftrightarrow> maximal (spans a) = maximal (spans b)"
  proof
    assume "map bspan ?x = map bspan ?y"
    then show "maximal (spans a) = maximal (spans b)" using c(3,4) by (metis list.set_map)
  next
    assume "maximal (spans a) = maximal (spans b)"
    with c have k: "map box_key ?x = map box_key ?y" by (intro canonical_unique) auto
    have g: "\<forall>u\<in>set ?x. good_box n u" "\<forall>v\<in>set ?y. good_box n v"
      using c(1,2) by (simp_all add: box_canonical_def all_good_def)
    have "bspan (?x ! i) = bspan (?y ! i)" if "i < length ?x" for i
      using that k g map_eq_imp_length_eq [OF k] box_key_bspan [of n "?x ! i" "?y ! i"]
      by (metis nth_map nth_mem)
    then show "map bspan ?x = map bspan ?y"
      using map_eq_imp_length_eq [OF k] by (simp add: list_eq_iff_nth_eq)
  qed
  finally show ?thesis .
qed

end
