(* ===== verification/Box_Ops.thy ===== *)
theory Box_Ops
  imports Boxes
begin

section \<open>Box operations (space/op/op.go)\<close>

text \<open>
  The operation record of the n-dimensional log. Besides adding and removing a box an operation can retract
  another one, named by its \<open>Ref\<close>. As in the 1-D package a fresh identifier is an argument of the
  constructors, and \<open>BKindOther\<close> stands for the byte values that are no kind.
\<close>

datatype box_kind = BKindAdd | BKindRemove | BKindRetract | BKindOther nat

definition BKind_String :: "box_kind \<Rightarrow> string" where
  "BKind_String k =
     (case k of BKindAdd \<Rightarrow> ''add'' | BKindRemove \<Rightarrow> ''remove'' | BKindRetract \<Rightarrow> ''retract''
      | BKindOther n \<Rightarrow> ''kind('' @ format10 n @ '')'')"

definition BKind_MarshalText :: "box_kind \<Rightarrow> string" where
  "BKind_MarshalText k = BKind_String k"

definition BKind_UnmarshalText :: "string \<Rightarrow> string + box_kind" where
  "BKind_UnmarshalText text =
     (if text = ''add'' then Inr BKindAdd
      else if text = ''remove'' then Inr BKindRemove
      else if text = ''retract'' then Inr BKindRetract
      else Inl (''invalid op kind '' @ text))"

record box_op =
  BO_ID :: string
  BO_Kind :: box_kind
  BO_Box :: box
  BO_TS :: int64
  BO_Ref :: string
  BO_Origin :: string

datatype box_op_error = BErrMissingID | BErrMissingRef | BErrInvalidKind nat | BErrBox box_error

definition BOp_Validate :: "box_op \<Rightarrow> box_op_error option" where
  "BOp_Validate o' =
     (if BO_ID o' = [] then Some BErrMissingID
      else
        let box_part = (case Box_Validate (BO_Box o') of
            Some err \<Rightarrow> Some (BErrBox err)
          | None \<Rightarrow> if Box_Empty (BO_Box o') then Some (BErrBox BErrEmpty) else None)
        in case BO_Kind o' of
            BKindAdd \<Rightarrow> box_part
          | BKindRemove \<Rightarrow> box_part
          | BKindRetract \<Rightarrow> if BO_Ref o' = [] then Some BErrMissingRef else box_part
          | BKindOther k \<Rightarrow> Some (BErrInvalidKind k))"

definition bop_New :: "string \<Rightarrow> box_kind \<Rightarrow> box \<Rightarrow> box_op" where
  "bop_New newid k b = \<lparr>BO_ID = newid, BO_Kind = k, BO_Box = b, BO_TS = 0, BO_Ref = [], BO_Origin = []\<rparr>"

definition bop_Add :: "string \<Rightarrow> float64 list \<Rightarrow> float64 list \<Rightarrow> box_op" where
  "bop_Add newid lo hi = bop_New newid BKindAdd (NewBox lo hi)"

definition bop_Remove :: "string \<Rightarrow> float64 list \<Rightarrow> float64 list \<Rightarrow> box_op" where
  "bop_Remove newid lo hi = bop_New newid BKindRemove (NewBox lo hi)"

definition bop_AddBounds :: "string \<Rightarrow> float64 list \<Rightarrow> float64 list \<Rightarrow> bound list \<Rightarrow> bound list \<Rightarrow> box_op" where
  "bop_AddBounds newid lo hi loB hiB = bop_New newid BKindAdd (NewBoxWithBounds lo hi loB hiB)"

definition bop_RemoveBounds :: "string \<Rightarrow> float64 list \<Rightarrow> float64 list \<Rightarrow> bound list \<Rightarrow> bound list \<Rightarrow> box_op" where
  "bop_RemoveBounds newid lo hi loB hiB = bop_New newid BKindRemove (NewBoxWithBounds lo hi loB hiB)"

definition bop_Retract :: "string \<Rightarrow> string \<Rightarrow> box \<Rightarrow> box_op" where
  "bop_Retract newid ref b =
     \<lparr>BO_ID = newid, BO_Kind = BKindRetract, BO_Box = b, BO_TS = 0, BO_Ref = ref, BO_Origin = []\<rparr>"

subsection \<open>Well-formed operations\<close>

definition known_bkind :: "box_kind \<Rightarrow> bool" where
  "known_bkind k \<longleftrightarrow> k = BKindAdd \<or> k = BKindRemove \<or> k = BKindRetract"

text \<open>An operation that passes validation and whose box has dimension \<open>n\<close>.\<close>

definition good_bop :: "nat \<Rightarrow> box_op \<Rightarrow> bool" where
  "good_bop n o' \<longleftrightarrow> BOp_Validate o' = None \<and> Dims (BO_Box o') = n"

lemma BOp_Validate_iff:
  "BOp_Validate o' = None \<longleftrightarrow> BO_ID o' \<noteq> [] \<and> known_bkind (BO_Kind o') \<and>
     (BO_Kind o' = BKindRetract \<longrightarrow> BO_Ref o' \<noteq> []) \<and> good_box (Dims (BO_Box o')) (BO_Box o')"
  by (auto simp: BOp_Validate_def known_bkind_def good_box_def box_ok_def Let_def
      split: box_kind.split option.split)

lemma good_bop_box: "good_bop n o' \<Longrightarrow> good_box n (BO_Box o')"
  by (auto simp: good_bop_def BOp_Validate_iff)

lemma good_bop_kind: "good_bop n o' \<Longrightarrow> known_bkind (BO_Kind o')"
  by (simp add: good_bop_def BOp_Validate_iff)

lemma bkind_text: "known_bkind k \<Longrightarrow> get_text BKind_UnmarshalText z (JStr (BKind_MarshalText k)) = Inr k"
  by (auto simp: known_bkind_def BKind_MarshalText_def BKind_String_def BKind_UnmarshalText_def)

end
