(* ===== verification/Box_Strategies.thy ===== *)
theory Box_Strategies
  imports Box_Difference Box_Ops
begin

section \<open>Conflict resolution over boxes (space/strategy/strategy.go, layers.go)\<close>

text \<open>
  The n-dimensional strategies. LWW and FWW claim space in priority order: each operation gets what no better
  one has claimed (\<open>sweep_claims\<close>, the loop that \<open>normalize\<close> and \<open>Layers\<close> share). The specification is
  pointwise on the effective operations, those neither retracting nor retracted: \<open>bdecides\<close> names the
  best operation covering a point, \<open>box_view_span\<close> the set of points a strategy shows.
\<close>

subsection \<open>Names\<close>

datatype box_strategy = BLWW | BFWW | BAdditiveWins | BGrowOnly | BAdditiveWinsLWW | BUnknownStrategy nat

definition bnames :: "(box_strategy \<times> string) list" where
  "bnames = [(BLWW, ''lww''), (BFWW, ''fww''), (BAdditiveWins, ''additive-wins''), (BGrowOnly, ''grow-only''),
     (BAdditiveWinsLWW, ''additive-wins-lww'')]"

fun bstrategy_byte :: "box_strategy \<Rightarrow> nat" where
  "bstrategy_byte BLWW = 0"
| "bstrategy_byte BFWW = 1"
| "bstrategy_byte BAdditiveWins = 2"
| "bstrategy_byte BGrowOnly = 3"
| "bstrategy_byte BAdditiveWinsLWW = 4"
| "bstrategy_byte (BUnknownStrategy n) = n"

definition BStrategy_String :: "box_strategy \<Rightarrow> string" where
  "BStrategy_String s =
     (case map_of bnames s of Some name \<Rightarrow> name
      | None \<Rightarrow> ''unknown('' @ format10 (bstrategy_byte s) @ '')'')"

definition BStrategy_MarshalText :: "box_strategy \<Rightarrow> strategy_error + string" where
  "BStrategy_MarshalText s =
     (case map_of bnames s of None \<Rightarrow> Inl (ErrUnknownStrategy []) | Some _ \<Rightarrow> Inr (BStrategy_String s))"

definition BStrategy_Parse :: "string \<Rightarrow> strategy_error + box_strategy" where
  "BStrategy_Parse name =
     (case find (\<lambda>(s, n). n = name) bnames of
        Some (s, _) \<Rightarrow> Inr s
      | None \<Rightarrow> Inl (ErrUnknownStrategy name))"

definition BStrategy_UnmarshalText :: "string \<Rightarrow> strategy_error + box_strategy" where
  "BStrategy_UnmarshalText text =
     (case BStrategy_Parse text of Inl e \<Rightarrow> Inl e | Inr parsed \<Rightarrow> Inr parsed)"

subsection \<open>Winners, segments and layers\<close>

record box_winner =
  BW_TS :: int64
  BW_ID :: string
  BW_Kind :: box_kind

record box_segment =
  BS_Box :: box
  BS_Winner :: box_winner

record box_layer =
  L_Box :: box
  L_Kind :: box_kind

definition bbetter :: "box_strategy \<Rightarrow> box_winner \<Rightarrow> box_winner \<Rightarrow> bool" where
  "bbetter s a b =
     (if s = BFWW then (if BW_TS a \<noteq> BW_TS b then i_lt (BW_TS a) (BW_TS b) else BW_ID a < BW_ID b)
      else if BW_TS a \<noteq> BW_TS b then i_lt (BW_TS b) (BW_TS a) else BW_ID b < BW_ID a)"

definition bwinnerOf :: "box_op \<Rightarrow> box_winner" where
  "bwinnerOf o' = \<lparr>BW_TS = BO_TS o', BW_ID = BO_ID o', BW_Kind = BO_Kind o'\<rparr>"

text \<open>
  The loop over items in priority order: what is left of each item's box after the boxes of the items before
  it, kept as the normalized set \<open>claimed\<close>.
\<close>

fun sweep_claims :: "('a \<Rightarrow> box) \<Rightarrow> 'a list \<Rightarrow> box list \<Rightarrow> ('a \<times> box list) list" where
  "sweep_claims bx [] claimed = []"
| "sweep_claims bx (a # as) claimed =
     (a, box_DifferenceSorted [bx a] claimed) # sweep_claims bx as (InsertNormalized claimed (bx a))"

definition box_normalize :: "box_strategy \<Rightarrow> box_segment list \<Rightarrow> box_segment list" where
  "box_normalize s segs =
     sort_slice (\<lambda>a b. box_Less (BS_Box a) (BS_Box b))
       (concat (map (\<lambda>(seg, free). map (\<lambda>piece. \<lparr>BS_Box = piece, BS_Winner = BS_Winner seg\<rparr>) free)
         (sweep_claims BS_Box (sort_slice (\<lambda>a b. bbetter s (BS_Winner a) (BS_Winner b)) segs) [])))"

definition bop_segment :: "box_op \<Rightarrow> box_segment" where
  "bop_segment o' =
     \<lparr>BS_Box = BO_Box o', BS_Winner = \<lparr>BW_TS = BO_TS o', BW_ID = BO_ID o', BW_Kind = BO_Kind o'\<rparr>\<rparr>"

definition box_Segments :: "box_strategy \<Rightarrow> box_op list \<Rightarrow> box_segment list" where
  "box_Segments s ops = (if s \<noteq> BLWW \<and> s \<noteq> BFWW then [] else box_normalize s (map bop_segment ops))"

definition box_CombineSegments :: "box_strategy \<Rightarrow> box_segment list \<Rightarrow> box_segment list \<Rightarrow> box_segment list" where
  "box_CombineSegments s a b = box_normalize s (a @ b)"

definition ToBoxes :: "box_segment list \<Rightarrow> box list" where
  "ToBoxes segs = box_Normalize (map BS_Box (filter (\<lambda>seg. BW_Kind (BS_Winner seg) = BKindAdd) segs))"

definition BoxesOf :: "box_op list \<Rightarrow> box_kind \<Rightarrow> meta_merge \<Rightarrow> box list" where
  "BoxesOf ops k merge = NormalizeMerged (map BO_Box (filter (\<lambda>o'. BO_Kind o' = k) ops)) merge"

definition opsOf :: "box_op list \<Rightarrow> box_kind \<Rightarrow> box_op list" where
  "opsOf ops k = filter (\<lambda>o'. BO_Kind o' = k) ops"

definition Effective :: "box_op list \<Rightarrow> box_op list" where
  "Effective ops =
     (let retracted = map BO_Ref (filter (\<lambda>o'. BO_Kind o' = BKindRetract) ops)
      in if retracted = [] then ops
         else filter (\<lambda>o'. \<not> (BO_Kind o' = BKindRetract \<or> BO_ID o' \<in> set retracted)) ops)"

definition MaterializeMerged :: "box_strategy \<Rightarrow> box_op list \<Rightarrow> meta_merge \<Rightarrow> box list" where
  "MaterializeMerged s ops merge =
     (let ops = Effective ops in
      case s of
        BLWW \<Rightarrow> ToBoxes (box_Segments s ops)
      | BFWW \<Rightarrow> ToBoxes (box_Segments s ops)
      | BAdditiveWins \<Rightarrow> DifferenceMerged (BoxesOf ops BKindAdd merge) (BoxesOf ops BKindRemove merge) merge
      | BAdditiveWinsLWW \<Rightarrow>
          (let adds = ToBoxes (box_Segments BLWW (opsOf ops BKindAdd))
           in DifferenceMerged adds (BoxesOf ops BKindRemove merge) merge)
      | BGrowOnly \<Rightarrow> BoxesOf ops BKindAdd merge
      | BUnknownStrategy _ \<Rightarrow> [])"

definition box_Materialize :: "box_strategy \<Rightarrow> box_op list \<Rightarrow> box list" where
  "box_Materialize s ops = MaterializeMerged s ops meta_Union"

definition Layers :: "box_op list \<Rightarrow> box_layer list" where
  "Layers ops =
     rev (map (\<lambda>(o', free). \<lparr>L_Box = BO_Box o', L_Kind = BO_Kind o'\<rparr>)
       (filter (\<lambda>(o', free). free \<noteq> [])
         (sweep_claims BO_Box
           (sort_slice (\<lambda>a b. bbetter BLWW (bwinnerOf a) (bwinnerOf b)) (Effective ops)) [])))"

subsection \<open>Priorities\<close>

text \<open>The priority reads timestamp and identifier only, as in one dimension.\<close>

definition rank1 :: "box_winner \<Rightarrow> winner" where
  "rank1 w = \<lparr>W_TS = BW_TS w, W_ID = BW_ID w, W_Kind = KindAdd\<rparr>"

lemma bbetter_better: "bbetter s a b = better (if s = BFWW then FWW else LWW) (rank1 a) (rank1 b)"
  by (simp add: bbetter_def better_def rank1_def)

lemma bbetter_tie: "\<not> bbetter s a b \<Longrightarrow> \<not> bbetter s b a \<Longrightarrow> BW_TS a = BW_TS b \<and> BW_ID a = BW_ID b"
  using better_tie [of _ "rank1 a" "rank1 b"] by (simp add: bbetter_better rank1_def)

interpretation seg_prio: weak_less "\<lambda>a b. bbetter s (f a) (f b)" "\<lambda>_. True" for s f
  by unfold_locales (use better_asym better_negtrans in \<open>auto simp: bbetter_better\<close>)

subsection \<open>Claiming space\<close>

lemma sweep_claims_fst [simp]: "map fst (sweep_claims bx as claimed) = as"
  by (induction as arbitrary: claimed) auto

lemma box_canonical_Nil [simp]: "box_canonical n []"
  by (simp add: box_canonical_def)

lemma InsertNormalized_bcover:
  assumes "box_canonical n bs" "good_box n b"
  shows "bcover (InsertNormalized bs b) = bcover bs \<union> bspan b"
proof -
  have c: "bcover (InsertNormalized bs b) = bcover (geo_insert b bs)"
    using InsertNormalized_spec(2) [OF assms(1) good_boxD(1) [OF assms(2)]] by (simp add: bcover_def)
  have "subsumes b k \<Longrightarrow> bspan k \<subseteq> bspan b" "subsumes k b \<Longrightarrow> bspan b \<subseteq> bspan k" if "k \<in> set bs" for k
    using assms that subsumes_iff_bspan by (auto simp: box_canonical_def all_good_def)
  then show ?thesis
    unfolding c using good_boxD(6) [OF assms(2)] by (auto simp: geo_insert_def bcover_def split: if_splits) blast+
qed

lemma free_spec:
  assumes "good_box n b" "box_canonical n claimed"
  shows "box_canonical n (box_DifferenceSorted [b] claimed)"
    and "bcover (box_DifferenceSorted [b] claimed) = bspan b - bcover claimed"
proof -
  have "\<forall>p\<in>set [b]. box_ok n p" "all_good n claimed"
    using assms good_boxD(1) by (auto simp: box_canonical_def)
  note sp = DifferenceSortedMerged_spec [OF this, of meta_Union]
  show "box_canonical n (box_DifferenceSorted [b] claimed)"
    "bcover (box_DifferenceSorted [b] claimed) = bspan b - bcover claimed"
    using sp by (simp_all add: box_DifferenceSorted_def)
qed

lemma sweep_claims_spec:
  assumes "\<forall>a\<in>set as. good_box n (bx a)" "box_canonical n claimed"
  shows "\<forall>(a, free) \<in> set (sweep_claims bx as claimed). a \<in> set as \<and> box_canonical n free"
    and "(\<exists>free. (v, free) \<in> set (sweep_claims bx as claimed) \<and> x \<in> bcover free) \<longleftrightarrow>
      x \<notin> bcover claimed \<and> find (\<lambda>a. x \<in> bspan (bx a)) as = Some v"
proof -
  have "(\<forall>(a, free) \<in> set (sweep_claims bx as claimed). a \<in> set as \<and> box_canonical n free) \<and>
    ((\<exists>free. (v, free) \<in> set (sweep_claims bx as claimed) \<and> x \<in> bcover free) \<longleftrightarrow>
      x \<notin> bcover claimed \<and> find (\<lambda>a. x \<in> bspan (bx a)) as = Some v)"
    using assms
  proof (induction as arbitrary: claimed)
    case (Cons a as)
    have a: "good_box n (bx a)" using Cons.prems by simp
    note free = free_spec [OF a Cons.prems(2)]
    have c: "box_canonical n (InsertNormalized claimed (bx a))"
      using InsertNormalized_spec(1) [OF Cons.prems(2) good_boxD(1) [OF a]] .
    from Cons.IH [OF _ c] Cons.prems(1) have IH: "(\<forall>(a, free) \<in> set (sweep_claims bx as (InsertNormalized claimed (bx a))).
        a \<in> set as \<and> box_canonical n free)"
      "(\<exists>free. (v, free) \<in> set (sweep_claims bx as (InsertNormalized claimed (bx a))) \<and> x \<in> bcover free) \<longleftrightarrow>
        x \<notin> bcover claimed \<union> bspan (bx a) \<and> find (\<lambda>a. x \<in> bspan (bx a)) as = Some v"
      by (auto simp: InsertNormalized_bcover [OF Cons.prems(2) a])
    have "(\<exists>free. (v, free) \<in> set (sweep_claims bx (a # as) claimed) \<and> x \<in> bcover free) \<longleftrightarrow>
        v = a \<and> x \<in> bcover (box_DifferenceSorted [bx a] claimed) \<or>
        (\<exists>free. (v, free) \<in> set (sweep_claims bx as (InsertNormalized claimed (bx a))) \<and> x \<in> bcover free)"
      by auto
    also have "\<dots> \<longleftrightarrow> x \<notin> bcover claimed \<and> find (\<lambda>a. x \<in> bspan (bx a)) (a # as) = Some v"
      unfolding IH(2) free(2) by auto
    finally show ?case using IH(1) free(1) by auto
  qed simp
  then show "\<forall>(a, free) \<in> set (sweep_claims bx as claimed). a \<in> set as \<and> box_canonical n free"
    "(\<exists>free. (v, free) \<in> set (sweep_claims bx as claimed) \<and> x \<in> bcover free) \<longleftrightarrow>
      x \<notin> bcover claimed \<and> find (\<lambda>a. x \<in> bspan (bx a)) as = Some v" by blast+
qed

subsection \<open>Segments decide points\<close>

definition good_segs :: "nat \<Rightarrow> box_segment list \<Rightarrow> bool" where
  "good_segs n segs \<longleftrightarrow> (\<forall>seg\<in>set segs. good_box n (BS_Box seg))"

definition bseg_at :: "box_segment list \<Rightarrow> finePoint list \<Rightarrow> box_winner \<Rightarrow> bool" where
  "bseg_at segs x w \<longleftrightarrow> (\<exists>seg\<in>set segs. x \<in> bspan (BS_Box seg) \<and> BS_Winner seg = w)"

definition bbest_at :: "box_strategy \<Rightarrow> box_segment list \<Rightarrow> finePoint list \<Rightarrow> box_winner \<Rightarrow> bool" where
  "bbest_at s segs x w \<longleftrightarrow> bseg_at segs x w \<and> (\<forall>w'. bseg_at segs x w' \<longrightarrow> \<not> bbetter s w' w)"

definition bconsistent :: "box_winner set \<Rightarrow> bool" where
  "bconsistent W \<longleftrightarrow> (\<forall>a\<in>W. \<forall>b\<in>W. BW_TS a = BW_TS b \<longrightarrow> BW_ID a = BW_ID b \<longrightarrow> a = b)"

lemma box_normalize_spec:
  assumes "good_segs n segs" "bconsistent (BS_Winner ` set segs)"
  shows "good_segs n (box_normalize s segs)"
    and "BS_Winner ` set (box_normalize s segs) \<subseteq> BS_Winner ` set segs"
    and "bseg_at (box_normalize s segs) x w \<longleftrightarrow> bbest_at s segs x w"
proof -
  let ?sorted = "sort_slice (\<lambda>a b. bbetter s (BS_Winner a) (BS_Winner b)) segs"
  let ?sw = "sweep_claims BS_Box ?sorted []"
  have g: "\<forall>a\<in>set ?sorted. good_box n (BS_Box a)" using assms(1) by (simp add: good_segs_def)
  note sp = sweep_claims_spec [OF g box_canonical_Nil]
  have mem: "seg \<in> set (box_normalize s segs) \<longleftrightarrow>
      (\<exists>v free. (v, free) \<in> set ?sw \<and> BS_Box seg \<in> set free \<and> BS_Winner seg = BS_Winner v)" for seg
    by (cases seg) (auto simp: box_normalize_def image_iff Bex_def)
  show "good_segs n (box_normalize s segs)"
    using sp(1) by (fastforce simp: good_segs_def mem box_canonical_def all_good_def)
  show "BS_Winner ` set (box_normalize s segs) \<subseteq> BS_Winner ` set segs"
    using sp(1) by (fastforce simp: mem)
  have ord: "sorted_wrt (\<lambda>a b. \<not> bbetter s (BS_Winner b) (BS_Winner a)) ?sorted"
    by (rule seg_prio.in_order_sort_slice) simp
  have "bseg_at (box_normalize s segs) x w \<longleftrightarrow> (\<exists>v. (\<exists>free. (v, free) \<in> set ?sw \<and> x \<in> bcover free) \<and> BS_Winner v = w)"
  proof
    assume "bseg_at (box_normalize s segs) x w"
    then show "\<exists>v. (\<exists>free. (v, free) \<in> set ?sw \<and> x \<in> bcover free) \<and> BS_Winner v = w"
      by (fastforce simp: bseg_at_def mem bcover_def)
  next
    assume "\<exists>v. (\<exists>free. (v, free) \<in> set ?sw \<and> x \<in> bcover free) \<and> BS_Winner v = w"
    then obtain v free b where v: "(v, free) \<in> set ?sw" "b \<in> set free" "x \<in> bspan b" "BS_Winner v = w"
      by (auto simp: bcover_def)
    then have "\<lparr>BS_Box = b, BS_Winner = w\<rparr> \<in> set (box_normalize s segs)" unfolding mem by auto
    then show "bseg_at (box_normalize s segs) x w"
      unfolding bseg_at_def by (rule bexI [rotated]) (use v(3) in simp)
  qed
  also have "\<dots> \<longleftrightarrow> (\<exists>v. find (\<lambda>a. x \<in> bspan (BS_Box a)) ?sorted = Some v \<and> BS_Winner v = w)"
    unfolding sp(2) by simp
  also have "\<dots> \<longleftrightarrow> bbest_at s segs x w"
  proof
    assume "\<exists>v. find (\<lambda>a. x \<in> bspan (BS_Box a)) ?sorted = Some v \<and> BS_Winner v = w"
    then show "bbest_at s segs x w"
      using seg_prio.find_in_order [OF ord] by (fastforce simp: bbest_at_def bseg_at_def)
  next
    assume b: "bbest_at s segs x w"
    then obtain u where "u \<in> set ?sorted" "x \<in> bspan (BS_Box u)" "BS_Winner u = w"
      by (auto simp: bbest_at_def bseg_at_def)
    then obtain v where v: "find (\<lambda>a. x \<in> bspan (BS_Box a)) ?sorted = Some v"
      using find_None_iff [of "\<lambda>a. x \<in> bspan (BS_Box a)" ?sorted]
      by (cases "find (\<lambda>a. x \<in> bspan (BS_Box a)) ?sorted") auto
    from seg_prio.find_in_order [OF ord _ v] have w: "v \<in> set segs" "x \<in> bspan (BS_Box v)" "\<not> bbetter s w (BS_Winner v)"
      using \<open>u \<in> set ?sorted\<close> \<open>x \<in> bspan (BS_Box u)\<close> \<open>BS_Winner u = w\<close> by auto
    then have "\<not> bbetter s (BS_Winner v) w" using b by (auto simp: bbest_at_def bseg_at_def)
    with w(3) have "BS_Winner v = w"
      using bbetter_tie assms(2) w(1) b unfolding bconsistent_def bbest_at_def bseg_at_def by blast
    with v show "\<exists>v. find (\<lambda>a. x \<in> bspan (BS_Box a)) ?sorted = Some v \<and> BS_Winner v = w" by blast
  qed
  finally show "bseg_at (box_normalize s segs) x w \<longleftrightarrow> bbest_at s segs x w" .
qed

lemma ToBoxes_spec:
  assumes "good_segs n segs"
  shows "box_canonical n (ToBoxes segs)"
    and "bcover (ToBoxes segs) = {x. \<exists>w. bseg_at segs x w \<and> BW_Kind w = BKindAdd}"
proof -
  have ok: "\<forall>b\<in>set (map BS_Box (filter (\<lambda>seg. BW_Kind (BS_Winner seg) = BKindAdd) segs)). box_ok n b"
    using assms by (auto simp: good_segs_def good_box_def)
  show "box_canonical n (ToBoxes segs)"
    unfolding ToBoxes_def box_Normalize_def by (rule NormalizeMerged_spec(1) [OF ok])
  show "bcover (ToBoxes segs) = {x. \<exists>w. bseg_at segs x w \<and> BW_Kind w = BKindAdd}"
    unfolding ToBoxes_def box_Normalize_def NormalizeMerged_bcover [OF ok] by (auto simp: bcover_def bseg_at_def)
qed

subsection \<open>What a list of box operations means\<close>

definition good_bops :: "nat \<Rightarrow> box_op list \<Rightarrow> bool" where
  "good_bops n ops \<longleftrightarrow> (\<forall>o'\<in>set ops. good_box n (BO_Box o'))"

definition unique_bids :: "box_op set \<Rightarrow> bool" where
  "unique_bids O' \<longleftrightarrow> inj_on BO_ID O'"

text \<open>The operations that count: not retractions, and not the target of one.\<close>

definition effective :: "box_op set \<Rightarrow> box_op set" where
  "effective O' = {o'\<in>O'. BO_Kind o' \<noteq> BKindRetract \<and> (\<forall>r\<in>O'. BO_Kind r = BKindRetract \<longrightarrow> BO_Ref r \<noteq> BO_ID o')}"

definition bdecides :: "box_strategy \<Rightarrow> box_op set \<Rightarrow> finePoint list \<Rightarrow> box_op \<Rightarrow> bool" where
  "bdecides s O' x o' \<longleftrightarrow> o' \<in> O' \<and> x \<in> bspan (BO_Box o') \<and>
     (\<forall>p\<in>O'. x \<in> bspan (BO_Box p) \<longrightarrow> \<not> bbetter s (bwinnerOf p) (bwinnerOf o'))"

definition bkind_span :: "box_op set \<Rightarrow> box_kind \<Rightarrow> finePoint list set" where
  "bkind_span O' k = (\<Union>o'\<in>{o'\<in>O'. BO_Kind o' = k}. bspan (BO_Box o'))"

fun box_view_span :: "box_strategy \<Rightarrow> box_op set \<Rightarrow> finePoint list set" where
  "box_view_span BAdditiveWins E = bkind_span E BKindAdd - bkind_span E BKindRemove"
| "box_view_span BAdditiveWinsLWW E = bkind_span E BKindAdd - bkind_span E BKindRemove"
| "box_view_span BGrowOnly E = bkind_span E BKindAdd"
| "box_view_span (BUnknownStrategy _) E = {}"
| "box_view_span s E = {x. \<exists>o'. bdecides s E x o' \<and> BO_Kind o' = BKindAdd}"

lemma set_Effective: "set (Effective ops) = effective (set ops)"
  by (auto simp: Effective_def effective_def Let_def filter_empty_conv image_iff)

lemma effective_sub: "effective O' \<subseteq> O'"
  by (auto simp: effective_def)

lemma unique_bids_sub: "unique_bids O' \<Longrightarrow> E \<subseteq> O' \<Longrightarrow> unique_bids E"
  by (auto simp: unique_bids_def inj_on_subset)

lemma bconsistent_ops: "unique_bids O' \<Longrightarrow> bconsistent (bwinnerOf ` O')"
  by (auto simp: unique_bids_def bconsistent_def bwinnerOf_def inj_on_def)

lemma bop_segment_sel [simp]: "BS_Winner (bop_segment o') = bwinnerOf o'" "BS_Box (bop_segment o') = BO_Box o'"
  by (simp_all add: bop_segment_def bwinnerOf_def)

lemma BW_Kind_winnerOf [simp]: "BW_Kind (bwinnerOf o') = BO_Kind o'"
  by (simp add: bwinnerOf_def)

lemma bbest_at_ops:
  "bbest_at s (map bop_segment ops) x w \<longleftrightarrow> (\<exists>o'. bdecides s (set ops) x o' \<and> bwinnerOf o' = w)"
  by (auto simp: bbest_at_def bseg_at_def bdecides_def)

lemma box_Segments_spec:
  assumes "s = BLWW \<or> s = BFWW" "good_bops n ops" "unique_bids (set ops)"
  shows "good_segs n (box_Segments s ops)"
    and "bseg_at (box_Segments s ops) x w \<longleftrightarrow> (\<exists>o'. bdecides s (set ops) x o' \<and> bwinnerOf o' = w)"
proof -
  have g: "good_segs n (map bop_segment ops)" using assms(2) by (simp add: good_segs_def good_bops_def)
  have c: "bconsistent (BS_Winner ` set (map bop_segment ops))"
    using bconsistent_ops [OF assms(3)] by (simp add: image_image)
  show "good_segs n (box_Segments s ops)"
    "bseg_at (box_Segments s ops) x w \<longleftrightarrow> (\<exists>o'. bdecides s (set ops) x o' \<and> bwinnerOf o' = w)"
    using box_normalize_spec [OF g c, of s] bbest_at_ops assms(1) by (auto simp: box_Segments_def)
qed

lemma ToBoxes_Segments:
  assumes "s = BLWW \<or> s = BFWW" "good_bops n ops" "unique_bids (set ops)"
  shows "box_canonical n (ToBoxes (box_Segments s ops))"
    and "bcover (ToBoxes (box_Segments s ops)) = {x. \<exists>o'. bdecides s (set ops) x o' \<and> BO_Kind o' = BKindAdd}"
  using ToBoxes_spec [OF box_Segments_spec(1) [OF assms]] box_Segments_spec(2) [OF assms] by auto

lemma BoxesOf_spec:
  assumes "good_bops n ops"
  shows "box_canonical n (BoxesOf ops k merge)" "bcover (BoxesOf ops k merge) = bkind_span (set ops) k"
proof -
  have ok: "\<forall>b\<in>set (map BO_Box (filter (\<lambda>o'. BO_Kind o' = k) ops)). box_ok n b"
    using assms by (auto simp: good_bops_def good_box_def)
  show "box_canonical n (BoxesOf ops k merge)" "bcover (BoxesOf ops k merge) = bkind_span (set ops) k"
    unfolding BoxesOf_def using NormalizeMerged_spec(1) [OF ok] NormalizeMerged_bcover [OF ok]
    by (auto simp: bcover_def bkind_span_def)
qed

lemma box_canonical_ok: "box_canonical n bs \<Longrightarrow> \<forall>b\<in>set bs. box_ok n b"
  using all_goodD [of n bs] by (simp add: box_canonical_def)

text \<open>Under LWW among additions alone, every covered point is decided by an addition.\<close>

lemma exists_bdecides:
  assumes "finite O'" "p \<in> O'" "x \<in> bspan (BO_Box p)"
  shows "\<exists>o'. bdecides s O' x o'"
proof -
  obtain xs where xs: "set xs = {o' \<in> O'. x \<in> bspan (BO_Box o')}"
    using assms(1) finite_list [of "{o' \<in> O'. x \<in> bspan (BO_Box o')}"] by auto
  let ?ys = "sort_slice (\<lambda>a b. bbetter s (bwinnerOf a) (bwinnerOf b)) xs"
  have ord: "sorted_wrt (\<lambda>a b. \<not> bbetter s (bwinnerOf b) (bwinnerOf a)) ?ys"
    by (rule seg_prio.in_order_sort_slice) simp
  have "p \<in> set ?ys" using assms(2,3) xs by simp
  then obtain v where "find (\<lambda>_. True) ?ys = Some v" by (cases ?ys) auto
  from seg_prio.find_in_order [OF ord _ this] have "bdecides s O' x v"
    unfolding bdecides_def using xs by auto
  then show ?thesis ..
qed

lemma MaterializeMerged_spec:
  assumes g: "good_bops n ops" and u: "unique_bids (set ops)"
  shows "box_canonical n (MaterializeMerged s ops merge)"
    and "bcover (MaterializeMerged s ops merge) = box_view_span s (effective (set ops))"
proof -
  let ?e = "Effective ops"
  have ge: "good_bops n ?e" using g effective_sub by (auto simp: good_bops_def set_Effective)
  have ue: "unique_bids (set ?e)" using unique_bids_sub [OF u effective_sub] by (simp add: set_Effective)
  note bo = BoxesOf_spec [OF ge]
  let ?a = "opsOf ?e BKindAdd"
  have ga: "good_bops n ?a" using ge by (simp add: good_bops_def opsOf_def)
  have ua: "unique_bids (set ?a)" using ue by (rule unique_bids_sub) (auto simp: opsOf_def)
  have adds: "{x. \<exists>o'. bdecides BLWW (set ?a) x o' \<and> BO_Kind o' = BKindAdd} = bkind_span (effective (set ops)) BKindAdd"
  proof (rule set_eqI)
    fix x
    have sa: "set ?a = {o' \<in> effective (set ops). BO_Kind o' = BKindAdd}" by (auto simp: opsOf_def set_Effective)
    have "(\<exists>o'. bdecides BLWW (set ?a) x o') \<longleftrightarrow> (\<exists>p\<in>set ?a. x \<in> bspan (BO_Box p))"
      using exists_bdecides [OF finite_set] by (auto simp: bdecides_def)
    moreover have "bdecides BLWW (set ?a) x o' \<Longrightarrow> BO_Kind o' = BKindAdd" for o'
      by (simp add: bdecides_def sa)
    ultimately show "x \<in> {x. \<exists>o'. bdecides BLWW (set ?a) x o' \<and> BO_Kind o' = BKindAdd} \<longleftrightarrow>
        x \<in> bkind_span (effective (set ops)) BKindAdd"
      by (auto simp: sa bkind_span_def)
  qed
  have "box_canonical n (MaterializeMerged s ops merge) \<and>
      bcover (MaterializeMerged s ops merge) = box_view_span s (effective (set ops))"
  proof (cases s)
    case BLWW
    then show ?thesis using ToBoxes_Segments [OF _ ge ue, of BLWW] by (simp add: MaterializeMerged_def set_Effective)
  next
    case BFWW
    then show ?thesis using ToBoxes_Segments [OF _ ge ue, of BFWW] by (simp add: MaterializeMerged_def set_Effective)
  next
    case BAdditiveWins
    then show ?thesis
      using DifferenceMerged_spec [OF box_canonical_ok box_canonical_ok, OF bo(1) bo(1)]
      by (simp add: MaterializeMerged_def Let_def bo(2) set_Effective)
  next
    case BGrowOnly
    then show ?thesis using bo by (simp add: MaterializeMerged_def set_Effective)
  next
    case BAdditiveWinsLWW
    note t = ToBoxes_Segments [OF _ ga ua, of BLWW, simplified]
    show ?thesis
      using BAdditiveWinsLWW DifferenceMerged_spec [OF box_canonical_ok box_canonical_ok, OF t(1) bo(1)]
      by (simp add: MaterializeMerged_def Let_def t(2) adds bo(2) set_Effective)
  qed (simp add: MaterializeMerged_def)
  then show "box_canonical n (MaterializeMerged s ops merge)"
    "bcover (MaterializeMerged s ops merge) = box_view_span s (effective (set ops))" by blast+
qed

end
