(* ===== verification/Event_Stores.thy ===== *)
theory Event_Stores
  imports Json_Codec
begin

section \<open>The event log interfaces (store/store.go, space/store/store.go)\<close>

text \<open>
  The engines see a store only through the interfaces \<open>Log\<close>, \<open>Snapshotter\<close> and
  \<open>Compactor\<close>; here they are records of functions over the state \<open>'s\<close> of the backend,
  polymorphic in the operation type \<open>'o\<close> (the n-dimensional package repeats the 1-D one with
  another operation type). The two optional interfaces are options: \<open>None\<close> is a failed type
  assertion. Versions are the operation counts of the log, unbounded integers here.

  The locales state what an engine may rely on: \<open>log_contract\<close> for the log,
  \<open>snapshot_contract\<close> and \<open>compaction_contract\<close> for the optional parts. The abstract
  view of a store is the number of operations a compaction has dropped (\<open>base\<close>), the
  operations after them (\<open>tail\<close>) and the latest snapshot (\<open>snap\<close>).
\<close>

datatype store_error = ErrVersionConflict | ErrSnapshotNotFound | ErrCompactionUnsupported
  | ErrJson json_error | ErrTooLong | ErrNotJSON | ErrIO string

type_synonym version = int

record 's Snapshotter =
  SaveSnapshot :: "rawjson \<Rightarrow> version \<Rightarrow> 's \<Rightarrow> store_error option \<times> 's"
  LoadSnapshot :: "'s \<Rightarrow> store_error + rawjson \<times> version"

record 's Compactor =
  Compact :: "rawjson \<Rightarrow> version \<Rightarrow> 's \<Rightarrow> store_error option \<times> 's"

record ('s, 'o) Log =
  Append :: "version \<Rightarrow> 'o list \<Rightarrow> 's \<Rightarrow> store_error option \<times> 's"
  Read :: "version \<Rightarrow> 's \<Rightarrow> store_error + 'o list \<times> version"
  AsSnapshotter :: "'s Snapshotter option"
  AsCompactor :: "'s Compactor option"

locale log_contract =
  fixes lg :: "('s, 'o) Log" and inv :: "'s \<Rightarrow> bool" and base :: "'s \<Rightarrow> nat"
    and tail :: "'s \<Rightarrow> 'o list" and snap :: "'s \<Rightarrow> (rawjson \<times> version) option"
    and storable :: "'o \<Rightarrow> bool"
  assumes Read_law: "inv s \<Longrightarrow>
      Read lg v s = Inr (drop (nat v - base s) (tail s), int (base s + length (tail s)))"
    and Append_law: "inv s \<Longrightarrow> v = int (base s + length (tail s)) \<Longrightarrow> list_all storable es \<Longrightarrow>
      \<exists>s'. Append lg v es s = (None, s') \<and> inv s' \<and> base s' = base s \<and> tail s' = tail s @ es
         \<and> snap s' = snap s"
    and Append_conflict: "inv s \<Longrightarrow> v \<noteq> int (base s + length (tail s)) \<Longrightarrow>
      Append lg v es s = (Some ErrVersionConflict, s)"
begin

definition top :: "'s \<Rightarrow> nat" where
  "top s = base s + length (tail s)"

text \<open>Reading everything a store still has, after an append, gives the old operations and the new.\<close>

lemma Read_after_Append:
  assumes "inv s" "list_all storable es" "Append lg (int (top s)) es s = (None, s')"
  shows "Read lg (int (top s)) s' = Inr (es, int (top s + length es))"
  using assms Append_law [of s "int (top s)" es] Read_law [of s' "int (top s)"]
  by (auto simp: top_def)

text \<open>An append that succeeds had the current version: two writers of one version cannot both succeed.\<close>

lemma Append_success_version:
  assumes "inv s" "Append lg v es s = (None, s')"
  shows "v = int (top s)"
  using assms Append_conflict [of s v es] by (auto simp: top_def)

end

locale snapshot_contract = log_contract lg inv base tail snap storable
  for lg :: "('s, 'o) Log" and inv base tail snap storable +
  fixes sn :: "'s Snapshotter" and fits :: "version \<Rightarrow> rawjson \<Rightarrow> bool"
  assumes Snapshotter_law: "AsSnapshotter lg = Some sn"
    and Load_law: "inv s \<Longrightarrow>
      LoadSnapshot sn s = (case snap s of None \<Rightarrow> Inl ErrSnapshotNotFound | Some dv \<Rightarrow> Inr dv)"
    and Snap_range: "inv s \<Longrightarrow> snap s = Some (d, v) \<Longrightarrow>
      int (base s) \<le> v \<and> v \<le> int (base s + length (tail s))"
    and Snap_base: "inv s \<Longrightarrow> 0 < base s \<Longrightarrow> snap s \<noteq> None"
    and Save_law: "inv s \<Longrightarrow> fits v d \<Longrightarrow> 0 \<le> v \<Longrightarrow> v \<le> int (base s + length (tail s)) \<Longrightarrow>
      \<exists>s'. SaveSnapshot sn d v s = (None, s') \<and> inv s' \<and> base s' = base s \<and> tail s' = tail s
         \<and> (snap s' = Some (d, v) \<or> (\<exists>d' v'. snap s = Some (d', v') \<and> v < v' \<and> snap s' = snap s))"
begin

lemma Load_after_Save:
  assumes "inv s" "fits v d" "0 \<le> v" "v \<le> int (base s + length (tail s))"
      "\<And>d' v'. snap s = Some (d', v') \<Longrightarrow> v' \<le> v"
      "SaveSnapshot sn d v s = (None, s')"
  shows "LoadSnapshot sn s' = Inr (d, v)"
  using assms Save_law [of s v d] Load_law [of s'] by fastforce

end

locale compaction_contract = snapshot_contract lg inv base tail snap storable sn fits
  for lg :: "('s, 'o) Log" and inv base tail snap storable sn fits +
  fixes cp :: "'s Compactor"
  assumes Compactor_law: "AsCompactor lg = Some cp"
    and Compact_law: "inv s \<Longrightarrow> fits v d \<Longrightarrow> int (base s) \<le> v \<Longrightarrow>
      v \<le> int (base s + length (tail s)) \<Longrightarrow>
      \<exists>s'. Compact cp d v s = (None, s') \<and> inv s' \<and> base s' = nat v
         \<and> tail s' = drop (nat v - base s) (tail s) \<and> snap s' = Some (d, v)"
begin

text \<open>Compaction keeps the version, and what is read after the snapshot.\<close>

lemma Read_after_Compact:
  assumes "inv s" "fits v d" "int (base s) \<le> v" "v \<le> int (base s + length (tail s))" "v \<le> w"
      "Compact cp d v s = (None, s')"
  shows "Read lg w s' = Read lg w s"
proof -
  obtain k where v: "v = int k"
    using assms(3) by (metis nat_0_le of_nat_0_le_iff order_trans)
  obtain m where w: "w = int m"
    using assms(5) v by (metis nat_0_le of_nat_0_le_iff order_trans)
  have s': "inv s'" "base s' = k" "tail s' = drop (k - base s) (tail s)"
    using assms Compact_law [of s v d] v by auto
  show ?thesis
    using assms v w s' Read_law [of s w] Read_law [of s' w] by (auto simp: add.commute)
qed

end

end
