(* ===== verification/Memory_Store.thy ===== *)
theory Memory_Store
  imports Event_Stores
begin

section \<open>The in-memory store (store/memory/memory.go, space/store/memory/memory.go)\<close>

text \<open>
  The state is the Go struct without its lock; every operation holds the lock for its whole
  body. The store snapshots but does not compact. Its log never drops operations, so
  \<open>base\<close> is 0.
\<close>

record 'o mem_store =
  mem_ops :: "'o list"
  mem_snapshot :: rawjson
  mem_snapshotVer :: version
  mem_hasSnapshot :: bool

definition mem_New :: "'o mem_store" where
  "mem_New = \<lparr>mem_ops = [], mem_snapshot = Invalid [], mem_snapshotVer = 0, mem_hasSnapshot = False\<rparr>"

definition mem_Append :: "version \<Rightarrow> 'o list \<Rightarrow> 'o mem_store \<Rightarrow> store_error option \<times> 'o mem_store" where
  "mem_Append expectedVersion events s =
     (if int (length (mem_ops s)) \<noteq> expectedVersion then (Some ErrVersionConflict, s)
      else (None, s\<lparr>mem_ops := mem_ops s @ events\<rparr>))"

definition mem_Read :: "version \<Rightarrow> 'o mem_store \<Rightarrow> store_error + 'o list \<times> version" where
  "mem_Read fromVersion s =
     (let fromVersion = (if fromVersion < 0 then 0 else fromVersion);
          n = int (length (mem_ops s));
          fromVersion = (if fromVersion > n then n else fromVersion)
      in Inr (drop (nat fromVersion) (mem_ops s), n))"

definition mem_SaveSnapshot :: "rawjson \<Rightarrow> version \<Rightarrow> 'o mem_store \<Rightarrow> store_error option \<times> 'o mem_store" where
  "mem_SaveSnapshot data version s =
     (None, s\<lparr>mem_snapshot := data, mem_snapshotVer := version, mem_hasSnapshot := True\<rparr>)"

definition mem_LoadSnapshot :: "'o mem_store \<Rightarrow> store_error + rawjson \<times> version" where
  "mem_LoadSnapshot s =
     (if \<not> mem_hasSnapshot s then Inl ErrSnapshotNotFound
      else Inr (mem_snapshot s, mem_snapshotVer s))"

definition mem_snapshotter :: "'o mem_store Snapshotter" where
  "mem_snapshotter = \<lparr>SaveSnapshot = mem_SaveSnapshot, LoadSnapshot = mem_LoadSnapshot\<rparr>"

definition mem_log :: "('o mem_store, 'o) Log" where
  "mem_log = \<lparr>Append = mem_Append, Read = mem_Read, AsSnapshotter = Some mem_snapshotter,
     AsCompactor = None\<rparr>"

definition mem_snap :: "'o mem_store \<Rightarrow> (rawjson \<times> version) option" where
  "mem_snap s = (if mem_hasSnapshot s then Some (mem_snapshot s, mem_snapshotVer s) else None)"

lemma mem_Read_eq: "mem_Read v s = Inr (drop (nat v) (mem_ops s), int (length (mem_ops s)))"
  by (auto simp: mem_Read_def Let_def)

text \<open>
  The in-memory store satisfies the log and snapshot contracts for every operation and snapshot.
  Nothing bounds the version passed to \<open>SaveSnapshot\<close>, so that the snapshot covers no more
  than the log is an invariant its clients keep.
\<close>

definition mem_inv :: "'o mem_store \<Rightarrow> bool" where
  "mem_inv s \<longleftrightarrow> (mem_hasSnapshot s \<longrightarrow>
     0 \<le> mem_snapshotVer s \<and> mem_snapshotVer s \<le> int (length (mem_ops s)))"

lemma mem_inv_New [simp]: "mem_inv mem_New"
  by (simp add: mem_inv_def mem_New_def)

interpretation mem: snapshot_contract mem_log mem_inv "\<lambda>_. 0" mem_ops mem_snap "\<lambda>_. True"
    mem_snapshotter "\<lambda>_ _. True"
  by unfold_locales
    (auto simp: mem_log_def mem_snapshotter_def mem_Read_eq mem_Append_def mem_SaveSnapshot_def
      mem_LoadSnapshot_def mem_snap_def mem_inv_def split: if_splits)

end
