(* ===== verification/Jsonl_Store.thy ===== *)
theory Jsonl_Store
  imports Event_Stores
begin

section \<open>The JSON Lines store (store/jsonl/jsonl.go, space/store/jsonl/jsonl.go)\<close>

text \<open>
  The state is the stream file: \<open>None\<close> when it does not exist, otherwise its lines, each a
  JSON document or some other byte string. What the store calls outside its own file is the
  parameter \<open>J\<close>: the codec of the operations, the rendering of a float (it decides the length
  of a line only), and the outcomes of the system calls. A failed \<open>Write\<close> leaves nothing in
  the file; torn lines are not modelled. \<open>bufio.Scanner\<close> stops at a line of more than
  65535 bytes.

  The second half shows that the store, with no system call failing, meets the compaction
  contract. Its invariant says that every line parses, that every operation would be written
  back as a short enough line, and that a snapshot after the first operation covers no more than
  the operations before it; a snapshot that opens the file is a compaction's and sets the base.
\<close>

subsection \<open>The store\<close>

record 'o jsonl_env =
  enc :: "'o \<Rightarrow> json option"
  dec :: "json \<Rightarrow> json_error + 'o"
  float_text :: "float64 \<Rightarrow> string"
  open_err :: "string option"
  open_file_err :: "string option"
  write_err :: "nat \<Rightarrow> string option"
  replace_err :: "string option"

type_synonym stream = "rawjson list option"

record snapshotMarker =
  Version :: version
  Data :: rawjson

definition lines_of :: "stream \<Rightarrow> rawjson list" where
  "lines_of f = (case f of None \<Rightarrow> [] | Some ls \<Rightarrow> ls)"

definition Marshal :: "json option \<Rightarrow> rawjson" where
  "Marshal r = (case r of Some j \<Rightarrow> Valid j | None \<Rightarrow> Invalid [])"

definition get_raw :: "string \<Rightarrow> (string \<times> json) list \<Rightarrow> rawjson" where
  "get_raw k fs = (case map_of (rev fs) k of None \<Rightarrow> Invalid [] | Some j \<Rightarrow> Valid j)"

definition get_marker :: "json \<Rightarrow> json_error + snapshotMarker" where
  "get_marker j =
     ebind (get_obj j) (\<lambda>fs.
     ebind (get_version (get_field ''version'' fs)) (\<lambda>v.
       Inr \<lparr>Version = v, Data = get_raw ''data'' fs\<rparr>))"

definition parseLine :: "'o jsonl_env \<Rightarrow> rawjson \<Rightarrow> json_error + 'o option \<times> snapshotMarker option" where
  "parseLine J data =
     (case data of
        Invalid s \<Rightarrow> Inl UnexpectedEnd
      | Valid j \<Rightarrow>
          ebind (get_obj j) (\<lambda>fs.
            if get_field ''snapshot'' fs \<noteq> JNull
            then ebind (get_marker (get_field ''snapshot'' fs)) (\<lambda>sn. Inr (None, Some sn))
            else ebind (dec J j) (\<lambda>o'. Inr (Some o', None))))"

definition advance :: "version \<Rightarrow> version \<Rightarrow> 'o option \<Rightarrow> snapshotMarker option \<Rightarrow>
    (version \<Rightarrow> 'o option \<Rightarrow> snapshotMarker option \<Rightarrow> 'a \<Rightarrow> 'a) \<Rightarrow> 'a \<Rightarrow> version \<times> version \<times> 'a" where
  "advance baseline ordinal o' sn fn acc =
     (case sn of
        Some m \<Rightarrow>
          (let baseline = (if Version m > baseline then Version m else baseline)
           in (baseline, ordinal, fn ordinal None (Some m) acc))
      | None \<Rightarrow>
          (let ordinal = (if ordinal < baseline then baseline else ordinal);
               ordinal = ordinal + 1
           in (baseline, ordinal, fn ordinal o' None acc)))"

definition max_token :: nat where
  "max_token = 65535"

definition line_len :: "'o jsonl_env \<Rightarrow> rawjson \<Rightarrow> nat" where
  "line_len J l = (case l of Valid j \<Rightarrow> length (json_text (float_text J) j) | Invalid s \<Rightarrow> length s)"

fun scan_lines :: "'o jsonl_env \<Rightarrow> (version \<Rightarrow> 'o option \<Rightarrow> snapshotMarker option \<Rightarrow> 'a \<Rightarrow> 'a) \<Rightarrow>
    rawjson list \<Rightarrow> version \<Rightarrow> version \<Rightarrow> 'a \<Rightarrow> 'a \<times> version \<times> store_error option" where
  "scan_lines J fn [] baseline ordinal acc =
     (acc, if ordinal < baseline then baseline else ordinal, None)"
| "scan_lines J fn (l # ls) baseline ordinal acc =
     (if line_len J l > max_token
      then (acc, if ordinal < baseline then baseline else ordinal, Some ErrTooLong)
      else case parseLine J l of
        Inl e \<Rightarrow> (acc, ordinal, Some (ErrJson e))
      | Inr (o', sn) \<Rightarrow>
          (let (baseline, ordinal, acc) = advance baseline ordinal o' sn fn acc
           in scan_lines J fn ls baseline ordinal acc))"

definition scan :: "'o jsonl_env \<Rightarrow> (version \<Rightarrow> 'o option \<Rightarrow> snapshotMarker option \<Rightarrow> 'a \<Rightarrow> 'a) \<Rightarrow> 'a \<Rightarrow>
    stream \<Rightarrow> 'a \<times> version \<times> store_error option" where
  "scan J fn acc f =
     (case f of
        None \<Rightarrow> (acc, 0, None)
      | Some ls \<Rightarrow>
          (case open_err J of
             Some e \<Rightarrow> (acc, 0, Some (ErrIO e))
           | None \<Rightarrow> scan_lines J fn ls 0 0 acc))"

definition read_fn :: "version \<Rightarrow> version \<Rightarrow> 'o option \<Rightarrow> snapshotMarker option \<Rightarrow> 'o list \<Rightarrow> 'o list" where
  "read_fn fromVersion ordinal o' sn out =
     (case o' of None \<Rightarrow> out | Some x \<Rightarrow> if ordinal > fromVersion then out @ [x] else out)"

definition jsonl_read :: "'o jsonl_env \<Rightarrow> version \<Rightarrow> stream \<Rightarrow> store_error + 'o list \<times> version" where
  "jsonl_read J fromVersion f =
     (case scan J (read_fn fromVersion) [] f of
        (out, version, None) \<Rightarrow> Inr (out, version)
      | (out, version, Some e) \<Rightarrow> Inl e)"

definition jsonl_Read :: "'o jsonl_env \<Rightarrow> version \<Rightarrow> stream \<Rightarrow> store_error + 'o list \<times> version" where
  "jsonl_Read J fromVersion f = jsonl_read J fromVersion f"

definition jsonl_count :: "'o jsonl_env \<Rightarrow> stream \<Rightarrow> store_error + version" where
  "jsonl_count J f =
     (case scan J (\<lambda>_ _ _ u. u) () f of
        (_, version, None) \<Rightarrow> Inr version
      | (_, version, Some e) \<Rightarrow> Inl e)"

fun appendEvents :: "'o jsonl_env \<Rightarrow> nat \<Rightarrow> 'o list \<Rightarrow> rawjson list \<Rightarrow> store_error option \<times> rawjson list" where
  "appendEvents J i [] ls = (None, ls)"
| "appendEvents J i (event # events) ls =
     (case write_err J i of
        Some e \<Rightarrow> (Some (ErrIO e), ls)
      | None \<Rightarrow> appendEvents J (Suc i) events (ls @ [Marshal (enc J event)]))"

definition jsonl_Append :: "'o jsonl_env \<Rightarrow> version \<Rightarrow> 'o list \<Rightarrow> stream \<Rightarrow> store_error option \<times> stream" where
  "jsonl_Append J expectedVersion events f =
     (case jsonl_count J f of
        Inl e \<Rightarrow> (Some e, f)
      | Inr version \<Rightarrow>
          if version \<noteq> expectedVersion then (Some ErrVersionConflict, f)
          else case open_file_err J of
            Some e \<Rightarrow> (Some (ErrIO e), f)
          | None \<Rightarrow>
              (let (err, ls) = appendEvents J 0 events (lines_of f) in (err, Some ls)))"

definition snapshotPayload :: "version \<Rightarrow> rawjson \<Rightarrow> store_error + rawjson" where
  "snapshotPayload version data =
     (case data of
        Invalid _ \<Rightarrow> Inl ErrNotJSON
      | Valid j \<Rightarrow> Inr (Valid (JObj [(''snapshot'', JObj [(''version'', JInt version), (''data'', j)])])))"

definition appendSnapshot :: "'o jsonl_env \<Rightarrow> version \<Rightarrow> rawjson \<Rightarrow> rawjson list \<Rightarrow> store_error option \<times> rawjson list" where
  "appendSnapshot J version data ls =
     (case snapshotPayload version data of
        Inl e \<Rightarrow> (Some e, ls)
      | Inr payload \<Rightarrow>
          (case write_err J 0 of Some e \<Rightarrow> (Some (ErrIO e), ls) | None \<Rightarrow> (None, ls @ [payload])))"

definition jsonl_SaveSnapshot :: "'o jsonl_env \<Rightarrow> rawjson \<Rightarrow> version \<Rightarrow> stream \<Rightarrow> store_error option \<times> stream" where
  "jsonl_SaveSnapshot J data version f =
     (case open_file_err J of
        Some e \<Rightarrow> (Some (ErrIO e), f)
      | None \<Rightarrow> (let (err, ls) = appendSnapshot J version data (lines_of f) in (err, Some ls)))"

definition latest_fn :: "version \<Rightarrow> 'o option \<Rightarrow> snapshotMarker option \<Rightarrow> snapshotMarker option \<Rightarrow> snapshotMarker option" where
  "latest_fn ordinal o' sn latest =
     (case sn of
        None \<Rightarrow> latest
      | Some m \<Rightarrow>
          (case latest of
             None \<Rightarrow> Some m
           | Some l \<Rightarrow> if Version m \<ge> Version l then Some m else latest))"

definition jsonl_LoadSnapshot :: "'o jsonl_env \<Rightarrow> stream \<Rightarrow> store_error + rawjson \<times> version" where
  "jsonl_LoadSnapshot J f =
     (case scan J latest_fn None f of
        (_, _, Some e) \<Rightarrow> Inl e
      | (None, _, None) \<Rightarrow> Inl ErrSnapshotNotFound
      | (Some latest, _, None) \<Rightarrow> Inr (Data latest, Version latest))"

definition writeAtomic :: "'o jsonl_env \<Rightarrow> rawjson list \<Rightarrow> stream \<Rightarrow> store_error option \<times> stream" where
  "writeAtomic J ls f = (case replace_err J of Some e \<Rightarrow> (Some (ErrIO e), f) | None \<Rightarrow> (None, Some ls))"

definition jsonl_Compact :: "'o jsonl_env \<Rightarrow> rawjson \<Rightarrow> version \<Rightarrow> stream \<Rightarrow> store_error option \<times> stream" where
  "jsonl_Compact J snapshotData version f =
     (case jsonl_read J version f of
        Inl e \<Rightarrow> (Some e, f)
      | Inr (tail, _) \<Rightarrow>
          (case snapshotPayload version snapshotData of
             Inl e \<Rightarrow> (Some e, f)
           | Inr payload \<Rightarrow> writeAtomic J (payload # map (\<lambda>o'. Marshal (enc J o')) tail) f))"

definition jsonl_snapshotter :: "'o jsonl_env \<Rightarrow> stream Snapshotter" where
  "jsonl_snapshotter J = \<lparr>SaveSnapshot = jsonl_SaveSnapshot J, LoadSnapshot = jsonl_LoadSnapshot J\<rparr>"

definition jsonl_compactor :: "'o jsonl_env \<Rightarrow> stream Compactor" where
  "jsonl_compactor J = \<lparr>Compact = jsonl_Compact J\<rparr>"

definition jsonl_log :: "'o jsonl_env \<Rightarrow> (stream, 'o) Log" where
  "jsonl_log J = \<lparr>Append = jsonl_Append J, Read = jsonl_Read J,
     AsSnapshotter = Some (jsonl_snapshotter J), AsCompactor = Some (jsonl_compactor J)\<rparr>"

subsection \<open>The abstract view of a stream\<close>

type_synonym 'o entry = "'o option \<times> snapshotMarker option"

definition entry :: "'o jsonl_env \<Rightarrow> rawjson \<Rightarrow> 'o entry" where
  "entry J l = (case parseLine J l of Inl _ \<Rightarrow> (None, None) | Inr p \<Rightarrow> p)"

fun entry_ops :: "'o entry list \<Rightarrow> 'o list" where
  "entry_ops [] = []"
| "entry_ops ((Some x, None) # es) = x # entry_ops es"
| "entry_ops (_ # es) = entry_ops es"

fun lead :: "version \<Rightarrow> 'o entry list \<Rightarrow> version" where
  "lead b [] = b"
| "lead b ((_, Some m) # es) = lead (max b (Version m)) es"
| "lead b ((_, None) # es) = b"

fun ordered :: "version \<Rightarrow> 'o entry list \<Rightarrow> bool" where
  "ordered n [] \<longleftrightarrow> True"
| "ordered n ((_, Some m) # es) \<longleftrightarrow> 0 \<le> Version m \<and> Version m \<le> n \<and> ordered n es"
| "ordered n ((_, None) # es) \<longleftrightarrow> ordered (n + 1) es"

fun ordered0 :: "version \<Rightarrow> 'o entry list \<Rightarrow> bool" where
  "ordered0 b [] \<longleftrightarrow> True"
| "ordered0 b ((_, Some m) # es) \<longleftrightarrow> 0 \<le> Version m \<and> ordered0 (max b (Version m)) es"
| "ordered0 b ((_, None) # es) \<longleftrightarrow> ordered (b + 1) es"

definition jsonl_storable :: "'o jsonl_env \<Rightarrow> 'o \<Rightarrow> bool" where
  "jsonl_storable J o' \<longleftrightarrow>
     (case enc J o' of
        None \<Rightarrow> False
      | Some j \<Rightarrow> parseLine J (Valid j) = Inr (Some o', None) \<and> line_len J (Valid j) \<le> max_token)"

definition jsonl_fits :: "'o jsonl_env \<Rightarrow> version \<Rightarrow> rawjson \<Rightarrow> bool" where
  "jsonl_fits J v d \<longleftrightarrow>
     (case snapshotPayload v d of Inl _ \<Rightarrow> False | Inr l \<Rightarrow> line_len J l \<le> max_token)"

fun good_entry :: "'o entry \<Rightarrow> bool" where
  "good_entry (Some _, None) = True"
| "good_entry (None, Some _) = True"
| "good_entry _ = False"

definition good_line :: "'o jsonl_env \<Rightarrow> rawjson \<Rightarrow> bool" where
  "good_line J l \<longleftrightarrow> line_len J l \<le> max_token \<and> good_entry (entry J l)"

definition entries :: "'o jsonl_env \<Rightarrow> stream \<Rightarrow> 'o entry list" where
  "entries J f = map (entry J) (lines_of f)"

definition jsonl_base :: "'o jsonl_env \<Rightarrow> stream \<Rightarrow> nat" where
  "jsonl_base J f = nat (lead 0 (entries J f))"

definition jsonl_tail :: "'o jsonl_env \<Rightarrow> stream \<Rightarrow> 'o list" where
  "jsonl_tail J f = entry_ops (entries J f)"

definition jsonl_latest :: "'o entry list \<Rightarrow> snapshotMarker option \<Rightarrow> snapshotMarker option" where
  "jsonl_latest = fold (\<lambda>e. latest_fn 0 (fst e) (snd e))"

definition jsonl_snap :: "'o jsonl_env \<Rightarrow> stream \<Rightarrow> (rawjson \<times> version) option" where
  "jsonl_snap J f = map_option (\<lambda>m. (Data m, Version m)) (jsonl_latest (entries J f) None)"

definition jsonl_inv :: "'o jsonl_env \<Rightarrow> stream \<Rightarrow> bool" where
  "jsonl_inv J f \<longleftrightarrow> list_all (good_line J) (lines_of f) \<and> ordered0 0 (entries J f) \<and>
     list_all (jsonl_storable J) (jsonl_tail J f)"

definition quiet :: "'o jsonl_env \<Rightarrow> 'o jsonl_env" where
  "quiet J = J\<lparr>open_err := None, open_file_err := None, write_err := (\<lambda>_. None), replace_err := None\<rparr>"


subsection \<open>Scanning a good stream\<close>

lemma quiet_simps [simp]:
  "enc (quiet J) = enc J" "dec (quiet J) = dec J" "float_text (quiet J) = float_text J"
  "open_err (quiet J) = None" "open_file_err (quiet J) = None" "write_err (quiet J) i = None"
  "replace_err (quiet J) = None"
  by (simp_all add: quiet_def)

lemma good_entry_cases:
  assumes "good_entry e"
  obtains (op) x where "e = (Some x, None)" | (snap) m where "e = (None, Some m)"
  using assms by (cases e rule: good_entry.cases) auto

lemma good_line_parse: "good_line J l \<Longrightarrow> parseLine J l = Inr (entry J l)"
  by (auto simp: good_line_def entry_def split: sum.splits)

text \<open>On a good stream a scan is a fold over its entries; no error is reported.\<close>

lemma scan_lines_Cons:
  assumes "good_line J l"
  shows "scan_lines J fn (l # ls) b n acc =
    (let (b, n, acc) = advance b n (fst (entry J l)) (snd (entry J l)) fn acc in scan_lines J fn ls b n acc)"
  using assms good_line_parse [OF assms] by (simp add: good_line_def split: prod.split)

lemma read_fn_simps [simp]:
  "read_fn v n None sn out = out"
  "read_fn v n (Some x) sn out = (if n > v then out @ [x] else out)"
  by (simp_all add: read_fn_def)

lemma scan_read_started:
  assumes "list_all (good_line J) ls" "ordered n (map (entry J) ls)" "b \<le> n" "0 \<le> n"
  shows "scan_lines J (read_fn v) ls b n acc =
    (acc @ drop (nat (v - n)) (entry_ops (map (entry J) ls)),
     n + int (length (entry_ops (map (entry J) ls))), None)"
  using assms
proof (induction ls arbitrary: b n acc)
  case Nil
  then show ?case by auto
next
  case (Cons l ls)
  have g: "good_line J l" using Cons.prems by simp
  then have ge: "good_entry (entry J l)" by (simp add: good_line_def)
  show ?case
  proof (cases rule: good_entry_cases [OF ge])
    case (1 x)
    have "nat (v - n) = Suc (nat (v - (n + 1)))" if "n < v" using that by simp
    with 1 Cons.prems Cons.IH [of "n + 1" b] show ?thesis
      by (cases "n < v") (simp_all add: scan_lines_Cons [OF g] advance_def Let_def
          del: scan_lines.simps)
  next
    case (2 m)
    with Cons.prems Cons.IH [of n b] Cons.IH [of n "Version m"] show ?thesis
      by (simp add: scan_lines_Cons [OF g] advance_def Let_def del: scan_lines.simps)
  qed
qed

lemma lead_ge: "b \<le> lead b es"
  by (induction b es rule: lead.induct) auto

lemma scan_read_lead:
  assumes "list_all (good_line J) ls" "ordered0 b (map (entry J) ls)" "0 \<le> b"
  shows "scan_lines J (read_fn v) ls b 0 acc =
    (acc @ drop (nat (v - lead b (map (entry J) ls))) (entry_ops (map (entry J) ls)),
     lead b (map (entry J) ls) + int (length (entry_ops (map (entry J) ls))), None)"
  using assms
proof (induction ls arbitrary: b acc)
  case Nil
  then show ?case by auto
next
  case (Cons l ls)
  have g: "good_line J l" using Cons.prems by simp
  then have ge: "good_entry (entry J l)" by (simp add: good_line_def)
  show ?case
  proof (cases rule: good_entry_cases [OF ge])
    case (1 x)
    have "nat (v - b) = Suc (nat (v - (b + 1)))" if "b < v" using that by simp
    with 1 Cons.prems scan_read_started [of J ls "b + 1" b v] show ?thesis
      by (cases "b < v") (auto simp add: scan_lines_Cons [OF g] advance_def Let_def
          simp del: scan_lines.simps)
  next
    case (2 m)
    with Cons.prems Cons.IH [of "max b (Version m)"] show ?thesis
      by (simp add: scan_lines_Cons [OF g] advance_def Let_def max_def
          del: scan_lines.simps split: if_splits)
  qed
qed

lemma scan_version_any:
  assumes "list_all (good_line J) ls"
  shows "snd (scan_lines J fn ls b n acc) = snd (scan_lines J fn' ls b n acc')"
  using assms
proof (induction ls arbitrary: b n acc acc')
  case Nil
  then show ?case by simp
next
  case (Cons l ls)
  then show ?case
    by (simp add: scan_lines_Cons advance_def Let_def del: scan_lines.simps split: option.split)
qed

lemma scan_latest:
  assumes "list_all (good_line J) ls"
  shows "fst (scan_lines J latest_fn ls b n acc) = jsonl_latest (map (entry J) ls) acc"
  using assms
proof (induction ls arbitrary: b n acc)
  case Nil
  then show ?case by (simp add: jsonl_latest_def)
next
  case (Cons l ls)
  then show ?case
    by (cases "snd (entry J l)")
      (simp_all add: scan_lines_Cons advance_def Let_def jsonl_latest_def latest_fn_def del: scan_lines.simps)
qed


subsection \<open>The operations on a good stream\<close>

lemma scan_quiet: "scan (quiet J) fn acc f = scan_lines (quiet J) fn (lines_of f) 0 0 acc"
  by (cases f) (simp_all add: scan_def lines_of_def)

lemma lead_nonneg: "0 \<le> lead 0 es"
  by (rule lead_ge)

lemma jsonl_read_law:
  assumes "jsonl_inv (quiet J) f"
  shows "jsonl_read (quiet J) v f = Inr (drop (nat v - jsonl_base (quiet J) f) (jsonl_tail (quiet J) f),
     int (jsonl_base (quiet J) f + length (jsonl_tail (quiet J) f)))"
proof -
  have "nat (v - lead 0 es) = nat v - nat (lead 0 es)" for es :: "'a entry list"
    using lead_nonneg [of es] by (simp add: nat_diff_distrib')
  then show ?thesis
    using assms scan_read_lead [of "quiet J" "lines_of f" 0 v "[]"]
    by (simp add: jsonl_read_def jsonl_inv_def scan_quiet jsonl_base_def jsonl_tail_def entries_def
        lead_nonneg)
qed

lemma jsonl_count_law:
  assumes "jsonl_inv (quiet J) f"
  shows "jsonl_count (quiet J) f = Inr (int (jsonl_base (quiet J) f + length (jsonl_tail (quiet J) f)))"
proof -
  have "snd (scan_lines (quiet J) (\<lambda>_ _ _ u. u) (lines_of f) 0 0 ()) =
      snd (scan_lines (quiet J) (read_fn 0) (lines_of f) 0 0 [])"
    using assms by (intro scan_version_any) (simp add: jsonl_inv_def)
  then show ?thesis
    using assms scan_read_lead [of "quiet J" "lines_of f" 0 0 "[]"]
    by (auto simp: jsonl_count_def jsonl_inv_def scan_quiet jsonl_base_def jsonl_tail_def entries_def
        lead_nonneg split: prod.split)
qed

lemma jsonl_Load_law:
  assumes "jsonl_inv (quiet J) f"
  shows "jsonl_LoadSnapshot (quiet J) f =
    (case jsonl_snap (quiet J) f of None \<Rightarrow> Inl ErrSnapshotNotFound | Some dv \<Rightarrow> Inr dv)"
proof -
  have good: "list_all (good_line (quiet J)) (lines_of f)" using assms by (simp add: jsonl_inv_def)
  have "snd (snd (scan_lines (quiet J) latest_fn (lines_of f) 0 0 None)) = None"
    using assms scan_version_any [OF good, of latest_fn 0 0 None "read_fn 0" "[]"]
      scan_read_lead [of "quiet J" "lines_of f" 0 0 "[]"]
    by (simp add: jsonl_inv_def entries_def)
  moreover have "fst (scan_lines (quiet J) latest_fn (lines_of f) 0 0 None) =
      jsonl_latest (entries (quiet J) f) None"
    using scan_latest [OF good] by (simp add: entries_def)
  ultimately show ?thesis
    by (cases "scan_lines (quiet J) latest_fn (lines_of f) 0 0 None")
      (auto simp: jsonl_LoadSnapshot_def scan_quiet jsonl_snap_def split: option.split)
qed

subsubsection \<open>Appending entries\<close>

lemma ordered_append_op [simp]: "ordered n (es @ map (\<lambda>x. (Some x, None)) xs) \<longleftrightarrow> ordered n es"
proof (induction n es rule: ordered.induct)
  case (1 n)
  then show ?case by (induction xs arbitrary: n) auto
qed auto

lemma ordered0_append_op [simp]: "ordered0 b (es @ map (\<lambda>x. (Some x, None)) xs) \<longleftrightarrow> ordered0 b es"
proof (induction b es rule: ordered0.induct)
  case (1 b)
  then show ?case using ordered_append_op [of _ "[]"] by (cases xs) auto
qed auto

lemma lead_append_op [simp]: "lead b (es @ map (\<lambda>x. (Some x, None)) xs) = lead b es"
proof (induction b es rule: lead.induct)
  case (1 b)
  then show ?case by (cases xs) auto
qed auto

lemma entry_ops_append [simp]: "entry_ops (es @ es') = entry_ops es @ entry_ops es'"
  by (induction es rule: entry_ops.induct) auto

lemma entry_ops_map [simp]: "entry_ops (map (\<lambda>x. (Some x, None)) xs) = xs"
  by (induction xs) auto

lemma ordered_append_snap:
  assumes "ordered n es" "0 \<le> Version m" "Version m \<le> n + int (length (entry_ops es))" "list_all good_entry es"
  shows "ordered n (es @ [(None, Some m)])"
  using assms
proof (induction n es rule: ordered.induct)
  case (3 n x es)
  then show ?case by (cases x) auto
qed auto

lemma ordered0_append_snap:
  assumes "ordered0 b es" "0 \<le> Version m" "Version m \<le> lead b es + int (length (entry_ops es))"
    "list_all good_entry es"
  shows "ordered0 b (es @ [(None, Some m)]) \<and> lead b (es @ [(None, Some m)]) = lead b es"
  using assms
proof (induction b es rule: ordered0.induct)
  case (3 b x es)
  then show ?case by (cases x) (auto intro: ordered_append_snap)
qed (auto simp: max_def)

lemma jsonl_latest_append_op [simp]:
  "jsonl_latest (es @ map (\<lambda>x. (Some x, None)) xs) a = jsonl_latest es a"
proof -
  have "fold (\<lambda>e. latest_fn 0 (fst e) (snd e)) (map (\<lambda>x. (Some x, None)) xs) a' = a'" for a'
    by (induction xs) (auto simp: latest_fn_def)
  then show ?thesis by (simp add: jsonl_latest_def)
qed

lemma jsonl_storable_line:
  assumes "jsonl_storable J x"
  shows "good_line J (Marshal (enc J x)) \<and> entry J (Marshal (enc J x)) = (Some x, None)"
  using assms by (auto simp: jsonl_storable_def good_line_def entry_def Marshal_def split: option.splits)

lemma jsonl_storable_lines:
  assumes "list_all (jsonl_storable J) xs"
  shows "list_all (good_line J) (map (\<lambda>x. Marshal (enc J x)) xs)"
    and "map (entry J) (map (\<lambda>x. Marshal (enc J x)) xs) = map (\<lambda>x. (Some x, None)) xs"
  using assms jsonl_storable_line [of J] by (induction xs) auto

lemma appendEvents_quiet:
  "appendEvents (quiet J) i es ls = (None, ls @ map (\<lambda>x. Marshal (enc J x)) es)"
  by (induction es arbitrary: i ls) auto

lemma snapshot_line:
  assumes "jsonl_fits J v d" "0 \<le> v" "snapshotPayload v d = Inr l"
  shows "good_line J l \<and> entry J l = (None, Some \<lparr>Version = v, Data = d\<rparr>)"
  using assms
  by (auto simp: jsonl_fits_def snapshotPayload_def good_line_def entry_def parseLine_def get_field_def
      get_marker_def get_raw_def split: rawjson.splits)

lemma jsonl_fits_payload: "jsonl_fits J v d \<Longrightarrow> \<exists>l. snapshotPayload v d = Inr l"
  by (auto simp: jsonl_fits_def split: sum.splits)

lemma good_entries: "list_all (good_line J) ls \<Longrightarrow> list_all good_entry (map (entry J) ls)"
  by (simp add: good_line_def list_all_iff)


subsection \<open>The store meets the contracts\<close>

lemma lines_of_Some [simp]: "lines_of (Some ls) = ls"
  by (simp add: lines_of_def)

lemma jsonl_Append_law:
  assumes "jsonl_inv (quiet J) f" "list_all (jsonl_storable (quiet J)) es"
    "v = int (jsonl_base (quiet J) f + length (jsonl_tail (quiet J) f))"
  shows "\<exists>f'. jsonl_Append (quiet J) v es f = (None, f') \<and> jsonl_inv (quiet J) f' \<and>
     jsonl_base (quiet J) f' = jsonl_base (quiet J) f \<and>
     jsonl_tail (quiet J) f' = jsonl_tail (quiet J) f @ es \<and> jsonl_snap (quiet J) f' = jsonl_snap (quiet J) f"
proof -
  let ?f' = "Some (lines_of f @ map (\<lambda>x. Marshal (enc J x)) es)"
  have "entries (quiet J) ?f' = entries (quiet J) f @ map (\<lambda>x. (Some x, None)) es"
    and "list_all (good_line (quiet J)) (map (\<lambda>x. Marshal (enc J x)) es)"
    using jsonl_storable_lines [OF assms(2)] by (simp_all add: entries_def)
  moreover have "jsonl_Append (quiet J) v es f = (None, ?f')"
    using assms by (simp add: jsonl_Append_def jsonl_count_law appendEvents_quiet)
  ultimately show ?thesis
    using assms by (simp add: jsonl_inv_def jsonl_base_def jsonl_tail_def jsonl_snap_def)
qed

lemma jsonl_Append_conflict:
  assumes "jsonl_inv (quiet J) f"
    "v \<noteq> int (jsonl_base (quiet J) f + length (jsonl_tail (quiet J) f))"
  shows "jsonl_Append (quiet J) v es f = (Some ErrVersionConflict, f)"
  using assms by (simp add: jsonl_Append_def jsonl_count_law)

lemma jsonl_Save_law:
  assumes "jsonl_inv (quiet J) f" "jsonl_fits (quiet J) v d" "0 \<le> v"
    "v \<le> int (jsonl_base (quiet J) f + length (jsonl_tail (quiet J) f))"
  shows "\<exists>f'. jsonl_SaveSnapshot (quiet J) d v f = (None, f') \<and> jsonl_inv (quiet J) f' \<and>
     jsonl_base (quiet J) f' = jsonl_base (quiet J) f \<and>
     jsonl_tail (quiet J) f' = jsonl_tail (quiet J) f \<and>
     (jsonl_snap (quiet J) f' = Some (d, v) \<or>
      (\<exists>d' v'. jsonl_snap (quiet J) f = Some (d', v') \<and> v < v' \<and> jsonl_snap (quiet J) f' = jsonl_snap (quiet J) f))"
proof -
  obtain l where l: "snapshotPayload v d = Inr l" using jsonl_fits_payload assms(2) by blast
  note line = snapshot_line [OF assms(2,3) l]
  let ?f' = "Some (lines_of f @ [l])"
  have e: "entries (quiet J) ?f' = entries (quiet J) f @ [(None, Some \<lparr>Version = v, Data = d\<rparr>)]"
    using line by (simp add: entries_def)
  have "v \<le> lead 0 (entries (quiet J) f) + int (length (entry_ops (entries (quiet J) f)))"
    using assms(4) lead_nonneg [of "entries (quiet J) f"] by (simp add: jsonl_base_def jsonl_tail_def)
  then have "ordered0 0 (entries (quiet J) ?f') \<and>
      lead 0 (entries (quiet J) ?f') = lead 0 (entries (quiet J) f)"
    using assms(1,3) good_entries [of "quiet J" "lines_of f"]
      ordered0_append_snap [of 0 "entries (quiet J) f" "\<lparr>Version = v, Data = d\<rparr>"]
    unfolding e by (simp add: jsonl_inv_def entries_def)
  moreover have "jsonl_snap (quiet J) ?f' = Some (d, v) \<or>
      (\<exists>d' v'. jsonl_snap (quiet J) f = Some (d', v') \<and> v < v' \<and> jsonl_snap (quiet J) ?f' = jsonl_snap (quiet J) f)"
    by (cases "jsonl_latest (entries (quiet J) f) None")
      (auto simp: jsonl_snap_def e jsonl_latest_def latest_fn_def)
  moreover have "jsonl_SaveSnapshot (quiet J) d v f = (None, ?f')"
    by (simp add: jsonl_SaveSnapshot_def appendSnapshot_def l)
  ultimately show ?thesis
    using assms line e by (auto simp: jsonl_inv_def jsonl_base_def jsonl_tail_def)
qed

lemma jsonl_latest_cases:
  assumes "jsonl_latest es a = Some m"
  shows "a = Some m \<or> (\<exists>x. (x, Some m) \<in> set es)"
  using assms
proof (induction es arbitrary: a)
  case (Cons e es)
  from Cons.IH [of "latest_fn 0 (fst e) (snd e) a"] Cons.prems
  have "latest_fn 0 (fst e) (snd e) a = Some m \<or> (\<exists>x. (x, Some m) \<in> set es)"
    by (simp add: jsonl_latest_def)
  then show ?case
    by (cases e) (auto simp: latest_fn_def split: option.splits if_splits)
qed (simp add: jsonl_latest_def)

lemma jsonl_latest_ge:
  "(\<forall>l. a = Some l \<longrightarrow> (\<exists>m. jsonl_latest es a = Some m \<and> Version l \<le> Version m)) \<and>
   (\<forall>x l. (x, Some l) \<in> set es \<longrightarrow> (\<exists>m. jsonl_latest es a = Some m \<and> Version l \<le> Version m))"
proof (induction es arbitrary: a)
  case (Cons e es)
  from Cons.IH [of "latest_fn 0 (fst e) (snd e) a"] show ?case
    by (cases e; cases a; cases "snd e")
      (fastforce simp: jsonl_latest_def latest_fn_def split: if_splits)+
qed (simp add: jsonl_latest_def)

lemma ordered_range:
  assumes "ordered n es" "list_all good_entry es" "(x, Some m) \<in> set es"
  shows "0 \<le> Version m \<and> Version m \<le> n + int (length (entry_ops es))"
  using assms
proof (induction n es rule: ordered.induct)
  case (3 n y es)
  then show ?case by (cases y) auto
qed auto

lemma ordered0_range:
  assumes "ordered0 b es" "list_all good_entry es" "(x, Some m) \<in> set es"
  shows "0 \<le> Version m \<and> Version m \<le> lead b es + int (length (entry_ops es))"
  using assms
proof (induction b es rule: ordered0.induct)
  case (2 b y k es)
  have "max b (Version k) \<le> lead (max b (Version k)) es" by (rule lead_ge)
  with 2 show ?case by (cases y) auto
next
  case (3 b y es)
  then show ?case using ordered_range [of "b + 1" es x m] by (cases y) auto
qed auto

lemma lead_cases: "lead b es = b \<or> (\<exists>x m. (x, Some m) \<in> set es \<and> lead b es = Version m)"
proof (induction b es rule: lead.induct)
  case (2 b x m es)
  then show ?case by (cases "b \<le> Version m") (simp_all add: max_def, metis+)
qed auto

lemma jsonl_Snap_range:
  assumes "jsonl_inv J f" "jsonl_snap J f = Some (d, v)"
  shows "int (jsonl_base J f) \<le> v \<and> v \<le> int (jsonl_base J f + length (jsonl_tail J f))"
proof -
  let ?es = "entries J f"
  have g: "ordered0 0 ?es" "list_all good_entry ?es"
    using assms(1) good_entries by (auto simp: jsonl_inv_def entries_def)
  obtain m where m: "jsonl_latest ?es None = Some m" "v = Version m"
    using assms(2) by (auto simp: jsonl_snap_def)
  then obtain x where x: "(x, Some m) \<in> set ?es" using jsonl_latest_cases by blast
  have "lead 0 ?es \<le> v"
    using lead_cases [of 0 ?es] ordered0_range [OF g x] jsonl_latest_ge [of None ?es] m by fastforce
  then show ?thesis
    using ordered0_range [OF g x] m lead_nonneg [of ?es]
    by (auto simp: jsonl_base_def jsonl_tail_def)
qed

lemma jsonl_Snap_base:
  assumes "0 < jsonl_base J f"
  shows "jsonl_snap J f \<noteq> None"
  using assms lead_cases [of 0 "entries J f"] jsonl_latest_ge [of None "entries J f"]
  by (fastforce simp: jsonl_base_def jsonl_snap_def)

lemma jsonl_Compact_law:
  assumes "jsonl_inv (quiet J) f" "jsonl_fits (quiet J) v d" "int (jsonl_base (quiet J) f) \<le> v"
    "v \<le> int (jsonl_base (quiet J) f + length (jsonl_tail (quiet J) f))"
  shows "\<exists>f'. jsonl_Compact (quiet J) d v f = (None, f') \<and> jsonl_inv (quiet J) f' \<and>
     jsonl_base (quiet J) f' = nat v \<and>
     jsonl_tail (quiet J) f' = drop (nat v - jsonl_base (quiet J) f) (jsonl_tail (quiet J) f) \<and>
     jsonl_snap (quiet J) f' = Some (d, v)"
proof -
  obtain l where l: "snapshotPayload v d = Inr l" using jsonl_fits_payload assms(2) by blast
  have v: "0 \<le> v" using assms(3) by linarith
  note line = snapshot_line [OF assms(2) v l]
  define tl where "tl = drop (nat v - jsonl_base (quiet J) f) (jsonl_tail (quiet J) f)"
  let ?f' = "Some (l # map (\<lambda>x. Marshal (enc J x)) tl)"
  have st: "list_all (jsonl_storable (quiet J)) tl"
    using assms(1) by (auto simp: jsonl_inv_def tl_def list_all_iff dest: in_set_dropD)
  have e: "entries (quiet J) ?f' =
      (None, Some \<lparr>Version = v, Data = d\<rparr>) # map (\<lambda>x. (Some x, None)) tl"
    using line jsonl_storable_lines [OF st] by (simp add: entries_def)
  have "jsonl_Compact (quiet J) d v f = (None, ?f')"
    using assms(1) by (simp add: jsonl_Compact_def jsonl_read_law l writeAtomic_def tl_def)
  moreover have "jsonl_snap (quiet J) ?f' = Some (d, v)"
    using jsonl_latest_append_op [of "[(None, Some \<lparr>Version = v, Data = d\<rparr>)]" tl None]
    by (simp add: jsonl_snap_def e) (simp add: jsonl_latest_def latest_fn_def)
  moreover have "ordered0 0 (entries (quiet J) ?f')" "lead 0 (entries (quiet J) ?f') = v"
    using ordered0_append_op [of v "[]" tl] lead_append_op [of v "[]" tl] v by (auto simp: e max_def)
  moreover have "jsonl_tail (quiet J) ?f' = tl" by (simp add: jsonl_tail_def e)
  moreover have "list_all (good_line (quiet J)) (lines_of ?f')"
    using line jsonl_storable_lines [OF st] by simp
  ultimately have "jsonl_Compact (quiet J) d v f = (None, ?f') \<and> jsonl_inv (quiet J) ?f' \<and>
      jsonl_base (quiet J) ?f' = nat v \<and> jsonl_tail (quiet J) ?f' = tl \<and> jsonl_snap (quiet J) ?f' = Some (d, v)"
    using st unfolding jsonl_inv_def jsonl_base_def by simp
  then show ?thesis unfolding tl_def by blast
qed

interpretation jsonl: compaction_contract "jsonl_log (quiet J)" "jsonl_inv (quiet J)"
    "jsonl_base (quiet J)" "jsonl_tail (quiet J)" "jsonl_snap (quiet J)" "jsonl_storable (quiet J)"
    "jsonl_snapshotter (quiet J)" "jsonl_fits (quiet J)" "jsonl_compactor (quiet J)"
  for J :: "'o jsonl_env"
  by unfold_locales
    (simp_all add: jsonl_log_def jsonl_snapshotter_def jsonl_compactor_def jsonl_Read_def jsonl_read_law
      jsonl_Append_law jsonl_Append_conflict jsonl_Load_law jsonl_Save_law jsonl_Compact_law
      jsonl_Snap_range [simplified] jsonl_Snap_base [simplified])

text \<open>An empty stream, absent or created, is good.\<close>

lemma jsonl_inv_empty [simp]: "jsonl_inv J None" "jsonl_inv J (Some [])"
  by (simp_all add: jsonl_inv_def lines_of_def entries_def jsonl_tail_def)

subsection \<open>The 1-D store\<close>

definition op_env :: "(float64 \<Rightarrow> string) \<Rightarrow> op jsonl_env" where
  "op_env fmtf = \<lparr>enc = put_op, dec = get_op, float_text = fmtf, open_err = None, open_file_err = None,
     write_err = (\<lambda>_. None), replace_err = None\<rparr>"

definition op_len :: "(float64 \<Rightarrow> string) \<Rightarrow> op \<Rightarrow> nat" where
  "op_len fmtf o' = (case put_op o' of Some j \<Rightarrow> length (json_text fmtf j) | None \<Rightarrow> 0)"

lemma quiet_op_env [simp]: "quiet (op_env fmtf) = op_env fmtf"
  by (simp add: quiet_def op_env_def)

lemma storable_op_jsonl:
  assumes "storable_op o'" "op_len fmtf o' \<le> max_token"
  shows "jsonl_storable (op_env fmtf) o'"
proof -
  obtain j where j: "put_op o' = Some j" using put_op_storable [OF assms(1)] by blast
  then obtain fs where fs: "j = JObj fs" "get_field ''snapshot'' fs = JNull"
    by (auto simp: put_op_def omit_if_def get_field_def)
  have "get_op j = Inr o'" using get_put_op j assms(1) by (auto simp: storable_op_def)
  then show ?thesis
    using assms(2) j fs
    by (simp add: jsonl_storable_def op_env_def parseLine_def line_len_def op_len_def)
qed

end
