(* ===== verification/Box_Stores.thy ===== *)
theory Box_Stores
  imports Box_Strategies Memory_Store Jsonl_Store
begin

section \<open>The stored form of box operations (encoding/json) and the n-D stores (space/store)\<close>

text \<open>
  The codec of the n-dimensional structs, and the two backends of \<open>space/store\<close>. Those packages repeat the
  1-D ones word for word with another operation type, so each of their operations is the polymorphic one of
  \<open>Memory_Store\<close> and \<open>Jsonl_Store\<close> at that type, and the contracts carry over by interpretation.

  An operation whose metadata is no JSON has no encoding, although it passes \<open>Validate\<close>; the store ignores
  the encoder's error and writes an empty line.
\<close>

subsection \<open>The codec\<close>

definition put_floats :: "float64 list \<Rightarrow> json option" where
  "put_floats xs = (if xs = [] then Some JNull else map_option JArr (all_some (map put_float xs)))"

definition get_floats :: "json \<Rightarrow> json_error + float64 list" where
  "get_floats j = ebind (get_arr j) (emap get_float)"

definition put_bounds :: "bound list \<Rightarrow> json" where
  "put_bounds bs = JArr (map (\<lambda>b. JStr (Bound_String b)) bs)"

definition get_bounds :: "json \<Rightarrow> json_error + bound list" where
  "get_bounds j = ebind (get_arr j) (emap (get_text Bound_UnmarshalText Closed))"

definition put_meta :: "metadata \<Rightarrow> (string \<times> json) list option" where
  "put_meta m = (case m of NoMeta \<Rightarrow> Some [] | Doc d \<Rightarrow> Some [(''meta'', JRaw d)]
     | Garbage s \<Rightarrow> if s = [] then Some [] else None)"

definition get_meta :: "(string \<times> json) list \<Rightarrow> json_error + metadata" where
  "get_meta fs = (case map_of (rev fs) ''meta'' of None \<Rightarrow> Inr NoMeta | Some (JRaw d) \<Rightarrow> Inr (Doc d)
     | Some _ \<Rightarrow> Inl WrongType)"

definition put_box :: "box \<Rightarrow> json option" where
  "put_box b =
     (case (put_floats (BMin b), put_floats (BMax b), put_meta (Meta b)) of
        (Some lo, Some hi, Some m) \<Rightarrow>
          Some (JObj ([(''min'', lo), (''max'', hi)] @
            omit_if (MinBound b = []) ''minBound'' (put_bounds (MinBound b)) @
            omit_if (MaxBound b = []) ''maxBound'' (put_bounds (MaxBound b)) @ m))
      | _ \<Rightarrow> None)"

definition get_box :: "json \<Rightarrow> json_error + box" where
  "get_box j =
     ebind (get_obj j) (\<lambda>fs.
     ebind (get_floats (get_field ''min'' fs)) (\<lambda>lo.
     ebind (get_floats (get_field ''max'' fs)) (\<lambda>hi.
     ebind (get_bounds (get_field ''minBound'' fs)) (\<lambda>lb.
     ebind (get_bounds (get_field ''maxBound'' fs)) (\<lambda>hb.
     ebind (get_meta fs) (\<lambda>m.
       Inr \<lparr>BMin = lo, BMax = hi, MinBound = lb, MaxBound = hb, Meta = m\<rparr>))))))"

definition put_bop :: "box_op \<Rightarrow> json option" where
  "put_bop o' =
     map_option (\<lambda>b. JObj ([(''id'', JStr (BO_ID o')), (''kind'', JStr (BKind_MarshalText (BO_Kind o'))),
         (''box'', b), (''ts'', JInt (sint (BO_TS o')))] @
         omit_if (BO_Ref o' = []) ''ref'' (JStr (BO_Ref o')) @
         omit_if (BO_Origin o' = []) ''origin'' (JStr (BO_Origin o'))))
       (put_box (BO_Box o'))"

definition get_bop :: "json \<Rightarrow> json_error + box_op" where
  "get_bop j =
     ebind (get_obj j) (\<lambda>fs.
     ebind (get_string (get_field ''id'' fs)) (\<lambda>i.
     ebind (get_text BKind_UnmarshalText BKindAdd (get_field ''kind'' fs)) (\<lambda>k.
     ebind (get_box (get_field ''box'' fs)) (\<lambda>b.
     ebind (get_int64 (get_field ''ts'' fs)) (\<lambda>ts.
     ebind (get_string (get_field ''ref'' fs)) (\<lambda>ref.
     ebind (get_string (get_field ''origin'' fs)) (\<lambda>org.
       Inr \<lparr>BO_ID = i, BO_Kind = k, BO_Box = b, BO_TS = word_of_int ts, BO_Ref = ref, BO_Origin = org\<rparr>)))))))"

subsection \<open>Round trips\<close>

text \<open>Metadata that a raw message can carry through the store: none, or a document.\<close>

definition meta_ok :: "metadata \<Rightarrow> bool" where
  "meta_ok m \<longleftrightarrow> (\<forall>s. m \<noteq> Garbage s)"

lemma put_floats_fin:
  assumes "\<forall>x\<in>set xs. is_fin x"
  shows "\<exists>j. put_floats xs = Some j \<and> get_floats j = Inr xs"
proof -
  have "\<exists>js. all_some (map put_float xs) = Some js \<and> emap get_float js = Inr xs"
    using assms by (intro all_some_emap) (simp add: put_float_def)
  then show ?thesis by (auto simp: put_floats_def get_floats_def)
qed

lemma get_put_bounds [simp]: "get_bounds (put_bounds bs) = Inr bs"
proof -
  have "emap (get_text Bound_UnmarshalText Closed) (map (\<lambda>b. JStr (Bound_String b)) bs) = Inr bs"
    by (induction bs) (simp_all add: bound_text del: get_text.simps)
  then show ?thesis by (simp add: get_bounds_def put_bounds_def)
qed

lemma get_bounds_null [simp]: "get_bounds JNull = Inr []"
  by (simp add: get_bounds_def)

lemma put_get_box:
  assumes "\<forall>x\<in>set (BMin b) \<union> set (BMax b). is_fin x" "meta_ok (Meta b)"
  shows "\<exists>j. put_box b = Some j \<and> get_box j = Inr b"
proof -
  obtain lo hi where f: "put_floats (BMin b) = Some lo" "get_floats lo = Inr (BMin b)"
    "put_floats (BMax b) = Some hi" "get_floats hi = Inr (BMax b)"
    using put_floats_fin [of "BMin b"] put_floats_fin [of "BMax b"] assms(1) by auto
  have m: "\<exists>m. put_meta (Meta b) = Some m \<and> (m = [] \<and> Meta b = NoMeta \<or> (\<exists>d. m = [(''meta'', JRaw d)] \<and> Meta b = Doc d))"
    using assms(2) by (cases "Meta b") (auto simp: put_meta_def meta_ok_def)
  then show ?thesis
    using f by (cases b) (auto simp: put_box_def get_box_def get_field_def get_meta_def omit_if_def)
qed

definition storable_bop :: "box_op \<Rightarrow> bool" where
  "storable_bop o' \<longleftrightarrow> known_bkind (BO_Kind o') \<and> (\<exists>n. good_box n (BO_Box o')) \<and> meta_ok (Meta (BO_Box o'))"

lemma good_box_floats: "good_box n b \<Longrightarrow> \<forall>x\<in>set (BMin b) \<union> set (BMax b). is_fin x"
  using good_box_fin [of n b] good_boxD(2,3) [of n b] by (auto simp: in_set_conv_nth)

lemma get_put_bop:
  assumes "storable_bop o'"
  shows "\<exists>j. put_bop o' = Some j \<and> get_bop j = Inr o'"
proof -
  obtain n where "good_box n (BO_Box o')" "meta_ok (Meta (BO_Box o'))" "known_bkind (BO_Kind o')"
    using assms by (auto simp: storable_bop_def)
  moreover from this obtain j where "put_box (BO_Box o') = Some j" "get_box j = Inr (BO_Box o')"
    using put_get_box [OF good_box_floats] by blast
  ultimately show ?thesis
    by (cases o') (auto simp: put_bop_def get_bop_def get_field_def omit_if_def bkind_text int64_text
        simp del: get_int64.simps get_text.simps)
qed

lemma put_bop_garbage: "Meta (BO_Box o') = Garbage s \<Longrightarrow> s \<noteq> [] \<Longrightarrow> put_bop o' = None"
  by (simp add: put_bop_def put_box_def put_meta_def split: option.split)

subsection \<open>The in-memory store at box operations (space/store/memory/memory.go)\<close>

definition box_mem_New :: "box_op mem_store" where
  "box_mem_New = mem_New"

definition box_mem_Append :: "version \<Rightarrow> box_op list \<Rightarrow> box_op mem_store \<Rightarrow> store_error option \<times> box_op mem_store" where
  "box_mem_Append = mem_Append"

definition box_mem_Read :: "version \<Rightarrow> box_op mem_store \<Rightarrow> store_error + box_op list \<times> version" where
  "box_mem_Read = mem_Read"

definition box_mem_SaveSnapshot :: "rawjson \<Rightarrow> version \<Rightarrow> box_op mem_store \<Rightarrow> store_error option \<times> box_op mem_store" where
  "box_mem_SaveSnapshot = mem_SaveSnapshot"

definition box_mem_LoadSnapshot :: "box_op mem_store \<Rightarrow> store_error + rawjson \<times> version" where
  "box_mem_LoadSnapshot = mem_LoadSnapshot"

definition box_mem_log :: "(box_op mem_store, box_op) Log" where
  "box_mem_log = \<lparr>Append = box_mem_Append, Read = box_mem_Read,
     AsSnapshotter = Some \<lparr>SaveSnapshot = box_mem_SaveSnapshot, LoadSnapshot = box_mem_LoadSnapshot\<rparr>,
     AsCompactor = None\<rparr>"

lemma box_mem_log_eq: "box_mem_log = mem_log"
  by (simp add: box_mem_log_def mem_log_def mem_snapshotter_def box_mem_Append_def box_mem_Read_def
      box_mem_SaveSnapshot_def box_mem_LoadSnapshot_def)

interpretation box_mem: snapshot_contract box_mem_log mem_inv "\<lambda>_. 0" mem_ops mem_snap "\<lambda>_. True"
    mem_snapshotter "\<lambda>_ _. True"
  unfolding box_mem_log_eq by (rule mem.snapshot_contract_axioms)

subsection \<open>The JSON Lines store at box operations (space/store/jsonl/jsonl.go)\<close>

definition box_parseLine :: "box_op jsonl_env \<Rightarrow> rawjson \<Rightarrow> json_error + box_op option \<times> snapshotMarker option" where
  "box_parseLine = parseLine"

definition box_advance :: "version \<Rightarrow> version \<Rightarrow> box_op option \<Rightarrow> snapshotMarker option \<Rightarrow> (version \<Rightarrow> box_op option \<Rightarrow> snapshotMarker option \<Rightarrow> 'a \<Rightarrow> 'a) \<Rightarrow> 'a \<Rightarrow> version \<times> version \<times> 'a" where
  "box_advance = advance"

definition box_scan :: "box_op jsonl_env \<Rightarrow> (version \<Rightarrow> box_op option \<Rightarrow> snapshotMarker option \<Rightarrow> 'a \<Rightarrow> 'a) \<Rightarrow> 'a \<Rightarrow> stream \<Rightarrow> 'a \<times> version \<times> store_error option" where
  "box_scan = scan"

definition box_jsonl_read :: "box_op jsonl_env \<Rightarrow> version \<Rightarrow> stream \<Rightarrow> store_error + box_op list \<times> version" where
  "box_jsonl_read = jsonl_read"

definition box_jsonl_Read :: "box_op jsonl_env \<Rightarrow> version \<Rightarrow> stream \<Rightarrow> store_error + box_op list \<times> version" where
  "box_jsonl_Read = jsonl_Read"

definition box_jsonl_count :: "box_op jsonl_env \<Rightarrow> stream \<Rightarrow> store_error + version" where
  "box_jsonl_count = jsonl_count"

definition box_appendEvents :: "box_op jsonl_env \<Rightarrow> nat \<Rightarrow> box_op list \<Rightarrow> rawjson list \<Rightarrow> store_error option \<times> rawjson list" where
  "box_appendEvents = appendEvents"

definition box_jsonl_Append :: "box_op jsonl_env \<Rightarrow> version \<Rightarrow> box_op list \<Rightarrow> stream \<Rightarrow> store_error option \<times> stream" where
  "box_jsonl_Append = jsonl_Append"

definition box_snapshotPayload :: "version \<Rightarrow> rawjson \<Rightarrow> store_error + rawjson" where
  "box_snapshotPayload = snapshotPayload"

definition box_appendSnapshot :: "box_op jsonl_env \<Rightarrow> version \<Rightarrow> rawjson \<Rightarrow> rawjson list \<Rightarrow> store_error option \<times> rawjson list" where
  "box_appendSnapshot = appendSnapshot"

definition box_jsonl_SaveSnapshot :: "box_op jsonl_env \<Rightarrow> rawjson \<Rightarrow> version \<Rightarrow> stream \<Rightarrow> store_error option \<times> stream" where
  "box_jsonl_SaveSnapshot = jsonl_SaveSnapshot"

definition box_jsonl_LoadSnapshot :: "box_op jsonl_env \<Rightarrow> stream \<Rightarrow> store_error + rawjson \<times> version" where
  "box_jsonl_LoadSnapshot = jsonl_LoadSnapshot"

definition box_writeAtomic :: "box_op jsonl_env \<Rightarrow> rawjson list \<Rightarrow> stream \<Rightarrow> store_error option \<times> stream" where
  "box_writeAtomic = writeAtomic"

definition box_jsonl_Compact :: "box_op jsonl_env \<Rightarrow> rawjson \<Rightarrow> version \<Rightarrow> stream \<Rightarrow> store_error option \<times> stream" where
  "box_jsonl_Compact = jsonl_Compact"

definition box_jsonl_log :: "box_op jsonl_env \<Rightarrow> (stream, box_op) Log" where
  "box_jsonl_log J = \<lparr>Append = box_jsonl_Append J, Read = box_jsonl_Read J,
     AsSnapshotter = Some \<lparr>SaveSnapshot = box_jsonl_SaveSnapshot J, LoadSnapshot = box_jsonl_LoadSnapshot J\<rparr>,
     AsCompactor = Some \<lparr>Compact = box_jsonl_Compact J\<rparr>\<rparr>"

lemma box_jsonl_log_eq: "box_jsonl_log J = jsonl_log J"
  by (simp add: box_jsonl_log_def jsonl_log_def jsonl_snapshotter_def jsonl_compactor_def box_jsonl_Append_def
      box_jsonl_Read_def box_jsonl_SaveSnapshot_def box_jsonl_LoadSnapshot_def box_jsonl_Compact_def)

text \<open>The environment of the n-D store: its codec, and no system call failing.\<close>

definition bop_env :: "(float64 \<Rightarrow> string) \<Rightarrow> box_op jsonl_env" where
  "bop_env fmtf = \<lparr>enc = put_bop, dec = get_bop, float_text = fmtf, open_err = None, open_file_err = None,
     write_err = (\<lambda>_. None), replace_err = None\<rparr>"

lemma quiet_bop_env [simp]: "quiet (bop_env fmtf) = bop_env fmtf"
  by (simp add: quiet_def bop_env_def)

interpretation box_jsonl: compaction_contract "box_jsonl_log (bop_env fmtf)" "jsonl_inv (bop_env fmtf)"
    "jsonl_base (bop_env fmtf)" "jsonl_tail (bop_env fmtf)" "jsonl_snap (bop_env fmtf)"
    "jsonl_storable (bop_env fmtf)" "jsonl_snapshotter (bop_env fmtf)" "jsonl_fits (bop_env fmtf)"
    "jsonl_compactor (bop_env fmtf)" for fmtf
  unfolding box_jsonl_log_eq using jsonl.compaction_contract_axioms [of "bop_env fmtf"] by simp

definition bop_len :: "(float64 \<Rightarrow> string) \<Rightarrow> box_op \<Rightarrow> nat" where
  "bop_len fmtf o' = (case put_bop o' of Some j \<Rightarrow> length (json_text fmtf j) | None \<Rightarrow> 0)"

lemma storable_bop_jsonl:
  assumes "storable_bop o'" "bop_len fmtf o' \<le> max_token"
  shows "jsonl_storable (bop_env fmtf) o'"
proof -
  obtain j where j: "put_bop o' = Some j" "get_bop j = Inr o'" using get_put_bop [OF assms(1)] by blast
  then obtain fs where fs: "j = JObj fs" "get_field ''snapshot'' fs = JNull"
    by (auto simp: put_bop_def omit_if_def get_field_def)
  show ?thesis
    using assms(2) j fs by (simp add: jsonl_storable_def bop_env_def parseLine_def line_len_def bop_len_def)
qed

text \<open>
  An appended operation with malformed metadata leaves an empty line: the append succeeds and every later
  read of the stream fails.
\<close>

lemma garbage_breaks_stream:
  assumes "jsonl_inv (bop_env fmtf) f" "v = int (jsonl_base (bop_env fmtf) f + length (jsonl_tail (bop_env fmtf) f))"
    and "Meta (BO_Box o') = Garbage s" "s \<noteq> []"
  shows "\<exists>f'. box_jsonl_Append (bop_env fmtf) v [o'] f = (None, f') \<and>
    box_jsonl_Read (bop_env fmtf) w f' = Inl (ErrJson UnexpectedEnd)"
proof -
  let ?J = "bop_env fmtf"
  have rd: "jsonl_read ?J x f = Inr (drop (nat x - jsonl_base ?J f) (jsonl_tail ?J f), v)" for x
    using box_jsonl.Read_law [OF assms(1)] assms(2) by (simp add: box_jsonl_log_def box_jsonl_Read_def jsonl_Read_def)
  have count: "jsonl_count ?J f = Inr v"
  proof (rule ccontr)
    assume n: "jsonl_count ?J f \<noteq> Inr v"
    then have "fst (box_jsonl_Append ?J v [] f) \<noteq> None"
      by (auto simp: box_jsonl_Append_def jsonl_Append_def split: sum.split)
    then show False
      using box_jsonl.Append_law [OF assms(1,2), of "[]"] by (auto simp: box_jsonl_log_def)
  qed
  have enc: "enc ?J o' = None" using put_bop_garbage [OF assms(3,4)] by (simp add: bop_env_def)
  have env: "open_err ?J = None" "open_file_err ?J = None" "write_err ?J i = None" for i by (simp_all add: bop_env_def)
  let ?f = "Some (lines_of f @ [Invalid []])"
  have app: "box_jsonl_Append ?J v [o'] f = (None, ?f)"
    by (simp add: box_jsonl_Append_def jsonl_Append_def count env enc Marshal_def)
  have tail: "snd (snd (scan_lines J fn ls b n acc)) = None \<Longrightarrow>
      snd (snd (scan_lines J fn (ls @ [Invalid []]) b n acc)) = Some (ErrJson UnexpectedEnd)"
    for J :: "box_op jsonl_env" and fn :: "version \<Rightarrow> box_op option \<Rightarrow> snapshotMarker option \<Rightarrow> box_op list \<Rightarrow> box_op list"
      and ls b n acc
  proof (induction ls arbitrary: b n acc)
    case Nil
    then show ?case by (simp add: line_len_def parseLine_def)
  next
    case (Cons l ls)
    then show ?case by (auto split: if_splits sum.splits prod.splits)
  qed
  have ok: "snd (snd (scan_lines ?J (read_fn w) (lines_of f) 0 0 [])) = None"
    using rd [of w] by (cases f) (auto simp: jsonl_read_def scan_def env lines_of_def split: prod.splits option.splits)
  have "snd (snd (scan_lines ?J (read_fn w) (lines_of f @ [Invalid []]) 0 0 [])) = Some (ErrJson UnexpectedEnd)"
    using tail [OF ok] .
  then have "box_jsonl_Read ?J w ?f = Inl (ErrJson UnexpectedEnd)"
    by (auto simp: box_jsonl_Read_def jsonl_Read_def jsonl_read_def scan_def env split: prod.splits option.splits)
  with app show ?thesis by blast
qed

end
