(* ===== verification/Box_Views.thy ===== *)
theory Box_Views
  imports Box_Strategies
begin

section \<open>Views of box operations: convergence and layers\<close>

text \<open>
  Two lists of the same operations in any order give covers of the same boxes, up to metadata and the
  spelling of default bounds (\<open>box_key\<close>); under LWW and FWW even the winner-annotated regions are equal. The
  painter's front of \<open>layers.go\<close> shows at each point what the operation deciding that point says, and
  keeps no layer that higher ones hide.
\<close>

subsection \<open>Differences read the geometry alone\<close>

definition same_geo :: "nat \<Rightarrow> box \<Rightarrow> box \<Rightarrow> bool" where
  "same_geo n a b \<longleftrightarrow> good_box n a \<and> good_box n b \<and> (\<forall>i<n. axis a i = axis b i)"

lemma same_geo_key: "good_box n a \<Longrightarrow> good_box n b \<Longrightarrow> same_geo n a b \<longleftrightarrow> box_key a = box_key b"
  by (simp add: same_geo_def box_key_axes)

lemma same_geo_bspan: "same_geo n a b \<Longrightarrow> bspan a = bspan b"
  using box_key_bspan [of n a b] box_key_axes [of n a b] by (simp add: same_geo_def)

lemma same_geo_clip:
  assumes "same_geo n b b'" "d < n" "valid_iv iv"
  shows "same_geo n (clipToInterval b d iv) (clipToInterval b' d iv)"
  using assms good_clipToInterval [OF _ assms(2,3)] axis_clipToInterval [OF good_boxD(1) _ assms(2)]
  by (auto simp: same_geo_def)

lemma splitAxis_geo:
  assumes b: "same_geo n b b'" and q: "same_geo n q q'" and d: "d < n"
    and o: "max (ilo (axis b d)) (ilo (axis q d)) < min (ihi (axis b d)) (ihi (axis q d))"
  shows "same_geo n (fst (splitAxis q d b)) (fst (splitAxis q' d b'))"
    and "list_all2 (same_geo n) (snd (splitAxis q d b)) (snd (splitAxis q' d b'))"
proof -
  have ax: "axis b' d = axis b d" "axis q' d = axis q d" using b q d by (simp_all add: same_geo_def)
  then have f: "BMin b' ! d = BMin b ! d" "BMax b' ! d = BMax b ! d" "loBound b' d = loBound b d" "hiBound b' d = hiBound b d"
    "BMin q' ! d = BMin q ! d" "BMax q' ! d = BMax q ! d" "loBound q' d = loBound q d" "hiBound q' d = hiBound q d"
    by (simp_all add: axis_def)
  have v: "valid_iv (axis b d)" "valid_iv (axis q d)" using b q d good_box_valid by (auto simp: same_geo_def)
  note sub = intervalSubtract_span [OF v, unfolded axis_sel]
  note int = intervalIntersection_span [OF v, unfolded axis_sel]
  have fp: "fin_point (max (ilo (axis b d)) (ilo (axis q d)))" "fin_point (min (ihi (axis b d)) (ihi (axis q d)))"
    using v by (simp_all add: max_def min_def)
  show "same_geo n (fst (splitAxis q d b)) (fst (splitAxis q' d b'))"
    unfolding splitAxis_def f int using same_geo_clip [OF b d] b o fp by auto
  show "list_all2 (same_geo n) (snd (splitAxis q d b)) (snd (splitAxis q' d b'))"
    unfolding splitAxis_def f sub using same_geo_clip [OF b d] v by auto
qed

lemma sweep_geo:
  assumes p: "same_geo n p p'" and q: "same_geo n q q'" and o: "Overlaps p q" and d: "d \<le> n"
  shows "\<exists>b b' r r'. fold (subtractAxis q) [0..<d] ([p], []) = ([b], r) \<and>
    fold (subtractAxis q') [0..<d] ([p'], []) = ([b'], r') \<and> same_geo n b b' \<and> list_all2 (same_geo n) r r'"
  using d
proof (induction d)
  case 0
  then show ?case using p by simp
next
  case (Suc d)
  then obtain b b' r r' where
    f: "fold (subtractAxis q) [0..<d] ([p], []) = ([b], r)" "fold (subtractAxis q') [0..<d] ([p'], []) = ([b'], r')"
    and g: "same_geo n b b'" "list_all2 (same_geo n) r r'" by auto
  have pq: "good_box n p" "good_box n q" using p q by (simp_all add: same_geo_def)
  have d': "d < n" "d \<le> n" using Suc.prems by auto
  from carved_sweep [OF pq o d'(2)] f(1) have "carved n p q d b r" by auto
  then have "axis b d = axis p d" using d' by (simp add: carved_def)
  then have "max (ilo (axis b d)) (ilo (axis q d)) < min (ihi (axis b d)) (ihi (axis q d))"
    using o d' by (simp add: Overlaps_axes [OF pq])
  note sg = splitAxis_geo [OF g(1) q d'(1) this]
  have step: "subtractAxis c d ([x], y) = ([fst (splitAxis c d x)], y @ snd (splitAxis c d x))" for c x y
    by (simp add: subtractAxis_def)
  show ?case using sg g(2) by (simp add: f step list_all2_appendI)
qed

lemma subtractBox_geo:
  assumes p: "same_geo n p p'" and q: "same_geo n q q'"
  shows "list_all2 (same_geo n) (subtractBox p q) (subtractBox p' q')"
proof -
  have g: "good_box n p" "good_box n q" "good_box n p'" "good_box n q'" using p q by (simp_all add: same_geo_def)
  have o: "Overlaps p q \<longleftrightarrow> Overlaps p' q'"
    using p q by (simp add: Overlaps_axes [OF g(1,2)] Overlaps_axes [OF g(3,4)] same_geo_def)
  show ?thesis
  proof (cases "Overlaps p q")
    case True
    with o sweep_geo [OF p q True, of n] show ?thesis
      by (auto simp: subtractBox_def good_boxD [OF g(1)] good_boxD [OF g(3)])
  next
    case False
    with o p show ?thesis by (simp add: subtractBox_def)
  qed
qed

lemma list_geo_bspan: "list_all2 (same_geo n) xs ys \<Longrightarrow> bspan ` set xs = bspan ` set ys"
  by (induction rule: list_all2_induct) (auto dest: same_geo_bspan)

lemma list_geo_keys:
  assumes "all_good n xs" "all_good n ys"
  shows "list_all2 (same_geo n) xs ys \<longleftrightarrow> map box_key xs = map box_key ys"
proof -
  have "list_all2 (same_geo n) xs ys \<longleftrightarrow> list_all2 (\<lambda>a b. box_key a = box_key b) xs ys"
    using assms same_geo_key by (auto simp: list_all2_conv_all_nth all_good_def)
  also have "\<dots> \<longleftrightarrow> map box_key xs = map box_key ys"
    by (auto simp: list_all2_conv_all_nth list_eq_iff_nth_eq)
  finally show ?thesis .
qed

lemma spans_good: "all_good n bs \<Longrightarrow> spans bs = bspan ` set bs"
  by (auto simp: spans_def all_good_def good_box_def)

lemma NormalizeMerged_keys:
  assumes "all_good n bs" "all_good n cs" "bspan ` set bs = bspan ` set cs"
  shows "map box_key (NormalizeMerged bs merge) = map box_key (NormalizeMerged cs merge')"
proof (rule canonical_unique [of n])
  note ok = all_goodD [OF assms(1)] all_goodD [OF assms(2)]
  show "box_canonical n (NormalizeMerged bs merge)" "box_canonical n (NormalizeMerged cs merge')"
    using NormalizeMerged_spec(1) ok by blast+
  show "bspan ` set (NormalizeMerged bs merge) = bspan ` set (NormalizeMerged cs merge')"
    using NormalizeMerged_spec(2) [OF ok(1)] NormalizeMerged_spec(2) [OF ok(2)] assms spans_good by metis
qed

lemma DifferenceSortedMerged_keys:
  assumes a: "all_good n a" "all_good n a'" "bspan ` set a = bspan ` set a'"
    and b: "list_all2 (same_geo n) b b'"
  shows "map box_key (DifferenceSortedMerged a b merge) = map box_key (DifferenceSortedMerged a' b' merge')"
proof -
  let ?f = "\<lambda>merge q result. NormalizeMerged (concat (map (\<lambda>p. subtractBox p q) result)) merge"
  have "map box_key (fold (?f merge) b r) = map box_key (fold (?f merge') b' r')"
    if "all_good n r" "all_good n r'" "map box_key r = map box_key r'" for r r'
    using b that
  proof (induction arbitrary: r r' rule: list_all2_induct)
    case (Cons q qs q' qs')
    have g: "good_box n q" "good_box n q'" using Cons.hyps(1) by (simp_all add: same_geo_def)
    have rr: "list_all2 (same_geo n) r r'" using list_geo_keys Cons.prems by blast
    then have "list_all2 (same_geo n) (concat (map (\<lambda>p. subtractBox p q) r)) (concat (map (\<lambda>p. subtractBox p q') r'))"
      by (induction rule: list_all2_induct) (auto intro: list_all2_appendI subtractBox_geo Cons.hyps(1))
    from list_geo_bspan [OF this] have "map box_key (?f merge q r) = map box_key (?f merge' q' r')"
      by (rule NormalizeMerged_keys [OF subtract_each(1) [OF Cons.prems(1) g(1)] subtract_each(1) [OF Cons.prems(2) g(2)]])
    moreover have "all_good n (?f merge q r)" "all_good n (?f merge' q' r')"
      using NormalizeMerged_good all_goodD subtract_each(1) Cons.prems(1,2) g by blast+
    ultimately show ?case using Cons.IH [of "?f merge q r" "?f merge' q' r'"] by simp
  qed simp
  moreover have "all_good n (NormalizeMerged a merge)" "all_good n (NormalizeMerged a' merge')"
    using NormalizeMerged_good all_goodD a(1,2) by blast+
  ultimately show ?thesis
    unfolding DifferenceSortedMerged_def using NormalizeMerged_keys [OF a] by blast
qed

lemma DifferenceMerged_keys:
  assumes "all_good n a" "all_good n a'" "bspan ` set a = bspan ` set a'"
    and "all_good n b" "all_good n b'" "bspan ` set b = bspan ` set b'"
  shows "map box_key (DifferenceMerged a b merge) = map box_key (DifferenceMerged a' b' merge')"
proof -
  have "all_good n (NormalizeMerged b merge)" "all_good n (NormalizeMerged b' merge')"
    using NormalizeMerged_good all_goodD assms(4,5) by blast+
  then have "list_all2 (same_geo n) (NormalizeMerged b merge) (NormalizeMerged b' merge')"
    using list_geo_keys NormalizeMerged_keys [OF assms(4-6)] by blast
  then show ?thesis
    unfolding DifferenceMerged_def using assms(1-3) by (intro DifferenceSortedMerged_keys [of n])
qed

subsection \<open>The view depends on the set of operations\<close>

lemma mset_Effective:
  assumes "mset ops = mset ops'"
  shows "mset (Effective ops) = mset (Effective ops')"
proof -
  let ?ret = "\<lambda>ops. map BO_Ref (filter (\<lambda>o'. BO_Kind o' = BKindRetract) ops)"
  have m: "mset (?ret ops) = mset (?ret ops')" using assms by simp
  then have "set (?ret ops) = set (?ret ops')" "?ret ops = [] \<longleftrightarrow> ?ret ops' = []"
    by (metis set_mset_mset, metis mset_zero_iff)
  with assms show ?thesis by (simp add: Effective_def Let_def)
qed

lemma box_Segments_perm:
  assumes "mset ops = mset ops'" "unique_bids (set ops)"
  shows "box_Segments s ops = box_Segments s ops'"
proof -
  have "sort_slice (\<lambda>a b. bbetter s (BS_Winner a) (BS_Winner b)) (map bop_segment ops) =
      sort_slice (\<lambda>a b. bbetter s (BS_Winner a) (BS_Winner b)) (map bop_segment ops')"
  proof (rule seg_prio.sort_slice_cong)
    show "mset (map bop_segment ops) = mset (map bop_segment ops')" using assms(1) by simp
    show "\<forall>x\<in>set (map bop_segment ops). \<forall>y\<in>set (map bop_segment ops).
        \<not> bbetter s (BS_Winner x) (BS_Winner y) \<longrightarrow> \<not> bbetter s (BS_Winner y) (BS_Winner x) \<longrightarrow> x = y"
    proof (intro ballI impI)
      fix x y assume xy: "x \<in> set (map bop_segment ops)" "y \<in> set (map bop_segment ops)"
        "\<not> bbetter s (BS_Winner x) (BS_Winner y)" "\<not> bbetter s (BS_Winner y) (BS_Winner x)"
      then obtain a b where "a \<in> set ops" "b \<in> set ops" "x = bop_segment a" "y = bop_segment b" by auto
      with bbetter_tie [OF xy(3,4)] assms(2) show "x = y"
        by (auto simp: unique_bids_def bwinnerOf_def inj_on_def)
    qed
  qed simp
  then show ?thesis unfolding box_Segments_def box_normalize_def by (simp only:)
qed

lemma BoxesOf_keys:
  assumes "good_bops n ops" "mset ops = mset ops'"
  shows "all_good n (BoxesOf ops k merge)" "all_good n (BoxesOf ops' k merge')"
    "bspan ` set (BoxesOf ops k merge) = bspan ` set (BoxesOf ops' k merge')"
    "map box_key (BoxesOf ops k merge) = map box_key (BoxesOf ops' k merge')"
proof -
  have sets: "set ops' = set ops" using assms(2) by (metis set_mset_mset)
  then have g': "good_bops n ops'" using assms(1) by (simp add: good_bops_def)
  let ?b = "\<lambda>ops. map BO_Box (filter (\<lambda>o'. BO_Kind o' = k) ops)"
  have ok: "\<forall>b\<in>set (?b ops). box_ok n b" "\<forall>b\<in>set (?b ops'). box_ok n b"
    using assms(1) sets by (auto simp: good_bops_def good_box_def)
  have sp: "spans (?b ops) = spans (?b ops')" using sets by (simp add: spans_def)
  show "all_good n (BoxesOf ops k merge)" "all_good n (BoxesOf ops' k merge')"
    using BoxesOf_spec(1) [OF assms(1)] BoxesOf_spec(1) [OF g'] by (simp_all add: box_canonical_def)
  show eq: "bspan ` set (BoxesOf ops k merge) = bspan ` set (BoxesOf ops' k merge')"
    unfolding BoxesOf_def NormalizeMerged_spec(2) [OF ok(1)] NormalizeMerged_spec(2) [OF ok(2)] sp ..
  show "map box_key (BoxesOf ops k merge) = map box_key (BoxesOf ops' k merge')"
    using canonical_unique [OF BoxesOf_spec(1) [OF assms(1)] BoxesOf_spec(1) [OF g'] eq] .
qed

lemma MaterializeMerged_perm:
  assumes g: "good_bops n ops" and u: "unique_bids (set ops)" and m: "mset ops = mset ops'"
  shows "map box_key (MaterializeMerged s ops merge) = map box_key (MaterializeMerged s ops' merge')"
proof -
  let ?e = "Effective ops" and ?e' = "Effective ops'"
  have me: "mset ?e = mset ?e'" using mset_Effective [OF m] .
  have ge: "good_bops n ?e" using g effective_sub by (auto simp: good_bops_def set_Effective)
  have ue: "unique_bids (set ?e)" using unique_bids_sub [OF u effective_sub] by (simp add: set_Effective)
  have ma: "mset (opsOf ?e BKindAdd) = mset (opsOf ?e' BKindAdd)" using me by (simp add: opsOf_def)
  have ga: "good_bops n (opsOf ?e BKindAdd)" using ge by (simp add: good_bops_def opsOf_def)
  have ua: "unique_bids (set (opsOf ?e BKindAdd))" using ue by (rule unique_bids_sub) (auto simp: opsOf_def)
  note bo = BoxesOf_keys [OF ge me]
  show ?thesis
  proof (cases s)
    case BAdditiveWins
    then show ?thesis
      by (simp add: MaterializeMerged_def Let_def DifferenceMerged_keys [OF bo(1-3) bo(1-3)])
  next
    case BGrowOnly
    then show ?thesis using bo(4) by (simp add: MaterializeMerged_def Let_def)
  next
    case BAdditiveWinsLWW
    let ?t = "ToBoxes (box_Segments BLWW (opsOf ?e BKindAdd))"
    have t: "all_good n ?t" using ToBoxes_Segments(1) [OF _ ga ua, of BLWW] by (simp add: box_canonical_def)
    show ?thesis
      using BAdditiveWinsLWW DifferenceMerged_keys [OF t t refl bo(1-3)]
      by (simp add: MaterializeMerged_def Let_def box_Segments_perm [OF ma ua, symmetric])
  qed (simp_all add: MaterializeMerged_def Let_def box_Segments_perm [OF me ue])
qed

subsection \<open>The layered front\<close>

lemma find_claims:
  assumes "\<forall>a\<in>set as. good_box n (bx a)" "box_canonical n claimed" "x \<notin> bcover claimed"
  shows "find (\<lambda>(a, free). x \<in> bspan (bx a)) (filter (\<lambda>(a, free). free \<noteq> []) (sweep_claims bx as claimed)) =
      None \<longleftrightarrow> find (\<lambda>a. x \<in> bspan (bx a)) as = None"
    and "map_option fst (find (\<lambda>(a, free). x \<in> bspan (bx a))
        (filter (\<lambda>(a, free). free \<noteq> []) (sweep_claims bx as claimed))) = find (\<lambda>a. x \<in> bspan (bx a)) as"
proof -
  show "map_option fst (find (\<lambda>(a, free). x \<in> bspan (bx a))
      (filter (\<lambda>(a, free). free \<noteq> []) (sweep_claims bx as claimed))) = find (\<lambda>a. x \<in> bspan (bx a)) as"
    using assms
  proof (induction as arbitrary: claimed)
    case (Cons a as)
    have a: "good_box n (bx a)" using Cons.prems by simp
    have c: "box_canonical n (InsertNormalized claimed (bx a))"
      using InsertNormalized_spec(1) [OF Cons.prems(2) good_boxD(1) [OF a]] .
    note free = free_spec(2) [OF a Cons.prems(2)]
    show ?case
    proof (cases "x \<in> bspan (bx a)")
      case True
      then have "box_DifferenceSorted [bx a] claimed \<noteq> []" using free Cons.prems(3) by auto
      with True show ?thesis by simp
    next
      case False
      then have "x \<notin> bcover (InsertNormalized claimed (bx a))"
        using Cons.prems(3) by (simp add: InsertNormalized_bcover [OF Cons.prems(2) a])
      from Cons.IH [OF _ c this] Cons.prems(1) False show ?thesis by simp
    qed
  qed simp
  then show "find (\<lambda>(a, free). x \<in> bspan (bx a)) (filter (\<lambda>(a, free). free \<noteq> []) (sweep_claims bx as claimed)) =
      None \<longleftrightarrow> find (\<lambda>a. x \<in> bspan (bx a)) as = None"
    by (metis option.map_disc_iff)
qed

definition layer_of :: "box_op \<Rightarrow> box_layer" where
  "layer_of o' = \<lparr>L_Box = BO_Box o', L_Kind = BO_Kind o'\<rparr>"

lemma Layers_top:
  assumes g: "good_bops n ops" and u: "unique_bids (set ops)"
  shows "find (\<lambda>l. x \<in> bspan (L_Box l)) (rev (Layers ops)) = Some l \<longleftrightarrow>
    (\<exists>o'. bdecides BLWW (effective (set ops)) x o' \<and> l = layer_of o')"
proof -
  let ?as = "sort_slice (\<lambda>a b. bbetter BLWW (bwinnerOf a) (bwinnerOf b)) (Effective ops)"
  let ?sw = "filter (\<lambda>(a, free). free \<noteq> []) (sweep_claims BO_Box ?as [])"
  have ga: "\<forall>a\<in>set ?as. good_box n (BO_Box a)"
    using g effective_sub by (auto simp: good_bops_def set_Effective)
  have ord: "sorted_wrt (\<lambda>a b. \<not> bbetter BLWW (bwinnerOf b) (bwinnerOf a)) ?as"
    by (rule seg_prio.in_order_sort_slice) simp
  have tie: "\<forall>a\<in>set ?as. \<forall>b\<in>set ?as. \<not> bbetter BLWW (bwinnerOf a) (bwinnerOf b) \<longrightarrow>
      \<not> bbetter BLWW (bwinnerOf b) (bwinnerOf a) \<longrightarrow> a = b"
    using bbetter_tie [of BLWW "bwinnerOf _" "bwinnerOf _"] u effective_sub [of "set ops"]
    by (auto simp: unique_bids_def inj_on_def bwinnerOf_def set_Effective) (meson subsetD)
  have lay: "rev (Layers ops) = map (\<lambda>(o', free). layer_of o') ?sw"
    by (simp add: Layers_def layer_of_def)
  have map_find: "find (\<lambda>l. x \<in> bspan (L_Box l)) (map (\<lambda>(o', free). layer_of o') xs) =
      map_option layer_of (map_option fst (find (\<lambda>(a, free). x \<in> bspan (BO_Box a)) xs))" for xs :: "(box_op \<times> box list) list"
    by (induction xs) (auto simp: layer_of_def)
  have "find (\<lambda>l. x \<in> bspan (L_Box l)) (rev (Layers ops)) =
      map_option layer_of (find (\<lambda>a. x \<in> bspan (BO_Box a)) ?as)"
    unfolding lay map_find using find_claims(2) [OF ga box_canonical_Nil, of x] by simp
  then show ?thesis
    using seg_prio.find_in_order_iff [OF ord _ tie, of "\<lambda>a. x \<in> bspan (BO_Box a)"]
    by (auto simp: bdecides_def set_Effective)
qed

text \<open>No layer is hidden by the layers above it.\<close>

lemma claims_visible:
  assumes "\<forall>a\<in>set as. good_box n (bx a)" "box_canonical n claimed"
    and "filter (\<lambda>(a, free). free \<noteq> []) (sweep_claims bx as claimed) = xs @ (a, free) # ys"
  shows "\<exists>x\<in>bspan (bx a). x \<notin> bcover claimed \<and> (\<forall>(b, _)\<in>set xs. x \<notin> bspan (bx b))"
  using assms
proof (induction as arbitrary: claimed xs)
  case (Cons c as)
  have c: "good_box n (bx c)" using Cons.prems by simp
  let ?free = "box_DifferenceSorted [bx c] claimed"
  note free = free_spec [OF c Cons.prems(2)]
  have ins: "box_canonical n (InsertNormalized claimed (bx c))"
    using InsertNormalized_spec(1) [OF Cons.prems(2) good_boxD(1) [OF c]] .
  have later: "\<exists>x\<in>bspan (bx a). x \<notin> bcover claimed \<and> x \<notin> bspan (bx c) \<and> (\<forall>(b, _)\<in>set zs. x \<notin> bspan (bx b))"
    if "filter (\<lambda>(a, free). free \<noteq> []) (sweep_claims bx as (InsertNormalized claimed (bx c))) = zs @ (a, free) # ys" for zs
    using Cons.IH [OF _ ins that] Cons.prems(1) by (auto simp: InsertNormalized_bcover [OF Cons.prems(2) c])
  show ?case
  proof (cases "?free = []")
    case True
    with Cons.prems(3) later [of xs] show ?thesis by auto
  next
    case False
    show ?thesis
    proof (cases xs)
      case Nil
      with Cons.prems(3) False have "a = c" by simp
      obtain b where b: "b \<in> set ?free" using False by (cases ?free) auto
      with free(1) have "good_box n b" by (simp add: box_canonical_def all_good_def)
      then obtain x where "x \<in> bspan b" using good_box_bspan by blast
      with b have "x \<in> bcover ?free" by (auto simp: bcover_def)
      with free(2) \<open>a = c\<close> Nil show ?thesis by auto
    next
      case (Cons z zs)
      with Cons.prems(3) False have "z = (c, ?free)" by simp
      with Cons Cons.prems(3) False later [of zs] show ?thesis by auto
    qed
  qed
qed simp

lemma Layers_visible:
  assumes g: "good_bops n ops" and l: "Layers ops = lower @ l # higher"
  shows "\<exists>x\<in>bspan (L_Box l). \<forall>h\<in>set higher. x \<notin> bspan (L_Box h)"
proof -
  let ?as = "sort_slice (\<lambda>a b. bbetter BLWW (bwinnerOf a) (bwinnerOf b)) (Effective ops)"
  let ?sw = "filter (\<lambda>(a, free). free \<noteq> []) (sweep_claims BO_Box ?as [])"
  have ga: "\<forall>a\<in>set ?as. good_box n (BO_Box a)"
    using g effective_sub by (auto simp: good_bops_def set_Effective)
  have "map (\<lambda>(o', free). layer_of o') ?sw = rev (Layers ops)" by (simp add: Layers_def layer_of_def)
  also have "\<dots> = rev higher @ l # rev lower" by (simp add: l)
  finally obtain xs a free ys where sw: "?sw = xs @ (a, free) # ys"
    and m: "map (\<lambda>(o', free). layer_of o') xs = rev higher" "layer_of a = l"
    by (auto simp: map_eq_append_conv map_eq_Cons_conv)
  have "set higher = (\<lambda>(o', free). layer_of o') ` set xs" using m(1) by (metis list.set_map set_rev)
  then show ?thesis
    using claims_visible [OF ga box_canonical_Nil sw] m(2) by (fastforce simp: layer_of_def)
qed

end
