(* ===== verification/Clocks.thy ===== *)
theory Clocks
  imports Go_Prelude
begin

section \<open>Clocks (clock/clock.go)\<close>

text \<open>
  The two clocks that stamp operations. A clock is the cell \<open>last\<close>; the wall clock is an
  environment, modelled as the sequence of its readings. Two models are given:
  \<^item> the sequential one (\<open>Hybrid_Tick\<close>, \<open>Lamport_Tick\<close>, \<open>advancePast\<close>), in
    which no other goroutine touches the cell between load and compare-and-swap; the
    engine, which holds its lock, uses this one through the locale \<open>clock\<close>;
  \<^item> the lock-free one, a step relation in which any number of goroutines interleave their
    loads and compare-and-swaps on one shared cell.
  Timestamps are 64-bit words: \<open>prev + 1\<close> wraps at the largest value.
\<close>

subsection \<open>The clocks, run sequentially\<close>

record hybrid =
  h_last :: int64
  h_wall :: "nat \<Rightarrow> int64"
  h_reads :: nat

definition next_ts :: "int64 \<Rightarrow> int64 \<Rightarrow> int64" where
  "next_ts prev now = (if i_le now prev then prev + 1 else now)"

definition Hybrid_Tick :: "hybrid \<Rightarrow> int64 \<times> hybrid" where
  "Hybrid_Tick h =
     (let ts = next_ts (h_last h) (h_wall h (h_reads h))
      in (ts, h\<lparr>h_last := ts, h_reads := Suc (h_reads h)\<rparr>))"

definition advancePast :: "int64 \<Rightarrow> int64 \<Rightarrow> int64" where
  "advancePast prev ts = (if i_le ts prev then prev else ts)"

definition Hybrid_Observe :: "int64 \<Rightarrow> hybrid \<Rightarrow> hybrid" where
  "Hybrid_Observe ts h = h\<lparr>h_last := advancePast (h_last h) ts\<rparr>"

definition NewLamport :: int64 where
  "NewLamport = 0"

definition Lamport_Tick :: "int64 \<Rightarrow> int64 \<times> int64" where
  "Lamport_Tick l = (l + 1, l + 1)"

definition Lamport_Observe :: "int64 \<Rightarrow> int64 \<Rightarrow> int64" where
  "Lamport_Observe ts l = advancePast l ts"

subsection \<open>The contract\<close>

lemma sint_Suc: "a \<noteq> max_int64 \<Longrightarrow> sint (a + 1) = sint a + 1"
proof -
  assume "a \<noteq> max_int64"
  moreover have "sint a < 2 ^ 63" using sint_lt [of a] by simp
  moreover have "sint max_int64 = 2 ^ 63 - 1" by (simp add: max_int64_def)
  ultimately have "sint a + 1 < 2 ^ 63" using sint_eq_iff [of a max_int64] by simp
  moreover have "- (2 ^ 63) \<le> sint a" using sint_ge [of a] by simp
  ultimately show ?thesis
    by (simp add: sint_word_ariths signed_take_bit_int_eq_self)
qed

lemma next_ts_greater: "prev \<noteq> max_int64 \<Longrightarrow> i_lt prev (next_ts prev now)"
  by (auto simp: next_ts_def i_lt_def i_le_def sint_Suc)

text \<open>
  What a client of the \<open>Clock\<close> interface relies on: a tick exceeds everything the clock
  has issued or observed, until the largest timestamp is reached.
\<close>

locale clock =
  fixes tick :: "'c \<Rightarrow> int64 \<times> 'c" and observe :: "int64 \<Rightarrow> 'c \<Rightarrow> 'c" and last_of :: "'c \<Rightarrow> int64"
  assumes tick_last: "tick c = (ts, c') \<Longrightarrow> last_of c' = ts"
    and tick_greater: "tick c = (ts, c') \<Longrightarrow> last_of c \<noteq> max_int64 \<Longrightarrow> i_lt (last_of c) ts"
    and observe_last: "last_of (observe ts c) = advancePast (last_of c) ts"
begin

fun ticks :: "nat \<Rightarrow> 'c \<Rightarrow> int64 list \<times> 'c" where
  "ticks 0 c = ([], c)"
| "ticks (Suc k) c = (let (ts, c') = tick c; (tss, c'') = ticks k c' in (ts # tss, c''))"

lemma observe_ge: "i_le ts (last_of (observe ts c))"
  by (simp add: observe_last advancePast_def i_le_def)

lemma observe_keeps: "i_le (last_of c) (last_of (observe ts c))"
  by (auto simp: observe_last advancePast_def i_le_def)

lemma tick_after_observe:
  assumes "tick (observe ts c) = (ts', c')" and "last_of (observe ts c) \<noteq> max_int64"
  shows "i_lt ts ts' \<and> i_lt (last_of c) ts'"
  using tick_greater [OF assms] observe_ge [of ts c] observe_keeps [of c ts]
  by (simp add: i_lt_def i_le_def)

end

interpretation hybrid_clock: clock Hybrid_Tick Hybrid_Observe h_last
  by unfold_locales
    (auto simp: Hybrid_Tick_def Hybrid_Observe_def Let_def next_ts_greater)

interpretation lamport_clock: clock Lamport_Tick Lamport_Observe "\<lambda>l. l"
  by unfold_locales (auto simp: Lamport_Tick_def Lamport_Observe_def i_lt_def sint_Suc)

subsection \<open>The lock-free clock\<close>

text \<open>
  Goroutines are numbered. One that runs \<open>Tick\<close> has loaded \<open>prev\<close> (\<open>Ticking\<close>)
  and then tries the compare-and-swap with a timestamp computed from a wall reading; one that
  runs \<open>Observe\<close> has loaded \<open>prev\<close> for its argument (\<open>Observing\<close>). A failed
  compare-and-swap loads again. \<open>issued\<close> collects the timestamps returned, in the order
  of the successful swaps.
\<close>

datatype goroutine = Idle | Ticking int64 | Observing int64 int64

record clock_sys =
  cell :: int64
  gos :: "nat \<Rightarrow> goroutine"
  issued :: "int64 list"

definition clock_init :: clock_sys where
  "clock_init = \<lparr>cell = 0, gos = (\<lambda>_. Idle), issued = []\<rparr>"

inductive clock_step :: "clock_sys \<Rightarrow> clock_sys \<Rightarrow> bool" where
  tick_load: "gos s g = Idle \<Longrightarrow>
    clock_step s (s\<lparr>gos := (gos s)(g := Ticking (cell s))\<rparr>)"
| tick_swap: "gos s g = Ticking prev \<Longrightarrow> cell s = prev \<Longrightarrow> ts = next_ts prev now \<Longrightarrow>
    clock_step s (s\<lparr>cell := ts, gos := (gos s)(g := Idle), issued := issued s @ [ts]\<rparr>)"
| tick_retry: "gos s g = Ticking prev \<Longrightarrow> cell s \<noteq> prev \<Longrightarrow>
    clock_step s (s\<lparr>gos := (gos s)(g := Ticking (cell s))\<rparr>)"
| observe_load: "gos s g = Idle \<Longrightarrow>
    clock_step s (s\<lparr>gos := (gos s)(g := Observing ts (cell s))\<rparr>)"
| observe_done: "gos s g = Observing ts prev \<Longrightarrow> i_le ts prev \<Longrightarrow>
    clock_step s (s\<lparr>gos := (gos s)(g := Idle)\<rparr>)"
| observe_swap: "gos s g = Observing ts prev \<Longrightarrow> \<not> i_le ts prev \<Longrightarrow> cell s = prev \<Longrightarrow>
    clock_step s (s\<lparr>cell := ts, gos := (gos s)(g := Idle)\<rparr>)"
| observe_retry: "gos s g = Observing ts prev \<Longrightarrow> \<not> i_le ts prev \<Longrightarrow> cell s \<noteq> prev \<Longrightarrow>
    clock_step s (s\<lparr>gos := (gos s)(g := Observing ts (cell s))\<rparr>)"

inductive_cases clock_stepE: "clock_step s t"

text \<open>States reached while the cell has not yet held the largest timestamp.\<close>

inductive clock_reach :: "clock_sys \<Rightarrow> bool" where
  start: "clock_reach clock_init"
| step: "clock_reach s \<Longrightarrow> cell s \<noteq> max_int64 \<Longrightarrow> clock_step s t \<Longrightarrow> clock_reach t"

definition clock_inv :: "clock_sys \<Rightarrow> bool" where
  "clock_inv s \<longleftrightarrow> sorted_wrt i_lt (issued s) \<and> (\<forall>t\<in>set (issued s). i_le t (cell s))"

lemma clock_inv_step: "clock_step s t \<Longrightarrow> cell s \<noteq> max_int64 \<Longrightarrow> clock_inv s \<Longrightarrow> clock_inv t"
proof (induction rule: clock_step.induct)
  case (tick_swap s g prev ts now)
  then have "i_lt (cell s) ts" using next_ts_greater by blast
  with tick_swap show ?case
    by (fastforce simp: clock_inv_def sorted_wrt_append i_lt_def i_le_def)
next
  case (observe_swap s g ts prev)
  then show ?case by (fastforce simp: clock_inv_def i_le_def)
qed (auto simp: clock_inv_def)

lemma clock_reach_inv: "clock_reach s \<Longrightarrow> clock_inv s"
  by (induction rule: clock_reach.induct)
    (auto simp: clock_init_def clock_inv_def [of "\<lparr>cell = 0, gos = (\<lambda>_. Idle), issued = []\<rparr>"]
      intro: clock_inv_step)

lemma clock_step_monotone: "clock_step s t \<Longrightarrow> cell s \<noteq> max_int64 \<Longrightarrow> i_le (cell s) (cell t)"
proof (induction rule: clock_step.induct)
  case (tick_swap s g prev ts now)
  then have "i_lt (cell s) ts" using next_ts_greater by blast
  then show ?case by (simp add: i_lt_def i_le_def)
qed (auto simp: i_le_def)

lemma i_lt_irrefl: "\<not> i_lt a a"
  by (simp add: i_lt_def)

lemma sorted_wrt_i_lt_distinct: "sorted_wrt i_lt ts \<Longrightarrow> distinct ts"
  by (induction ts) (auto simp: i_lt_irrefl)

end
