(* ===== verification/Range_Engine.thy ===== *)
theory Range_Engine
  imports Event_Stores Clocks "HOL-Library.AList"
begin

section \<open>The 1-D engine (engine/engine.go, engine/snapshot.go)\<close>

text \<open>
  The engine's state is the Go struct without its lock and its store; every exported method holds
  the lock for its whole body, so its steps do not interleave with those of another method of the
  same engine. The store and the clock are interfaces: the definitions take their
  operations (\<open>lg\<close>, \<open>clk\<close>) and pass the store's state along. Other writers of the same
  store are the parameter \<open>env\<close> of \<open>applyLocked\<close>: \<open>env n\<close> is what they do to the
  store before the engine's \<open>n\<close>-th call of it.

  The map from identifiers to operations is an association list; Go's iteration order is
  unspecified, and \<open>opsList\<close> sorts what it yields.
\<close>

subsection \<open>State\<close>

record 'c Clock =
  Tick :: "'c \<Rightarrow> int64 \<times> 'c"
  Observe :: "int64 \<Rightarrow> 'c \<Rightarrow> 'c"

record 'c Config =
  cfg_Clock :: 'c
  cfg_SnapshotEvery :: int

type_synonym 'c Option = "'c Config \<Rightarrow> 'c Config"

definition WithClock :: "'c \<Rightarrow> 'c Option" where
  "WithClock c cfg = cfg\<lparr>cfg_Clock := c\<rparr>"

definition WithSnapshotEvery :: "int \<Rightarrow> 'c Option" where
  "WithSnapshotEvery n cfg = cfg\<lparr>cfg_SnapshotEvery := n\<rparr>"

record 'c engine =
  e_strategy :: strategy
  e_clock :: 'c
  e_snapshotEvery :: int
  e_ops :: "(string \<times> op) list"
  e_view :: "interval list"
  e_segments :: "segment list"
  e_adds :: "interval list"
  e_removes :: "interval list"
  e_version :: version
  e_since :: int
  e_dirty :: bool

datatype engine_error = BadStrategy | BadOp string op_error | BadSnapshot json_error | StoreErr store_error

record snapshot =
  S_Strategy :: strategy
  S_Version :: version
  S_Intervals :: "interval list"
  S_Segments :: "segment list"
  S_Adds :: "interval list"
  S_Removes :: "interval list"
  S_Ops :: "op list"

subsection \<open>The view\<close>

definition isDefined :: "strategy \<Rightarrow> bool" where
  "isDefined s \<longleftrightarrow> s = LWW \<or> s = FWW \<or> s = AdditiveWins \<or> s = GrowOnly"

definition opsList :: "'c engine \<Rightarrow> op list" where
  "opsList e = sort_slice (\<lambda>a b. ID a < ID b) (map snd (e_ops e))"

definition materializeAll :: "'c engine \<Rightarrow> 'c engine" where
  "materializeAll e =
     (let ops = opsList e in
      case e_strategy e of
        LWW \<Rightarrow> (let segs = Segments (e_strategy e) ops in e\<lparr>e_segments := segs, e_view := ToIntervals segs\<rparr>)
      | FWW \<Rightarrow> (let segs = Segments (e_strategy e) ops in e\<lparr>e_segments := segs, e_view := ToIntervals segs\<rparr>)
      | AdditiveWins \<Rightarrow>
          (let adds = IntervalsOf ops KindAdd; removes = IntervalsOf ops KindRemove
           in e\<lparr>e_adds := adds, e_removes := removes, e_view := Difference adds removes\<rparr>)
      | GrowOnly \<Rightarrow> (let adds = IntervalsOf ops KindAdd in e\<lparr>e_adds := adds, e_view := adds\<rparr>)
      | UnknownStrategy _ \<Rightarrow> e)"

definition ensureView :: "'c engine \<Rightarrow> 'c engine" where
  "ensureView e = (if e_dirty e then (materializeAll e)\<lparr>e_dirty := False\<rparr> else e)"

definition engine_Materialize :: "'c engine \<Rightarrow> interval list \<times> 'c engine" where
  "engine_Materialize e = (let e = ensureView e in (e_view e, e))"

definition engine_Contains :: "float64 \<Rightarrow> 'c engine \<Rightarrow> bool \<times> 'c engine" where
  "engine_Contains x e = (let e = ensureView e in (set_Contains (e_view e) x, e))"

definition engine_Overlaps :: "interval \<Rightarrow> 'c engine \<Rightarrow> bool \<times> 'c engine" where
  "engine_Overlaps iv e = (let e = ensureView e in (set_Overlaps (e_view e) iv, e))"

definition engine_Ops :: "'c engine \<Rightarrow> op list" where
  "engine_Ops e = opsList e"

subsection \<open>Snapshots\<close>

definition put_strategy :: "strategy \<Rightarrow> json option" where
  "put_strategy s = (case Strategy_MarshalText s of Inl _ \<Rightarrow> None | Inr t \<Rightarrow> Some (JStr t))"

definition put_list :: "('a \<Rightarrow> json option) \<Rightarrow> 'a list \<Rightarrow> json option" where
  "put_list put xs = map_option JArr (all_some (map put xs))"

definition get_list :: "(json \<Rightarrow> json_error + 'a) \<Rightarrow> json \<Rightarrow> json_error + 'a list" where
  "get_list get j = ebind (get_arr j) (emap get)"

definition put_snapshot :: "snapshot \<Rightarrow> json option" where
  "put_snapshot sn =
     (case (put_strategy (S_Strategy sn), put_list put_interval (S_Intervals sn),
            put_list put_segment (S_Segments sn), put_list put_interval (S_Adds sn),
            put_list put_interval (S_Removes sn), put_list put_op (S_Ops sn)) of
        (Some st, Some ivs, Some segs, Some adds, Some removes, Some ops) \<Rightarrow>
          Some (JObj ([(''strategy'', st), (''version'', JInt (S_Version sn)), (''intervals'', ivs)] @
            omit_if (S_Segments sn = []) ''segments'' segs @
            omit_if (S_Adds sn = []) ''adds'' adds @
            omit_if (S_Removes sn = []) ''removes'' removes @
            omit_if (S_Ops sn = []) ''ops'' ops))
      | _ \<Rightarrow> None)"

definition get_snapshot :: "json \<Rightarrow> json_error + snapshot" where
  "get_snapshot j =
     ebind (get_obj j) (\<lambda>fs.
     ebind (get_text Strategy_UnmarshalText LWW (get_field ''strategy'' fs)) (\<lambda>st.
     ebind (get_version (get_field ''version'' fs)) (\<lambda>v.
     ebind (get_list get_interval (get_field ''intervals'' fs)) (\<lambda>ivs.
     ebind (get_list get_segment (get_field ''segments'' fs)) (\<lambda>segs.
     ebind (get_list get_interval (get_field ''adds'' fs)) (\<lambda>adds.
     ebind (get_list get_interval (get_field ''removes'' fs)) (\<lambda>removes.
     ebind (get_list get_op (get_field ''ops'' fs)) (\<lambda>ops.
       Inr \<lparr>S_Strategy = st, S_Version = v, S_Intervals = ivs, S_Segments = segs, S_Adds = adds,
            S_Removes = removes, S_Ops = ops\<rparr>))))))))"

definition buildSnapshot :: "'c engine \<Rightarrow> snapshot" where
  "buildSnapshot e =
     (let sn = \<lparr>S_Strategy = e_strategy e, S_Version = e_version e, S_Intervals = e_view e,
               S_Segments = [], S_Adds = [], S_Removes = [], S_Ops = opsList e\<rparr>
      in case e_strategy e of
           LWW \<Rightarrow> sn\<lparr>S_Segments := e_segments e\<rparr>
         | FWW \<Rightarrow> sn\<lparr>S_Segments := e_segments e\<rparr>
         | AdditiveWins \<Rightarrow> sn\<lparr>S_Adds := e_adds e, S_Removes := e_removes e\<rparr>
         | _ \<Rightarrow> sn)"

definition snapshot_data :: "'c engine \<Rightarrow> rawjson" where
  "snapshot_data e = (case put_snapshot (buildSnapshot e) of Some j \<Rightarrow> Valid j | None \<Rightarrow> Invalid [])"

definition engine_snapshot :: "('s, op) Log \<Rightarrow> 'c engine \<Rightarrow> 's \<Rightarrow> engine_error option \<times> 'c engine \<times> 's" where
  "engine_snapshot lg e s =
     (let e = ensureView e in
      case AsSnapshotter lg of
        None \<Rightarrow> (None, e, s)
      | Some sn \<Rightarrow>
          (case SaveSnapshot sn (snapshot_data e) (e_version e) s of
             (Some err, s) \<Rightarrow> (Some (StoreErr err), e, s)
           | (None, s) \<Rightarrow> (None, e\<lparr>e_since := 0\<rparr>, s)))"

definition engine_Snapshot :: "('s, op) Log \<Rightarrow> 'c engine \<Rightarrow> 's \<Rightarrow> engine_error option \<times> 'c engine \<times> 's" where
  "engine_Snapshot lg e s = engine_snapshot lg e s"

definition engine_Compact :: "('s, op) Log \<Rightarrow> 'c engine \<Rightarrow> 's \<Rightarrow> engine_error option \<times> 'c engine \<times> 's" where
  "engine_Compact lg e s =
     (let e = ensureView e in
      case AsCompactor lg of
        None \<Rightarrow> (Some (StoreErr ErrCompactionUnsupported), e, s)
      | Some cp \<Rightarrow>
          (case Compact cp (snapshot_data e) (e_version e) s of
             (Some err, s) \<Rightarrow> (Some (StoreErr err), e, s)
           | (None, s) \<Rightarrow> (None, e\<lparr>e_since := 0\<rparr>, s)))"

definition loadSnapshot :: "('s, op) Log \<Rightarrow> 's \<Rightarrow> engine_error + snapshot" where
  "loadSnapshot lg s =
     (case AsSnapshotter lg of
        None \<Rightarrow> Inl (StoreErr ErrSnapshotNotFound)
      | Some sn \<Rightarrow>
          (case LoadSnapshot sn s of
             Inl err \<Rightarrow> Inl (StoreErr err)
           | Inr (data, version) \<Rightarrow>
               (case data of
                  Invalid _ \<Rightarrow> Inl (BadSnapshot UnexpectedEnd)
                | Valid j \<Rightarrow>
                    (case get_snapshot j of
                       Inl err \<Rightarrow> Inl (BadSnapshot err)
                     | Inr snap \<Rightarrow> Inr (snap\<lparr>S_Version := version\<rparr>)))))"

subsection \<open>Opening\<close>

definition record_op :: "'c Clock \<Rightarrow> op \<Rightarrow> 'c engine \<Rightarrow> 'c engine" where
  "record_op clk o' e =
     e\<lparr>e_clock := Observe clk (TS o') (e_clock e), e_ops := AList.update (ID o') o' (e_ops e)\<rparr>"

definition restore_segments :: "strategy \<Rightarrow> op list \<Rightarrow> segment list \<Rightarrow> segment list" where
  "restore_segments s delta segs =
     fold (\<lambda>o' segs. CombineSegments s segs (Segments s [o'])) delta segs"

definition restore :: "'c Clock \<Rightarrow> snapshot \<Rightarrow> op list \<Rightarrow> 'c engine \<Rightarrow> 'c engine" where
  "restore clk snap delta e =
     (let e = fold (record_op clk) (S_Ops snap) e;
          segs = restore_segments (e_strategy e) delta (S_Segments snap)
      in case e_strategy e of
           LWW \<Rightarrow> e\<lparr>e_segments := segs, e_view := ToIntervals segs\<rparr>
         | FWW \<Rightarrow> e\<lparr>e_segments := segs, e_view := ToIntervals segs\<rparr>
         | AdditiveWins \<Rightarrow> e\<lparr>e_dirty := True\<rparr>
         | GrowOnly \<Rightarrow> e\<lparr>e_dirty := True\<rparr>
         | UnknownStrategy _ \<Rightarrow> e)"

definition reload :: "('s, op) Log \<Rightarrow> 'c Clock \<Rightarrow> 'c engine \<Rightarrow> 's \<Rightarrow> engine_error + 'c engine" where
  "reload lg clk e s =
     (case loadSnapshot lg s of
        Inl err \<Rightarrow>
          if err \<noteq> StoreErr ErrSnapshotNotFound then Inl err
          else (case Read lg 0 s of
              Inl err \<Rightarrow> Inl (StoreErr err)
            | Inr (ops, version) \<Rightarrow>
                Inr (materializeAll (fold (record_op clk) ops (e\<lparr>e_version := version\<rparr>))))
      | Inr snap \<Rightarrow>
          (case Read lg (if S_Strategy snap = e_strategy e then S_Version snap else 0) s of
             Inl err \<Rightarrow> Inl (StoreErr err)
           | Inr (ops, version) \<Rightarrow>
               (let e' = fold (record_op clk) ops (e\<lparr>e_version := version\<rparr>)
                in Inr (if S_Strategy snap = e_strategy e then restore clk snap ops e'
                        else materializeAll e'))))"

text \<open>The default clock, a fresh \<open>Hybrid\<close> in the source, is the argument \<open>dflt\<close>.\<close>

definition apply_options :: "'c Option list \<Rightarrow> 'c \<Rightarrow> 'c Config" where
  "apply_options opts dflt = fold (\<lambda>opt cfg. opt cfg) opts \<lparr>cfg_Clock = dflt, cfg_SnapshotEvery = 100\<rparr>"

definition engine_Open :: "('s, op) Log \<Rightarrow> 'c Clock \<Rightarrow> strategy \<Rightarrow> 'c \<Rightarrow> 'c Option list \<Rightarrow> 's \<Rightarrow> engine_error + 'c engine" where
  "engine_Open lg clk st dflt opts s =
     (if \<not> isDefined st then Inl BadStrategy
      else let cfg = apply_options opts dflt in reload lg clk
        \<lparr>e_strategy = st, e_clock = cfg_Clock cfg, e_snapshotEvery = cfg_SnapshotEvery cfg, e_ops = [], e_view = [],
         e_segments = [], e_adds = [], e_removes = [], e_version = 0, e_since = 0, e_dirty = False\<rparr> s)"

subsection \<open>Applying operations\<close>

fun validateOps :: "op list \<Rightarrow> engine_error option" where
  "validateOps [] = None"
| "validateOps (o' # ops) =
     (case Op_Validate o' of Some err \<Rightarrow> Some (BadOp (ID o') err) | None \<Rightarrow> validateOps ops)"

definition unseen :: "'c engine \<Rightarrow> op list \<Rightarrow> op list" where
  "unseen e ops = filter (\<lambda>o'. map_of (e_ops e) (ID o') = None) ops"

fun stamp :: "'c Clock \<Rightarrow> op list \<Rightarrow> 'c \<Rightarrow> op list \<times> 'c" where
  "stamp clk [] c = ([], c)"
| "stamp clk (o' # ops) c =
     (let (o'', c') = (if TS o' = 0 then (let (ts, c') = Tick clk c in (o'\<lparr>TS := ts\<rparr>, c')) else (o', c));
          (ops', c'') = stamp clk ops c'
      in (o'' # ops', c''))"

definition engine_fold :: "('s, op) Log \<Rightarrow> 'c Clock \<Rightarrow> op list \<Rightarrow> 'c engine \<Rightarrow> 's \<Rightarrow>
    engine_error option \<times> 'c engine \<times> 's" where
  "engine_fold lg clk fresh e s =
     (let e = fold (record_op clk) fresh e;
          e = e\<lparr>e_dirty := True, e_version := e_version e + int (length fresh),
                e_since := e_since e + int (length fresh)\<rparr>
      in if e_snapshotEvery e > 0 \<and> e_since e \<ge> e_snapshotEvery e then engine_snapshot lg e s
         else (None, e, s))"

definition catchUp :: "('s, op) Log \<Rightarrow> 'c Clock \<Rightarrow> 'c engine \<Rightarrow> 's \<Rightarrow> engine_error option \<times> 'c engine" where
  "catchUp lg clk e s =
     (case Read lg (e_version e) s of
        Inl err \<Rightarrow> (Some (StoreErr err), e)
      | Inr (ops, version) \<Rightarrow>
          (None, (fold (record_op clk) ops e)\<lparr>e_dirty := True, e_version := version\<rparr>))"

function applyLocked :: "('s, op) Log \<Rightarrow> 'c Clock \<Rightarrow> (nat \<Rightarrow> 's \<Rightarrow> 's) \<Rightarrow> nat \<Rightarrow> op list \<Rightarrow> 'c engine \<Rightarrow> 's \<Rightarrow>
    engine_error option \<times> 'c engine \<times> 's" where
  "applyLocked lg clk env attempt ops e s =
     (let fresh = unseen e ops in
      if fresh = [] then (None, e, s)
      else
        let (fresh, c) = stamp clk fresh (e_clock e);
            e = e\<lparr>e_clock := c\<rparr>
        in case Append lg (e_version e) fresh (env (2 * attempt) s) of
             (None, s) \<Rightarrow> engine_fold lg clk fresh e s
           | (Some err, s) \<Rightarrow>
               if err \<noteq> ErrVersionConflict \<or> attempt \<ge> 3 then (Some (StoreErr err), e, s)
               else let s = env (2 * attempt + 1) s in
                 case catchUp lg clk e s of
                   (Some cerr, e) \<Rightarrow> (Some cerr, e, s)
                 | (None, e) \<Rightarrow> applyLocked lg clk env (Suc attempt) ops e s)"
  by pat_completeness auto
termination
  by (relation "measure (\<lambda>(lg, clk, env, attempt, ops, e, s). 3 - attempt)") auto

declare applyLocked.simps [simp del]

definition engine_apply :: "('s, op) Log \<Rightarrow> 'c Clock \<Rightarrow> (nat \<Rightarrow> 's \<Rightarrow> 's) \<Rightarrow> op list \<Rightarrow> 'c engine \<Rightarrow> 's \<Rightarrow>
    engine_error option \<times> 'c engine \<times> 's" where
  "engine_apply lg clk env ops e s =
     (case validateOps ops of
        Some err \<Rightarrow> (Some err, e, s)
      | None \<Rightarrow> applyLocked lg clk env 0 ops e s)"

definition engine_Apply :: "('s, op) Log \<Rightarrow> 'c Clock \<Rightarrow> (nat \<Rightarrow> 's \<Rightarrow> 's) \<Rightarrow> op \<Rightarrow> 'c engine \<Rightarrow> 's \<Rightarrow>
    engine_error option \<times> 'c engine \<times> 's" where
  "engine_Apply lg clk env o' e s = engine_apply lg clk env [o'] e s"

definition engine_ApplyAll :: "('s, op) Log \<Rightarrow> 'c Clock \<Rightarrow> (nat \<Rightarrow> 's \<Rightarrow> 's) \<Rightarrow> op list \<Rightarrow> 'c engine \<Rightarrow> 's \<Rightarrow>
    engine_error option \<times> 'c engine \<times> 's" where
  "engine_ApplyAll lg clk env ops e s =
     (if ops = [] then (None, e, s) else engine_apply lg clk env ops e s)"

end
