(* ===== verification/Box_Engine.thy ===== *)
theory Box_Engine
  imports Box_Stores Box_Views Range_Engine
begin

section \<open>The n-D engine (space/engine/engine.go, space/engine/snapshot.go)\<close>

text \<open>
  The state is the Go struct without its lock and its store, as for the 1-D engine; every exported method
  holds the lock for its whole body. The dimension is an integer, -1 while unset. A canonicalizer is an optional
  function, as in the source. The engine differs from the 1-D one in three ways: it checks dimensions, it patches
  the view incrementally under the union strategies, and a retraction makes it rebuild the view.

  The map from identifiers to operations is an association list; \<open>deriveDims\<close> takes the first entry Go's
  unspecified iteration order yields, here the list's first.
\<close>

subsection \<open>State\<close>

type_synonym canonicalizer = "box list \<Rightarrow> box list"

record 'c box_config =
  bc_Clock :: 'c
  bc_SnapshotEvery :: int
  bc_Canonicalize :: "canonicalizer option"
  bc_MetaMerge :: "meta_merge option"

type_synonym 'c box_option = "'c box_config \<Rightarrow> 'c box_config"

definition be_WithClock :: "'c \<Rightarrow> 'c box_option" where
  "be_WithClock c cfg = cfg\<lparr>bc_Clock := c\<rparr>"

definition be_WithSnapshotEvery :: "int \<Rightarrow> 'c box_option" where
  "be_WithSnapshotEvery n cfg = cfg\<lparr>bc_SnapshotEvery := n\<rparr>"

definition be_WithCanonicalizer :: "canonicalizer \<Rightarrow> 'c box_option" where
  "be_WithCanonicalizer c cfg = cfg\<lparr>bc_Canonicalize := Some c\<rparr>"

definition be_WithMetaMerge :: "meta_merge \<Rightarrow> 'c box_option" where
  "be_WithMetaMerge m cfg = cfg\<lparr>bc_MetaMerge := Some m\<rparr>"

record 'c box_engine =
  be_strategy :: box_strategy
  be_clock :: 'c
  be_snapshotEvery :: int
  be_ops :: "(string \<times> box_op) list"
  be_view :: "box list"
  be_adds :: "box list"
  be_removes :: "box list"
  be_version :: version
  be_since :: int
  be_dims :: int
  be_dirty :: bool
  be_canonicalize :: "canonicalizer option"
  be_metaMerge :: meta_merge

datatype box_engine_error = BBadStrategy | BBadOp string box_op_error | BBadDims nat int
  | BBadSnapshot json_error | BStoreErr store_error

record box_snapshot =
  BSn_Strategy :: box_strategy
  BSn_Version :: version
  BSn_Boxes :: "box list"
  BSn_Adds :: "box list"
  BSn_Removes :: "box list"
  BSn_Ops :: "box_op list"

subsection \<open>The view\<close>

definition be_isDefined :: "box_strategy \<Rightarrow> bool" where
  "be_isDefined s \<longleftrightarrow> s = BLWW \<or> s = BFWW \<or> s = BAdditiveWins \<or> s = BGrowOnly \<or> s = BAdditiveWinsLWW"

definition be_opsList :: "'c box_engine \<Rightarrow> box_op list" where
  "be_opsList e = sort_slice (\<lambda>a b. BO_ID a < BO_ID b) (map snd (be_ops e))"

definition be_setView :: "box list \<Rightarrow> 'c box_engine \<Rightarrow> 'c box_engine" where
  "be_setView boxes e =
     e\<lparr>be_view := (case be_canonicalize e of Some c \<Rightarrow> c boxes | None \<Rightarrow> boxes)\<rparr>"

definition be_materializeAll :: "'c box_engine \<Rightarrow> 'c box_engine" where
  "be_materializeAll e =
     (let ops = be_opsList e in
      case be_strategy e of
        BLWW \<Rightarrow> be_setView (box_Materialize (be_strategy e) ops) e
      | BFWW \<Rightarrow> be_setView (box_Materialize (be_strategy e) ops) e
      | BAdditiveWinsLWW \<Rightarrow> be_setView (box_Materialize (be_strategy e) ops) e
      | BAdditiveWins \<Rightarrow>
          (let eff = Effective ops;
             adds = BoxesOf eff BKindAdd (be_metaMerge e); removes = BoxesOf eff BKindRemove (be_metaMerge e)
           in be_setView (DifferenceMerged adds removes (be_metaMerge e)) (e\<lparr>be_adds := adds, be_removes := removes\<rparr>))
      | BGrowOnly \<Rightarrow>
          (let adds = BoxesOf (Effective ops) BKindAdd (be_metaMerge e) in be_setView adds (e\<lparr>be_adds := adds\<rparr>))
      | BUnknownStrategy _ \<Rightarrow> e)"

definition be_ensureView :: "'c box_engine \<Rightarrow> 'c box_engine" where
  "be_ensureView e = (if be_dirty e then (be_materializeAll e)\<lparr>be_dirty := False\<rparr> else e)"

definition be_applyToView :: "box_op \<Rightarrow> 'c box_engine \<Rightarrow> 'c box_engine" where
  "be_applyToView o' e =
     (if BO_Kind o' = BKindRetract then e\<lparr>be_dirty := True\<rparr>
      else case be_strategy e of
        BLWW \<Rightarrow> e\<lparr>be_dirty := True\<rparr>
      | BFWW \<Rightarrow> e\<lparr>be_dirty := True\<rparr>
      | BAdditiveWinsLWW \<Rightarrow> e\<lparr>be_dirty := True\<rparr>
      | BAdditiveWins \<Rightarrow>
          (let e = (if BO_Kind o' = BKindAdd
                 then e\<lparr>be_adds := UnionMerged (be_adds e) [BO_Box o'] (be_metaMerge e)\<rparr>
                 else e\<lparr>be_removes := UnionMerged (be_removes e) [BO_Box o'] (be_metaMerge e)\<rparr>)
           in be_setView (DifferenceMerged (be_adds e) (be_removes e) (be_metaMerge e)) e)
      | BGrowOnly \<Rightarrow>
          (if BO_Kind o' = BKindAdd
           then (let e = e\<lparr>be_adds := UnionMerged (be_adds e) [BO_Box o'] (be_metaMerge e)\<rparr>
                 in be_setView (be_adds e) e)
           else e)
      | BUnknownStrategy _ \<Rightarrow> e)"

definition be_deriveDims :: "'c box_engine \<Rightarrow> 'c box_engine" where
  "be_deriveDims e =
     e\<lparr>be_dims := (case be_ops e of [] \<Rightarrow> -1 | (_, o') # _ \<Rightarrow> int (Dims (BO_Box o')))\<rparr>"

definition be_Materialize :: "'c box_engine \<Rightarrow> box list \<times> 'c box_engine" where
  "be_Materialize e = (let e = be_ensureView e in (be_view e, e))"

definition be_Layers :: "'c box_engine \<Rightarrow> box_layer list" where
  "be_Layers e = Layers (be_opsList e)"

definition be_Contains :: "float64 list \<Rightarrow> 'c box_engine \<Rightarrow> bool \<times> 'c box_engine" where
  "be_Contains p e = (let e = be_ensureView e in (boxes_Contains (be_view e) p, e))"

definition be_Overlaps :: "box \<Rightarrow> 'c box_engine \<Rightarrow> bool \<times> 'c box_engine" where
  "be_Overlaps b e = (let e = be_ensureView e in (OverlapsSet (be_view e) b, e))"

definition be_Ops :: "'c box_engine \<Rightarrow> box_op list" where
  "be_Ops e = be_opsList e"

definition be_Op :: "string \<Rightarrow> 'c box_engine \<Rightarrow> box_op option" where
  "be_Op i e = map_of (be_ops e) i"

subsection \<open>Snapshots\<close>

definition put_bsnapshot :: "box_snapshot \<Rightarrow> json option" where
  "put_bsnapshot sn =
     (case (BStrategy_MarshalText (BSn_Strategy sn), put_list put_box (BSn_Boxes sn), put_list put_box (BSn_Adds sn),
            put_list put_box (BSn_Removes sn), put_list put_bop (BSn_Ops sn)) of
        (Inr st, Some boxes, Some adds, Some removes, Some ops) \<Rightarrow>
          Some (JObj ([(''strategy'', JStr st), (''version'', JInt (BSn_Version sn)), (''boxes'', boxes)] @
            omit_if (BSn_Adds sn = []) ''adds'' adds @
            omit_if (BSn_Removes sn = []) ''removes'' removes @
            omit_if (BSn_Ops sn = []) ''ops'' ops))
      | _ \<Rightarrow> None)"

definition get_bsnapshot :: "json \<Rightarrow> json_error + box_snapshot" where
  "get_bsnapshot j =
     ebind (get_obj j) (\<lambda>fs.
     ebind (get_text BStrategy_UnmarshalText BLWW (get_field ''strategy'' fs)) (\<lambda>st.
     ebind (get_version (get_field ''version'' fs)) (\<lambda>v.
     ebind (get_list get_box (get_field ''boxes'' fs)) (\<lambda>boxes.
     ebind (get_list get_box (get_field ''adds'' fs)) (\<lambda>adds.
     ebind (get_list get_box (get_field ''removes'' fs)) (\<lambda>removes.
     ebind (get_list get_bop (get_field ''ops'' fs)) (\<lambda>ops.
       Inr \<lparr>BSn_Strategy = st, BSn_Version = v, BSn_Boxes = boxes, BSn_Adds = adds, BSn_Removes = removes,
            BSn_Ops = ops\<rparr>)))))))"

definition be_buildSnapshot :: "'c box_engine \<Rightarrow> box_snapshot" where
  "be_buildSnapshot e =
     (let sn = \<lparr>BSn_Strategy = be_strategy e, BSn_Version = be_version e, BSn_Boxes = be_view e,
               BSn_Adds = [], BSn_Removes = [], BSn_Ops = be_opsList e\<rparr>
      in if be_strategy e = BAdditiveWins then sn\<lparr>BSn_Adds := be_adds e, BSn_Removes := be_removes e\<rparr> else sn)"

definition be_snapshot_data :: "'c box_engine \<Rightarrow> rawjson" where
  "be_snapshot_data e = (case put_bsnapshot (be_buildSnapshot e) of Some j \<Rightarrow> Valid j | None \<Rightarrow> Invalid [])"

definition be_snapshot :: "('s, box_op) Log \<Rightarrow> 'c box_engine \<Rightarrow> 's \<Rightarrow>
    box_engine_error option \<times> 'c box_engine \<times> 's" where
  "be_snapshot lg e s =
     (let e = be_ensureView e in
      case AsSnapshotter lg of
        None \<Rightarrow> (None, e, s)
      | Some sn \<Rightarrow>
          (case SaveSnapshot sn (be_snapshot_data e) (be_version e) s of
             (Some err, s) \<Rightarrow> (Some (BStoreErr err), e, s)
           | (None, s) \<Rightarrow> (None, e\<lparr>be_since := 0\<rparr>, s)))"

definition be_Snapshot :: "('s, box_op) Log \<Rightarrow> 'c box_engine \<Rightarrow> 's \<Rightarrow>
    box_engine_error option \<times> 'c box_engine \<times> 's" where
  "be_Snapshot lg e s = be_snapshot lg e s"

definition be_Compact :: "('s, box_op) Log \<Rightarrow> 'c box_engine \<Rightarrow> 's \<Rightarrow>
    box_engine_error option \<times> 'c box_engine \<times> 's" where
  "be_Compact lg e s =
     (let e = be_ensureView e in
      case AsCompactor lg of
        None \<Rightarrow> (Some (BStoreErr ErrCompactionUnsupported), e, s)
      | Some cp \<Rightarrow>
          (case Compact cp (be_snapshot_data e) (be_version e) s of
             (Some err, s) \<Rightarrow> (Some (BStoreErr err), e, s)
           | (None, s) \<Rightarrow> (None, e\<lparr>be_since := 0\<rparr>, s)))"

definition be_loadSnapshot :: "('s, box_op) Log \<Rightarrow> 's \<Rightarrow> box_engine_error + box_snapshot" where
  "be_loadSnapshot lg s =
     (case AsSnapshotter lg of
        None \<Rightarrow> Inl (BStoreErr ErrSnapshotNotFound)
      | Some sn \<Rightarrow>
          (case LoadSnapshot sn s of
             Inl err \<Rightarrow> Inl (BStoreErr err)
           | Inr (data, version) \<Rightarrow>
               (case data of
                  Invalid _ \<Rightarrow> Inl (BBadSnapshot UnexpectedEnd)
                | Valid j \<Rightarrow>
                    (case get_bsnapshot j of
                       Inl err \<Rightarrow> Inl (BBadSnapshot err)
                     | Inr snap \<Rightarrow> Inr (snap\<lparr>BSn_Version := version\<rparr>)))))"

subsection \<open>Opening\<close>

definition be_record :: "'c Clock \<Rightarrow> box_op \<Rightarrow> 'c box_engine \<Rightarrow> 'c box_engine" where
  "be_record clk o' e =
     e\<lparr>be_clock := Observe clk (BO_TS o') (be_clock e), be_ops := AList.update (BO_ID o') o' (be_ops e)\<rparr>"

definition be_restore :: "'c Clock \<Rightarrow> box_snapshot \<Rightarrow> box_op list \<Rightarrow> 'c box_engine \<Rightarrow> 'c box_engine" where
  "be_restore clk snap delta e =
     (let e = fold (be_record clk) (BSn_Ops snap) e in
      case be_strategy e of
        BLWW \<Rightarrow> be_materializeAll e
      | BFWW \<Rightarrow> be_materializeAll e
      | BAdditiveWinsLWW \<Rightarrow> be_materializeAll e
      | BAdditiveWins \<Rightarrow>
          (let e = e\<lparr>be_adds := BSn_Adds snap, be_removes := BSn_Removes snap\<rparr>;
               e = be_setView (DifferenceMerged (be_adds e) (be_removes e) (be_metaMerge e)) e
           in fold be_applyToView delta e)
      | BGrowOnly \<Rightarrow>
          (let e = e\<lparr>be_adds := BSn_Boxes snap\<rparr>; e = be_setView (be_adds e) e
           in fold be_applyToView delta e)
      | BUnknownStrategy _ \<Rightarrow> e)"

definition be_reload :: "('s, box_op) Log \<Rightarrow> 'c Clock \<Rightarrow> 'c box_engine \<Rightarrow> 's \<Rightarrow> box_engine_error + 'c box_engine" where
  "be_reload lg clk e s =
     (case be_loadSnapshot lg s of
        Inl err \<Rightarrow>
          if err \<noteq> BStoreErr ErrSnapshotNotFound then Inl err
          else (case Read lg 0 s of
              Inl err \<Rightarrow> Inl (BStoreErr err)
            | Inr (ops, version) \<Rightarrow>
                Inr (be_deriveDims (be_materializeAll (fold (be_record clk) ops (e\<lparr>be_version := version\<rparr>)))))
      | Inr snap \<Rightarrow>
          (case Read lg (if BSn_Strategy snap = be_strategy e then BSn_Version snap else 0) s of
             Inl err \<Rightarrow> Inl (BStoreErr err)
           | Inr (ops, version) \<Rightarrow>
               (let e' = fold (be_record clk) ops (e\<lparr>be_version := version\<rparr>)
                in Inr (be_deriveDims (if BSn_Strategy snap = be_strategy e then be_restore clk snap ops e'
                        else be_materializeAll e')))))"

definition be_apply_options :: "'c box_option list \<Rightarrow> 'c \<Rightarrow> 'c box_config" where
  "be_apply_options opts dflt =
     fold (\<lambda>opt cfg. opt cfg) opts
       \<lparr>bc_Clock = dflt, bc_SnapshotEvery = 100, bc_Canonicalize = None, bc_MetaMerge = None\<rparr>"

definition be_Open :: "('s, box_op) Log \<Rightarrow> 'c Clock \<Rightarrow> box_strategy \<Rightarrow> 'c \<Rightarrow> 'c box_option list \<Rightarrow> 's \<Rightarrow>
    box_engine_error + 'c box_engine" where
  "be_Open lg clk st dflt opts s =
     (if \<not> be_isDefined st then Inl BBadStrategy
      else let cfg = be_apply_options opts dflt in be_reload lg clk
        \<lparr>be_strategy = st, be_clock = bc_Clock cfg, be_snapshotEvery = bc_SnapshotEvery cfg, be_ops = [],
         be_view = [], be_adds = [], be_removes = [], be_version = 0, be_since = 0, be_dims = -1, be_dirty = False,
         be_canonicalize = bc_Canonicalize cfg,
         be_metaMerge = (case bc_MetaMerge cfg of Some m \<Rightarrow> m | None \<Rightarrow> meta_Union)\<rparr> s)"

subsection \<open>Applying operations\<close>

fun be_validateOps :: "box_op list \<Rightarrow> box_engine_error option" where
  "be_validateOps [] = None"
| "be_validateOps (o' # ops) =
     (case BOp_Validate o' of Some err \<Rightarrow> Some (BBadOp (BO_ID o') err) | None \<Rightarrow> be_validateOps ops)"

fun be_ensureDims :: "box_op list \<Rightarrow> 'c box_engine \<Rightarrow> box_engine_error option \<times> 'c box_engine" where
  "be_ensureDims [] e = (None, e)"
| "be_ensureDims (o' # ops) e =
     (let d = Dims (BO_Box o') in
      if be_dims e = -1 then be_ensureDims ops (e\<lparr>be_dims := int d\<rparr>)
      else if int d \<noteq> be_dims e then (Some (BBadDims d (be_dims e)), e)
      else be_ensureDims ops e)"

definition be_unseen :: "'c box_engine \<Rightarrow> box_op list \<Rightarrow> box_op list" where
  "be_unseen e ops = filter (\<lambda>o'. map_of (be_ops e) (BO_ID o') = None) ops"

fun be_stamp :: "'c Clock \<Rightarrow> box_op list \<Rightarrow> 'c \<Rightarrow> box_op list \<times> 'c" where
  "be_stamp clk [] c = ([], c)"
| "be_stamp clk (o' # ops) c =
     (let (o'', c') = (if BO_TS o' = 0 then (let (ts, c') = Tick clk c in (o'\<lparr>BO_TS := ts\<rparr>, c')) else (o', c));
          (ops', c'') = be_stamp clk ops c'
      in (o'' # ops', c''))"

definition be_learn :: "'c Clock \<Rightarrow> box_op \<Rightarrow> 'c box_engine \<Rightarrow> 'c box_engine" where
  "be_learn clk o' e = be_applyToView o' (be_record clk o' e)"

definition be_fold :: "('s, box_op) Log \<Rightarrow> 'c Clock \<Rightarrow> box_op list \<Rightarrow> 'c box_engine \<Rightarrow> 's \<Rightarrow>
    box_engine_error option \<times> 'c box_engine \<times> 's" where
  "be_fold lg clk fresh e s =
     (let e = fold (be_learn clk) fresh e;
          e = e\<lparr>be_version := be_version e + int (length fresh), be_since := be_since e + int (length fresh)\<rparr>
      in if be_snapshotEvery e > 0 \<and> be_since e \<ge> be_snapshotEvery e then be_snapshot lg e s
         else (None, e, s))"

definition be_catchUp :: "('s, box_op) Log \<Rightarrow> 'c Clock \<Rightarrow> 'c box_engine \<Rightarrow> 's \<Rightarrow>
    box_engine_error option \<times> 'c box_engine" where
  "be_catchUp lg clk e s =
     (case Read lg (be_version e) s of
        Inl err \<Rightarrow> (Some (BStoreErr err), e)
      | Inr (ops, version) \<Rightarrow> (None, be_deriveDims ((fold (be_learn clk) ops e)\<lparr>be_version := version\<rparr>)))"

function be_applyLocked :: "('s, box_op) Log \<Rightarrow> 'c Clock \<Rightarrow> (nat \<Rightarrow> 's \<Rightarrow> 's) \<Rightarrow> nat \<Rightarrow> box_op list \<Rightarrow> 'c box_engine \<Rightarrow> 's \<Rightarrow>
    box_engine_error option \<times> 'c box_engine \<times> 's" where
  "be_applyLocked lg clk env attempt ops e s =
     (let fresh = be_unseen e ops in
      if fresh = [] then (None, e, s)
      else
        let (fresh, c) = be_stamp clk fresh (be_clock e);
            e = e\<lparr>be_clock := c\<rparr>
        in case Append lg (be_version e) fresh (env (2 * attempt) s) of
             (None, s) \<Rightarrow> be_fold lg clk fresh e s
           | (Some err, s) \<Rightarrow>
               if err \<noteq> ErrVersionConflict \<or> attempt \<ge> 3 then (Some (BStoreErr err), e, s)
               else let s = env (2 * attempt + 1) s in
                 case be_catchUp lg clk e s of
                   (Some cerr, e) \<Rightarrow> (Some cerr, e, s)
                 | (None, e) \<Rightarrow> be_applyLocked lg clk env (Suc attempt) ops e s)"
  by pat_completeness auto
termination by (relation "measure (\<lambda>(lg, clk, env, attempt, ops, e, s). 4 - attempt)") auto

declare be_applyLocked.simps [simp del]

definition be_apply :: "('s, box_op) Log \<Rightarrow> 'c Clock \<Rightarrow> (nat \<Rightarrow> 's \<Rightarrow> 's) \<Rightarrow> box_op list \<Rightarrow> 'c box_engine \<Rightarrow> 's \<Rightarrow>
    box_engine_error option \<times> 'c box_engine \<times> 's" where
  "be_apply lg clk env ops e s =
     (case be_validateOps ops of
        Some err \<Rightarrow> (Some err, e, s)
      | None \<Rightarrow>
          (case be_ensureDims ops e of
             (Some err, e) \<Rightarrow> (Some err, e, s)
           | (None, e) \<Rightarrow> be_applyLocked lg clk env 0 ops e s))"

definition be_Apply :: "('s, box_op) Log \<Rightarrow> 'c Clock \<Rightarrow> (nat \<Rightarrow> 's \<Rightarrow> 's) \<Rightarrow> box_op \<Rightarrow> 'c box_engine \<Rightarrow> 's \<Rightarrow>
    box_engine_error option \<times> 'c box_engine \<times> 's" where
  "be_Apply lg clk env o' e s = be_apply lg clk env [o'] e s"

definition be_ApplyAll :: "('s, box_op) Log \<Rightarrow> 'c Clock \<Rightarrow> (nat \<Rightarrow> 's \<Rightarrow> 's) \<Rightarrow> box_op list \<Rightarrow> 'c box_engine \<Rightarrow> 's \<Rightarrow>
    box_engine_error option \<times> 'c box_engine \<times> 's" where
  "be_ApplyAll lg clk env ops e s = (if ops = [] then (None, e, s) else be_apply lg clk env ops e s)"

end
