(* ===== verification/Box_Metas.thy ===== *)
theory Box_Metas
  imports Box_Engine
begin

section \<open>Metadata stays storable\<close>

text \<open>
  A snapshot of the n-D engine encodes the metadata of every box of its view. If all operations carry documents
  or nothing (\<open>meta_ok\<close>) and the join keeps that (\<open>merge_ok\<close>, as the default join does), then so does every
  box the engine computes.
\<close>

definition metas :: "box list \<Rightarrow> bool" where
  "metas bs \<longleftrightarrow> (\<forall>b\<in>set bs. meta_ok (Meta b))"

definition merge_ok :: "meta_merge \<Rightarrow> bool" where
  "merge_ok m \<longleftrightarrow> (\<forall>a b. meta_ok a \<longrightarrow> meta_ok b \<longrightarrow> meta_ok (m a b))"

lemma metas_simps [simp]:
  "metas []" "metas (b # bs) \<longleftrightarrow> meta_ok (Meta b) \<and> metas bs" "metas (bs @ cs) \<longleftrightarrow> metas bs \<and> metas cs"
  "metas (rev bs) = metas bs"
  by (auto simp: metas_def)

lemma merge_ok_Union: "merge_ok meta_Union"
  by (auto simp: merge_ok_def meta_Union_def mergeObjects_def meta_ok_def split: option.split)

lemma metas_absorb:
  assumes "merge_ok merge" "meta_ok (Meta b)" "metas ks" "absorb merge b ks = (b', ks', s)"
  shows "meta_ok (Meta b') \<and> metas ks'"
  using assms
proof (induction merge b ks arbitrary: b' ks' s rule: absorb.induct)
  case (2 merge b k ks)
  then show ?case by (auto simp: merge_ok_def split: if_splits prod.splits)
qed simp

lemma metas_NormalizeMerged:
  assumes "merge_ok merge" "metas bs"
  shows "metas (NormalizeMerged bs merge)"
proof -
  have step: "metas (normalizeStep merge b kept)" if b: "meta_ok (Meta b)" and kept: "metas kept" for b kept
  proof -
    obtain b' ks s where a: "absorb merge b (rev kept) = (b', ks, s)" by (metis prod_cases3)
    with metas_absorb [OF assms(1) b _ a] kept show ?thesis by (simp add: normalizeStep_def)
  qed
  have "metas kept \<Longrightarrow> metas (fold (normalizeStep merge) bs kept)" for kept
    using assms(2) step by (induction bs arbitrary: kept) auto
  from this [of "[]"] show ?thesis by (simp add: NormalizeMerged_def metas_def)
qed

lemma metas_subtractBox:
  assumes "meta_ok (Meta p)"
  shows "metas (subtractBox p q)"
proof -
  have split: "meta_ok (Meta (fst (splitAxis q d b)))" "metas (snd (splitAxis q d b))" if "meta_ok (Meta b)" for d b
    using that by (auto simp: splitAxis_def metas_def clipToInterval_sel)
  have "metas pending \<Longrightarrow> metas (concat (map (snd \<circ> splitAxis q d) pending)) \<and> metas (map (fst \<circ> splitAxis q d) pending)" for d pending
    using split by (induction pending) auto
  then have "metas (fst st) \<and> metas (snd st) \<Longrightarrow> metas (fst (fold (subtractAxis q) ds st)) \<and> metas (snd (fold (subtractAxis q) ds st))" for ds st
    by (induction ds arbitrary: st) (auto simp: subtractAxis_def split: prod.split)
  from this [of "([p], [])"] assms show ?thesis by (simp add: subtractBox_def)
qed

lemma metas_DifferenceSortedMerged:
  assumes "merge_ok merge" "metas a"
  shows "metas (DifferenceSortedMerged a b merge)"
proof -
  have each: "metas ps \<Longrightarrow> metas (concat (map (\<lambda>p. subtractBox p q) ps))" for ps q
    by (induction ps) (auto simp: metas_subtractBox)
  have "metas r \<Longrightarrow> metas (fold (\<lambda>q result. NormalizeMerged (concat (map (\<lambda>p. subtractBox p q) result)) merge) b r)" for r
    using metas_NormalizeMerged [OF assms(1)] each by (induction b arbitrary: r) auto
  then show ?thesis
    using metas_NormalizeMerged [OF assms] by (simp add: DifferenceSortedMerged_def)
qed

lemma metas_DifferenceMerged: "merge_ok merge \<Longrightarrow> metas a \<Longrightarrow> metas (DifferenceMerged a b merge)"
  by (simp add: DifferenceMerged_def metas_DifferenceSortedMerged)

definition op_metas :: "box_op list \<Rightarrow> bool" where
  "op_metas ops \<longleftrightarrow> (\<forall>o'\<in>set ops. meta_ok (Meta (BO_Box o')))"

lemma op_metas_Effective: "op_metas ops \<Longrightarrow> op_metas (Effective ops)"
  using effective_sub by (auto simp: op_metas_def set_Effective)

lemma metas_BoxesOf: "merge_ok merge \<Longrightarrow> op_metas ops \<Longrightarrow> metas (BoxesOf ops k merge)"
  unfolding BoxesOf_def by (rule metas_NormalizeMerged) (auto simp: metas_def op_metas_def)

lemma metas_Segments:
  assumes "op_metas ops"
  shows "metas (map BS_Box (box_Segments s ops))"
proof -
  have sweep: "\<forall>(seg, free)\<in>set (sweep_claims BS_Box segs claimed). metas free"
    if "\<forall>seg\<in>set segs. meta_ok (Meta (BS_Box seg))" for segs claimed
    using that metas_DifferenceSortedMerged [OF merge_ok_Union]
    by (induction segs arbitrary: claimed) (auto simp: box_DifferenceSorted_def)
  have "\<forall>seg\<in>set (sort_slice (\<lambda>a b. bbetter s (BS_Winner a) (BS_Winner b)) (map bop_segment ops)). meta_ok (Meta (BS_Box seg))"
    using assms by (auto simp: op_metas_def)
  from sweep [OF this, of "[]"] show ?thesis
    by (fastforce simp: box_Segments_def box_normalize_def metas_def)
qed

lemma metas_ToBoxes: "op_metas ops \<Longrightarrow> metas (ToBoxes (box_Segments s ops))"
  unfolding ToBoxes_def box_Normalize_def using metas_Segments [of ops s]
  by (intro metas_NormalizeMerged merge_ok_Union) (auto simp: metas_def)

lemma metas_MaterializeMerged:
  assumes "merge_ok merge" "op_metas ops"
  shows "metas (MaterializeMerged s ops merge)"
proof -
  have e: "op_metas (Effective ops)" using op_metas_Effective [OF assms(2)] .
  then have "op_metas (opsOf (Effective ops) BKindAdd)" by (auto simp: op_metas_def opsOf_def)
  with e assms(1) show ?thesis
    by (auto simp: MaterializeMerged_def Let_def metas_ToBoxes metas_BoxesOf metas_DifferenceMerged
        split: box_strategy.split)
qed

subsection \<open>The engine's boxes\<close>

definition metas_ok :: "'c box_engine \<Rightarrow> bool" where
  "metas_ok e \<longleftrightarrow> merge_ok (be_metaMerge e) \<and> be_canonicalize e = None \<and>
     (be_dirty e \<or> metas (be_view e) \<and> (be_strategy e = BAdditiveWins \<longrightarrow> metas (be_adds e) \<and> metas (be_removes e)) \<and>
       (be_strategy e = BGrowOnly \<longrightarrow> metas (be_adds e)))"

lemma metas_ok_materializeAll:
  assumes "op_metas (be_opsList e)" "merge_ok (be_metaMerge e)" "be_canonicalize e = None" "be_isDefined (be_strategy e)"
  shows "metas_ok (be_materializeAll e)" "metas_ok ((be_materializeAll e)\<lparr>be_dirty := d\<rparr>)"
proof -
  note m = metas_MaterializeMerged [OF merge_ok_Union assms(1)] metas_BoxesOf [OF assms(2) op_metas_Effective [OF assms(1)]]
  show "metas_ok (be_materializeAll e)" "metas_ok ((be_materializeAll e)\<lparr>be_dirty := d\<rparr>)"
    using assms(2-4) m metas_DifferenceMerged [OF assms(2)]
    by (auto simp: metas_ok_def be_materializeAll_def Let_def be_setView_def box_Materialize_def be_isDefined_def
        split: box_strategy.split)
qed

lemma metas_ok_ensureView:
  assumes "metas_ok e" "op_metas (be_opsList e)" "be_isDefined (be_strategy e)"
  shows "metas_ok (be_ensureView e)"
  using assms metas_ok_materializeAll(2) [of e False] by (auto simp: be_ensureView_def metas_ok_def)

lemma metas_ok_applyToView:
  assumes "metas_ok e" "meta_ok (Meta (BO_Box o'))"
  shows "metas_ok (be_applyToView o' e)"
proof -
  have u: "metas bs \<Longrightarrow> metas (UnionMerged bs [BO_Box o'] (be_metaMerge e))" for bs
    using assms by (simp add: UnionMerged_def metas_NormalizeMerged metas_ok_def)
  have d: "metas a \<Longrightarrow> metas (DifferenceMerged a b (be_metaMerge e))" for a b
    using assms(1) metas_DifferenceMerged by (simp add: metas_ok_def)
  show ?thesis
    using assms(1) u d
    by (auto simp: metas_ok_def be_applyToView_def Let_def be_setView_def split: box_strategy.split)
qed

end
