(* ===== verification/Box_Tracking.thy ===== *)
theory Box_Tracking
  imports Box_Metas
begin

section \<open>The cached view of the n-D engine\<close>

text \<open>
  The engine patches its view as operations arrive under the union strategies and rebuilds it under the others.
  \<open>tracks_view n ops e\<close> says what makes that right: the view is due for a rebuild, or it shows the boxes of the
  operations \<open>ops\<close>. Patching keeps it only if no operation arrives after its own retraction (\<open>causal\<close>); the
  engine does not check that.
\<close>

subsection \<open>Histories\<close>

definition causal :: "box_op list \<Rightarrow> bool" where
  "causal H \<longleftrightarrow> sorted_wrt (\<lambda>a b. BO_ID a \<noteq> BO_ID b \<and> (BO_Kind a = BKindRetract \<longrightarrow> BO_Ref a \<noteq> BO_ID b)) H"

definition box_history :: "nat \<Rightarrow> box_op list \<Rightarrow> bool" where
  "box_history n H \<longleftrightarrow> causal H \<and> (\<forall>o'\<in>set H. good_bop n o' \<and> meta_ok (Meta (BO_Box o')))"

lemma causal_simps [simp]:
  "causal []" "causal [o']"
  "causal (H @ G) \<longleftrightarrow> causal H \<and> causal G \<and>
     (\<forall>a\<in>set H. \<forall>b\<in>set G. BO_ID a \<noteq> BO_ID b \<and> (BO_Kind a = BKindRetract \<longrightarrow> BO_Ref a \<noteq> BO_ID b))"
  by (auto simp: causal_def sorted_wrt_append)

lemma causal_Cons [simp]:
  "causal (o' # H) \<longleftrightarrow> causal H \<and> (\<forall>b\<in>set H. BO_ID o' \<noteq> BO_ID b \<and> (BO_Kind o' = BKindRetract \<longrightarrow> BO_Ref o' \<noteq> BO_ID b))"
  by (auto simp: causal_def)

lemma causal_distinct: "causal H \<Longrightarrow> distinct (map BO_ID H)"
  by (induction H) auto

lemma causal_unique: "causal H \<Longrightarrow> unique_bids (set H)"
  using causal_distinct by (auto simp: unique_bids_def distinct_map)

lemma box_history_simps [simp]:
  "box_history n []"
  "box_history n (H @ [o']) \<longleftrightarrow> box_history n H \<and> good_bop n o' \<and> meta_ok (Meta (BO_Box o')) \<and>
     (\<forall>a\<in>set H. BO_ID a \<noteq> BO_ID o' \<and> (BO_Kind a = BKindRetract \<longrightarrow> BO_Ref a \<noteq> BO_ID o'))"
  by (auto simp: box_history_def)

lemma box_history_append: "box_history n (H @ G) \<Longrightarrow> box_history n H"
  by (auto simp: box_history_def)

lemma box_history_good: "box_history n H \<Longrightarrow> good_bops n H"
  using good_bop_box by (auto simp: box_history_def good_bops_def)

lemma box_history_unique: "box_history n H \<Longrightarrow> unique_bids (set H)"
  by (simp add: box_history_def causal_unique)

lemma box_history_metas: "box_history n H \<Longrightarrow> op_metas H"
  by (simp add: box_history_def op_metas_def)

lemma good_bops_mset: "mset H = mset G \<Longrightarrow> good_bops n H = good_bops n G"
  unfolding good_bops_def by (metis set_mset_mset)

lemma Effective_snoc:
  assumes "BO_Kind o' \<noteq> BKindRetract" "\<forall>a\<in>set H. BO_Kind a = BKindRetract \<longrightarrow> BO_Ref a \<noteq> BO_ID o'"
  shows "set (Effective (H @ [o'])) = insert o' (set (Effective H))"
  using assms by (auto simp: set_Effective effective_def)

subsection \<open>Boxes that track the operations of one kind\<close>

lemma maximal_maximal_Un:
  assumes "finite S"
  shows "maximal (maximal S \<union> T) = maximal (S \<union> T)"
proof (rule set_eqI)
  fix x
  have above: "\<exists>m\<in>maximal S. y \<subseteq> m" if "y \<in> S" for y using maximal_above [OF assms that] by blast
  show "x \<in> maximal (maximal S \<union> T) \<longleftrightarrow> x \<in> maximal (S \<union> T)"
  proof
    assume x: "x \<in> maximal (maximal S \<union> T)"
    have "x = y" if "y \<in> S \<union> T" "x \<subseteq> y" for y
    proof (cases "y \<in> S")
      case True
      then obtain m where m: "m \<in> maximal S" "y \<subseteq> m" using above by blast
      then have "x = m" using x that(2) by (auto simp: maximal_def)
      with m that(2) show ?thesis by blast
    qed (use x that in \<open>auto simp: maximal_def\<close>)
    then show "x \<in> maximal (S \<union> T)" using x by (auto simp: maximal_def)
  next
    assume "x \<in> maximal (S \<union> T)"
    then show "x \<in> maximal (maximal S \<union> T)" by (auto simp: maximal_def)
  qed
qed

definition kind_spans :: "box_op set \<Rightarrow> box_kind \<Rightarrow> finePoint list set set" where
  "kind_spans E k = {bspan (BO_Box o') |o'. o' \<in> E \<and> BO_Kind o' = k}"

definition tracks :: "nat \<Rightarrow> box list \<Rightarrow> box_op list \<Rightarrow> box_kind \<Rightarrow> bool" where
  "tracks n bs ops k \<longleftrightarrow> box_canonical n bs \<and> bspan ` set bs = maximal (kind_spans (set (Effective ops)) k)"

lemma kind_spans_insert:
  "kind_spans (insert o' E) k = (if BO_Kind o' = k then insert (bspan (BO_Box o')) (kind_spans E k) else kind_spans E k)"
  by (auto simp: kind_spans_def)

lemma finite_kind_spans [simp]: "finite (kind_spans (set ops) k)"
proof -
  have "kind_spans (set ops) k = (\<lambda>o'. bspan (BO_Box o')) ` {o' \<in> set ops. BO_Kind o' = k}"
    by (auto simp: kind_spans_def)
  then show ?thesis by simp
qed

lemma tracks_BoxesOf:
  assumes "good_bops n ops"
  shows "tracks n (BoxesOf (Effective ops) k merge) ops k"
proof -
  have g: "good_bops n (Effective ops)" using assms effective_sub by (auto simp: good_bops_def set_Effective)
  let ?b = "map BO_Box (filter (\<lambda>o'. BO_Kind o' = k) (Effective ops))"
  have a: "all_good n ?b" using g by (auto simp: good_bops_def all_good_def)
  have "bspan ` set ?b = kind_spans (set (Effective ops)) k" by (auto simp: kind_spans_def image_image)
  then show ?thesis
    unfolding tracks_def using BoxesOf_spec(1) [OF g] NormalizeMerged_spec(2) [OF all_goodD [OF a]] spans_good [OF a]
    by (simp add: BoxesOf_def)
qed

lemma tracks_mset:
  assumes "mset ops = mset ops'"
  shows "tracks n bs ops k = tracks n bs ops' k"
  using mset_eq_setD [OF assms] by (simp add: tracks_def set_Effective)

lemma tracks_good: "tracks n bs ops k \<Longrightarrow> all_good n bs"
  by (simp add: tracks_def box_canonical_def)

lemma tracks_add:
  assumes t: "tracks n bs H k" and g: "good_box n (BO_Box o')" "BO_Kind o' = k" "k \<noteq> BKindRetract"
    and f: "\<forall>a\<in>set H. BO_Kind a = BKindRetract \<longrightarrow> BO_Ref a \<noteq> BO_ID o'"
  shows "tracks n (UnionMerged bs [BO_Box o'] merge) (H @ [o']) k"
proof -
  have a: "all_good n (bs @ [BO_Box o'])" using tracks_good [OF t] g by simp
  have e: "set (Effective (H @ [o'])) = insert o' (set (Effective H))" using Effective_snoc f g by blast
  have "bspan ` set (UnionMerged bs [BO_Box o'] merge) = maximal (bspan ` set (bs @ [BO_Box o']))"
    using NormalizeMerged_spec(2) [OF all_goodD [OF a]] spans_good [OF a] by (simp add: UnionMerged_def)
  also have "\<dots> = maximal (maximal (kind_spans (set (Effective H)) k) \<union> {bspan (BO_Box o')})"
    using t by (simp add: tracks_def)
  also have "\<dots> = maximal (kind_spans (set (Effective (H @ [o']))) k)"
    using g by (subst maximal_maximal_Un) (simp_all add: e kind_spans_insert)
  finally show ?thesis
    using NormalizeMerged_spec(1) [OF all_goodD [OF a]] by (simp add: tracks_def UnionMerged_def)
qed

lemma tracks_other:
  assumes t: "tracks n bs H k" and g: "BO_Kind o' \<noteq> k" "BO_Kind o' \<noteq> BKindRetract"
    and f: "\<forall>a\<in>set H. BO_Kind a = BKindRetract \<longrightarrow> BO_Ref a \<noteq> BO_ID o'"
  shows "tracks n bs (H @ [o']) k"
  using t Effective_snoc [OF g(2) f] g by (simp add: tracks_def kind_spans_insert)

subsection \<open>The cached view\<close>

definition shows_ops :: "nat \<Rightarrow> box_op list \<Rightarrow> 'c box_engine \<Rightarrow> bool" where
  "shows_ops n H e \<longleftrightarrow> all_good n (be_view e) \<and>
     map box_key (be_view e) = map box_key (MaterializeMerged (be_strategy e) H (be_metaMerge e)) \<and>
     (be_strategy e = BAdditiveWins \<longrightarrow> tracks n (be_adds e) H BKindAdd \<and> tracks n (be_removes e) H BKindRemove) \<and>
     (be_strategy e = BGrowOnly \<longrightarrow> tracks n (be_adds e) H BKindAdd \<and> be_view e = be_adds e)"

definition tracks_view :: "nat \<Rightarrow> box_op list \<Rightarrow> 'c box_engine \<Rightarrow> bool" where
  "tracks_view n H e \<longleftrightarrow> be_canonicalize e = None \<and> be_isDefined (be_strategy e) \<and> (be_dirty e \<or> shows_ops n H e)"

lemma tracks_difference:
  assumes "good_bops n H" "unique_bids (set H)" "be_strategy e = BAdditiveWins"
    "tracks n adds H BKindAdd" "tracks n removes H BKindRemove"
  shows "map box_key (DifferenceMerged adds removes merge) = map box_key (MaterializeMerged BAdditiveWins H merge')"
    and "all_good n (DifferenceMerged adds removes merge)"
proof -
  have t: "tracks n (BoxesOf (Effective H) k merge') H k" for k by (rule tracks_BoxesOf [OF assms(1)])
  show "map box_key (DifferenceMerged adds removes merge) = map box_key (MaterializeMerged BAdditiveWins H merge')"
    unfolding MaterializeMerged_def Let_def box_strategy.case
    using assms(4,5) t by (intro DifferenceMerged_keys [of n]) (auto simp: tracks_def box_canonical_def)
  show "all_good n (DifferenceMerged adds removes merge)"
    using DifferenceMerged_spec(1) [OF box_canonical_ok box_canonical_ok] assms(4,5)
    by (simp add: tracks_def box_canonical_def [of n "DifferenceMerged _ _ _"]) (simp add: box_canonical_def)
qed

lemma tracks_union:
  assumes "good_bops n H" "tracks n adds H BKindAdd"
  shows "map box_key adds = map box_key (MaterializeMerged BGrowOnly H merge')"
  unfolding MaterializeMerged_def Let_def box_strategy.case
  using assms(2) tracks_BoxesOf [OF assms(1), of BKindAdd merge'] by (intro canonical_unique [of n]) (auto simp: tracks_def)

lemma be_setView_fields [simp]:
  "be_strategy (be_setView bs e) = be_strategy e" "be_ops (be_setView bs e) = be_ops e"
  "be_adds (be_setView bs e) = be_adds e" "be_removes (be_setView bs e) = be_removes e"
  "be_metaMerge (be_setView bs e) = be_metaMerge e" "be_canonicalize (be_setView bs e) = be_canonicalize e"
  "be_dirty (be_setView bs e) = be_dirty e" "be_version (be_setView bs e) = be_version e"
  "be_dims (be_setView bs e) = be_dims e" "be_since (be_setView bs e) = be_since e"
  "be_snapshotEvery (be_setView bs e) = be_snapshotEvery e" "be_clock (be_setView bs e) = be_clock e"
  "be_canonicalize e = None \<Longrightarrow> be_view (be_setView bs e) = bs"
  by (simp_all add: be_setView_def)

lemma be_materializeAll_fields [simp]:
  "be_strategy (be_materializeAll e) = be_strategy e" "be_ops (be_materializeAll e) = be_ops e"
  "be_metaMerge (be_materializeAll e) = be_metaMerge e" "be_canonicalize (be_materializeAll e) = be_canonicalize e"
  "be_version (be_materializeAll e) = be_version e" "be_dims (be_materializeAll e) = be_dims e"
  "be_dirty (be_materializeAll e) = be_dirty e" "be_since (be_materializeAll e) = be_since e"
  "be_snapshotEvery (be_materializeAll e) = be_snapshotEvery e" "be_clock (be_materializeAll e) = be_clock e"
  by (simp_all add: be_materializeAll_def Let_def split: box_strategy.split)

lemma be_ensureView_fields [simp]:
  "be_strategy (be_ensureView e) = be_strategy e" "be_ops (be_ensureView e) = be_ops e"
  "be_metaMerge (be_ensureView e) = be_metaMerge e" "be_canonicalize (be_ensureView e) = be_canonicalize e"
  "be_version (be_ensureView e) = be_version e" "be_dims (be_ensureView e) = be_dims e"
  "be_since (be_ensureView e) = be_since e" "be_snapshotEvery (be_ensureView e) = be_snapshotEvery e"
  "be_clock (be_ensureView e) = be_clock e" "\<not> be_dirty (be_ensureView e)"
  by (simp_all add: be_ensureView_def)

lemma be_applyToView_fields [simp]:
  "be_strategy (be_applyToView o' e) = be_strategy e" "be_ops (be_applyToView o' e) = be_ops e"
  "be_metaMerge (be_applyToView o' e) = be_metaMerge e" "be_canonicalize (be_applyToView o' e) = be_canonicalize e"
  "be_version (be_applyToView o' e) = be_version e" "be_dims (be_applyToView o' e) = be_dims e"
  "be_since (be_applyToView o' e) = be_since e" "be_snapshotEvery (be_applyToView o' e) = be_snapshotEvery e"
  "be_clock (be_applyToView o' e) = be_clock e"
  by (simp_all add: be_applyToView_def Let_def split: box_strategy.split)

lemma materializeAll_shows:
  assumes H: "good_bops n H" "unique_bids (set H)" "mset (map snd (be_ops e)) = mset H"
    and c: "be_canonicalize e = None" "be_isDefined (be_strategy e)"
  shows "shows_ops n H (be_materializeAll e)"
proof -
  have m: "mset (be_opsList e) = mset H" using H(3) by (simp add: be_opsList_def)
  have g: "good_bops n (be_opsList e)" "unique_bids (set (be_opsList e))"
    using H good_bops_mset [OF m] mset_eq_setD [OF m] by simp_all
  have keys: "map box_key (MaterializeMerged s (be_opsList e) mg) = map box_key (MaterializeMerged s H mg')" for s mg mg'
    using MaterializeMerged_perm [OF g m] .
  have good: "all_good n (MaterializeMerged s (be_opsList e) mg)" for s mg
    using MaterializeMerged_spec(1) [OF g] by (simp add: box_canonical_def)
  have t: "tracks n (BoxesOf (Effective (be_opsList e)) k mg) H k" for k mg
    using tracks_BoxesOf [OF g(1)] tracks_mset [OF m] by blast
  show ?thesis
  proof (cases "be_strategy e")
    case BAdditiveWins
    have "be_view (be_materializeAll e) = MaterializeMerged BAdditiveWins (be_opsList e) (be_metaMerge e)"
      using BAdditiveWins c(1) by (simp add: be_materializeAll_def Let_def be_setView_def MaterializeMerged_def)
    moreover have "tracks n (be_adds (be_materializeAll e)) H BKindAdd" "tracks n (be_removes (be_materializeAll e)) H BKindRemove"
      using BAdditiveWins t by (simp_all add: be_materializeAll_def Let_def)
    ultimately show ?thesis
      using BAdditiveWins keys [of BAdditiveWins "be_metaMerge e" "be_metaMerge e"] good
      by (simp add: shows_ops_def)
  next
    case BGrowOnly
    have v: "be_view (be_materializeAll e) = MaterializeMerged BGrowOnly (be_opsList e) (be_metaMerge e)"
      "be_adds (be_materializeAll e) = MaterializeMerged BGrowOnly (be_opsList e) (be_metaMerge e)"
      using BGrowOnly c(1) by (simp_all add: be_materializeAll_def Let_def be_setView_def MaterializeMerged_def)
    moreover have "tracks n (be_adds (be_materializeAll e)) H BKindAdd"
      using BGrowOnly t by (simp add: be_materializeAll_def Let_def)
    ultimately show ?thesis
      using BGrowOnly keys [of BGrowOnly "be_metaMerge e" "be_metaMerge e"] good by (simp add: shows_ops_def)
  next
    case (BUnknownStrategy k)
    then show ?thesis using c(2) by (simp add: be_isDefined_def)
  qed (use c(1) keys [of _ meta_Union "be_metaMerge e"] good in
      \<open>auto simp: shows_ops_def be_materializeAll_def Let_def box_Materialize_def be_setView_def\<close>)
qed

lemma ensureView_shows:
  assumes "good_bops n H" "unique_bids (set H)" "mset (map snd (be_ops e)) = mset H" "tracks_view n H e"
  shows "shows_ops n H (be_ensureView e)" "tracks_view n H (be_ensureView e)"
proof -
  have "shows_ops n H (e\<lparr>be_dirty := d\<rparr>) = shows_ops n H e" for d and e :: "'c box_engine" by (simp add: shows_ops_def)
  then show "shows_ops n H (be_ensureView e)"
    using assms materializeAll_shows [OF assms(1-3)] by (auto simp: be_ensureView_def tracks_view_def)
  then show "tracks_view n H (be_ensureView e)" using assms(4) by (simp add: tracks_view_def)
qed

text \<open>Patching one operation that no known retraction names.\<close>

lemma applyToView_tracks:
  assumes t: "tracks_view n H e" and H: "box_history n (H @ [o'])"
  shows "tracks_view n (H @ [o']) (be_applyToView o' e)"
proof (cases "BO_Kind o' = BKindRetract \<or> be_strategy e \<in> {BLWW, BFWW, BAdditiveWinsLWW} \<or> be_dirty e")
  case True
  then show ?thesis
    using t by (auto simp: tracks_view_def be_applyToView_def be_isDefined_def Let_def be_setView_def)
next
  case False
  have f: "\<forall>a\<in>set H. BO_Kind a = BKindRetract \<longrightarrow> BO_Ref a \<noteq> BO_ID o'" and b: "good_box n (BO_Box o')"
    and k: "BO_Kind o' = BKindAdd \<or> BO_Kind o' = BKindRemove"
    using H False good_bop_box good_bop_kind by (auto simp: known_bkind_def)
  have gu: "good_bops n (H @ [o'])" "unique_bids (set (H @ [o']))"
    using box_history_good [OF H] box_history_unique [OF H] by auto
  have s: "shows_ops n H e" "be_canonicalize e = None" using t False by (simp_all add: tracks_view_def)
  from t False consider "be_strategy e = BAdditiveWins" | "be_strategy e = BGrowOnly"
    by (auto simp: tracks_view_def be_isDefined_def)
  then have "shows_ops n (H @ [o']) (be_applyToView o' e)"
  proof cases
    case 1
    let ?a = "if BO_Kind o' = BKindAdd then UnionMerged (be_adds e) [BO_Box o'] (be_metaMerge e) else be_adds e"
    let ?r = "if BO_Kind o' = BKindAdd then be_removes e else UnionMerged (be_removes e) [BO_Box o'] (be_metaMerge e)"
    have t': "tracks n ?a (H @ [o']) BKindAdd" "tracks n ?r (H @ [o']) BKindRemove"
      using s(1) 1 k f b tracks_add [of n _ H] tracks_other [of n _ H] by (auto simp: shows_ops_def)
    have "be_adds (be_applyToView o' e) = ?a" "be_removes (be_applyToView o' e) = ?r"
      "be_view (be_applyToView o' e) = DifferenceMerged ?a ?r (be_metaMerge e)"
      using 1 False s(2) by (simp_all add: be_applyToView_def Let_def)
    with 1 t' tracks_difference [OF gu 1 t'] show ?thesis by (simp add: shows_ops_def)
  next
    case 2
    let ?a = "if BO_Kind o' = BKindAdd then UnionMerged (be_adds e) [BO_Box o'] (be_metaMerge e) else be_adds e"
    have t': "tracks n ?a (H @ [o']) BKindAdd"
      using s(1) 2 k f b tracks_add [of n _ H] tracks_other [of n _ H] by (auto simp: shows_ops_def)
    have "be_adds (be_applyToView o' e) = ?a" "be_view (be_applyToView o' e) = ?a"
      using 2 False s by (simp_all add: be_applyToView_def Let_def shows_ops_def)
    with 2 t' tracks_union [OF gu(1) t'] tracks_good [OF t'] show ?thesis by (simp add: shows_ops_def)
  qed
  then show ?thesis using s(2) t by (simp add: tracks_view_def)
qed

end
