(* ===== verification/Range_Replica.thy ===== *)
theory Range_Replica
  imports Range_Engine Memory_Store Jsonl_Store
begin

section \<open>The 1-D engine refines the history of its log\<close>

text \<open>
  The specification of an engine is the history of its log: a list of valid operations with
  pairwise different identifiers. \<open>store_holds\<close> says what a store keeps of a history,
  \<open>synced\<close> that an engine knows the first \<open>version\<close> operations of it and that its cached
  view, when it is not dirty, is \<open>Materialize\<close> of those. The lemmas are proved once, in the
  locale \<open>engine_log\<close>, from the contracts of the store, and hold for the in-memory and the
  JSON Lines store by interpretation.
\<close>

subsection \<open>Snapshots survive encoding\<close>

lemma get_put_list:
  assumes "\<And>x. x \<in> set xs \<Longrightarrow> \<exists>j. put x = Some j \<and> get j = Inr x"
  shows "\<exists>js. put_list put xs = Some (JArr js) \<and> get_list get (JArr js) = Inr xs"
  using all_some_emap [of xs put get] assms by (auto simp: put_list_def get_list_def)

lemma interval_codec: "valid_iv iv \<Longrightarrow> \<exists>j. put_interval iv = Some j \<and> get_interval j = Inr iv"
  using put_interval_valid get_put_interval by blast

lemma segment_codec: "storable_segment seg \<Longrightarrow> \<exists>j. put_segment seg = Some j \<and> get_segment j = Inr seg"
  using put_segment_storable get_put_segment unfolding storable_segment_def by blast

lemma op_codec: "storable_op o' \<Longrightarrow> \<exists>j. put_op o' = Some j \<and> get_op j = Inr o'"
  using put_op_storable get_put_op unfolding storable_op_def by blast

lemma strategy_codec:
  "isDefined st \<Longrightarrow> \<exists>j. put_strategy st = Some j \<and> get_text Strategy_UnmarshalText z j = Inr st"
  by (auto simp: isDefined_def put_strategy_def Strategy_MarshalText_def Strategy_String_def names_def
      Strategy_UnmarshalText_def Strategy_Parse_def)

definition storable_snapshot :: "snapshot \<Rightarrow> bool" where
  "storable_snapshot sn \<longleftrightarrow> isDefined (S_Strategy sn) \<and> list_all valid_iv (S_Intervals sn) \<and>
     list_all storable_segment (S_Segments sn) \<and> list_all valid_iv (S_Adds sn) \<and>
     list_all valid_iv (S_Removes sn) \<and> list_all storable_op (S_Ops sn)"

lemma get_put_snapshot:
  assumes "storable_snapshot sn"
  shows "\<exists>j. put_snapshot sn = Some j \<and> get_snapshot j = Inr sn"
proof -
  obtain st where st: "put_strategy (S_Strategy sn) = Some st"
      "get_text Strategy_UnmarshalText LWW st = Inr (S_Strategy sn)"
    using assms strategy_codec [of _ LWW] by (auto simp: storable_snapshot_def)
  obtain ivs where ivs: "put_list put_interval (S_Intervals sn) = Some (JArr ivs)"
      "get_list get_interval (JArr ivs) = Inr (S_Intervals sn)"
    using assms get_put_list [of "S_Intervals sn" put_interval get_interval] interval_codec
    by (auto simp: storable_snapshot_def list_all_iff)
  obtain segs where segs: "put_list put_segment (S_Segments sn) = Some (JArr segs)"
      "get_list get_segment (JArr segs) = Inr (S_Segments sn)"
    using assms get_put_list [of "S_Segments sn" put_segment get_segment] segment_codec
    by (auto simp: storable_snapshot_def list_all_iff)
  obtain adds where adds: "put_list put_interval (S_Adds sn) = Some (JArr adds)"
      "get_list get_interval (JArr adds) = Inr (S_Adds sn)"
    using assms get_put_list [of "S_Adds sn" put_interval get_interval] interval_codec
    by (auto simp: storable_snapshot_def list_all_iff)
  obtain removes where removes: "put_list put_interval (S_Removes sn) = Some (JArr removes)"
      "get_list get_interval (JArr removes) = Inr (S_Removes sn)"
    using assms get_put_list [of "S_Removes sn" put_interval get_interval] interval_codec
    by (auto simp: storable_snapshot_def list_all_iff)
  obtain ops where ops: "put_list put_op (S_Ops sn) = Some (JArr ops)"
      "get_list get_op (JArr ops) = Inr (S_Ops sn)"
    using assms get_put_list [of "S_Ops sn" put_op get_op] op_codec
    by (auto simp: storable_snapshot_def list_all_iff)
  have nil: "get_list get JNull = Inr []" for get :: "json \<Rightarrow> json_error + 'b" by (simp add: get_list_def)
  show ?thesis
    using st ivs segs adds removes ops
    by (auto simp: put_snapshot_def get_snapshot_def get_field_def omit_if_def nil
        simp del: get_text.simps)
qed


subsection \<open>The operations an engine knows\<close>

definition valid_history :: "op list \<Rightarrow> bool" where
  "valid_history H \<longleftrightarrow> list_all valid_op H \<and> distinct (map ID H)"

definition holds :: "'c engine \<Rightarrow> op set \<Rightarrow> bool" where
  "holds e O' \<longleftrightarrow> distinct (map fst (e_ops e)) \<and>
     (\<forall>k o'. map_of (e_ops e) k = Some o' \<longleftrightarrow> o' \<in> O' \<and> ID o' = k)"

lemma unique_history: "valid_history H \<Longrightarrow> set G \<subseteq> set H \<Longrightarrow> unique_ids (set G)"
  unfolding valid_history_def unique_ids_def distinct_map by (meson inj_on_subset)

lemma valid_ops_history: "valid_history H \<Longrightarrow> set G \<subseteq> set H \<Longrightarrow> valid_ops G"
  by (auto simp: valid_history_def valid_ops_def list_all_iff valid_op_iff)

lemma set_opsList: "holds e O' \<Longrightarrow> set (opsList e) = O'"
proof -
  assume h: "holds e O'"
  have "o' \<in> snd ` set (e_ops e) \<longleftrightarrow> o' \<in> O'" for o'
  proof
    assume "o' \<in> snd ` set (e_ops e)"
    then obtain k where "map_of (e_ops e) k = Some o'" using h by (force simp: holds_def)
    then show "o' \<in> O'" using h by (simp add: holds_def)
  next
    assume "o' \<in> O'"
    then have "map_of (e_ops e) (ID o') = Some o'" using h by (simp add: holds_def)
    then show "o' \<in> snd ` set (e_ops e)" by (metis map_of_SomeD imageI snd_conv)
  qed
  then show ?thesis by (auto simp: opsList_def)
qed

lemma holds_record:
  assumes "holds e O'" "unique_ids (insert o' O')"
  shows "holds (record_op clk o' e) (insert o' O')"
  using assms
  by (auto simp: holds_def record_op_def distinct_update update_conv' unique_ids_def inj_on_def)

lemma record_fields [simp]:
  "e_strategy (record_op clk o' e) = e_strategy e" "e_version (record_op clk o' e) = e_version e"
  "e_view (record_op clk o' e) = e_view e" "e_segments (record_op clk o' e) = e_segments e"
  "e_adds (record_op clk o' e) = e_adds e" "e_removes (record_op clk o' e) = e_removes e"
  "e_dirty (record_op clk o' e) = e_dirty e" "e_since (record_op clk o' e) = e_since e"
  "e_snapshotEvery (record_op clk o' e) = e_snapshotEvery e"
  by (simp_all add: record_op_def)

lemma records_fields [simp]:
  "e_strategy (fold (record_op clk) ops e) = e_strategy e"
  "e_version (fold (record_op clk) ops e) = e_version e"
  "e_dirty (fold (record_op clk) ops e) = e_dirty e"
  "e_since (fold (record_op clk) ops e) = e_since e"
  "e_snapshotEvery (fold (record_op clk) ops e) = e_snapshotEvery e"
  by (induction ops arbitrary: e) simp_all

lemma holds_records:
  assumes "holds e O'" "unique_ids (O' \<union> set ops)"
  shows "holds (fold (record_op clk) ops e) (O' \<union> set ops)"
  using assms
proof (induction ops arbitrary: e O')
  case (Cons o' ops)
  have "unique_ids (insert o' O')"
    using Cons.prems(2) unfolding unique_ids_def by (rule inj_on_subset) auto
  then show ?case
    using Cons.IH [OF holds_record [OF Cons.prems(1)], of o' clk] Cons.prems(2) by simp
qed simp

lemma holds_cong [simp]:
  "holds (e\<lparr>e_dirty := d\<rparr>) O' = holds e O'" "holds (e\<lparr>e_version := v\<rparr>) O' = holds e O'"
  "holds (e\<lparr>e_clock := c\<rparr>) O' = holds e O'" "holds (e\<lparr>e_since := n\<rparr>) O' = holds e O'"
  "holds (e\<lparr>e_segments := segs\<rparr>) O' = holds e O'" "holds (e\<lparr>e_view := ivs\<rparr>) O' = holds e O'"
  "holds (e\<lparr>e_adds := as\<rparr>) O' = holds e O'" "holds (e\<lparr>e_removes := rs\<rparr>) O' = holds e O'"
  by (simp_all add: holds_def)

lemma opsList_cong [simp]:
  "opsList (e\<lparr>e_dirty := d\<rparr>) = opsList e" "opsList (e\<lparr>e_version := v\<rparr>) = opsList e"
  "opsList (e\<lparr>e_clock := c\<rparr>) = opsList e" "opsList (e\<lparr>e_since := n\<rparr>) = opsList e"
  "opsList (e\<lparr>e_segments := segs\<rparr>) = opsList e" "opsList (e\<lparr>e_view := ivs\<rparr>) = opsList e"
  "opsList (e\<lparr>e_adds := as\<rparr>) = opsList e" "opsList (e\<lparr>e_removes := rs\<rparr>) = opsList e"
  by (simp_all add: opsList_def)

subsection \<open>The cached view\<close>

definition view_ok :: "'c engine \<Rightarrow> op list \<Rightarrow> bool" where
  "view_ok e H \<longleftrightarrow> e_view e = Materialize (e_strategy e) H \<and>
     (e_strategy e = LWW \<or> e_strategy e = FWW \<longrightarrow> represents (e_strategy e) (e_segments e) H) \<and>
     (e_strategy e = AdditiveWins \<longrightarrow> list_all valid_iv (e_adds e) \<and> list_all valid_iv (e_removes e))"

lemma represents_cong: "set H = set G \<Longrightarrow> represents s segs H = represents s segs G"
  by (simp add: represents_def best_at_def seg_at_def)

lemma canonical_valid: "canonical ivs \<Longrightarrow> list_all valid_iv ivs"
  by (auto simp: canonical_def list_all_iff)

lemma materializeAll_fields [simp]:
  "e_strategy (materializeAll e) = e_strategy e" "e_version (materializeAll e) = e_version e"
  "e_dirty (materializeAll e) = e_dirty e" "holds (materializeAll e) O' = holds e O'"
  "e_since (materializeAll e) = e_since e" "e_snapshotEvery (materializeAll e) = e_snapshotEvery e"
  "opsList (materializeAll e) = opsList e"
  by (auto simp: materializeAll_def Let_def split: strategy.split)

lemma view_ok_materializeAll:
  assumes "holds e (set H)" "valid_history H" "isDefined (e_strategy e)"
  shows "view_ok (materializeAll e) H"
proof -
  have s: "set (opsList e) = set H" by (rule set_opsList [OF assms(1)])
  have v: "valid_ops (opsList e)" "unique_ids (set (opsList e))"
    using s assms(2) valid_ops_history unique_history by simp_all
  have "Materialize (e_strategy e) (opsList e) = Materialize (e_strategy e) H"
    by (rule Materialize_cong [OF v s])
  moreover have "represents (e_strategy e) (Segments (e_strategy e) (opsList e)) H"
    if "e_strategy e = LWW \<or> e_strategy e = FWW"
    using represents_Segments [OF that v] represents_cong [OF s] by simp
  ultimately show ?thesis
    using assms(3) canonical_valid [OF IntervalsOf_spec(1) [OF v(1)]]
    by (auto simp: isDefined_def view_ok_def materializeAll_def Let_def Materialize_def)
qed

lemma view_ok_cong [simp]:
  "view_ok (e\<lparr>e_dirty := d\<rparr>) H = view_ok e H" "view_ok (e\<lparr>e_version := v\<rparr>) H = view_ok e H"
  "view_ok (e\<lparr>e_clock := c\<rparr>) H = view_ok e H" "view_ok (e\<lparr>e_since := n\<rparr>) H = view_ok e H"
  by (simp_all add: view_ok_def)

lemma ensureView_fields [simp]:
  "e_strategy (ensureView e) = e_strategy e" "e_version (ensureView e) = e_version e"
  "holds (ensureView e) O' = holds e O'" "opsList (ensureView e) = opsList e"
  "e_since (ensureView e) = e_since e" "e_snapshotEvery (ensureView e) = e_snapshotEvery e"
  "\<not> e_dirty (ensureView e)"
  by (simp_all add: ensureView_def)

lemma view_ok_ensureView:
  assumes "holds e (set H)" "valid_history H" "isDefined (e_strategy e)" "\<not> e_dirty e \<longrightarrow> view_ok e H"
  shows "view_ok (ensureView e) H"
  using assms view_ok_materializeAll by (auto simp: ensureView_def)

text \<open>A snapshot of an engine whose view is right covers the engine's operations.\<close>

definition covers :: "op list \<Rightarrow> snapshot \<Rightarrow> bool" where
  "covers H sn \<longleftrightarrow> set (S_Ops sn) = set H \<and>
     (S_Strategy sn = LWW \<or> S_Strategy sn = FWW \<longrightarrow> represents (S_Strategy sn) (S_Segments sn) H)"

definition snap_ok :: "op list \<Rightarrow> rawjson \<Rightarrow> version \<Rightarrow> bool" where
  "snap_ok H d v \<longleftrightarrow> 0 \<le> v \<and> nat v \<le> length H \<and>
     (\<exists>j sn. d = Valid j \<and> get_snapshot j = Inr sn \<and> covers (take (nat v) H) sn)"

lemma represents_storable:
  assumes "represents s segs H" "valid_history H'" "set H \<subseteq> set H'"
  shows "list_all storable_segment segs"
proof -
  have "known_kind (W_Kind (Winner seg)) \<and> valid_iv (SegInterval seg)" if seg: "seg \<in> set segs" for seg
  proof -
    obtain o' where "o' \<in> set H'" "Winner seg = winnerOf o'" "valid_iv (SegInterval seg)"
      using assms seg unfolding represents_def valid_segs_def by blast
    then show ?thesis
      using assms(2) by (auto simp: valid_history_def list_all_iff valid_op_iff known_kind_def winnerOf_def)
  qed
  then show ?thesis by (simp add: list_all_iff storable_segment_def)
qed

lemma snapshot_covers:
  assumes "holds e (set H)" "view_ok e H" "valid_history H" "isDefined (e_strategy e)"
  shows "\<exists>j. snapshot_data e = Valid j \<and> get_snapshot j = Inr (buildSnapshot e) \<and> covers H (buildSnapshot e)"
proof -
  have s: "set (opsList e) = set H" by (rule set_opsList [OF assms(1)])
  have "list_all valid_iv (e_view e)"
    using assms(2,3) Materialize_spec(1) [OF valid_ops_history unique_history] canonical_valid
    by (simp add: view_ok_def)
  moreover have "list_all storable_op (opsList e)"
    using s assms(3) by (auto simp: valid_history_def list_all_iff valid_op_iff storable_op_def known_kind_def)
  moreover have "list_all storable_segment (e_segments e)" if "e_strategy e = LWW \<or> e_strategy e = FWW"
    using that assms(2,3) represents_storable unfolding view_ok_def by blast
  ultimately have "storable_snapshot (buildSnapshot e)"
    using assms(2,4)
    by (cases "e_strategy e") (simp_all add: isDefined_def storable_snapshot_def buildSnapshot_def view_ok_def)
  moreover have "covers H (buildSnapshot e)"
    using assms(2,4) s
    by (cases "e_strategy e") (simp_all add: isDefined_def covers_def buildSnapshot_def view_ok_def)
  ultimately show ?thesis
    using get_put_snapshot [of "buildSnapshot e"] by (auto simp: snapshot_data_def)
qed


subsection \<open>Engines and stores against a history\<close>

definition store_holds :: "('s \<Rightarrow> nat) \<Rightarrow> ('s \<Rightarrow> op list) \<Rightarrow> ('s \<Rightarrow> (rawjson \<times> version) option) \<Rightarrow> op list \<Rightarrow> 's \<Rightarrow> bool" where
  "store_holds base tail snap H s \<longleftrightarrow> valid_history H \<and> base s \<le> length H \<and> tail s = drop (base s) H \<and>
     (\<forall>d v. snap s = Some (d, v) \<longrightarrow> snap_ok H d v)"

definition known :: "'c engine \<Rightarrow> op list \<Rightarrow> op list" where
  "known e H = take (nat (e_version e)) H"

definition synced :: "op list \<Rightarrow> 'c engine \<Rightarrow> bool" where
  "synced H e \<longleftrightarrow> 0 \<le> e_version e \<and> nat (e_version e) \<le> length H \<and> isDefined (e_strategy e) \<and>
     holds e (set (known e H)) \<and> (\<not> e_dirty e \<longrightarrow> view_ok e (known e H))"

lemma valid_history_take: "valid_history H \<Longrightarrow> valid_history (take n H)"
  by (auto simp: valid_history_def list_all_iff take_map [symmetric] dest: in_set_takeD)

lemma synced_view:
  assumes "synced H e" "valid_history H"
  shows "view_ok (ensureView e) (known e H)" and "synced H (ensureView e)"
  using assms view_ok_ensureView [of e "known e H"] valid_history_take
  by (simp_all add: synced_def known_def)

text \<open>What \<open>Materialize\<close> returns is the specification's view of the known operations.\<close>

lemma engine_Materialize_view:
  assumes "synced H e" "valid_history H"
  shows "fst (engine_Materialize e) = Materialize (e_strategy e) (known e H)"
  using synced_view(1) [OF assms] by (simp add: engine_Materialize_def Let_def view_ok_def)

lemma restore_segments_represents:
  assumes "represents s segs H" "s = LWW \<or> s = FWW" "valid_ops delta" "unique_ids (set H \<union> set delta)"
  shows "represents s (restore_segments s delta segs) (H @ delta)"
  using assms
proof (induction delta arbitrary: segs H)
  case Nil
  then show ?case by (simp add: restore_segments_def)
next
  case (Cons o' delta)
  have u: "unique_ids (set H \<union> set [o'])" "unique_ids (set [o'])"
    using Cons.prems(4) unfolding unique_ids_def by (auto intro: inj_on_subset)
  have "represents s (CombineSegments s segs (Segments s [o'])) (H @ [o'])"
    using represents_CombineSegments [OF Cons.prems(1) represents_Segments u(1)] Cons.prems(2,3) u(2)
    by (simp add: valid_ops_def)
  from Cons.IH [OF this] Cons.prems show ?case
    by (simp add: restore_segments_def valid_ops_def)
qed

lemma view_ok_segments:
  assumes "represents (e_strategy e) segs H" "e_strategy e = LWW \<or> e_strategy e = FWW" "valid_history H"
  shows "view_ok (e\<lparr>e_segments := segs, e_view := ToIntervals segs\<rparr>) H"
  using assms ToIntervals_Materialize [OF assms(2,1)] valid_ops_history unique_history
  by (auto simp: view_ok_def)

lemma restore_synced:
  assumes "covers (take v H) sn" "S_Strategy sn = e_strategy e" "valid_history H"
    "holds e (set (drop v H))" "isDefined (e_strategy e)" "e_version e = int (length H)"
  shows "synced H (restore clk sn (drop v H) e)"
proof -
  let ?e = "fold (record_op clk) (S_Ops sn) e"
  have H: "set (drop v H) \<union> set (take v H) = set H" by (metis append_take_drop_id set_append sup_commute)
  have "unique_ids (set H)" "valid_ops (drop v H)"
    using unique_history [OF assms(3)] valid_ops_history [OF assms(3), of "drop v H"] set_drop_subset [of v H]
    by blast+
  then have h: "holds ?e (set H)"
    using holds_records [OF assms(4), of "S_Ops sn" clk] assms(1) H by (simp add: covers_def)
  have "represents (e_strategy e) (restore_segments (e_strategy e) (drop v H) (S_Segments sn)) H"
    if lf: "e_strategy e = LWW \<or> e_strategy e = FWW"
    using restore_segments_represents [of "e_strategy e" "S_Segments sn" "take v H" "drop v H"]
      lf assms(1,2) \<open>unique_ids (set H)\<close> \<open>valid_ops (drop v H)\<close> H
    by (simp add: covers_def Un_commute)
  then show ?thesis
    using h assms(3,5,6) view_ok_segments [of ?e "restore_segments (e_strategy e) (drop v H) (S_Segments sn)" H]
    by (cases "e_strategy e") (simp_all add: synced_def known_def restore_def isDefined_def Let_def)
qed

definition can_open :: "('s \<Rightarrow> nat) \<Rightarrow> ('s \<Rightarrow> (rawjson \<times> version) option) \<Rightarrow> strategy \<Rightarrow> 's \<Rightarrow> bool" where
  "can_open base snap st s \<longleftrightarrow> base s = 0 \<or>
     (\<forall>j v sn. snap s = Some (Valid j, v) \<longrightarrow> get_snapshot j = Inr sn \<longrightarrow> S_Strategy sn = st)"

definition opened :: "op list \<Rightarrow> 'c engine \<Rightarrow> 'c engine \<Rightarrow> bool" where
  "opened H e0 e \<longleftrightarrow> synced H e \<and> e_version e = int (length H) \<and> e_strategy e = e_strategy e0 \<and>
     e_snapshotEvery e = e_snapshotEvery e0"

subsubsection \<open>Stamping and validation\<close>

definition stamped :: "op \<Rightarrow> op \<Rightarrow> bool" where
  "stamped o' p \<longleftrightarrow> (\<exists>ts. p = o'\<lparr>TS := ts\<rparr>) \<and> (TS o' \<noteq> 0 \<longrightarrow> p = o')"

lemma stamp_spec: "list_all2 stamped ops (fst (stamp clk ops c))"
proof (induction ops arbitrary: c)
  case (Cons o' ops)
  have "\<exists>ts. o' = o'\<lparr>TS := ts\<rparr>" by (rule exI [of _ "TS o'"]) simp
  then show ?case
    using Cons.IH [of c] Cons.IH [of "snd (Tick clk c)"]
    by (auto simp: stamped_def Let_def split: prod.split)
qed simp

lemma stamped_props: "stamped o' p \<Longrightarrow> ID p = ID o' \<and> (valid_op o' \<longrightarrow> valid_op p)"
  by (auto simp: stamped_def valid_op_iff)

lemma stamps_props:
  "list_all2 stamped ops ops' \<Longrightarrow> map ID ops' = map ID ops \<and> (list_all valid_op ops \<longrightarrow> list_all valid_op ops')"
  by (induction rule: list_all2_induct) (auto dest: stamped_props)

lemma validateOps_None: "validateOps ops = None \<longleftrightarrow> list_all valid_op ops"
  by (induction ops) (auto simp: valid_op_def split: option.split)

lemma unseen_history:
  assumes "synced H e" "valid_history H" "list_all valid_op ops" "distinct (map ID ops)"
    "e_version e = int (length H)" "list_all2 stamped (unseen e ops) fresh"
  shows "valid_history (H @ fresh)"
proof -
  have k: "known e H = H" using assms(5) by (simp add: known_def)
  have "ID o' \<notin> ID ` set H" if "o' \<in> set (unseen e ops)" for o'
    using that assms(1) k by (auto simp: unseen_def synced_def holds_def)
  moreover have "list_all valid_op (unseen e ops)" "distinct (map ID (unseen e ops))"
    using assms(3,4) by (auto simp: unseen_def list_all_iff distinct_map inj_on_def)
  moreover have "ID ` set fresh = ID ` set (unseen e ops)"
    using stamps_props [OF assms(6)] by (metis set_map)
  ultimately have "ID ` set fresh \<inter> ID ` set H = {}" "list_all valid_op fresh" "distinct (map ID fresh)"
    using stamps_props [OF assms(6)] by auto
  then show ?thesis using assms(2) by (auto simp: valid_history_def)
qed

lemma synced_mono: "synced H e \<Longrightarrow> synced (H @ ext) e"
  by (simp add: synced_def known_def)

lemma seen_iff:
  assumes "synced H e"
  shows "map_of (e_ops e) k = None \<longleftrightarrow> k \<notin> ID ` set (known e H)"
proof (cases "map_of (e_ops e) k")
  case None
  have "k \<noteq> ID o'" if "o' \<in> set (known e H)" for o'
    using that None assms by (auto simp: synced_def holds_def)
  then show ?thesis using None by blast
next
  case (Some p)
  then show ?thesis using assms by (auto simp: synced_def holds_def)
qed

lemma unseen_Nil:
  assumes "synced H e" "unseen e ops = []"
  shows "ID ` set ops \<subseteq> ID ` set (known e H)"
proof
  fix k assume "k \<in> ID ` set ops"
  then obtain p where "map_of (e_ops e) k = Some p"
    using assms(2) by (auto simp: unseen_def filter_empty_conv)
  then show "k \<in> ID ` set (known e H)" using assms(1) by (auto simp: synced_def holds_def)
qed

lemma seen_or_fresh:
  assumes "synced H e" "list_all2 stamped (unseen e ops) fresh"
  shows "ID ` set ops \<subseteq> ID ` (set (known e H) \<union> set fresh)"
proof
  fix k assume "k \<in> ID ` set ops"
  then obtain o' where o': "o' \<in> set ops" "k = ID o'" by blast
  have ids: "ID ` set fresh = ID ` set (unseen e ops)"
    using stamps_props [OF assms(2)] by (metis set_map)
  show "k \<in> ID ` (set (known e H) \<union> set fresh)"
  proof (cases "map_of (e_ops e) k")
    case None
    then have "k \<in> ID ` set (unseen e ops)" using o' by (auto simp: unseen_def)
    then show ?thesis using ids by blast
  next
    case (Some p)
    then show ?thesis using assms(1) by (auto simp: synced_def holds_def)
  qed
qed

lemma distinct_opsList:
  assumes "holds e O'"
  shows "distinct (map ID (opsList e))"
proof -
  have "ID o' = k" if "(k, o') \<in> set (e_ops e)" for k o'
  proof -
    have "map_of (e_ops e) k = Some o'" using that assms by (simp add: holds_def)
    then show ?thesis using assms by (simp only: holds_def)
  qed
  then have "map ID (map snd (e_ops e)) = map fst (e_ops e)" by auto
  moreover have "mset (map ID (opsList e)) = mset (map ID (map snd (e_ops e)))"
    unfolding opsList_def mset_map mset_sort_slice ..
  ultimately show ?thesis using assms by (metis holds_def mset_eq_imp_distinct_iff)
qed

interpretation id_order: weak_less "\<lambda>a b. ID a < ID b" "\<lambda>_. True"
  by unfold_locales auto

lemma opsList_unique:
  assumes "holds e1 O'" "holds e2 O'" "unique_ids O'"
  shows "opsList e1 = opsList e2"
proof -
  have s: "set (opsList e1) = O'" "set (opsList e2) = O'" using assms set_opsList by blast+
  have "distinct (opsList e1)" "distinct (opsList e2)"
    using distinct_opsList [OF assms(1)] distinct_opsList [OF assms(2)] by (auto simp: distinct_map)
  then have "mset (map snd (e_ops e1)) = mset (map snd (e_ops e2))"
    using s by (metis mset_sort_slice opsList_def set_eq_iff_mset_eq_distinct)
  moreover have "set (map snd (e_ops e1)) = O'" using s(1) by (simp add: opsList_def)
  ultimately show ?thesis
    using assms(3) unfolding opsList_def unique_ids_def inj_on_def
    by (intro id_order.sort_slice_cong) (auto simp: not_less intro: antisym)
qed

text \<open>A replica: an engine that knows all of the history its store holds.\<close>

definition replica :: "('s \<Rightarrow> bool) \<Rightarrow> ('s \<Rightarrow> nat) \<Rightarrow> ('s \<Rightarrow> op list) \<Rightarrow> ('s \<Rightarrow> (rawjson \<times> version) option) \<Rightarrow>
    op list \<Rightarrow> 'c engine \<Rightarrow> 's \<Rightarrow> bool" where
  "replica ok base tail snap H e s \<longleftrightarrow>
     ok s \<and> store_holds base tail snap H s \<and> synced H e \<and> e_version e = int (length H)"

lemma replicaD:
  assumes "replica ok base tail snap H e s"
  shows "valid_history H" "synced H e" "known e H = H" "holds e (set H)"
  using assms by (auto simp: replica_def store_holds_def synced_def known_def)

lemma replica_view:
  assumes "replica ok base tail snap H e s"
  shows "fst (engine_Materialize e) = Materialize (e_strategy e) H" "set (engine_Ops e) = set H"
  using engine_Materialize_view [OF replicaD(2,1) [OF assms]] set_opsList replicaD(3,4) [OF assms]
  by (simp_all add: engine_Ops_def)

lemma replicas_agree:
  assumes "replica ok1 base1 tail1 snap1 H1 e1 s1" "replica ok2 base2 tail2 snap2 H2 e2 s2"
    "set H1 = set H2" "e_strategy e1 = e_strategy e2"
  shows "fst (engine_Materialize e1) = fst (engine_Materialize e2)" "engine_Ops e1 = engine_Ops e2"
proof -
  note vh = replicaD(1) [OF assms(1)]
  have "Materialize st H1 = Materialize st H2" for st
    by (rule Materialize_cong [OF valid_ops_history [OF vh] unique_history [OF vh] assms(3)]) simp_all
  then show "fst (engine_Materialize e1) = fst (engine_Materialize e2)"
    using replica_view(1) [OF assms(1)] replica_view(1) [OF assms(2)] assms(4) by simp
  have "holds e1 (set H1)" "holds e2 (set H1)" "unique_ids (set H1)"
    using replicaD(4) [OF assms(1)] replicaD(4) [OF assms(2)] assms(3) unique_history [OF vh] by simp_all
  then show "engine_Ops e1 = engine_Ops e2" unfolding engine_Ops_def by (rule opsList_unique)
qed

locale engine_log = snapshot_contract lg inv base tail snap storable sn fits
  for lg :: "('s, op) Log" and inv base tail snap storable sn fits
begin

abbreviation holds_history :: "op list \<Rightarrow> 's \<Rightarrow> bool" where
  "holds_history \<equiv> store_holds base tail snap"

lemma Read_history:
  assumes "inv s" "holds_history H s" "base s \<le> nat v \<or> (base s = 0)"
  shows "Read lg v s = Inr (drop (nat v) H, int (length H))"
  using assms Read_law [of s v] by (auto simp: store_holds_def)

lemma loadSnapshot_eq:
  assumes "inv s"
  shows "loadSnapshot lg s = (case snap s of
      None \<Rightarrow> Inl (StoreErr ErrSnapshotNotFound)
    | Some (Invalid _, v) \<Rightarrow> Inl (BadSnapshot UnexpectedEnd)
    | Some (Valid j, v) \<Rightarrow> (case get_snapshot j of
        Inl err \<Rightarrow> Inl (BadSnapshot err) | Inr sn \<Rightarrow> Inr (sn\<lparr>S_Version := v\<rparr>)))"
  using Load_law [OF assms]
  by (auto simp: loadSnapshot_def Snapshotter_law split: option.split rawjson.split sum.split)

lemma fresh_synced:
  assumes "valid_history H" "isDefined (e_strategy e)" "e_ops e = []" "\<not> e_dirty e"
  shows "synced H (materializeAll (fold (record_op clk) H (e\<lparr>e_version := int (length H)\<rparr>)))"
proof -
  have "holds (e\<lparr>e_version := int (length H)\<rparr>) {}" using assms(3) by (simp add: holds_def)
  from holds_records [OF this, of H clk] unique_history [OF assms(1)]
  have "holds (fold (record_op clk) H (e\<lparr>e_version := int (length H)\<rparr>)) (set H)" by simp
  from view_ok_materializeAll [OF this assms(1)] this show ?thesis
    using assms(2,4) by (simp add: synced_def known_def)
qed

text \<open>
  Opening a store rebuilds the engine from the snapshot and the rest of the log, or from the log
  alone; the result is the same. A compacted store has to be opened with the strategy of
  its snapshot.
\<close>

lemma reload_from_log:
  assumes "inv s" "holds_history H s" "isDefined (e_strategy e0)" "e_ops e0 = []" "\<not> e_dirty e0" "base s = 0"
    "snap s = None \<or> (\<exists>j v sn. snap s = Some (Valid j, v) \<and> get_snapshot j = Inr sn \<and> S_Strategy sn \<noteq> e_strategy e0)"
  shows "\<exists>e. reload lg clk e0 s = Inr e \<and> opened H e0 e"
proof -
  have "Read lg 0 s = Inr (H, int (length H))" using Read_history [OF assms(1,2), of 0] assms(6) by simp
  then have "reload lg clk e0 s =
      Inr (materializeAll (fold (record_op clk) H (e0\<lparr>e_version := int (length H)\<rparr>)))"
    using assms(7) loadSnapshot_eq [OF assms(1)] by (auto simp: reload_def Let_def)
  moreover have "valid_history H" using assms(2) by (simp add: store_holds_def)
  ultimately show ?thesis using fresh_synced [of H e0 clk] assms(3-5) by (simp add: opened_def)
qed

lemma reload_from_snapshot:
  assumes "inv s" "holds_history H s" "isDefined (e_strategy e0)" "e_ops e0 = []"
    "snap s = Some (Valid j, v)" "get_snapshot j = Inr sh" "S_Strategy sh = e_strategy e0"
  shows "\<exists>e. reload lg clk e0 s = Inr e \<and> opened H e0 e"
proof -
  have vh: "valid_history H" and "snap_ok H (Valid j) v" using assms(2,5) by (auto simp: store_holds_def)
  have "base s \<le> nat v" using Snap_range [OF assms(1,5)] by linarith
  then have rd: "Read lg v s = Inr (drop (nat v) H, int (length H))"
    using Read_history [OF assms(1,2)] by simp
  let ?e = "fold (record_op clk) (drop (nat v) H) (e0\<lparr>e_version := int (length H)\<rparr>)"
  let ?r = "restore clk (sh\<lparr>S_Version := v\<rparr>) (drop (nat v) H) ?e"
  have "holds (e0\<lparr>e_version := int (length H)\<rparr>) {}" using assms(4) by (simp add: holds_def)
  from holds_records [OF this, of "drop (nat v) H" clk] unique_history [OF vh, of "drop (nat v) H"]
  have h: "holds ?e (set (drop (nat v) H))" by (simp add: set_drop_subset)
  have cov: "covers (take (nat v) H) (sh\<lparr>S_Version := v\<rparr>)"
    using \<open>snap_ok H (Valid j) v\<close> assms(6) by (auto simp: snap_ok_def covers_def)
  have "synced H ?r"
    by (rule restore_synced [OF cov _ vh h]) (use assms(3,7) in auto)
  moreover have "reload lg clk e0 s = Inr ?r"
    using assms(5-7) rd loadSnapshot_eq [OF assms(1)] by (simp add: reload_def Let_def)
  moreover have "e_version ?r = int (length H) \<and> e_strategy ?r = e_strategy e0 \<and>
      e_snapshotEvery ?r = e_snapshotEvery e0"
    by (auto simp: restore_def Let_def split: strategy.split)
  ultimately show ?thesis by (simp add: opened_def)
qed

lemma Open_synced:
  assumes "inv s" "holds_history H s" "isDefined st" "can_open base snap st s"
  shows "\<exists>e. engine_Open lg clk st dflt opts s = Inr e \<and> synced H e \<and> e_version e = int (length H) \<and>
      e_strategy e = st \<and> e_snapshotEvery e = cfg_SnapshotEvery (apply_options opts dflt)"
proof -
  define e0 where "e0 = \<lparr>e_strategy = st, e_clock = cfg_Clock (apply_options opts dflt),
      e_snapshotEvery = cfg_SnapshotEvery (apply_options opts dflt), e_ops = [],
      e_view = [], e_segments = [], e_adds = [], e_removes = [], e_version = 0, e_since = 0, e_dirty = False\<rparr>"
  have e0: "isDefined (e_strategy e0)" "e_ops e0 = []" "\<not> e_dirty e0" "e_strategy e0 = st"
    "e_snapshotEvery e0 = cfg_SnapshotEvery (apply_options opts dflt)"
    using assms(3) by (simp_all add: e0_def)
  have "\<exists>e. reload lg clk e0 s = Inr e \<and> opened H e0 e"
  proof (cases "snap s")
    case None
    then show ?thesis using reload_from_log [OF assms(1,2) e0(1-3)] Snap_base [OF assms(1)] by blast
  next
    case (Some dv)
    then obtain j sn v where sv: "snap s = Some (Valid j, v)" "get_snapshot j = Inr sn"
      using assms(2) by (cases dv) (auto simp: store_holds_def snap_ok_def)
    show ?thesis
    proof (cases "S_Strategy sn = st")
      case True
      then have "S_Strategy sn = e_strategy e0" using e0 by simp
      then show ?thesis by (rule reload_from_snapshot [OF assms(1,2) e0(1,2) sv])
    next
      case False
      then have "base s = 0" using assms(4) sv unfolding can_open_def by blast
      then show ?thesis using reload_from_log [OF assms(1,2) e0(1-3)] sv False e0 by blast
    qed
  qed
  then show ?thesis using assms(3) e0 by (auto simp: engine_Open_def e0_def opened_def Let_def)
qed


lemma holds_history_Append:
  assumes "inv s" "holds_history H s" "valid_history (H @ fresh)" "list_all storable fresh" "v = int (length H)"
  shows "\<exists>s'. Append lg v fresh s = (None, s') \<and> inv s' \<and> base s' = base s \<and> holds_history (H @ fresh) s'"
proof -
  have "v = int (base s + length (tail s))" using assms(2,5) by (auto simp: store_holds_def)
  from Append_law [OF assms(1) this assms(4)] assms(2,3) show ?thesis
    by (auto simp: store_holds_def snap_ok_def)
qed

lemma Snapshot_history:
  assumes "inv s" "holds_history H s" "synced H e" "fits (e_version e) (snapshot_data (ensureView e))"
  shows "\<exists>s'. engine_snapshot lg e s = (None, (ensureView e)\<lparr>e_since := 0\<rparr>, s') \<and> inv s' \<and>
      base s' = base s \<and> holds_history H s'"
proof -
  have vh: "valid_history H" using assms(2) by (simp add: store_holds_def)
  have v: "0 \<le> e_version e" "e_version e \<le> int (base s + length (tail s))"
    using assms(2,3) by (auto simp: store_holds_def synced_def)
  have "snap_ok H (snapshot_data (ensureView e)) (e_version e)"
    using snapshot_covers [of "ensureView e" "known e H"] synced_view [OF assms(3) vh] assms(3)
      valid_history_take [OF vh]
    by (auto simp: snap_ok_def synced_def known_def)
  then show ?thesis
    using Save_law [OF assms(1,4) v] assms(2)
    by (auto simp: engine_snapshot_def Let_def Snapshotter_law store_holds_def)
qed

definition roomy :: "'c engine \<Rightarrow> bool" where
  "roomy e \<longleftrightarrow> e_snapshotEvery e \<le> 0 \<or> (\<forall>v d. fits v d)"

lemma fold_history:
  assumes "inv s" "holds_history (H @ fresh) s" "synced H e" "e_version e = int (length H)" "roomy e"
  shows "\<exists>e' s'. engine_fold lg clk fresh e s = (None, e', s') \<and> inv s' \<and> base s' = base s \<and>
      holds_history (H @ fresh) s' \<and> opened (H @ fresh) e e'"
proof -
  let ?e = "fold (record_op clk) fresh e"
  let ?f = "?e\<lparr>e_dirty := True, e_version := e_version ?e + int (length fresh),
      e_since := e_since ?e + int (length fresh)\<rparr>"
  have "unique_ids (set H \<union> set fresh)"
    using assms(2) unique_history [of "H @ fresh" "H @ fresh"] by (simp add: store_holds_def)
  then have "opened (H @ fresh) e ?f"
    using assms(3,4) holds_records [of e "set H" fresh clk]
    by (simp add: opened_def synced_def known_def nat_add_distrib)
  then show ?thesis
  proof (cases "e_snapshotEvery ?f > 0 \<and> e_since ?f \<ge> e_snapshotEvery ?f")
    case True
    then have "fits (e_version ?f) (snapshot_data (ensureView ?f))" using assms(5) by (simp add: roomy_def)
    from Snapshot_history [OF assms(1,2) _ this] \<open>opened (H @ fresh) e ?f\<close>
      synced_view(2) [of "H @ fresh" ?f] assms(2) True show ?thesis
      by (auto simp: engine_fold_def Let_def opened_def store_holds_def synced_def known_def)
  next
    case False
    then have "engine_fold lg clk fresh e s = (None, ?f, s)" by (auto simp: engine_fold_def Let_def)
    then show ?thesis using \<open>opened (H @ fresh) e ?f\<close> assms(1,2) by blast
  qed
qed

lemma catchUp_history:
  assumes "inv s" "holds_history (H @ ext) s" "synced H e" "base s \<le> nat (e_version e)"
  shows "\<exists>e'. catchUp lg clk e s = (None, e') \<and> opened (H @ ext) e e'"
proof -
  let ?n = "nat (e_version e)"
  have rd: "Read lg (e_version e) s = Inr (drop ?n (H @ ext), int (length (H @ ext)))"
    using Read_history [OF assms(1,2)] assms(4) by simp
  have k: "set (known e H) \<union> set (drop ?n (H @ ext)) = set (H @ ext)"
  proof -
    have "take ?n (H @ ext) = known e H" using assms(3) by (simp add: synced_def known_def)
    then show ?thesis by (metis append_take_drop_id set_append)
  qed
  moreover have "unique_ids (set (H @ ext))"
    using assms(2) unique_history [of "H @ ext" "H @ ext"] by (simp add: store_holds_def)
  ultimately have "holds (fold (record_op clk) (drop ?n (H @ ext)) e) (set (H @ ext))"
    using assms(3) holds_records [of e "set (known e H)" "drop ?n (H @ ext)" clk]
    by (simp add: synced_def del: drop_append)
  then show ?thesis
    using rd assms(3)
    by (simp add: catchUp_def opened_def synced_def known_def nat_add_distrib del: drop_append)
qed


subsubsection \<open>Applying a batch\<close>

text \<open>
  What the other writers may do between two calls of the engine: extend the history, save
  snapshots of it, but not compact.
\<close>

definition env_ok :: "(nat \<Rightarrow> 's \<Rightarrow> 's) \<Rightarrow> bool" where
  "env_ok env \<longleftrightarrow> (\<forall>k s H. inv s \<longrightarrow> holds_history H s \<longrightarrow>
     (\<exists>ext. inv (env k s) \<and> holds_history (H @ ext) (env k s) \<and> base (env k s) = base s))"

definition batch_ok :: "op list \<Rightarrow> bool" where
  "batch_ok ops \<longleftrightarrow> list_all valid_op ops \<and> distinct (map ID ops) \<and>
     (\<forall>o'\<in>set ops. \<forall>ts. storable (o'\<lparr>TS := ts\<rparr>))"

lemma batch_storable:
  assumes "batch_ok ops" "list_all2 stamped (unseen e ops) fresh"
  shows "list_all storable fresh"
proof -
  have "list_all2 stamped xs ys \<Longrightarrow> \<forall>x\<in>set xs. \<forall>ts. storable (x\<lparr>TS := ts\<rparr>) \<Longrightarrow> list_all storable ys" for xs ys
    by (induction rule: list_all2_induct) (auto simp: stamped_def)
  then show ?thesis using assms by (auto simp: batch_ok_def unseen_def)
qed

text \<open>An append at the current version succeeds and adds exactly the stamped unseen operations.\<close>

lemma append_current:
  assumes "inv s" "holds_history H s" "synced H e" "e_version e = int (length H)" "roomy e" "batch_ok ops"
    "fst (stamp clk (unseen e ops) (e_clock e)) = fresh" "unseen e ops \<noteq> []" "env (2 * attempt) s0 = s"
  shows "\<exists>e' s'. applyLocked lg clk env attempt ops e s0 = (None, e', s') \<and> inv s' \<and> base s' = base s \<and>
      holds_history (H @ fresh) s' \<and> opened (H @ fresh) e e'"
proof -
  obtain c where st: "stamp clk (unseen e ops) (e_clock e) = (fresh, c)" using assms(7) by (cases "stamp clk (unseen e ops) (e_clock e)") auto
  have al: "list_all2 stamped (unseen e ops) fresh" using stamp_spec assms(7) by metis
  have "valid_history H" using assms(2) by (simp add: store_holds_def)
  then have vh: "valid_history (H @ fresh)"
    using unseen_history [OF assms(3), of ops fresh] al assms(4,6) by (simp add: batch_ok_def)
  obtain s' where s': "Append lg (e_version e) fresh s = (None, s')" "inv s'" "base s' = base s"
      "holds_history (H @ fresh) s'"
    using holds_history_Append [OF assms(1,2) vh batch_storable [OF assms(6) al] assms(4)] by blast
  let ?e = "e\<lparr>e_clock := c\<rparr>"
  have "synced H ?e" "roomy ?e" using assms(3,5) by (simp_all add: synced_def known_def roomy_def)
  then obtain e' s'' where "engine_fold lg clk fresh ?e s' = (None, e', s'')" "inv s''" "base s'' = base s'"
      "holds_history (H @ fresh) s''" "opened (H @ fresh) ?e e'"
    using fold_history [OF s'(2,4), of ?e clk] assms(4) by auto
  then show ?thesis
    using s' st assms(8,9) by (subst applyLocked.simps) (simp add: Let_def opened_def)
qed

lemma conflict_stale:
  assumes "inv s" "holds_history H s" "v \<noteq> int (length H)"
  shows "Append lg v fresh s = (Some ErrVersionConflict, s)"
proof -
  have "base s + length (tail s) = length H" using assms(2) by (auto simp: store_holds_def)
  then show ?thesis using Append_conflict [OF assms(1)] assms(3) by simp
qed

definition outcome :: "op list \<Rightarrow> op list \<Rightarrow> 'c engine \<Rightarrow> 's \<Rightarrow> engine_error option \<times> 'c engine \<times> 's \<Rightarrow> bool" where
  "outcome H ops e s r \<longleftrightarrow> (case r of (err, e', s') \<Rightarrow>
     \<exists>ext. inv s' \<and> holds_history (H @ ext) s' \<and> base s' = base s \<and> synced (H @ ext) e' \<and>
       e_strategy e' = e_strategy e \<and>
       (err = None \<and> ID ` set ops \<subseteq> ID ` set (known e' (H @ ext)) \<or>
        err = Some (StoreErr ErrVersionConflict)))"

lemma outcome_extend:
  assumes "outcome (H @ ext) ops e1 s1 r" "e_strategy e1 = e_strategy e" "base s1 = base s"
  shows "outcome H ops e s r"
proof -
  obtain err e' s' where r: "r = (err, e', s')" by (cases r)
  from assms obtain ext' where "inv s' \<and> holds_history (H @ (ext @ ext')) s' \<and> base s' = base s \<and>
      synced (H @ (ext @ ext')) e' \<and> e_strategy e' = e_strategy e \<and>
      (err = None \<and> ID ` set ops \<subseteq> ID ` set (known e' (H @ (ext @ ext'))) \<or>
       err = Some (StoreErr ErrVersionConflict))"
    by (auto simp: outcome_def r)
  then show ?thesis unfolding outcome_def r by blast
qed


lemma outcome_current:
  assumes "inv s" "holds_history H s" "synced H e" "e_version e = int (length H)" "roomy e" "batch_ok ops"
    "unseen e ops \<noteq> []" "env (2 * attempt) s0 = s"
  shows "outcome H ops e s (applyLocked lg clk env attempt ops e s0)"
proof -
  define fresh where "fresh = fst (stamp clk (unseen e ops) (e_clock e))"
  obtain e' s' where r: "applyLocked lg clk env attempt ops e s0 = (None, e', s')" "inv s'" "base s' = base s"
      "holds_history (H @ fresh) s'" "opened (H @ fresh) e e'"
    using append_current [OF assms(1-6) fresh_def [symmetric] assms(7), of env attempt s0] assms(8) by blast
  have "list_all2 stamped (unseen e ops) fresh" using stamp_spec fresh_def by metis
  then have "ID ` set ops \<subseteq> ID ` set (known e' (H @ fresh))"
    using seen_or_fresh [OF assms(3)] r(5) assms(4) by (simp add: known_def opened_def)
  then show ?thesis using r unfolding outcome_def opened_def by auto
qed

text \<open>A stale append conflicts: the engine catches up and retries, three times at most.\<close>

lemma stale_retry:
  assumes "inv s" "holds_history H s" "synced H e" "e_version e \<noteq> int (length H)" "base s \<le> nat (e_version e)"
    "unseen e ops \<noteq> []" "env_ok env" "env (2 * attempt) s0 = s" "attempt < 3"
  shows "\<exists>e' t ext. applyLocked lg clk env attempt ops e s0 = applyLocked lg clk env (Suc attempt) ops e' t \<and>
      t = env (2 * attempt + 1) s \<and> inv t \<and> holds_history (H @ ext) t \<and> base t = base s \<and> opened (H @ ext) e e'"
proof -
  obtain fresh c where st: "stamp clk (unseen e ops) (e_clock e) = (fresh, c)"
    by (cases "stamp clk (unseen e ops) (e_clock e)") auto
  let ?e = "e\<lparr>e_clock := c\<rparr>" and ?t = "env (2 * attempt + 1) s"
  obtain ext where t: "inv ?t" "holds_history (H @ ext) ?t" "base ?t = base s"
    using assms(1,2,7) unfolding env_ok_def by blast
  have "synced H ?e" using assms(3) by (simp add: synced_def known_def)
  then obtain e' where e': "catchUp lg clk ?e ?t = (None, e')" "opened (H @ ext) ?e e'"
    using catchUp_history [OF t(1,2)] assms(5) t(3) by fastforce
  moreover have "applyLocked lg clk env attempt ops e s0 = applyLocked lg clk env (Suc attempt) ops e' ?t"
    using assms(6,8,9) st conflict_stale [OF assms(1,2,4)] e'(1)
    by (subst applyLocked.simps) (simp add: Let_def)
  ultimately show ?thesis using t by (auto simp: opened_def)
qed

lemma stale_gives_up:
  assumes "inv s" "holds_history H s" "synced H e" "e_version e \<noteq> int (length H)"
    "unseen e ops \<noteq> []" "env (2 * attempt) s0 = s" "3 \<le> attempt"
  shows "outcome H ops e s (applyLocked lg clk env attempt ops e s0)"
proof -
  obtain fresh c where st: "stamp clk (unseen e ops) (e_clock e) = (fresh, c)"
    by (cases "stamp clk (unseen e ops) (e_clock e)") auto
  have "applyLocked lg clk env attempt ops e s0 = (Some (StoreErr ErrVersionConflict), e\<lparr>e_clock := c\<rparr>, s)"
    using assms(5-7) st conflict_stale [OF assms(1,2,4)] by (subst applyLocked.simps) (simp add: Let_def)
  then show ?thesis
    using assms(1-3) by (auto simp: outcome_def synced_def known_def intro!: exI [of _ "[]"])
qed

lemma applyLocked_outcome:
  assumes "inv s" "holds_history H s" "synced H e" "base s \<le> nat (e_version e)" "roomy e" "batch_ok ops"
    "env_ok env"
  shows "outcome H ops e s (applyLocked lg clk env attempt ops e s)"
  using assms(1-5)
proof (induction "3 - attempt" arbitrary: attempt H e s rule: less_induct)
  case less
  let ?s = "env (2 * attempt) s"
  obtain ext where s1: "inv ?s" "holds_history (H @ ext) ?s" "base ?s = base s"
    using assms(7) less.prems(1,2) unfolding env_ok_def by blast
  note e1 = synced_mono [OF less.prems(3), of ext]
  show ?case
  proof (cases "unseen e ops = []")
    case True
    then have "ID ` set ops \<subseteq> ID ` set (known e (H @ []))" using unseen_Nil [OF less.prems(3)] by simp
    then show ?thesis
      using True less.prems by (subst applyLocked.simps) (auto simp: outcome_def intro!: exI [of _ "[]"])
  next
    case new: False
    have "outcome (H @ ext) ops e ?s (applyLocked lg clk env attempt ops e s)"
    proof (cases "e_version e = int (length (H @ ext))")
      case True
      then show ?thesis
        using outcome_current [of ?s "H @ ext" e ops env attempt s] s1 e1 less.prems(5) assms(6) new by blast
    next
      case stale: False
      show ?thesis
      proof (cases "attempt < 3")
        case False
        then show ?thesis using stale_gives_up [OF s1(1,2) e1 stale new, of env attempt s] by simp
      next
        case True
        have "base ?s \<le> nat (e_version e)" using less.prems(4) s1(3) by simp
        then obtain e' t ext2 where r:
            "applyLocked lg clk env attempt ops e s = applyLocked lg clk env (Suc attempt) ops e' t"
            "inv t" "holds_history ((H @ ext) @ ext2) t" "base t = base ?s" "opened ((H @ ext) @ ext2) e e'"
          using stale_retry [OF s1(1,2) e1 stale _ new assms(7), of attempt s] True by blast
        have "outcome ((H @ ext) @ ext2) ops e' t (applyLocked lg clk env (Suc attempt) ops e' t)"
        proof (rule less.hyps)
          show "3 - Suc attempt < 3 - attempt" using True by simp
          show "base t \<le> nat (e_version e')" "synced ((H @ ext) @ ext2) e'" "roomy e'"
            using r less.prems(5) by (auto simp: opened_def store_holds_def roomy_def)
        qed (use r in auto)
        then show ?thesis
          unfolding r(1) by (rule outcome_extend) (use r in \<open>simp_all add: opened_def\<close>)
      qed
    qed
    then show ?thesis using outcome_extend s1(3) by blast
  qed
qed


text \<open>With no other writer a batch always succeeds: what the log gains is the stamped new operations.\<close>

definition news :: "op list \<Rightarrow> op list \<Rightarrow> op list \<Rightarrow> bool" where
  "news H ops fresh \<longleftrightarrow> list_all2 stamped (filter (\<lambda>o'. ID o' \<notin> ID ` set H) ops) fresh"

lemma alone_current:
  assumes "inv s" "holds_history H s" "synced H e" "e_version e = int (length H)" "roomy e" "batch_ok ops"
  shows "\<exists>e' s' fresh. applyLocked lg clk (\<lambda>_ s. s) attempt ops e s = (None, e', s') \<and> inv s' \<and> base s' = base s \<and>
      holds_history (H @ fresh) s' \<and> opened (H @ fresh) e e' \<and> news H ops fresh"
proof -
  have k: "known e H = H" using assms(4) by (simp add: known_def)
  have u: "unseen e ops = filter (\<lambda>o'. ID o' \<notin> ID ` set H) ops"
    by (simp add: unseen_def seen_iff [OF assms(3)] k)
  show ?thesis
  proof (cases "unseen e ops = []")
    case True
    then show ?thesis
      using assms u by (subst applyLocked.simps) (auto simp: opened_def news_def intro!: exI [of _ "[]"])
  next
    case False
    then show ?thesis
      using append_current [OF assms refl False, of "\<lambda>_ s. s" attempt s] stamp_spec [of "unseen e ops" clk "e_clock e"]
      unfolding news_def u by blast
  qed
qed

lemma apply_alone:
  assumes "inv s" "holds_history H s" "synced H e" "base s \<le> nat (e_version e)" "roomy e" "batch_ok ops"
  shows "\<exists>e' s' fresh. applyLocked lg clk (\<lambda>_ s. s) 0 ops e s = (None, e', s') \<and> inv s' \<and>
      holds_history (H @ fresh) s' \<and> synced (H @ fresh) e' \<and> e_strategy e' = e_strategy e \<and> news H ops fresh"
proof (cases "unseen e ops = [] \<or> e_version e = int (length H)")
  case True
  then show ?thesis
  proof
    assume "unseen e ops = []"
    moreover from this have "filter (\<lambda>o'. ID o' \<notin> ID ` set H) ops = []"
      using unseen_Nil [OF assms(3)] image_mono [OF set_take_subset, of ID "nat (e_version e)" H]
      unfolding known_def filter_empty_conv by blast
    ultimately show ?thesis
      using assms(1-3) by (subst applyLocked.simps) (auto simp: news_def intro!: exI [of _ "[]"])
  next
    assume "e_version e = int (length H)"
    from alone_current [OF assms(1-3) this assms(5,6), of clk 0] show ?thesis by (auto simp: opened_def)
  qed
next
  case False
  have env: "env_ok (\<lambda>_ s. s)" by (auto simp: env_ok_def intro!: exI [of _ "[]"])
  obtain e' ext where r: "applyLocked lg clk (\<lambda>_ s. s) 0 ops e s = applyLocked lg clk (\<lambda>_ s. s) (Suc 0) ops e' s"
      "holds_history (H @ ext) s" "opened (H @ ext) e e'"
    using stale_retry [OF assms(1-3) _ assms(4) _ env, where ops = ops and attempt = 0 and clk = clk] False by auto
  have "ext = []" using r(2) assms(2) by (auto simp: store_holds_def)
  then have "synced H e'" "e_version e' = int (length H)" "roomy e'"
    using r(3) assms(5) by (auto simp: opened_def roomy_def)
  from alone_current [OF assms(1,2) this assms(6), of clk "Suc 0"] r(1,3) show ?thesis
    by (auto simp: opened_def)
qed


abbreviation is_replica :: "op list \<Rightarrow> 'c engine \<Rightarrow> 's \<Rightarrow> bool" where
  "is_replica \<equiv> replica inv base tail snap"

lemma ApplyAll_replica:
  assumes "is_replica H e s" "roomy e" "batch_ok ops"
  shows "\<exists>e' s' fresh. engine_ApplyAll lg clk (\<lambda>_ s. s) ops e s = (None, e', s') \<and>
      is_replica (H @ fresh) e' s' \<and> e_strategy e' = e_strategy e \<and> news H ops fresh"
proof (cases "ops = []")
  case True
  then show ?thesis using assms(1) by (auto simp: engine_ApplyAll_def news_def intro!: exI [of _ "[]"])
next
  case False
  have "validateOps ops = None" using assms(3) validateOps_None by (simp add: batch_ok_def)
  then show ?thesis
    using False alone_current [of s H e ops clk 0] assms
    by (auto simp: engine_ApplyAll_def engine_apply_def replica_def opened_def)
qed

lemma news_all_stamped:
  assumes "news H ops fresh" "\<forall>o'\<in>set ops. TS o' \<noteq> 0"
  shows "fresh = filter (\<lambda>o'. ID o' \<notin> ID ` set H) ops"
proof -
  have "list_all2 stamped xs ys \<Longrightarrow> \<forall>x\<in>set xs. TS x \<noteq> 0 \<Longrightarrow> ys = xs" for xs ys
    by (induction rule: list_all2_induct) (auto simp: stamped_def)
  then show ?thesis using assms by (auto simp: news_def)
qed

text \<open>Anti-entropy: handing a replica the operations of another makes it know both histories.\<close>

lemma exchange:
  assumes "is_replica H e s" "roomy e" "batch_ok ops" "\<forall>o'\<in>set ops. TS o' \<noteq> 0" "unique_ids (set H \<union> set ops)"
  shows "\<exists>e' s' H'. engine_ApplyAll lg clk (\<lambda>_ s. s) ops e s = (None, e', s') \<and> is_replica H' e' s' \<and>
      set H' = set H \<union> set ops \<and> e_strategy e' = e_strategy e"
proof -
  obtain e' s' fresh where r: "engine_ApplyAll lg clk (\<lambda>_ s. s) ops e s = (None, e', s')"
      "is_replica (H @ fresh) e' s'" "e_strategy e' = e_strategy e" "news H ops fresh"
    using ApplyAll_replica [OF assms(1-3)] by blast
  have "set fresh = {o'\<in>set ops. ID o' \<notin> ID ` set H}"
    using news_all_stamped [OF r(4) assms(4)] by simp
  moreover have "o' \<in> set H" if "o' \<in> set ops" "ID o' \<in> ID ` set H" for o'
    using that assms(5) by (auto simp: unique_ids_def inj_on_def)
  ultimately have "set (H @ fresh) = set H \<union> set ops" by auto
  then show ?thesis using r by blast
qed

lemma Ops_batch:
  assumes "replica ok' base' tail' snap' H e s" "\<And>o' ts. storable (o'\<lparr>TS := ts\<rparr>)"
  shows "batch_ok (engine_Ops e)"
proof -
  have "set (engine_Ops e) = set H" by (rule replica_view(2) [OF assms(1)])
  moreover have "distinct (map ID (engine_Ops e))"
    using assms(1) distinct_opsList by (auto simp: replica_def synced_def engine_Ops_def)
  ultimately show ?thesis
    using assms by (auto simp: batch_ok_def replica_def store_holds_def valid_history_def list_all_iff)
qed

end

locale engine_compaction = compaction_contract lg inv base tail snap storable sn fits cp
  for lg :: "('s, op) Log" and inv base tail snap storable sn fits cp

sublocale engine_compaction < engine_log lg inv base tail snap storable sn fits
  by unfold_locales

context engine_compaction
begin

lemma Compact_history:
  assumes "inv s" "holds_history H s" "synced H e" "base s \<le> nat (e_version e)"
    "fits (e_version e) (snapshot_data (ensureView e))"
  shows "\<exists>s'. engine_Compact lg e s = (None, (ensureView e)\<lparr>e_since := 0\<rparr>, s') \<and> inv s' \<and>
      base s' = nat (e_version e) \<and> holds_history H s' \<and> can_open base snap (e_strategy e) s'"
proof -
  have vh: "valid_history H" using assms(2) by (simp add: store_holds_def)
  have v: "int (base s) \<le> e_version e" "e_version e \<le> int (base s + length (tail s))"
    using assms(2-4) by (auto simp: store_holds_def synced_def)
  obtain j where j: "snapshot_data (ensureView e) = Valid j" "get_snapshot j = Inr (buildSnapshot (ensureView e))"
      "covers (known e H) (buildSnapshot (ensureView e))"
    using snapshot_covers [of "ensureView e" "known e H"] synced_view [OF assms(3) vh] assms(3)
      valid_history_take [OF vh]
    by (auto simp: synced_def known_def)
  have "S_Strategy (buildSnapshot (ensureView e)) = e_strategy e"
    by (simp add: buildSnapshot_def Let_def split: strategy.split)
  then show ?thesis
    using Compact_law [OF assms(1,5) v] assms(2-4) j vh
    by (auto simp: engine_Compact_def Let_def Compactor_law store_holds_def synced_def snap_ok_def
        known_def can_open_def)
qed

end

subsection \<open>The two stores\<close>

interpretation mem_engine: engine_log mem_log mem_inv "\<lambda>_. 0" mem_ops mem_snap "\<lambda>_. True"
    mem_snapshotter "\<lambda>_ _. True"
  by unfold_locales

interpretation jsonl_engine: engine_compaction "jsonl_log (quiet J)" "jsonl_inv (quiet J)"
    "jsonl_base (quiet J)" "jsonl_tail (quiet J)" "jsonl_snap (quiet J)" "jsonl_storable (quiet J)"
    "jsonl_snapshotter (quiet J)" "jsonl_fits (quiet J)" "jsonl_compactor (quiet J)"
  for J :: "op jsonl_env"
  by unfold_locales

end
