(* ===== verification/Box_Replica.thy ===== *)
theory Box_Replica
  imports Box_Tracking Range_Replica
begin

section \<open>Replicas of a box history\<close>

text \<open>
  The correctness of the n-D engine against the contracts of its store. A history is the list of all operations
  ever appended (\<open>box_history\<close>: valid, of one dimension, one operation per identifier, none after its own
  retraction). \<open>in_step n H e\<close> says that the engine knows exactly the history \<open>H\<close> and that its cached view
  is right for it; \<open>box_store_holds\<close> that a store holds \<open>H\<close>, whatever it has compacted, with a snapshot
  that is right for the operations it covers. The locale \<open>box_engine_log\<close> proves that opening, applying,
  catching up and snapshotting keep the two together, for every store that meets the contract.
\<close>

subsection \<open>Engines in step with a history\<close>

definition in_step :: "nat \<Rightarrow> box_op list \<Rightarrow> 'c box_engine \<Rightarrow> bool" where
  "in_step n H e \<longleftrightarrow> distinct (map fst (be_ops e)) \<and> (\<forall>(i, o')\<in>set (be_ops e). i = BO_ID o') \<and>
     mset (map snd (be_ops e)) = mset H \<and> be_version e = int (length H) \<and>
     (be_dims e = int n \<or> H = [] \<and> be_dims e = -1) \<and> tracks_view n H e \<and> metas_ok e"

lemma in_step_ids: "in_step n H e \<Longrightarrow> fst ` set (be_ops e) = BO_ID ` set H"
proof -
  assume s: "in_step n H e"
  then have "fst ` set (be_ops e) = BO_ID ` snd ` set (be_ops e)" by (force simp: in_step_def image_image)
  also have "snd ` set (be_ops e) = set H" using s mset_eq_setD [of "map snd (be_ops e)" H] by (simp add: in_step_def)
  finally show ?thesis .
qed

lemma in_step_unseen:
  assumes "in_step n H e"
  shows "be_unseen e ops = filter (\<lambda>o'. BO_ID o' \<notin> BO_ID ` set H) ops"
  using in_step_ids [OF assms] by (auto simp: be_unseen_def map_of_eq_None_iff intro!: filter_cong)

lemma in_step_set:
  assumes "in_step n H e"
  shows "set (be_opsList e) = set H" "mset (be_opsList e) = mset H"
  using assms mset_eq_setD [of "map snd (be_ops e)" H] by (simp_all add: in_step_def be_opsList_def)

lemma update_fresh: "k \<notin> fst ` set xs \<Longrightarrow> AList.update k v xs = xs @ [(k, v)]"
  by (induction xs) auto

text \<open>Learning one more operation of the history.\<close>

lemma be_learn_fields [simp]:
  "be_strategy (be_learn clk o' e) = be_strategy e" "be_since (be_learn clk o' e) = be_since e"
  "be_version (be_learn clk o' e) = be_version e" "be_dims (be_learn clk o' e) = be_dims e"
  "be_snapshotEvery (be_learn clk o' e) = be_snapshotEvery e"
  "be_ops (be_learn clk o' e) = AList.update (BO_ID o') o' (be_ops e)"
  by (simp_all add: be_learn_def be_record_def)

lemma tracks_view_cong:
  "tracks_view n H (be_record clk o' e) = tracks_view n H e"
  "tracks_view n H (e\<lparr>be_version := v\<rparr>) = tracks_view n H e"
  "tracks_view n H (e\<lparr>be_clock := c\<rparr>) = tracks_view n H e"
  "tracks_view n H (e\<lparr>be_since := k\<rparr>) = tracks_view n H e"
  "tracks_view n H (e\<lparr>be_dims := d\<rparr>) = tracks_view n H e"
  by (simp_all add: tracks_view_def shows_ops_def be_record_def)

lemma metas_ok_cong:
  "metas_ok (be_record clk o' e) = metas_ok e"
  "metas_ok (e\<lparr>be_version := v\<rparr>) = metas_ok e" "metas_ok (e\<lparr>be_clock := c\<rparr>) = metas_ok e"
  "metas_ok (e\<lparr>be_since := k\<rparr>) = metas_ok e" "metas_ok (e\<lparr>be_dims := d\<rparr>) = metas_ok e"
  by (simp_all add: metas_ok_def be_record_def)

definition knows :: "nat \<Rightarrow> box_op list \<Rightarrow> 'c box_engine \<Rightarrow> bool" where
  "knows n H e \<longleftrightarrow> distinct (map fst (be_ops e)) \<and> (\<forall>(i, o')\<in>set (be_ops e). i = BO_ID o') \<and>
     mset (map snd (be_ops e)) = mset H \<and> tracks_view n H e \<and> metas_ok e"

lemma in_step_knows: "in_step n H e \<longleftrightarrow> knows n H e \<and> be_version e = int (length H) \<and>
    (be_dims e = int n \<or> H = [] \<and> be_dims e = -1)"
  by (auto simp: in_step_def knows_def)

lemma knows_ids: "knows n H e \<Longrightarrow> fst ` set (be_ops e) = BO_ID ` set H"
proof -
  assume s: "knows n H e"
  then have "fst ` set (be_ops e) = BO_ID ` snd ` set (be_ops e)" by (force simp: knows_def image_image)
  also have "snd ` set (be_ops e) = set H" using s mset_eq_setD [of "map snd (be_ops e)" H] by (simp add: knows_def)
  finally show ?thesis .
qed

lemma knows_learn:
  assumes "knows n H e" "box_history n (H @ [o'])"
  shows "knows n (H @ [o']) (be_learn clk o' e)"
proof -
  have "BO_ID o' \<notin> fst ` set (be_ops e)" using assms knows_ids [OF assms(1)] by auto
  then have "be_ops (be_learn clk o' e) = be_ops e @ [(BO_ID o', o')]" by (simp add: update_fresh)
  moreover have "tracks_view n (H @ [o']) (be_learn clk o' e)"
    unfolding be_learn_def using assms by (intro applyToView_tracks) (simp_all add: tracks_view_cong knows_def)
  moreover have "metas_ok (be_learn clk o' e)"
    unfolding be_learn_def using assms by (intro metas_ok_applyToView) (simp_all add: metas_ok_cong knows_def)
  ultimately show ?thesis using assms \<open>BO_ID o' \<notin> _\<close> by (auto simp: knows_def)
qed

lemma knows_learns:
  assumes "knows n H e" "box_history n (H @ G)"
  shows "knows n (H @ G) (fold (be_learn clk) G e)"
  using assms
proof (induction G arbitrary: H e)
  case (Cons o' G)
  have "box_history n ((H @ [o']) @ G)" using Cons.prems(2) by simp
  then have "box_history n (H @ [o'])" by (rule box_history_append)
  from knows_learn [OF Cons.prems(1) this] have "knows n (H @ [o']) (be_learn clk o' e)" .
  from Cons.IH [OF this] \<open>box_history n ((H @ [o']) @ G)\<close> show ?case by simp
qed simp

lemma be_learns_fields [simp]:
  "be_strategy (fold (be_learn clk) G e) = be_strategy e" "be_since (fold (be_learn clk) G e) = be_since e"
  "be_version (fold (be_learn clk) G e) = be_version e" "be_dims (fold (be_learn clk) G e) = be_dims e"
  "be_snapshotEvery (fold (be_learn clk) G e) = be_snapshotEvery e"
  by (induction G arbitrary: e) simp_all

lemma deriveDims_dims:
  assumes "knows n H e" "box_history n H" "H \<noteq> [] \<or> be_dims e = -1 \<or> be_dims e = int n"
  shows "be_dims (be_deriveDims e) = int n \<or> H = [] \<and> be_dims (be_deriveDims e) = -1"
proof (cases "be_ops e")
  case Nil
  then have "mset H = {#}" using assms(1) by (auto simp: knows_def)
  with Nil show ?thesis by (simp add: be_deriveDims_def)
next
  case (Cons p ps)
  then have "snd p \<in> set H" using assms(1) mset_eq_setD [of "map snd (be_ops e)" H] by (auto simp: knows_def)
  then have "Dims (BO_Box (snd p)) = n" using assms(2) by (auto simp: box_history_def good_bop_def)
  with Cons show ?thesis by (cases p) (simp add: be_deriveDims_def)
qed

text \<open>What the engine in step returns.\<close>

lemma knows_view:
  assumes "knows n H e" "box_history n H"
  shows "shows_ops n H (be_ensureView e)" "knows n H (be_ensureView e)"
proof -
  note gu = box_history_good [OF assms(2)] box_history_unique [OF assms(2)]
  have k: "mset (map snd (be_ops e)) = mset H" "tracks_view n H e" using assms(1) by (simp_all add: knows_def)
  show "shows_ops n H (be_ensureView e)" using ensureView_shows(1) [OF gu k] .
  have "mset (be_opsList e) = mset H" using k(1) by (simp add: be_opsList_def)
  then have "op_metas (be_opsList e)"
    using box_history_metas [OF assms(2)] mset_eq_setD by (fastforce simp: op_metas_def)
  moreover have "be_isDefined (be_strategy e)" "metas_ok e" using assms(1) by (simp_all add: knows_def tracks_view_def)
  ultimately have "metas_ok (be_ensureView e)" by (intro metas_ok_ensureView)
  then show "knows n H (be_ensureView e)" using ensureView_shows(2) [OF gu k] assms(1) by (simp add: knows_def)
qed

lemma in_step_Materialize:
  assumes "in_step n H e" "box_history n H"
  shows "map box_key (fst (be_Materialize e)) = map box_key (MaterializeMerged (be_strategy e) H merge)"
    and "all_good n (fst (be_Materialize e))"
    and "bcover (fst (be_Materialize e)) = box_view_span (be_strategy e) (effective (set H))"
    and "in_step n H (snd (be_Materialize e))"
proof -
  note gu = box_history_good [OF assms(2)] box_history_unique [OF assms(2)]
  have k: "knows n H e" using assms(1) by (simp add: in_step_knows)
  have s: "shows_ops n H (be_ensureView e)" using knows_view(1) [OF k assms(2)] .
  have v: "fst (be_Materialize e) = be_view (be_ensureView e)" by (simp add: be_Materialize_def Let_def)
  show keys: "map box_key (fst (be_Materialize e)) = map box_key (MaterializeMerged (be_strategy e) H merge)"
    using s MaterializeMerged_perm [OF gu refl, of _ "be_metaMerge e" merge] by (simp add: v shows_ops_def)
  show good: "all_good n (fst (be_Materialize e))" using s by (simp add: v shows_ops_def)
  have "all_good n (MaterializeMerged (be_strategy e) H merge)"
    using MaterializeMerged_spec(1) [OF gu] by (simp add: box_canonical_def)
  with good keys have "list_all2 (same_geo n) (fst (be_Materialize e)) (MaterializeMerged (be_strategy e) H merge)"
    using list_geo_keys by blast
  then have "bcover (fst (be_Materialize e)) = bcover (MaterializeMerged (be_strategy e) H merge)"
    using list_geo_bspan by (metis bcover_image)
  then show "bcover (fst (be_Materialize e)) = box_view_span (be_strategy e) (effective (set H))"
    using MaterializeMerged_spec(2) [OF gu] by simp
  show "in_step n H (snd (be_Materialize e))"
    using knows_view(2) [OF k assms(2)] assms(1) by (simp add: in_step_knows be_Materialize_def Let_def)
qed

subsection \<open>Snapshots\<close>

definition box_snap_ok :: "nat \<Rightarrow> box_op list \<Rightarrow> box_snapshot \<Rightarrow> bool" where
  "box_snap_ok n H sn \<longleftrightarrow> mset (BSn_Ops sn) = mset H \<and> be_isDefined (BSn_Strategy sn) \<and>
     (BSn_Strategy sn = BAdditiveWins \<longrightarrow> tracks n (BSn_Adds sn) H BKindAdd \<and> tracks n (BSn_Removes sn) H BKindRemove) \<and>
     (BSn_Strategy sn = BGrowOnly \<longrightarrow> tracks n (BSn_Boxes sn) H BKindAdd) \<and>
     metas (BSn_Boxes sn) \<and> metas (BSn_Adds sn) \<and> metas (BSn_Removes sn)"

definition decodes_to :: "rawjson \<Rightarrow> box_snapshot \<Rightarrow> bool" where
  "decodes_to d sn \<longleftrightarrow> (\<exists>j. d = Valid j \<and> get_bsnapshot j = Inr sn)"

lemma bstrategy_codec:
  "be_isDefined s \<Longrightarrow> \<exists>t. BStrategy_MarshalText s = Inr t \<and> get_text BStrategy_UnmarshalText z (JStr t) = Inr s"
  by (auto simp: be_isDefined_def BStrategy_MarshalText_def BStrategy_String_def BStrategy_UnmarshalText_def
      BStrategy_Parse_def bnames_def)

lemma box_codec: "good_box n b \<Longrightarrow> meta_ok (Meta b) \<Longrightarrow> \<exists>j. put_box b = Some j \<and> get_box j = Inr b"
  using put_get_box good_box_floats by blast

lemma bop_codec: "good_bop n o' \<Longrightarrow> meta_ok (Meta (BO_Box o')) \<Longrightarrow> \<exists>j. put_bop o' = Some j \<and> get_bop j = Inr o'"
  using get_put_bop [of o'] good_bop_box [of n o'] good_bop_kind [of n o'] unfolding storable_bop_def by blast

lemma boxes_codec:
  assumes "all_good n bs" "metas bs"
  obtains js where "put_list put_box bs = Some (JArr js)" "get_list get_box (JArr js) = Inr bs"
proof -
  have "\<exists>j. put_box b = Some j \<and> get_box j = Inr b" if "b \<in> set bs" for b
    using assms that box_codec [of n b] by (simp add: all_good_def metas_def)
  from get_put_list [OF this] show ?thesis using that by blast
qed

lemma get_put_bsnapshot:
  assumes "be_isDefined (BSn_Strategy sn)" "all_good n (BSn_Boxes sn)" "metas (BSn_Boxes sn)"
    "all_good n (BSn_Adds sn)" "metas (BSn_Adds sn)" "all_good n (BSn_Removes sn)" "metas (BSn_Removes sn)"
    "\<forall>o'\<in>set (BSn_Ops sn). good_bop n o' \<and> meta_ok (Meta (BO_Box o'))"
  shows "\<exists>j. put_bsnapshot sn = Some j \<and> get_bsnapshot j = Inr sn"
proof -
  obtain t where t: "BStrategy_MarshalText (BSn_Strategy sn) = Inr t"
      "get_text BStrategy_UnmarshalText BLWW (JStr t) = Inr (BSn_Strategy sn)"
    using bstrategy_codec [OF assms(1), of BLWW] by blast
  obtain bs where bs: "put_list put_box (BSn_Boxes sn) = Some (JArr bs)" "get_list get_box (JArr bs) = Inr (BSn_Boxes sn)"
    using boxes_codec [OF assms(2,3)] .
  obtain as where as: "put_list put_box (BSn_Adds sn) = Some (JArr as)" "get_list get_box (JArr as) = Inr (BSn_Adds sn)"
    using boxes_codec [OF assms(4,5)] .
  obtain rs where rs: "put_list put_box (BSn_Removes sn) = Some (JArr rs)" "get_list get_box (JArr rs) = Inr (BSn_Removes sn)"
    using boxes_codec [OF assms(6,7)] .
  obtain os where os: "put_list put_bop (BSn_Ops sn) = Some (JArr os)" "get_list get_bop (JArr os) = Inr (BSn_Ops sn)"
    using get_put_list [of "BSn_Ops sn" put_bop get_bop] bop_codec assms(8) by blast
  have nil: "get_list get JNull = Inr []" for get :: "json \<Rightarrow> json_error + 'b" by (simp add: get_list_def)
  show ?thesis
    using t bs as rs os
    by (auto simp: put_bsnapshot_def get_bsnapshot_def get_field_def omit_if_def nil simp del: get_text.simps)
qed

text \<open>The snapshot an engine in step writes decodes to itself and is right for the history.\<close>

lemma snapshot_ok:
  assumes "knows n H e" "box_history n H"
  shows "decodes_to (be_snapshot_data (be_ensureView e)) (be_buildSnapshot (be_ensureView e))"
    and "box_snap_ok n H (be_buildSnapshot (be_ensureView e))"
proof -
  let ?e = "be_ensureView e"
  note kv = knows_view [OF assms]
  have s: "shows_ops n H ?e" "be_isDefined (be_strategy e)" "metas_ok ?e"
    using kv assms(1) by (simp_all add: knows_def tracks_view_def)
  have m: "mset (be_opsList ?e) = mset H" using kv(2) by (simp add: knows_def be_opsList_def)
  have ops: "\<forall>o'\<in>set (be_opsList ?e). good_bop n o' \<and> meta_ok (Meta (BO_Box o'))"
    using assms(2) mset_eq_setD [OF m] by (simp add: box_history_def)
  show "box_snap_ok n H (be_buildSnapshot ?e)"
    using s m by (auto simp: box_snap_ok_def be_buildSnapshot_def Let_def shows_ops_def metas_ok_def)
  have "\<exists>j. put_bsnapshot (be_buildSnapshot ?e) = Some j \<and> get_bsnapshot j = Inr (be_buildSnapshot ?e)"
    using s ops by (intro get_put_bsnapshot [of _ n])
      (auto simp: be_buildSnapshot_def Let_def shows_ops_def metas_ok_def intro: tracks_good)
  then show "decodes_to (be_snapshot_data ?e) (be_buildSnapshot ?e)"
    by (auto simp: decodes_to_def be_snapshot_data_def)
qed

definition box_store_holds :: "('s \<Rightarrow> nat) \<Rightarrow> ('s \<Rightarrow> box_op list) \<Rightarrow> ('s \<Rightarrow> (rawjson \<times> version) option) \<Rightarrow>
    nat \<Rightarrow> box_op list \<Rightarrow> 's \<Rightarrow> bool" where
  "box_store_holds base tail snap n H s \<longleftrightarrow> box_history n H \<and> base s \<le> length H \<and> tail s = drop (base s) H \<and>
     (\<forall>d v. snap s = Some (d, v) \<longrightarrow> (\<exists>sn. decodes_to d sn \<and> box_snap_ok n (take (nat v) H) sn))"

text \<open>A store that has dropped operations can be opened with the strategy of its snapshot only.\<close>

definition box_can_open :: "('s \<Rightarrow> nat) \<Rightarrow> ('s \<Rightarrow> (rawjson \<times> version) option) \<Rightarrow> box_strategy \<Rightarrow> 's \<Rightarrow> bool" where
  "box_can_open base snap st s \<longleftrightarrow>
     (base s = 0 \<or> (\<forall>d v sn. snap s = Some (d, v) \<longrightarrow> decodes_to d sn \<longrightarrow> BSn_Strategy sn = st))"

subsection \<open>Rebuilding an engine\<close>

lemma be_records:
  assumes "distinct (map BO_ID G)" "fst ` set (be_ops e) \<inter> BO_ID ` set G = {}"
  shows "be_ops (fold (be_record clk) G e) = be_ops e @ map (\<lambda>o'. (BO_ID o', o')) G"
  using assms
proof (induction G arbitrary: e)
  case (Cons o' G)
  have ops: "be_ops (be_record clk o' e) = be_ops e @ [(BO_ID o', o')]"
    using Cons.prems(2) by (simp add: be_record_def update_fresh)
  have "fst ` set (be_ops (be_record clk o' e)) \<inter> BO_ID ` set G = {}"
    using Cons.prems by (auto simp: ops)
  from Cons.IH [OF _ this] Cons.prems(1) show ?case by (simp add: ops)
qed simp

lemma be_records_fields [simp]:
  "be_strategy (fold (be_record clk) G e) = be_strategy e" "be_since (fold (be_record clk) G e) = be_since e"
  "be_version (fold (be_record clk) G e) = be_version e" "be_dims (fold (be_record clk) G e) = be_dims e"
  "be_snapshotEvery (fold (be_record clk) G e) = be_snapshotEvery e"
  "be_dirty (fold (be_record clk) G e) = be_dirty e" "be_view (fold (be_record clk) G e) = be_view e"
  "be_canonicalize (fold (be_record clk) G e) = be_canonicalize e"
  "be_metaMerge (fold (be_record clk) G e) = be_metaMerge e"
  by (induction G arbitrary: e) (simp_all add: be_record_def)

lemma fold_applyToView:
  assumes "tracks_view n H e" "metas_ok e" "box_history n (H @ G)"
  shows "tracks_view n (H @ G) (fold be_applyToView G e)" "metas_ok (fold be_applyToView G e)"
    "be_ops (fold be_applyToView G e) = be_ops e" "be_version (fold be_applyToView G e) = be_version e"
    "be_strategy (fold be_applyToView G e) = be_strategy e" "be_dims (fold be_applyToView G e) = be_dims e"
    "be_snapshotEvery (fold be_applyToView G e) = be_snapshotEvery e"
proof -
  have "tracks_view n (H @ G) (fold be_applyToView G e) \<and> metas_ok (fold be_applyToView G e) \<and>
      be_ops (fold be_applyToView G e) = be_ops e \<and> be_version (fold be_applyToView G e) = be_version e \<and>
      be_strategy (fold be_applyToView G e) = be_strategy e \<and> be_dims (fold be_applyToView G e) = be_dims e \<and>
      be_snapshotEvery (fold be_applyToView G e) = be_snapshotEvery e"
    using assms
  proof (induction G arbitrary: H e)
    case (Cons o' G)
    have h: "box_history n ((H @ [o']) @ G)" using Cons.prems(3) by simp
    then have h1: "box_history n (H @ [o'])" by (rule box_history_append)
    have "tracks_view n (H @ [o']) (be_applyToView o' e)" by (rule applyToView_tracks [OF Cons.prems(1) h1])
    moreover have "metas_ok (be_applyToView o' e)"
      using Cons.prems(2) h1 by (intro metas_ok_applyToView) simp_all
    ultimately show ?case using Cons.IH [of "H @ [o']" "be_applyToView o' e"] h by simp
  qed simp
  then show "tracks_view n (H @ G) (fold be_applyToView G e)" "metas_ok (fold be_applyToView G e)"
    "be_ops (fold be_applyToView G e) = be_ops e" "be_version (fold be_applyToView G e) = be_version e"
    "be_strategy (fold be_applyToView G e) = be_strategy e" "be_dims (fold be_applyToView G e) = be_dims e"
    "be_snapshotEvery (fold be_applyToView G e) = be_snapshotEvery e" by blast+
qed

text \<open>A blank engine, and one that holds the operations of a history but no view yet.\<close>

definition blank :: "'c box_engine \<Rightarrow> bool" where
  "blank e \<longleftrightarrow> be_ops e = [] \<and> \<not> be_dirty e \<and> be_canonicalize e = None \<and> merge_ok (be_metaMerge e) \<and>
     be_isDefined (be_strategy e) \<and> be_dims e = -1"

definition has_ops :: "box_op list \<Rightarrow> 'c box_engine \<Rightarrow> bool" where
  "has_ops H e \<longleftrightarrow> distinct (map fst (be_ops e)) \<and> (\<forall>(i, o')\<in>set (be_ops e). i = BO_ID o') \<and>
     mset (map snd (be_ops e)) = mset H"

lemma has_ops_rebuild:
  assumes "has_ops H e" "box_history n H" "be_canonicalize e = None" "merge_ok (be_metaMerge e)" "be_isDefined (be_strategy e)"
  shows "knows n H (be_materializeAll e)"
proof -
  note gu = box_history_good [OF assms(2)] box_history_unique [OF assms(2)]
  have m: "mset (map snd (be_ops e)) = mset H" using assms(1) by (simp add: has_ops_def)
  then have "mset (be_opsList e) = mset H" by (simp add: be_opsList_def)
  then have "op_metas (be_opsList e)"
    using box_history_metas [OF assms(2)] mset_eq_setD by (fastforce simp: op_metas_def)
  then have "metas_ok (be_materializeAll e)" using assms(3-5) by (intro metas_ok_materializeAll(1))
  moreover have "tracks_view n H (be_materializeAll e)"
    using materializeAll_shows [OF gu m assms(3,5)] assms(3,5) by (simp add: tracks_view_def)
  ultimately show ?thesis using assms(1) by (simp add: knows_def has_ops_def)
qed

lemma has_ops_records:
  assumes "blank e" "mset G = mset H" "box_history n H"
  shows "has_ops H (fold (be_record clk) G (e\<lparr>be_version := v\<rparr>))"
proof -
  have "distinct (map BO_ID H)" using assms(3) causal_distinct by (simp add: box_history_def)
  then have d: "distinct (map BO_ID G)" using assms(2) by (metis mset_eq_imp_distinct_iff mset_map)
  have "be_ops (fold (be_record clk) G (e\<lparr>be_version := v\<rparr>)) = map (\<lambda>o'. (BO_ID o', o')) G"
    using be_records [OF d, of "e\<lparr>be_version := v\<rparr>"] assms(1) by (simp add: blank_def)
  then show ?thesis using d assms(2) by (auto simp: has_ops_def comp_def)
qed

lemma restore_knows:
  assumes b: "blank e" and H: "box_history n H" and k: "k \<le> length H"
    and sn: "box_snap_ok n (take k H) sn" "BSn_Strategy sn = be_strategy e"
  shows "knows n H (be_restore clk sn (drop k H) (fold (be_record clk) (drop k H) (e\<lparr>be_version := v\<rparr>)))"
    (is "knows n H (be_restore clk sn ?D ?e1)")
proof -
  let ?e2 = "fold (be_record clk) (BSn_Ops sn) ?e1"
  have ms: "mset (BSn_Ops sn) = mset (take k H)" using sn by (simp add: box_snap_ok_def)
  have e2: "?e2 = fold (be_record clk) (?D @ BSn_Ops sn) (e\<lparr>be_version := v\<rparr>)" by simp
  have "mset (?D @ BSn_Ops sn) = mset H"
    using ms by (metis add.commute append_take_drop_id mset_append)
  then have ho: "has_ops H ?e2" unfolding e2 using has_ops_records [OF b _ H] by blast
  have c: "be_canonicalize ?e2 = None" "merge_ok (be_metaMerge ?e2)" "be_isDefined (be_strategy ?e2)" "\<not> be_dirty ?e2"
    using b by (simp_all add: blank_def)
  have split: "box_history n (take k H @ ?D)" "box_history n (take k H)"
    using H box_history_append [of n "take k H" ?D] by simp_all
  note gu = box_history_good [OF split(2)] box_history_unique [OF split(2)]
  have finish: "knows n H (fold be_applyToView ?D e3)"
    if e3: "tracks_view n (take k H) e3" "metas_ok e3" "be_ops e3 = be_ops ?e2" for e3
    using fold_applyToView [OF e3(1,2) split(1)] ho e3(3) by (simp add: knows_def has_ops_def)
  show ?thesis
  proof (cases "be_strategy e")
    case BAdditiveWins
    let ?e3 = "?e2\<lparr>be_adds := BSn_Adds sn, be_removes := BSn_Removes sn\<rparr>"
    let ?e4 = "be_setView (DifferenceMerged (be_adds ?e3) (be_removes ?e3) (be_metaMerge ?e3)) ?e3"
    have t: "tracks n (BSn_Adds sn) (take k H) BKindAdd" "tracks n (BSn_Removes sn) (take k H) BKindRemove"
      using sn BAdditiveWins by (simp_all add: box_snap_ok_def)
    have "tracks_view n (take k H) ?e4"
      using c BAdditiveWins t tracks_difference [OF gu BAdditiveWins t]
      by (simp add: tracks_view_def shows_ops_def be_isDefined_def)
    moreover have "metas_ok ?e4"
      using c BAdditiveWins sn metas_DifferenceMerged [OF c(2)]
      by (simp add: metas_ok_def box_snap_ok_def)
    ultimately show ?thesis
      using finish [of ?e4] BAdditiveWins by (simp add: be_restore_def Let_def)
  next
    case BGrowOnly
    let ?e3 = "?e2\<lparr>be_adds := BSn_Boxes sn\<rparr>"
    let ?e4 = "be_setView (be_adds ?e3) ?e3"
    have t: "tracks n (BSn_Boxes sn) (take k H) BKindAdd" using sn BGrowOnly by (simp add: box_snap_ok_def)
    have "tracks_view n (take k H) ?e4"
      using c BGrowOnly t tracks_union [OF gu(1) t] tracks_good [OF t]
      by (simp add: tracks_view_def shows_ops_def be_isDefined_def)
    moreover have "metas_ok ?e4" using c BGrowOnly sn by (simp add: metas_ok_def box_snap_ok_def)
    ultimately show ?thesis
      using finish [of ?e4] BGrowOnly by (simp add: be_restore_def Let_def)
  next
    case (BUnknownStrategy u)
    then show ?thesis using b by (simp add: blank_def be_isDefined_def)
  qed (use has_ops_rebuild [OF ho H c(1-3)] in \<open>simp_all add: be_restore_def Let_def\<close>)
qed

lemma be_restore_fields:
  "be_strategy (be_restore clk sn D e) = be_strategy e" "be_version (be_restore clk sn D e) = be_version e"
  "be_dims (be_restore clk sn D e) = be_dims e" "be_snapshotEvery (be_restore clk sn D e) = be_snapshotEvery e"
proof -
  have f: "be_strategy (fold be_applyToView D e) = be_strategy e" "be_version (fold be_applyToView D e) = be_version e"
    "be_dims (fold be_applyToView D e) = be_dims e" "be_snapshotEvery (fold be_applyToView D e) = be_snapshotEvery e" for e :: "'a box_engine"
    by (induction D arbitrary: e) simp_all
  show "be_strategy (be_restore clk sn D e) = be_strategy e" "be_version (be_restore clk sn D e) = be_version e"
    "be_dims (be_restore clk sn D e) = be_dims e" "be_snapshotEvery (be_restore clk sn D e) = be_snapshotEvery e"
    by (simp_all add: be_restore_def Let_def f split: box_strategy.split)
qed

subsection \<open>Stamping\<close>

definition bstamped :: "box_op \<Rightarrow> box_op \<Rightarrow> bool" where
  "bstamped o' p \<longleftrightarrow> p = o'\<lparr>BO_TS := BO_TS p\<rparr> \<and> (BO_TS o' \<noteq> 0 \<longrightarrow> p = o')"

lemma be_stamp_spec: "list_all2 bstamped ops (fst (be_stamp clk ops c))"
proof (induction ops arbitrary: c)
  case (Cons o' ops)
  obtain t c1 where t: "Tick clk c = (t, c1)" by (metis surj_pair)
  show ?case
    using Cons.IH [of c] Cons.IH [of c1] by (auto simp: Let_def t bstamped_def split: prod.split)
qed simp

lemma bstamped_props:
  assumes "bstamped o' p"
  shows "BO_ID p = BO_ID o'" "BO_Kind p = BO_Kind o'" "BO_Ref p = BO_Ref o'" "BO_Box p = BO_Box o'"
    "good_bop n p = good_bop n o'"
proof -
  obtain t where "p = o'\<lparr>BO_TS := t\<rparr>" using assms by (auto simp: bstamped_def)
  then show "BO_ID p = BO_ID o'" "BO_Kind p = BO_Kind o'" "BO_Ref p = BO_Ref o'" "BO_Box p = BO_Box o'"
    "good_bop n p = good_bop n o'" by (simp_all add: good_bop_def BOp_Validate_iff)
qed

lemma box_history_stamped:
  assumes "list_all2 bstamped G G'" "box_history n (H @ G)"
  shows "box_history n (H @ G')"
  using assms
proof (induction arbitrary: H rule: list_all2_induct)
  case (Cons o' os p ps)
  note st = bstamped_props [OF Cons.hyps(1)]
  have "box_history n ((H @ [o']) @ os)" using Cons.prems by simp
  then have os: "box_history n (H @ [o'])" by (rule box_history_append)
  have "box_history n ((H @ [p]) @ os)"
    using Cons.prems st by (auto simp: box_history_def)
  from Cons.IH [OF this] show ?case by simp
qed simp

subsection \<open>The engine on a store that meets the contract\<close>

locale box_engine_log = snapshot_contract lg inv base tail snap storable sn fits
  for lg :: "('s, box_op) Log" and inv base tail snap storable sn fits
begin

abbreviation holds_boxes :: "nat \<Rightarrow> box_op list \<Rightarrow> 's \<Rightarrow> bool" where
  "holds_boxes \<equiv> box_store_holds base tail snap"

lemma holds_top: "holds_boxes n H s \<Longrightarrow> base s + length (tail s) = length H"
  by (simp add: box_store_holds_def)

lemma Read_boxes:
  assumes "inv s" "holds_boxes n H s" "base s \<le> k"
  shows "Read lg (int k) s = Inr (drop k H, int (length H))"
  using Read_law [OF assms(1), of "int k"] assms(2,3) holds_top [OF assms(2)]
  by (simp add: box_store_holds_def)

lemma Open_in_step:
  assumes "inv s" "holds_boxes n H s" "blank e0" "box_can_open base snap (be_strategy e0) s"
  shows "\<exists>e. be_reload lg clk e0 s = Inr e \<and> in_step n H e \<and> be_strategy e = be_strategy e0 \<and>
    be_snapshotEvery e = be_snapshotEvery e0"
proof -
  have H: "box_history n H" using assms(2) by (simp add: box_store_holds_def)
  have b: "be_canonicalize e0 = None" "merge_ok (be_metaMerge e0)" "be_isDefined (be_strategy e0)" "be_dims e0 = -1"
    using assms(3) by (simp_all add: blank_def)
  have fin: "in_step n H (be_deriveDims e)"
    if "knows n H e" "be_version e = int (length H)" "be_dims e = -1" for e :: "'c box_engine"
    using that deriveDims_dims [OF that(1) H] that(1)
    by (auto simp: in_step_knows knows_def be_deriveDims_def tracks_view_cong metas_ok_cong)
  let ?r = "fold (be_record clk) H (e0\<lparr>be_version := int (length H)\<rparr>)"
  have whole: "knows n H (be_materializeAll ?r)"
    using has_ops_rebuild [OF has_ops_records [OF assms(3) refl H] H] b by simp
  have all: "Read lg 0 s = Inr (H, int (length H))" if "base s = 0"
    using Read_boxes [OF assms(1,2), of 0] that by simp
  have load: "LoadSnapshot sn s = (case snap s of None \<Rightarrow> Inl ErrSnapshotNotFound | Some dv \<Rightarrow> Inr dv)"
    using Load_law [OF assms(1)] .
  show ?thesis
  proof (cases "snap s")
    case None
    then have "base s = 0" using Snap_base [OF assms(1)] by auto
    with None all load have "be_reload lg clk e0 s = Inr (be_deriveDims (be_materializeAll ?r))"
      by (simp add: be_reload_def be_loadSnapshot_def Snapshotter_law)
    with fin [OF whole] b show ?thesis by (simp add: be_deriveDims_def)
  next
    case (Some dv)
    then obtain d v where dv: "snap s = Some (d, v)" by (cases dv) auto
    then obtain sp where sp: "decodes_to d sp" "box_snap_ok n (take (nat v) H) sp"
      using assms(2) by (auto simp: box_store_holds_def)
    from sp(1) have ld: "be_loadSnapshot lg s = Inr (sp\<lparr>BSn_Version := v\<rparr>)"
      using load dv by (auto simp: be_loadSnapshot_def Snapshotter_law decodes_to_def)
    have v: "int (base s) \<le> v" "v \<le> int (length H)"
      using Snap_range [OF assms(1) dv] holds_top [OF assms(2)] by auto
    show ?thesis
    proof (cases "BSn_Strategy sp = be_strategy e0")
      case True
      let ?e1 = "fold (be_record clk) (drop (nat v) H) (e0\<lparr>be_version := int (length H)\<rparr>)"
      let ?sp = "sp\<lparr>BSn_Version := v\<rparr>"
      have "Read lg v s = Inr (drop (nat v) H, int (length H))"
        using Read_boxes [OF assms(1,2), of "nat v"] v by simp
      then have r: "be_reload lg clk e0 s = Inr (be_deriveDims (be_restore clk ?sp (drop (nat v) H) ?e1))"
        using True ld by (simp add: be_reload_def Let_def)
      have "knows n H (be_restore clk ?sp (drop (nat v) H) ?e1)"
        using assms(3) H v sp(2) True by (intro restore_knows) (simp_all add: box_snap_ok_def)
      from fin [OF this] r b show ?thesis by (simp add: be_restore_fields be_deriveDims_def)
    next
      case False
      then have "base s = 0" using assms(4) dv sp(1) by (auto simp: box_can_open_def)
      with all False ld have "be_reload lg clk e0 s = Inr (be_deriveDims (be_materializeAll ?r))"
        by (simp add: be_reload_def Let_def)
      with fin [OF whole] b show ?thesis by (simp add: be_deriveDims_def)
    qed
  qed
qed

lemma Snapshot_boxes:
  assumes "inv s" "holds_boxes n H s" "in_step n H e" "fits (be_version e) (be_snapshot_data (be_ensureView e))"
  shows "\<exists>s'. be_snapshot lg e s = (None, (be_ensureView e)\<lparr>be_since := 0\<rparr>, s') \<and> inv s' \<and>
    base s' = base s \<and> holds_boxes n H s' \<and> in_step n H ((be_ensureView e)\<lparr>be_since := 0\<rparr>)"
proof -
  have H: "box_history n H" using assms(2) by (simp add: box_store_holds_def)
  have k: "knows n H e" "be_version e = int (length H)" using assms(3) by (simp_all add: in_step_knows)
  note so = snapshot_ok [OF k(1) H]
  have "\<exists>s'. SaveSnapshot sn (be_snapshot_data (be_ensureView e)) (be_version e) s = (None, s') \<and> inv s' \<and>
      base s' = base s \<and> tail s' = tail s \<and> (snap s' = Some (be_snapshot_data (be_ensureView e), be_version e) \<or>
        (\<exists>d' v'. snap s = Some (d', v') \<and> be_version e < v' \<and> snap s' = snap s))"
    using Save_law [OF assms(1,4)] k(2) holds_top [OF assms(2)] by simp
  then obtain s' where s': "SaveSnapshot sn (be_snapshot_data (be_ensureView e)) (be_version e) s = (None, s')"
      "inv s'" "base s' = base s" "tail s' = tail s"
      "snap s' = Some (be_snapshot_data (be_ensureView e), be_version e) \<or> snap s' = snap s" by blast
  have "holds_boxes n H s'"
    using assms(2) s'(3-5) so k(2) by (auto simp: box_store_holds_def)
  moreover have "in_step n H ((be_ensureView e)\<lparr>be_since := 0\<rparr>)"
    using knows_view(2) [OF k(1) H] assms(3)
    by (simp add: in_step_knows knows_def tracks_view_cong metas_ok_cong)
  ultimately show ?thesis using s' by (auto simp: be_snapshot_def Let_def Snapshotter_law)
qed

definition room :: "'c box_engine \<Rightarrow> bool" where
  "room e \<longleftrightarrow> be_snapshotEvery e \<le> 0 \<or> (\<forall>v d. fits v d)"

lemma fold_boxes:
  assumes "inv s" "holds_boxes n (H @ G) s" "in_step n H e" "be_dims e = int n" "room e"
  shows "\<exists>e' s'. be_fold lg clk G e s = (None, e', s') \<and> inv s' \<and> base s' = base s \<and> holds_boxes n (H @ G) s' \<and>
    in_step n (H @ G) e' \<and> be_strategy e' = be_strategy e \<and> be_dims e' = int n"
proof -
  let ?e = "fold (be_learn clk) G e"
  let ?f = "?e\<lparr>be_version := be_version ?e + int (length G), be_since := be_since ?e + int (length G)\<rparr>"
  have HG: "box_history n (H @ G)" using assms(2) by (simp add: box_store_holds_def)
  have "knows n (H @ G) ?e" using assms(3) HG by (intro knows_learns) (simp_all add: in_step_knows)
  then have f: "in_step n (H @ G) ?f"
    using assms(3,4) by (simp add: in_step_knows knows_def tracks_view_cong metas_ok_cong)
  show ?thesis
  proof (cases "be_snapshotEvery ?f > 0 \<and> be_since ?f \<ge> be_snapshotEvery ?f")
    case True
    then have "fits (be_version ?f) (be_snapshot_data (be_ensureView ?f))" using assms(5) by (simp add: room_def)
    from Snapshot_boxes [OF assms(1,2) f this] True assms(4) show ?thesis by (auto simp: be_fold_def Let_def)
  next
    case False
    then have "be_fold lg clk G e s = (None, ?f, s)" by (auto simp: be_fold_def Let_def)
    with f assms(1,2,4) show ?thesis by simp
  qed
qed

definition bbatch :: "nat \<Rightarrow> box_op list \<Rightarrow> box_op list \<Rightarrow> bool" where
  "bbatch n H ops \<longleftrightarrow> box_history n (H @ filter (\<lambda>o'. BO_ID o' \<notin> BO_ID ` set H) ops) \<and>
     (\<forall>o'\<in>set ops. \<forall>p. bstamped o' p \<longrightarrow> storable p)"

definition bnews :: "box_op list \<Rightarrow> box_op list \<Rightarrow> box_op list \<Rightarrow> bool" where
  "bnews H ops G \<longleftrightarrow> list_all2 bstamped (filter (\<lambda>o'. BO_ID o' \<notin> BO_ID ` set H) ops) G"

lemma applyLocked_stamped:
  assumes "inv s" "holds_boxes n H s" "in_step n H e" "be_dims e = int n" "room e" "bbatch n H ops"
    and env: "\<And>s. env (2 * attempt) s = s"
  shows "\<exists>e' s' G. be_applyLocked lg clk env attempt ops e s = (None, e', s') \<and>
    G = fst (be_stamp clk (filter (\<lambda>o'. BO_ID o' \<notin> BO_ID ` set H) ops) (be_clock e)) \<and> bnews H ops G \<and> inv s' \<and>
    base s' = base s \<and> holds_boxes n (H @ G) s' \<and> in_step n (H @ G) e' \<and> be_strategy e' = be_strategy e \<and> be_dims e' = int n"
proof -
  let ?fresh = "filter (\<lambda>o'. BO_ID o' \<notin> BO_ID ` set H) ops"
  have un: "be_unseen e ops = ?fresh" using in_step_unseen [OF assms(3)] .
  show ?thesis
  proof (cases "?fresh = []")
    case True
    then have "be_applyLocked lg clk env attempt ops e s = (None, e, s)"
      by (subst be_applyLocked.simps) (simp add: un)
    with True assms(1-4) show ?thesis by (intro exI [of _ e] exI [of _ s] exI [of _ "[]"]) (simp add: bnews_def)
  next
    case False
    obtain G c where st: "be_stamp clk ?fresh (be_clock e) = (G, c)" by (metis surj_pair)
    have G: "list_all2 bstamped ?fresh G" using be_stamp_spec [of ?fresh clk "be_clock e"] st by simp
    have HG: "box_history n (H @ G)" using box_history_stamped [OF G] assms(6) by (simp add: bbatch_def)
    have "\<forall>p\<in>set G. \<exists>o'\<in>set xs. bstamped o' p" if "list_all2 bstamped xs G" for xs G
      using that by (induction rule: list_all2_induct) auto
    then have sto: "list_all storable G" using G assms(6) by (fastforce simp: bbatch_def list_all_iff)
    let ?e = "e\<lparr>be_clock := c\<rparr>"
    have e: "in_step n H ?e" "be_dims ?e = int n" "room ?e"
      using assms(3-5) by (simp_all add: in_step_knows knows_def tracks_view_cong metas_ok_cong room_def)
    have ver: "be_version ?e = int (base s + length (tail s))"
      using assms(3) holds_top [OF assms(2)] by (simp add: in_step_knows)
    obtain s1 where s1: "Append lg (be_version ?e) G s = (None, s1)" "inv s1" "base s1 = base s"
        "tail s1 = tail s @ G" "snap s1 = snap s"
      using Append_law [OF assms(1) ver sto] by blast
    have "take (nat v) (H @ G) = take (nat v) H" if "snap s = Some (d, v)" for d v
      using Snap_range [OF assms(1) that] holds_top [OF assms(2)] by (simp add: nat_le_iff)
    then have h1: "holds_boxes n (H @ G) s1"
      using assms(2) s1(3-5) HG by (auto simp: box_store_holds_def) blast+
    obtain e' s' where r: "be_fold lg clk G ?e s1 = (None, e', s')" "inv s'" "base s' = base s1"
        "holds_boxes n (H @ G) s'" "in_step n (H @ G) e'" "be_strategy e' = be_strategy ?e" "be_dims e' = int n"
      using fold_boxes [OF s1(2) h1 e] by blast
    have "be_applyLocked lg clk env attempt ops e s = (None, e', s')"
      by (subst be_applyLocked.simps) (use False un st s1(1) r(1) env in \<open>simp add: Let_def\<close>)
    with G r s1(3) st show ?thesis unfolding bnews_def by auto
  qed
qed

lemma applyLocked_current:
  assumes "inv s" "holds_boxes n H s" "in_step n H e" "be_dims e = int n" "room e" "bbatch n H ops"
    and env: "\<And>s. env (2 * attempt) s = s"
  shows "\<exists>e' s' G. be_applyLocked lg clk env attempt ops e s = (None, e', s') \<and> bnews H ops G \<and> inv s' \<and>
    base s' = base s \<and> holds_boxes n (H @ G) s' \<and> in_step n (H @ G) e' \<and> be_strategy e' = be_strategy e \<and> be_dims e' = int n"
  using applyLocked_stamped [OF assms(1-6), of env attempt clk] env by blast

text \<open>An engine behind its log: the append conflicts, the engine catches up and the retry succeeds.\<close>

lemma catchUp_boxes:
  assumes "inv s" "holds_boxes n (H @ ext) s" "in_step n H e" "base s \<le> length H"
  shows "\<exists>e'. be_catchUp lg clk e s = (None, e') \<and> in_step n (H @ ext) e' \<and> be_strategy e' = be_strategy e \<and>
    be_snapshotEvery e' = be_snapshotEvery e \<and> (H @ ext \<noteq> [] \<longrightarrow> be_dims e' = int n)"
proof -
  let ?e = "(fold (be_learn clk) ext e)\<lparr>be_version := int (length (H @ ext))\<rparr>"
  have HG: "box_history n (H @ ext)" using assms(2) by (simp add: box_store_holds_def)
  have "Read lg (be_version e) s = Inr (ext, int (length (H @ ext)))"
    using Read_boxes [OF assms(1,2,4)] assms(3) by (simp add: in_step_knows)
  then have r: "be_catchUp lg clk e s = (None, be_deriveDims ?e)" by (simp add: be_catchUp_def)
  have k: "knows n (H @ ext) ?e"
    using knows_learns [of n H e ext clk] assms(3) HG
    by (simp add: in_step_knows knows_def tracks_view_cong metas_ok_cong)
  have d: "be_dims (be_deriveDims ?e) = int n \<or> H @ ext = [] \<and> be_dims (be_deriveDims ?e) = -1"
    using deriveDims_dims [OF k HG] assms(3) by (auto simp: in_step_knows)
  have "in_step n (H @ ext) (be_deriveDims ?e)"
    using k d by (auto simp: in_step_knows knows_def be_deriveDims_def tracks_view_cong metas_ok_cong)
  with r d show ?thesis by (auto simp: be_deriveDims_def)
qed

lemma applyLocked_stale:
  assumes "inv s" "holds_boxes n (H @ ext) s" "in_step n H e" "base s \<le> length H" "ext \<noteq> []" "room e"
    and "bbatch n (H @ ext) ops" "\<exists>o'\<in>set ops. BO_ID o' \<notin> BO_ID ` set H"
  shows "\<exists>e' s' G. be_applyLocked lg clk (\<lambda>_ s. s) 0 ops e s = (None, e', s') \<and> bnews (H @ ext) ops G \<and> inv s' \<and>
    base s' = base s \<and> holds_boxes n (H @ ext @ G) s' \<and> in_step n (H @ ext @ G) e' \<and> be_strategy e' = be_strategy e"
proof -
  let ?fresh = "filter (\<lambda>o'. BO_ID o' \<notin> BO_ID ` set H) ops"
  have un: "be_unseen e ops = ?fresh" "?fresh \<noteq> []"
    using in_step_unseen [OF assms(3)] assms(8) by (auto simp: filter_empty_conv)
  obtain G c where st: "be_stamp clk ?fresh (be_clock e) = (G, c)" by (metis surj_pair)
  let ?e = "e\<lparr>be_clock := c\<rparr>"
  have e: "in_step n H ?e" using assms(3) by (simp add: in_step_knows knows_def tracks_view_cong metas_ok_cong)
  have "be_version ?e \<noteq> int (base s + length (tail s))"
    using assms(3,5) holds_top [OF assms(2)] by (simp add: in_step_knows)
  then have ap: "Append lg (be_version ?e) G s = (Some ErrVersionConflict, s)" by (rule Append_conflict [OF assms(1)])
  obtain e1 where e1: "be_catchUp lg clk ?e s = (None, e1)" "in_step n (H @ ext) e1" "be_strategy e1 = be_strategy e"
      "be_snapshotEvery e1 = be_snapshotEvery e" "be_dims e1 = int n"
    using catchUp_boxes [OF assms(1,2) e assms(4)] assms(5) by auto
  have "room e1" using assms(6) e1(4) by (simp add: room_def)
  from applyLocked_current [OF assms(1,2) e1(2,5) this assms(7), of "\<lambda>_ s. s" "Suc 0" clk] e1(3)
  obtain e' s' G' where r: "be_applyLocked lg clk (\<lambda>_ s. s) (Suc 0) ops e1 s = (None, e', s')" "bnews (H @ ext) ops G'"
      "inv s'" "base s' = base s" "holds_boxes n ((H @ ext) @ G') s'" "in_step n ((H @ ext) @ G') e'" "be_strategy e' = be_strategy e"
    by auto
  have "be_applyLocked lg clk (\<lambda>_ s. s) 0 ops e s = (None, e', s')"
    by (subst be_applyLocked.simps) (use un st ap e1(1) r(1) in \<open>simp add: Let_def\<close>)
  with r show ?thesis by auto
qed

end

locale box_engine_compaction = compaction_contract lg inv base tail snap storable sn fits cp
  for lg :: "('s, box_op) Log" and inv base tail snap storable sn fits cp

sublocale box_engine_compaction < box_engine_log lg inv base tail snap storable sn fits
  by unfold_locales

context box_engine_compaction
begin

lemma Compact_boxes:
  assumes "inv s" "holds_boxes n H s" "in_step n H e" "fits (be_version e) (be_snapshot_data (be_ensureView e))"
  shows "\<exists>s'. be_Compact lg e s = (None, (be_ensureView e)\<lparr>be_since := 0\<rparr>, s') \<and> inv s' \<and> base s' = length H \<and>
    tail s' = [] \<and> holds_boxes n H s' \<and> box_can_open base snap (be_strategy e) s'"
proof -
  have H: "box_history n H" using assms(2) by (simp add: box_store_holds_def)
  have k: "knows n H e" "be_version e = int (length H)" using assms(3) by (simp_all add: in_step_knows)
  note so = snapshot_ok [OF k(1) H]
  have st: "BSn_Strategy (be_buildSnapshot (be_ensureView e)) = be_strategy e"
    by (simp add: be_buildSnapshot_def Let_def)
  have range: "int (base s) \<le> be_version e" "be_version e \<le> int (base s + length (tail s))"
    using k(2) holds_top [OF assms(2)] by simp_all
  obtain s' where s': "Compact cp (be_snapshot_data (be_ensureView e)) (be_version e) s = (None, s')" "inv s'"
      "base s' = length H" "tail s' = drop (length H - base s) (tail s)"
      "snap s' = Some (be_snapshot_data (be_ensureView e), be_version e)"
    using Compact_law [OF assms(1,4) range] k(2) by auto
  have "tail s' = []" using s'(4) assms(2) by (simp add: box_store_holds_def)
  moreover have "holds_boxes n H s'"
    using H so k(2) s'(3,5) \<open>tail s' = []\<close> by (auto simp: box_store_holds_def)
  moreover have "box_can_open base snap (be_strategy e) s'"
    using so(1) st s'(5) by (auto simp: box_can_open_def decodes_to_def)
  ultimately show ?thesis using s' by (auto simp: be_Compact_def Let_def Compactor_law)
qed

end

subsection \<open>The two stores\<close>

interpretation box_mem_engine: box_engine_log box_mem_log mem_inv "\<lambda>_. 0" mem_ops mem_snap "\<lambda>_. True"
    mem_snapshotter "\<lambda>_ _. True"
  by unfold_locales

interpretation box_jsonl_engine: box_engine_compaction "box_jsonl_log (bop_env fmtf)" "jsonl_inv (bop_env fmtf)"
    "jsonl_base (bop_env fmtf)" "jsonl_tail (bop_env fmtf)" "jsonl_snap (bop_env fmtf)"
    "jsonl_storable (bop_env fmtf)" "jsonl_snapshotter (bop_env fmtf)" "jsonl_fits (bop_env fmtf)"
    "jsonl_compactor (bop_env fmtf)" for fmtf
  by unfold_locales

subsection \<open>Batches\<close>

lemma be_validateOps_None: "be_validateOps ops = None \<longleftrightarrow> (\<forall>o'\<in>set ops. BOp_Validate o' = None)"
  by (induction ops) (auto split: option.split)

lemma be_ensureDims_ok:
  assumes "\<forall>o'\<in>set ops. Dims (BO_Box o') = n" "be_dims e = int n \<or> be_dims e = -1"
  shows "be_ensureDims ops e = (None, if ops = [] then e else e\<lparr>be_dims := int n\<rparr>)"
  using assms
proof (induction ops arbitrary: e)
  case (Cons o' ops)
  have "e\<lparr>be_dims := int n\<rparr> = e" if "be_dims e = int n" using that by simp
  with Cons.prems Cons.IH [of e] Cons.IH [of "e\<lparr>be_dims := int n\<rparr>"] show ?case
    by (cases "be_dims e = -1") (auto simp: Let_def)
qed simp

lemma in_step_dims: "in_step n H e \<Longrightarrow> in_step n H (e\<lparr>be_dims := int n\<rparr>)"
  by (simp add: in_step_knows knows_def tracks_view_cong metas_ok_cong)

lemma apply_dims:
  assumes "ops \<noteq> []" "\<forall>o'\<in>set ops. good_bop n o'" "in_step n H e"
  shows "be_ApplyAll lg clk env ops e s = be_applyLocked lg clk env 0 ops (e\<lparr>be_dims := int n\<rparr>) s"
proof -
  have "be_validateOps ops = None" using assms(2) by (simp add: be_validateOps_None good_bop_def)
  moreover have "be_ensureDims ops e = (None, e\<lparr>be_dims := int n\<rparr>)"
    using be_ensureDims_ok [of ops n e] assms by (auto simp: good_bop_def in_step_knows)
  ultimately show ?thesis using assms(1) by (simp add: be_ApplyAll_def be_apply_def)
qed

end
