(* ===== verification/Paths.thy ===== *)
theory Paths
  imports Box_Difference
begin

section \<open>Paths through boxes (space/path.go)\<close>

text \<open>
  The slab method and the traversal. This is the one place where the geometry does arithmetic, so the rounding
  matters: the definitions take the float operations as a parameter \<open>A\<close>. What \<open>Traverse\<close> promises about
  tiling \<open>[0, 1]\<close> holds for every choice, NaN results included; that a span is the part of the path inside the
  box is shown for exact arithmetic (\<open>exact\<close>).
\<close>

record float_ops =
  f_add :: "float64 \<Rightarrow> float64 \<Rightarrow> float64"
  f_sub :: "float64 \<Rightarrow> float64 \<Rightarrow> float64"
  f_mul :: "float64 \<Rightarrow> float64 \<Rightarrow> float64"
  f_div :: "float64 \<Rightarrow> float64 \<Rightarrow> float64"

subsection \<open>The source\<close>

record path =
  From :: "float64 list"
  To :: "float64 list"

definition NewPath :: "float64 list \<Rightarrow> float64 list \<Rightarrow> path" where
  "NewPath from to = \<lparr>From = from, To = to\<rparr>"

definition Path_Dims :: "path \<Rightarrow> nat" where
  "Path_Dims p = length (From p)"

definition validateEnd :: "float64 \<Rightarrow> box_error option" where
  "validateEnd v = (if IsNaN v then Some BErrNaN else if IsInf v then Some BErrInfinite else None)"

definition Path_Validate :: "path \<Rightarrow> box_error option" where
  "Path_Validate p =
     (if length (From p) \<noteq> length (To p) then Some ErrDimensions
      else if length (From p) = 0 then Some ErrNoDimensions
      else first_error validateEnd (concat (map (\<lambda>i. [From p ! i, To p ! i]) [0..<length (From p)])))"

definition Path_Point :: "float_ops \<Rightarrow> path \<Rightarrow> float64 \<Rightarrow> float64 list" where
  "Path_Point A p t =
     map (\<lambda>i. f_add A (From p ! i) (f_mul A t (f_sub A (To p ! i) (From p ! i)))) [0..<length (From p)]"

record span =
  SStart :: float64
  SEnd :: float64

definition Span_Empty :: "span \<Rightarrow> bool" where
  "Span_Empty s = f_le (SEnd s) (SStart s)"

definition entryExit :: "float_ops \<Rightarrow> float64 \<Rightarrow> float64 \<Rightarrow> float64 \<Rightarrow> float64 \<Rightarrow> bound \<Rightarrow> bound \<Rightarrow>
    float64 \<times> float64 \<times> bool" where
  "entryExit A from to lo hi loB hiB =
     (let d = f_sub A to from
      in if f_eq d (Fin 0) then (Fin 0, Fin 1, inInterval from lo hi loB hiB)
         else if f_lt (Fin 0) d then (f_div A (f_sub A lo from) d, f_div A (f_sub A hi from) d, True)
         else (f_div A (f_sub A hi from) d, f_div A (f_sub A lo from) d, True))"

fun span_loop :: "float_ops \<Rightarrow> path \<Rightarrow> box \<Rightarrow> nat list \<Rightarrow> float64 \<Rightarrow> float64 \<Rightarrow> (float64 \<times> float64) option" where
  "span_loop A p b [] start fin = Some (start, fin)"
| "span_loop A p b (i # is) start fin =
     (case entryExit A (From p ! i) (To p ! i) (BMin b ! i) (BMax b ! i) (loBound b i) (hiBound b i) of
        (entry, exit, ok) \<Rightarrow>
          if \<not> ok then None
          else span_loop A p b is (if f_lt start entry then entry else start) (if f_lt exit fin then exit else fin))"

definition Path_Span :: "float_ops \<Rightarrow> path \<Rightarrow> box \<Rightarrow> span option" where
  "Path_Span A p b =
     (if length (BMin b) \<noteq> length (From p) then None
      else case span_loop A p b [0..<length (BMin b)] (Fin 0) (Fin 1) of
        None \<Rightarrow> None
      | Some (start, fin) \<Rightarrow> if f_le fin start then None else Some \<lparr>SStart = start, SEnd = fin\<rparr>)"

definition Crossed :: "float_ops \<Rightarrow> box list \<Rightarrow> path \<Rightarrow> box list" where
  "Crossed A boxes p = filter (\<lambda>b. Path_Span A p b \<noteq> None) (box_Normalize boxes)"

record pathSegment =
  PS_Start :: float64
  PS_End :: float64
  PS_Covered :: bool
  PS_Boxes :: "box list"

type_synonym pathCrossing = "box \<times> span"

definition collectCrossings :: "float_ops \<Rightarrow> box list \<Rightarrow> path \<Rightarrow> pathCrossing list" where
  "collectCrossings A boxes p =
     concat (map (\<lambda>b. case Path_Span A p b of None \<Rightarrow> [] | Some s \<Rightarrow> [(b, s)]) boxes)"

fun dedup :: "float64 \<Rightarrow> float64 list \<Rightarrow> float64 list" where
  "dedup l [] = [l]"
| "dedup l (t # ts) = (if \<not> f_eq t l then l # dedup t ts else dedup l ts)"

definition uniqueBreakpoints :: "pathCrossing list \<Rightarrow> float64 list" where
  "uniqueBreakpoints crossings =
     (let breakpoints = sort_slice f_lt
        ([Fin 0, Fin 1] @ concat (map (\<lambda>(b, s). [SStart s, SEnd s]) crossings))
      in dedup (hd breakpoints) (tl breakpoints))"

definition boxesCovering :: "pathCrossing list \<Rightarrow> float64 \<Rightarrow> float64 \<Rightarrow> box list" where
  "boxesCovering crossings start fin =
     sortBoxes (map fst (filter (\<lambda>(b, s). f_le (SStart s) start \<and> f_le fin (SEnd s)) crossings))"

definition Traverse :: "float_ops \<Rightarrow> box list \<Rightarrow> path \<Rightarrow> pathSegment list" where
  "Traverse A boxes p =
     (let crossings = collectCrossings A (box_Normalize boxes) p in
      if crossings = [] then [\<lparr>PS_Start = Fin 0, PS_End = Fin 1, PS_Covered = False, PS_Boxes = []\<rparr>]
      else let bp = uniqueBreakpoints crossings
        in map (\<lambda>i. let start = bp ! i; fin = bp ! Suc i; covering = boxesCovering crossings start fin
               in if covering = [] then \<lparr>PS_Start = start, PS_End = fin, PS_Covered = False, PS_Boxes = []\<rparr>
                  else \<lparr>PS_Start = start, PS_End = fin, PS_Covered = True, PS_Boxes = covering\<rparr>)
             [0..<length bp - 1])"

subsection \<open>Spans lie in the parameter range\<close>

text \<open>The bounds only move inward from \<open>[0, 1]\<close>, whatever the arithmetic yields.\<close>

lemma span_loop_range:
  assumes "span_loop A p b is u v = Some (u', v')" "u \<noteq> NaN" "v \<noteq> NaN"
  shows "u \<le> u' \<and> v' \<le> v \<and> u' \<noteq> NaN \<and> v' \<noteq> NaN"
  using assms
proof (induction A p b "is" u v rule: span_loop.induct)
  case (2 A p b i "is" start fin)
  obtain en ex ok where ee: "entryExit A (From p ! i) (To p ! i) (BMin b ! i) (BMax b ! i) (loBound b i) (hiBound b i) = (en, ex, ok)"
    by (metis prod_cases3)
  let ?u = "if f_lt start en then en else start" and ?v = "if f_lt ex fin then ex else fin"
  have ok: ok and r: "span_loop A p b is ?u ?v = Some (u', v')" using "2.prems"(1) ee by (auto split: if_splits)
  have "start \<le> ?u" "?v \<le> fin" "?u \<noteq> NaN" "?v \<noteq> NaN" using "2.prems" by (auto simp: f_lt_def)
  with "2.IH" [OF ee [symmetric]] ok r show ?case by (auto intro: order_trans)
qed simp

lemma between_fin: "Fin a \<le> x \<Longrightarrow> x \<le> Fin b \<Longrightarrow> \<exists>r. x = Fin r \<and> a \<le> r \<and> r \<le> b"
  by (cases x) auto

lemma Path_Span_range:
  assumes "Path_Span A p b = Some s"
  shows "\<exists>u v. SStart s = Fin u \<and> SEnd s = Fin v \<and> 0 \<le> u \<and> u < v \<and> v \<le> 1"
proof -
  obtain u v where l: "span_loop A p b [0..<length (BMin b)] (Fin 0) (Fin 1) = Some (u, v)" "\<not> f_le v u"
      "s = \<lparr>SStart = u, SEnd = v\<rparr>"
    using assms by (auto simp: Path_Span_def split: if_splits option.splits)
  have r: "Fin 0 \<le> u" "v \<le> Fin 1" "u \<noteq> NaN" "v \<noteq> NaN" using span_loop_range [OF l(1)] by auto
  then have "u < v" using l(2) by (auto simp: f_le_def)
  then obtain u' v' where "u = Fin u'" "v = Fin v'"
    using r between_fin [of 0 u 1] between_fin [of 0 v 1] by (meson less_imp_le order_trans)
  with r \<open>u < v\<close> l(3) show ?thesis by auto
qed

subsection \<open>Breakpoints\<close>

definition span_points :: "pathCrossing list \<Rightarrow> float64 list" where
  "span_points cs = concat (map (\<lambda>(b, s). [SStart s, SEnd s]) cs)"

definition unit_points :: "float64 list \<Rightarrow> bool" where
  "unit_points ts \<longleftrightarrow> (\<forall>t\<in>set ts. \<exists>r. t = Fin r \<and> 0 \<le> r \<and> r \<le> 1)"

interpretation float_order: weak_less f_lt "\<lambda>x. x \<noteq> NaN"
  by unfold_locales (auto simp: f_lt_def)

lemma dedup_spec:
  assumes "sorted (l # ts)" "NaN \<notin> set (l # ts)"
  shows "set (dedup l ts) = set (l # ts)" "sorted_wrt (<) (dedup l ts)" "hd (dedup l ts) = l" "dedup l ts \<noteq> []"
proof -
  have "set (dedup l ts) = set (l # ts) \<and> sorted_wrt (<) (dedup l ts) \<and> hd (dedup l ts) = l \<and> dedup l ts \<noteq> []"
    using assms
  proof (induction l ts rule: dedup.induct)
    case (2 l t ts)
    then show ?case by (cases "t = l") (auto simp: f_eq_def)
  qed simp
  then show "set (dedup l ts) = set (l # ts)" "sorted_wrt (<) (dedup l ts)" "hd (dedup l ts) = l" "dedup l ts \<noteq> []" by auto
qed

lemma uniqueBreakpoints_spec:
  assumes "unit_points (span_points cs)"
  shows "set (uniqueBreakpoints cs) = {Fin 0, Fin 1} \<union> set (span_points cs)"
    and "sorted_wrt (<) (uniqueBreakpoints cs)"
    and "hd (uniqueBreakpoints cs) = Fin 0" "last (uniqueBreakpoints cs) = Fin 1" "2 \<le> length (uniqueBreakpoints cs)"
proof -
  let ?l = "[Fin 0, Fin 1] @ span_points cs"
  let ?s = "sort_slice f_lt ?l"
  have u: "unit_points ?l" using assms by (auto simp: unit_points_def)
  then have nn: "NaN \<notin> set ?l" by (auto simp: unit_points_def)
  have "sorted_wrt (\<lambda>a b. \<not> f_lt b a) ?s"
    using nn by (intro float_order.in_order_sort_slice) auto
  then have so: "sorted ?s"
    using nn by (elim sorted_wrt_mono_rel [rotated]) (auto simp: f_lt_def not_less)
  obtain l ts where s: "?s = l # ts" by (metis length_0_conv length_sort_slice list.exhaust append_is_Nil_conv list.distinct(1))
  have d: "uniqueBreakpoints cs = dedup l ts"
    using s by (simp add: uniqueBreakpoints_def span_points_def Let_def)
  have set_s: "set (l # ts) = set ?l" using s by (metis set_sort_slice)
  note dd = dedup_spec [of l ts]
  have ll: "sorted (l # ts)" "NaN \<notin> set (l # ts)" using so s nn set_s by auto
  show set: "set (uniqueBreakpoints cs) = {Fin 0, Fin 1} \<union> set (span_points cs)"
    using dd(1) [OF ll] set_s by (simp add: d)
  show st: "sorted_wrt (<) (uniqueBreakpoints cs)" using dd(2) [OF ll] by (simp add: d)
  have ne: "uniqueBreakpoints cs \<noteq> []" using dd(4) [OF ll] by (simp add: d)
  have le: "sorted (uniqueBreakpoints cs)" using st strict_sorted_imp_sorted by blast
  have bounds: "Fin 0 \<le> x \<and> x \<le> Fin 1" if "x \<in> set (uniqueBreakpoints cs)" for x
    using that assms by (auto simp: set unit_points_def)
  have "hd (uniqueBreakpoints cs) \<le> Fin 0"
    using le set ne by (metis (no_types, lifting) Un_iff insertI1 list.collapse list.set_sel(1) set_ConsD sorted_simps(2) order_refl)
  then show "hd (uniqueBreakpoints cs) = Fin 0" using bounds ne by (simp add: antisym)
  have "Fin 1 \<le> last (uniqueBreakpoints cs)"
  proof -
    have "Fin 1 \<in> set (uniqueBreakpoints cs)" by (simp add: set)
    with le show ?thesis
      by (metis (no_types, lifting) append_butlast_last_id in_set_conv_decomp last_in_set list.set_intros(1)
          ne order_refl rotate1.simps(2) set_ConsD set_rotate1 sorted_wrt_append sorted_append)
  qed
  then show "last (uniqueBreakpoints cs) = Fin 1" using bounds ne by (simp add: antisym)
  have "card (set (uniqueBreakpoints cs)) \<le> length (uniqueBreakpoints cs)" by (rule card_length)
  moreover have "card {Fin 0, Fin 1} \<le> card (set (uniqueBreakpoints cs))"
    by (rule card_mono) (auto simp: set)
  ultimately show "2 \<le> length (uniqueBreakpoints cs)" by simp
qed

subsection \<open>A traversal tiles the path\<close>

text \<open>\<open>covers A p b u v\<close>: the span of \<open>b\<close> contains the piece from \<open>u\<close> to \<open>v\<close>.\<close>

definition covers :: "float_ops \<Rightarrow> path \<Rightarrow> box \<Rightarrow> float64 \<Rightarrow> float64 \<Rightarrow> bool" where
  "covers A p b u v \<longleftrightarrow> (\<exists>s. Path_Span A p b = Some s \<and> SStart s \<le> u \<and> v \<le> SEnd s)"

definition misses :: "float_ops \<Rightarrow> path \<Rightarrow> box \<Rightarrow> float64 \<Rightarrow> float64 \<Rightarrow> bool" where
  "misses A p b u v \<longleftrightarrow> (\<forall>s. Path_Span A p b = Some s \<longrightarrow> SEnd s \<le> u \<or> v \<le> SStart s)"

definition tiling :: "(float64 \<times> float64) list \<Rightarrow> bool" where
  "tiling ps \<longleftrightarrow> ps \<noteq> [] \<and> fst (hd ps) = Fin 0 \<and> snd (last ps) = Fin 1 \<and>
     (\<forall>i. Suc i < length ps \<longrightarrow> snd (ps ! i) = fst (ps ! Suc i)) \<and> (\<forall>(u, v)\<in>set ps. u < v)"

definition seg_range :: "pathSegment \<Rightarrow> float64 \<times> float64" where
  "seg_range g = (PS_Start g, PS_End g)"

lemma set_collectCrossings:
  "set (collectCrossings A bs p) = {(b, s). b \<in> set bs \<and> Path_Span A p b = Some s}"
  by (auto simp: collectCrossings_def split: option.splits)

lemma collect_unit: "unit_points (span_points (collectCrossings A bs p))"
  using Path_Span_range
  by (fastforce simp: unit_points_def span_points_def set_collectCrossings)

lemma set_boxesCovering:
  assumes "u \<noteq> NaN" "v \<noteq> NaN"
  shows "set (boxesCovering (collectCrossings A bs p) u v) = {b \<in> set bs. covers A p b u v}"
proof -
  have "SStart s \<noteq> NaN \<and> SEnd s \<noteq> NaN" if "Path_Span A p b = Some s" for b s
    using Path_Span_range [OF that] by auto
  with assms show ?thesis
    by (force simp: boxesCovering_def covers_def set_collectCrossings f_le_def image_iff)
qed

lemma tiling_consecutive:
  assumes "sorted_wrt (<) bp" "hd bp = Fin 0" "last bp = Fin 1" "2 \<le> length bp"
  shows "tiling (map (\<lambda>i. (bp ! i, bp ! Suc i)) [0..<length bp - 1])"
proof -
  let ?ps = "map (\<lambda>i. (bp ! i, bp ! Suc i)) [0..<length bp - 1]"
  have ne: "bp \<noteq> []" "?ps \<noteq> []" and l: "length bp - 1 = Suc (length bp - 2)" using assms(4) by auto
  have "fst (hd ?ps) = hd bp" using ne l by (simp add: hd_conv_nth [OF ne(1)] hd_map upt_conv_Cons del: upt_Suc)
  moreover have "snd (last ?ps) = last bp"
    using ne l by (simp add: last_conv_nth [OF ne(1)])
  moreover have "\<forall>i. Suc i < length ?ps \<longrightarrow> snd (?ps ! i) = fst (?ps ! Suc i)" by simp
  moreover have "\<forall>(u, v)\<in>set ?ps. u < v"
    using assms(1) by (auto simp: sorted_wrt_iff_nth_less)
  ultimately show ?thesis using assms(2,3) ne(2) unfolding tiling_def by simp
qed

text \<open>Between two consecutive breakpoints no span begins or ends.\<close>

lemma consecutive_gap:
  assumes "sorted_wrt (<) (bp :: float64 list)" "Suc i < length bp" "x \<in> set bp"
  shows "x \<le> bp ! i \<or> bp ! Suc i \<le> x"
proof -
  obtain j where j: "j < length bp" "x = bp ! j" using assms(3) by (auto simp: in_set_conv_nth)
  have so: "sorted bp" using assms(1) strict_sorted_imp_sorted by blast
  show ?thesis
    using assms(2) j so by (cases "j \<le> i") (auto simp: sorted_iff_nth_mono)
qed

lemma covers_or_misses:
  assumes "b \<in> set bs" and bp: "bp = uniqueBreakpoints (collectCrossings A bs p)" and "Suc i < length bp"
  shows "covers A p b (bp ! i) (bp ! Suc i) \<or> misses A p b (bp ! i) (bp ! Suc i)"
proof (cases "Path_Span A p b")
  case (Some s)
  note u = uniqueBreakpoints_spec [OF collect_unit [of A bs p], folded bp]
  have "SStart s \<in> set bp" "SEnd s \<in> set bp"
    using Some assms(1) by (auto simp: u(1) span_points_def set_collectCrossings intro!: bexI [of _ "(b, s)"])
  with consecutive_gap [OF u(2) assms(3)] Some show ?thesis
    by (auto simp: covers_def misses_def)
qed (simp add: misses_def)

lemma Traverse_segments:
  fixes A p boxes
  defines "bs \<equiv> box_Normalize boxes" and "bp \<equiv> uniqueBreakpoints (collectCrossings A (box_Normalize boxes) p)"
  assumes "collectCrossings A bs p \<noteq> []"
  shows "length (Traverse A boxes p) = length bp - 1"
    and "i < length bp - 1 \<Longrightarrow> PS_Start (Traverse A boxes p ! i) = bp ! i \<and> PS_End (Traverse A boxes p ! i) = bp ! Suc i \<and>
      PS_Boxes (Traverse A boxes p ! i) = boxesCovering (collectCrossings A bs p) (bp ! i) (bp ! Suc i) \<and>
      PS_Covered (Traverse A boxes p ! i) = (PS_Boxes (Traverse A boxes p ! i) \<noteq> [])"
  using assms(3) by (auto simp: Traverse_def Let_def bs_def bp_def)

theorem Traverse_tiles: "tiling (map seg_range (Traverse A boxes p))"
proof (cases "collectCrossings A (box_Normalize boxes) p = []")
  case True
  then show ?thesis by (simp add: Traverse_def Let_def tiling_def seg_range_def)
next
  case False
  let ?bp = "uniqueBreakpoints (collectCrossings A (box_Normalize boxes) p)"
  note T = Traverse_segments [OF False]
  have "map seg_range (Traverse A boxes p) = map (\<lambda>i. (?bp ! i, ?bp ! Suc i)) [0..<length ?bp - 1]"
    by (rule nth_equalityI) (use T in \<open>auto simp: seg_range_def\<close>)
  then show ?thesis using tiling_consecutive uniqueBreakpoints_spec [OF collect_unit] by metis
qed

theorem Traverse_coverage:
  assumes "g \<in> set (Traverse A boxes p)"
  shows "set (PS_Boxes g) = {b \<in> set (box_Normalize boxes). covers A p b (PS_Start g) (PS_End g)}"
    and "\<forall>b\<in>set (box_Normalize boxes). covers A p b (PS_Start g) (PS_End g) \<or> misses A p b (PS_Start g) (PS_End g)"
    and "PS_Covered g \<longleftrightarrow> PS_Boxes g \<noteq> []"
proof -
  have "set (PS_Boxes g) = {b \<in> set (box_Normalize boxes). covers A p b (PS_Start g) (PS_End g)} \<and>
    (\<forall>b\<in>set (box_Normalize boxes). covers A p b (PS_Start g) (PS_End g) \<or> misses A p b (PS_Start g) (PS_End g)) \<and>
    (PS_Covered g \<longleftrightarrow> PS_Boxes g \<noteq> [])"
  proof (cases "collectCrossings A (box_Normalize boxes) p = []")
    case True
    then have no: "Path_Span A p b = None" if "b \<in> set (box_Normalize boxes)" for b
      using that set_collectCrossings [of A "box_Normalize boxes" p] by (cases "Path_Span A p b") auto
    then show ?thesis using True assms by (auto simp: Traverse_def Let_def covers_def misses_def)
  next
    case False
    let ?bp = "uniqueBreakpoints (collectCrossings A (box_Normalize boxes) p)"
    note T = Traverse_segments [OF False]
    obtain i where i: "i < length ?bp - 1" "g = Traverse A boxes p ! i"
      using assms T(1) by (auto simp: in_set_conv_nth)
    have "\<forall>x\<in>set ?bp. x \<noteq> NaN"
      using collect_unit [of A "box_Normalize boxes" p] by (auto simp: uniqueBreakpoints_spec(1) [OF collect_unit] unit_points_def)
    then have "?bp ! i \<noteq> NaN" "?bp ! Suc i \<noteq> NaN" using i by auto
    then show ?thesis
      using T(2) [OF i(1)] i covers_or_misses [OF _ refl, of _ "box_Normalize boxes" i A p]
      by (simp add: set_boxesCovering)
  qed
  then show "set (PS_Boxes g) = {b \<in> set (box_Normalize boxes). covers A p b (PS_Start g) (PS_End g)}"
    "\<forall>b\<in>set (box_Normalize boxes). covers A p b (PS_Start g) (PS_End g) \<or> misses A p b (PS_Start g) (PS_End g)"
    "PS_Covered g \<longleftrightarrow> PS_Boxes g \<noteq> []" by blast+
qed

subsection \<open>Spans under exact arithmetic\<close>

fun f_op :: "(real \<Rightarrow> real \<Rightarrow> real) \<Rightarrow> float64 \<Rightarrow> float64 \<Rightarrow> float64" where
  "f_op g (Fin a) (Fin b) = Fin (g a b)"
| "f_op g _ _ = NaN"

definition exact :: float_ops where
  "exact = \<lparr>f_add = f_op (+), f_sub = f_op (-), f_mul = f_op (*), f_div = f_op (/)\<rparr>"

lemma exact_sel [simp]: "f_add exact = f_op (+)" "f_sub exact = f_op (-)" "f_mul exact = f_op (*)" "f_div exact = f_op (/)"
  by (simp_all add: exact_def)

text \<open>\<open>on_axis p b i t\<close>: at parameter \<open>t\<close> the path is inside the box on axis \<open>i\<close>.\<close>

definition on_axis :: "path \<Rightarrow> box \<Rightarrow> nat \<Rightarrow> real \<Rightarrow> bool" where
  "on_axis p b i t = inInterval (Path_Point exact p (Fin t) ! i) (BMin b ! i) (BMax b ! i) (loBound b i) (hiBound b i)"

definition good_path :: "nat \<Rightarrow> path \<Rightarrow> bool" where
  "good_path n p \<longleftrightarrow> Path_Validate p = None \<and> Path_Dims p = n"

lemma good_path_fin:
  assumes "good_path n p" "i < n"
  shows "\<exists>a c. From p ! i = Fin a \<and> To p ! i = Fin c"
proof -
  have "validateEnd (From p ! i) = None" "validateEnd (To p ! i) = None"
    using assms by (auto simp: good_path_def Path_Validate_def Path_Dims_def split: if_splits)
  then show ?thesis
    by (auto simp: validateEnd_def is_fin_iff [symmetric] is_fin_def split: if_splits)
qed

lemma entryExit_exact:
  assumes "good_path n p" "box_ok n b" "i < n"
    and ee: "entryExit exact (From p ! i) (To p ! i) (BMin b ! i) (BMax b ! i) (loBound b i) (hiBound b i) = (en, ex, ok)"
  shows "\<exists>e x. en = Fin e \<and> ex = Fin x \<and>
    (if ok then \<forall>t. 0 \<le> t \<and> t \<le> 1 \<longrightarrow> (e < t \<and> t < x \<longrightarrow> on_axis p b i t) \<and> (on_axis p b i t \<longrightarrow> e \<le> t \<and> t \<le> x)
     else \<forall>t. \<not> on_axis p b i t)"
proof -
  obtain a c where ac: "From p ! i = Fin a" "To p ! i = Fin c" using good_path_fin [OF assms(1,3)] by auto
  obtain lo hi where lh: "BMin b ! i = Fin lo" "BMax b ! i = Fin hi" "lo \<le> hi" using box_ok_axis [OF assms(2,3)] .
  have pt: "Path_Point exact p (Fin t) ! i = Fin (a + t * (c - a))" for t
    using assms(1,3) ac by (simp add: Path_Point_def good_path_def Path_Dims_def)
  have less: "(y < t * (c - a)) = (if a < c then y / (c - a) < t else t < y / (c - a))"
      "(t * (c - a) < y) = (if a < c then t < y / (c - a) else y / (c - a) < t)" if "a \<noteq> c" for y t
    using that by (auto simp: field_simps)
  consider "a = c" | "a < c" | "c < a" by linarith
  then show ?thesis
  proof cases
    case 1
    then show ?thesis using ee ac lh by (auto simp: entryExit_def on_axis_def pt)
  next
    case 2
    then have "en = Fin ((lo - a) / (c - a))" "ex = Fin ((hi - a) / (c - a))" ok
      using ee ac lh by (auto simp: entryExit_def)
    moreover have "((lo - a) / (c - a) < t) = (lo < a + t * (c - a))" "(t < (hi - a) / (c - a)) = (a + t * (c - a) < hi)"
        "((lo - a) / (c - a) \<le> t) = (lo \<le> a + t * (c - a))" "(t \<le> (hi - a) / (c - a)) = (a + t * (c - a) \<le> hi)" for t
      using 2 by (auto simp: divide_less_eq less_divide_eq divide_le_eq le_divide_eq)
    ultimately show ?thesis by (auto simp: on_axis_def pt inInterval_def lh split: if_splits)
  next
    case 3
    then have "en = Fin ((hi - a) / (c - a))" "ex = Fin ((lo - a) / (c - a))" ok
      using ee ac lh by (auto simp: entryExit_def)
    moreover have "((hi - a) / (c - a) < t) = (a + t * (c - a) < hi)" "(t < (lo - a) / (c - a)) = (lo < a + t * (c - a))"
        "((hi - a) / (c - a) \<le> t) = (a + t * (c - a) \<le> hi)" "(t \<le> (lo - a) / (c - a)) = (lo \<le> a + t * (c - a))" for t
      using 3 by (auto simp: divide_less_eq less_divide_eq divide_le_eq le_divide_eq)
    ultimately show ?thesis by (auto simp: on_axis_def pt inInterval_def lh split: if_splits)
  qed
qed

lemma span_loop_exact:
  assumes "good_path n p" "box_ok n b" "\<forall>i\<in>set is. i < n"
  shows "case span_loop exact p b is (Fin u) (Fin v) of
      None \<Rightarrow> \<forall>t. 0 \<le> t \<and> t \<le> 1 \<longrightarrow> (\<exists>i\<in>set is. \<not> on_axis p b i t)
    | Some (y, z) \<Rightarrow> \<exists>u' v'. y = Fin u' \<and> z = Fin v' \<and> u \<le> u' \<and> v' \<le> v \<and>
        (\<forall>t. 0 \<le> t \<and> t \<le> 1 \<longrightarrow> (u' < t \<and> t < v' \<longrightarrow> (\<forall>i\<in>set is. on_axis p b i t)) \<and>
          (u \<le> t \<and> t \<le> v \<and> (\<forall>i\<in>set is. on_axis p b i t) \<longrightarrow> u' \<le> t \<and> t \<le> v'))"
  using assms(3)
proof (induction "is" arbitrary: u v)
  case (Cons i "is")
  obtain en ex ok where ee: "entryExit exact (From p ! i) (To p ! i) (BMin b ! i) (BMax b ! i) (loBound b i) (hiBound b i) = (en, ex, ok)"
    by (metis prod_cases3)
  obtain e x where ax: "en = Fin e" "ex = Fin x"
    "if ok then \<forall>t. 0 \<le> t \<and> t \<le> 1 \<longrightarrow> (e < t \<and> t < x \<longrightarrow> on_axis p b i t) \<and> (on_axis p b i t \<longrightarrow> e \<le> t \<and> t \<le> x)
     else \<forall>t. \<not> on_axis p b i t"
    using entryExit_exact [OF assms(1,2) _ ee] Cons.prems by auto
  show ?case
  proof (cases ok)
    case True
    have "span_loop exact p b (i # is) (Fin u) (Fin v) = span_loop exact p b is (Fin (max u e)) (Fin (min v x))"
      using True ee ax by (simp add: max_def min_def not_less not_le)
    moreover note Cons.IH [of "max u e" "min v x"]
    ultimately show ?thesis
      using Cons.prems True ax(3)
      by (fastforce split: option.splits)
  qed (use ee ax(3) in auto)
qed simp

text \<open>\<open>along p b t\<close>: the point of the path at parameter \<open>t\<close> is in the box.\<close>

definition along :: "path \<Rightarrow> box \<Rightarrow> real \<Rightarrow> bool" where
  "along p b t \<longleftrightarrow> Box_Contains b (Path_Point exact p (Fin t))"

lemma along_axes: "box_ok n b \<Longrightarrow> along p b t \<longleftrightarrow> (\<forall>i\<in>set [0..<n]. on_axis p b i t)"
  by (auto simp: along_def on_axis_def Box_Contains_def inInterval_def list_all_iff box_okD)

lemma Path_Span_Some_exact:
  assumes "good_path n p" "box_ok n b" "Path_Span exact p b = Some s"
  shows "\<exists>u v. SStart s = Fin u \<and> SEnd s = Fin v \<and> 0 \<le> u \<and> u < v \<and> v \<le> 1 \<and>
    (\<forall>t. u < t \<and> t < v \<longrightarrow> along p b t) \<and> (\<forall>t. 0 \<le> t \<and> t \<le> 1 \<and> along p b t \<longrightarrow> u \<le> t \<and> t \<le> v)"
proof -
  note l = box_okD [OF assms(2)]
  obtain y z where yz: "span_loop exact p b [0..<n] (Fin 0) (Fin 1) = Some (y, z)"
      "s = \<lparr>SStart = y, SEnd = z\<rparr>"
    using assms(3) l by (auto simp: Path_Span_def split: if_splits option.splits)
  have ok: "\<forall>i\<in>set [0..<n]. i < n" by simp
  obtain u v where "SStart s = Fin u" "SEnd s = Fin v"
    and r: "\<forall>t. 0 \<le> t \<and> t \<le> 1 \<longrightarrow> (u < t \<and> t < v \<longrightarrow> along p b t) \<and> (along p b t \<longrightarrow> u \<le> t \<and> t \<le> v)"
    using span_loop_exact [OF assms(1,2) ok, of 0 1] yz by (auto simp: along_axes [OF assms(2)])
  moreover from this Path_Span_range [OF assms(3)] have "0 \<le> u" "u < v" "v \<le> 1" by auto
  ultimately show ?thesis by force
qed

lemma Path_Span_None_exact:
  assumes "good_path n p" "box_ok n b" "Path_Span exact p b = None" "0 \<le> u" "u < v" "v \<le> 1"
  shows "\<exists>t. u < t \<and> t < v \<and> \<not> along p b t"
proof (rule ccontr)
  assume "\<not> ?thesis"
  then have all: "\<forall>t. u < t \<and> t < v \<longrightarrow> along p b t" by blast
  note l = box_okD [OF assms(2)]
  have ok: "\<forall>i\<in>set [0..<n]. i < n" by simp
  have mid: "u < (u + v) / 2" "(u + v) / 2 < v" using assms(5) by auto
  define m where "m = (u + v) / 2"
  have m: "along p b m" "0 \<le> m" "m \<le> 1" using mid all assms(4,6) by (auto simp: m_def)
  have "\<forall>i\<in>set [0..<n]. on_axis p b i m" using m(1) along_axes [OF assms(2)] by blast
  then have "span_loop exact p b [0..<n] (Fin 0) (Fin 1) \<noteq> None"
    using span_loop_exact [OF assms(1,2) ok, of 0 1] m(2,3) by (intro notI) (auto simp del: set_upt)
  then obtain u' v' where "span_loop exact p b [0..<n] (Fin 0) (Fin 1) = Some (Fin u', Fin v')"
    and r: "\<forall>t. 0 \<le> t \<and> t \<le> 1 \<longrightarrow> (along p b t \<longrightarrow> u' \<le> t \<and> t \<le> v')"
    using span_loop_exact [OF assms(1,2) ok, of 0 1] by (auto simp: along_axes [OF assms(2)])
  then have "v' \<le> u'"
    using assms(1,3) l by (auto simp: Path_Span_def good_path_def Path_Dims_def split: if_splits)
  moreover obtain t1 t2 where "u < t1" "t1 < t2" "t2 < v" using assms(5) by (meson dense)
  ultimately show False using r all assms(4,6) by (smt (verit))
qed

end
