(* ===== verification/Range_Set.thy ===== *)
theory Range_Set
  imports Range_Replica
begin

section \<open>The 1-D facade (eventfulranges.go)\<close>

text \<open>
  \<open>RangeSet\<close> wraps an engine. A constructor of an operation draws a fresh identifier from
  the clock and the random source, so the methods that build an operation take it as
  an argument. \<open>Open\<close> takes the outcome of creating the directory; the stream it opens is
  the state passed in.

  The last part reads the whole stack through this interface: under last-write-wins and a clock
  that runs ahead of the log, \<open>Add\<close> and \<open>Remove\<close> are set union and difference.
\<close>

record 'c rangeSet =
  rs_engine :: "'c engine"

type_synonym ('c, 's) rs_result = "engine_error option \<times> 'c rangeSet \<times> 's"

definition with_engine :: "engine_error option \<times> 'c engine \<times> 's \<Rightarrow> ('c, 's) rs_result" where
  "with_engine r = (case r of (err, e, s) \<Rightarrow> (err, \<lparr>rs_engine = e\<rparr>, s))"

definition OpenStore :: "('s, op) Log \<Rightarrow> 'c Clock \<Rightarrow> strategy \<Rightarrow> 'c \<Rightarrow> 'c Option list \<Rightarrow> 's \<Rightarrow> engine_error + 'c rangeSet" where
  "OpenStore lg clk st dflt opts s =
     (case engine_Open lg clk st dflt opts s of Inl err \<Rightarrow> Inl err | Inr e \<Rightarrow> Inr \<lparr>rs_engine = e\<rparr>)"

definition jsonl_Open :: "string option \<Rightarrow> op jsonl_env \<Rightarrow> store_error + (stream, op) Log" where
  "jsonl_Open mkdir_err J = (case mkdir_err of Some e \<Rightarrow> Inl (ErrIO e) | None \<Rightarrow> Inr (jsonl_log J))"

definition Open_ranges :: "string option \<Rightarrow> op jsonl_env \<Rightarrow> 'c Clock \<Rightarrow> strategy \<Rightarrow> 'c \<Rightarrow> 'c Option list \<Rightarrow> stream \<Rightarrow>
    engine_error + 'c rangeSet" where
  "Open_ranges mkdir_err J clk st dflt opts s =
     (case jsonl_Open mkdir_err J of
        Inl err \<Rightarrow> Inl (StoreErr err)
      | Inr lg \<Rightarrow> OpenStore lg clk st dflt opts s)"

definition rs_Apply :: "('s, op) Log \<Rightarrow> 'c Clock \<Rightarrow> (nat \<Rightarrow> 's \<Rightarrow> 's) \<Rightarrow> op \<Rightarrow> 'c rangeSet \<Rightarrow> 's \<Rightarrow> ('c, 's) rs_result" where
  "rs_Apply lg clk env o' r s = with_engine (engine_Apply lg clk env o' (rs_engine r) s)"

definition rs_ApplyAll :: "('s, op) Log \<Rightarrow> 'c Clock \<Rightarrow> (nat \<Rightarrow> 's \<Rightarrow> 's) \<Rightarrow> op list \<Rightarrow> 'c rangeSet \<Rightarrow> 's \<Rightarrow> ('c, 's) rs_result" where
  "rs_ApplyAll lg clk env ops r s = with_engine (engine_ApplyAll lg clk env ops (rs_engine r) s)"

definition rs_Add :: "('s, op) Log \<Rightarrow> 'c Clock \<Rightarrow> (nat \<Rightarrow> 's \<Rightarrow> 's) \<Rightarrow> string \<Rightarrow> float64 \<Rightarrow> float64 \<Rightarrow> 'c rangeSet \<Rightarrow> 's \<Rightarrow>
    op \<times> ('c, 's) rs_result" where
  "rs_Add lg clk env newid x y r s = (let o' = op_Add newid x y in (o', rs_Apply lg clk env o' r s))"

definition rs_AddWithBounds :: "('s, op) Log \<Rightarrow> 'c Clock \<Rightarrow> (nat \<Rightarrow> 's \<Rightarrow> 's) \<Rightarrow> string \<Rightarrow> float64 \<Rightarrow> float64 \<Rightarrow>
    bound \<Rightarrow> bound \<Rightarrow> 'c rangeSet \<Rightarrow> 's \<Rightarrow> op \<times> ('c, 's) rs_result" where
  "rs_AddWithBounds lg clk env newid x y sb eb r s =
     (let o' = op_AddWithBounds newid x y sb eb in (o', rs_Apply lg clk env o' r s))"

definition rs_Remove :: "('s, op) Log \<Rightarrow> 'c Clock \<Rightarrow> (nat \<Rightarrow> 's \<Rightarrow> 's) \<Rightarrow> string \<Rightarrow> float64 \<Rightarrow> float64 \<Rightarrow> 'c rangeSet \<Rightarrow> 's \<Rightarrow>
    op \<times> ('c, 's) rs_result" where
  "rs_Remove lg clk env newid x y r s = (let o' = op_Remove newid x y in (o', rs_Apply lg clk env o' r s))"

definition rs_RemoveWithBounds :: "('s, op) Log \<Rightarrow> 'c Clock \<Rightarrow> (nat \<Rightarrow> 's \<Rightarrow> 's) \<Rightarrow> string \<Rightarrow> float64 \<Rightarrow> float64 \<Rightarrow>
    bound \<Rightarrow> bound \<Rightarrow> 'c rangeSet \<Rightarrow> 's \<Rightarrow> op \<times> ('c, 's) rs_result" where
  "rs_RemoveWithBounds lg clk env newid x y sb eb r s =
     (let o' = op_RemoveWithBounds newid x y sb eb in (o', rs_Apply lg clk env o' r s))"

definition rs_Ranges :: "'c rangeSet \<Rightarrow> interval list \<times> 'c rangeSet" where
  "rs_Ranges r = (case engine_Materialize (rs_engine r) of (ivs, e) \<Rightarrow> (ivs, \<lparr>rs_engine = e\<rparr>))"

definition rs_Contains :: "float64 \<Rightarrow> 'c rangeSet \<Rightarrow> bool \<times> 'c rangeSet" where
  "rs_Contains x r = (case engine_Contains x (rs_engine r) of (b, e) \<Rightarrow> (b, \<lparr>rs_engine = e\<rparr>))"

definition rs_Overlaps :: "interval \<Rightarrow> 'c rangeSet \<Rightarrow> bool \<times> 'c rangeSet" where
  "rs_Overlaps iv r = (case engine_Overlaps iv (rs_engine r) of (b, e) \<Rightarrow> (b, \<lparr>rs_engine = e\<rparr>))"

definition rs_Ops :: "'c rangeSet \<Rightarrow> op list" where
  "rs_Ops r = engine_Ops (rs_engine r)"

definition rs_Snapshot :: "('s, op) Log \<Rightarrow> 'c rangeSet \<Rightarrow> 's \<Rightarrow> ('c, 's) rs_result" where
  "rs_Snapshot lg r s = with_engine (engine_Snapshot lg (rs_engine r) s)"

definition rs_Compact :: "('s, op) Log \<Rightarrow> 'c rangeSet \<Rightarrow> 's \<Rightarrow> ('c, 's) rs_result" where
  "rs_Compact lg r s = with_engine (engine_Compact lg (rs_engine r) s)"

subsection \<open>Last-write-wins with increasing timestamps\<close>

definition latest :: "op \<Rightarrow> op set \<Rightarrow> bool" where
  "latest o' O' \<longleftrightarrow> (\<forall>p\<in>O'. i_lt (TS p) (TS o'))"

lemma better_latest: "latest o' O' \<Longrightarrow> p \<in> O' \<Longrightarrow> better LWW (winnerOf o') (winnerOf p)"
  by (auto simp: latest_def better_def winnerOf_def i_lt_def)

lemma decides_latest:
  assumes "latest o' O'"
  shows "decides LWW (insert o' O') x p \<longleftrightarrow>
    (if x \<in> fspan (OpInterval o') then p = o' else decides LWW O' x p)"
proof -
  have "\<not> better LWW (winnerOf p) (winnerOf o')" if "p \<in> O'" for p
    using better_latest [OF assms that] better_asym by blast
  moreover have "\<not> better LWW w w" for w using better_asym by blast
  ultimately show ?thesis
    using better_latest [OF assms] by (auto simp: decides_def)
qed

lemma Materialize_latest:
  assumes "valid_history (H @ [o'])" "latest o' (set H)"
  shows "set_span (Materialize LWW (H @ [o'])) =
    (if Kind o' = KindAdd then set_span (Materialize LWW H) \<union> fspan (OpInterval o')
     else set_span (Materialize LWW H) - fspan (OpInterval o'))"
proof -
  have spec: "set_span (Materialize LWW G) = view_span LWW (set G)" if "set G \<subseteq> set (H @ [o'])" for G
    using Materialize_spec(2) valid_ops_history [OF assms(1) that] unique_history [OF assms(1) that] by blast
  have mem: "x \<in> set_span (Materialize LWW (H @ [o'])) \<longleftrightarrow>
      (if x \<in> fspan (OpInterval o') then Kind o' = KindAdd else x \<in> set_span (Materialize LWW H))" for x
    using spec [of "H @ [o']"] spec [of H] decides_latest [OF assms(2), of x]
    by (cases "x \<in> fspan (OpInterval o')") auto
  show ?thesis by (cases "Kind o' = KindAdd") (auto simp only: mem if_True if_False split: if_splits)
qed

lemma points_latest:
  assumes "valid_history (H @ [o'])" "latest o' (set H)"
  shows "set_points (Materialize LWW (H @ [o'])) =
    (if Kind o' = KindAdd then set_points (Materialize LWW H) \<union> points (OpInterval o')
     else set_points (Materialize LWW H) - points (OpInterval o'))"
proof -
  have iv: "valid_iv (OpInterval o')" using assms(1) by (simp add: valid_history_def valid_op_iff)
  have valid: "\<forall>iv\<in>set (Materialize LWW G). valid_iv iv" if "set G \<subseteq> set (H @ [o'])" for G
    using Materialize_spec(1) [OF valid_ops_history [OF assms(1) that] unique_history [OF assms(1) that], of LWW]
    by (simp add: canonical_def)
  have sub: "set H \<subseteq> set (H @ [o'])" by auto
  from valid [of "H @ [o']"] valid [OF sub] iv show ?thesis
    using Materialize_latest [OF assms] by (auto simp: mem_set_points_iff mem_points_iff)
qed

text \<open>Adding or removing through the engine, alone on its store, when the clock runs ahead of the log.\<close>


definition ahead :: "('c \<Rightarrow> int64) \<Rightarrow> op list \<Rightarrow> 'c engine \<Rightarrow> bool" where
  "ahead last_of H e \<longleftrightarrow> last_of (e_clock e) \<noteq> max_int64 \<and> (\<forall>p\<in>set H. i_le (TS p) (last_of (e_clock e)))"

locale engine_clocked = engine_log lg inv base tail snap storable sn fits + clock "Tick clk" "Observe clk" last_of
  for lg :: "('s, op) Log" and inv base tail snap storable sn fits and clk :: "'c Clock" and last_of
begin

lemma Apply_fresh:
  assumes "is_replica H e s" "roomy e" "valid_op o'" "ID o' \<notin> ID ` set H" "TS o' = 0"
    "\<And>ts. storable (o'\<lparr>TS := ts\<rparr>)" "ahead last_of H e"
  shows "\<exists>e' s' p. engine_Apply lg clk (\<lambda>_ s. s) o' e s = (None, e', s') \<and> is_replica (H @ [p]) e' s' \<and>
      e_strategy e' = e_strategy e \<and> latest p (set H) \<and> (\<exists>ts. p = o'\<lparr>TS := ts\<rparr>)"
proof -
  have r: "inv s" "holds_history H s" "synced H e" "e_version e = int (length H)"
    using assms(1) by (simp_all add: replica_def)
  have b: "batch_ok [o']" using assms(3,6) by (simp add: batch_ok_def)
  have u: "unseen e [o'] = [o']"
    using assms(4) seen_iff [OF r(3)] replicaD(3) [OF assms(1)] by (simp add: unseen_def)
  obtain ts c where t: "Tick clk (e_clock e) = (ts, c)" by (cases "Tick clk (e_clock e)")
  let ?p = "o'\<lparr>TS := ts\<rparr>"
  have f: "fst (stamp clk (unseen e [o']) (e_clock e)) = [?p]" using assms(5) t u by simp
  have "i_lt (last_of (e_clock e)) ts" using tick_greater [OF t] assms(7) by (simp add: ahead_def)
  then have "latest ?p (set H)" using assms(7) by (auto simp: ahead_def latest_def i_lt_def i_le_def)
  moreover obtain e' s' where "applyLocked lg clk (\<lambda>_ s. s) 0 [o'] e s = (None, e', s')" "inv s'"
      "holds_history (H @ [?p]) s'" "opened (H @ [?p]) e e'"
    using append_current [OF r assms(2) b f, of "\<lambda>_ s. s" 0 s] u by auto
  moreover have "validateOps [o'] = None" using assms(3) by (simp add: valid_op_def)
  ultimately show ?thesis
    by (auto simp: engine_Apply_def engine_apply_def replica_def opened_def simp del: validateOps.simps)
qed

lemma Contains_replica:
  assumes "is_replica H e s"
  shows "fst (rs_Contains (Fin x) \<lparr>rs_engine = e\<rparr>) \<longleftrightarrow> x \<in> set_points (Materialize (e_strategy e) H)"
  using replica_view(1) [OF assms]
  by (simp add: rs_Contains_def engine_Contains_def engine_Materialize_def Let_def set_Contains_iff)

lemma Apply_LWW:
  assumes "is_replica H e s" "roomy e" "valid_op o'" "ID o' \<notin> ID ` set H" "TS o' = 0"
    "\<And>ts. storable (o'\<lparr>TS := ts\<rparr>)" "ahead last_of H e" "e_strategy e = LWW"
  shows "\<exists>r' s'. rs_Apply lg clk (\<lambda>_ s. s) o' \<lparr>rs_engine = e\<rparr> s = (None, r', s') \<and>
     (\<forall>x. fst (rs_Contains (Fin x) r') \<longleftrightarrow>
        (if x \<in> points (OpInterval o') then Kind o' = KindAdd
         else fst (rs_Contains (Fin x) \<lparr>rs_engine = e\<rparr>)))"
proof -
  obtain e' s' p ts where r: "engine_Apply lg clk (\<lambda>_ s. s) o' e s = (None, e', s')"
      "is_replica (H @ [p]) e' s'" "e_strategy e' = e_strategy e" "latest p (set H)" "p = o'\<lparr>TS := ts\<rparr>"
    using Apply_fresh [OF assms(1-7)] by blast
  note pts = points_latest [OF replicaD(1) [OF r(2)] r(4)]
  have "Kind p = Kind o'" "OpInterval p = OpInterval o'" using r(5) by simp_all
  then show ?thesis
    using r(1) pts Contains_replica [OF assms(1)] Contains_replica [OF r(2)] r(3) assms(8)
    by (auto simp: rs_Apply_def with_engine_def)
qed

end

definition hybrid_Clock :: "hybrid Clock" where
  "hybrid_Clock = \<lparr>Tick = Hybrid_Tick, Observe = Hybrid_Observe\<rparr>"

definition lamport_Clock :: "int64 Clock" where
  "lamport_Clock = \<lparr>Tick = Lamport_Tick, Observe = Lamport_Observe\<rparr>"

interpretation mem_hybrid: engine_clocked mem_log mem_inv "\<lambda>_. 0" mem_ops mem_snap "\<lambda>_. True"
    mem_snapshotter "\<lambda>_ _. True" hybrid_Clock h_last
  by (intro engine_clocked.intro mem_engine.engine_log_axioms)
    (simp add: hybrid_Clock_def hybrid_clock.clock_axioms)

interpretation jsonl_lamport: engine_clocked "jsonl_log (quiet J)" "jsonl_inv (quiet J)"
    "jsonl_base (quiet J)" "jsonl_tail (quiet J)" "jsonl_snap (quiet J)" "jsonl_storable (quiet J)"
    "jsonl_snapshotter (quiet J)" "jsonl_fits (quiet J)" lamport_Clock "\<lambda>l. l"
  for J :: "op jsonl_env"
  by (intro engine_clocked.intro jsonl_engine.engine_log_axioms)
    (simp add: lamport_Clock_def lamport_clock.clock_axioms)

end
