(* ===== verification/Box_Set.thy ===== *)
theory Box_Set
  imports Box_Replica Paths Range_Set
begin

section \<open>The n-D facade (boxes.go)\<close>

text \<open>
  \<open>BoxSet\<close> wraps a box engine. As in the 1-D facade the methods that build an operation take the
  identifier that the constructor draws as an argument, and the outcome of creating the directory is an argument
  of \<open>OpenBoxes\<close>. The path queries take the float arithmetic (\<open>float_ops\<close>).

  The second part reads the whole stack through this interface: under last-write-wins and a clock that runs
  ahead of the log, \<open>Add\<close> and \<open>Remove\<close> are union and difference of point sets, and a retraction gives the
  set without the retracted operation.
\<close>

subsection \<open>The source\<close>

definition WithBoxClock :: "'c \<Rightarrow> 'c box_option" where
  "WithBoxClock c = be_WithClock c"

definition WithBoxSnapshotEvery :: "int \<Rightarrow> 'c box_option" where
  "WithBoxSnapshotEvery k = be_WithSnapshotEvery k"

definition WithBoxCanonicalizer :: "canonicalizer \<Rightarrow> 'c box_option" where
  "WithBoxCanonicalizer c = be_WithCanonicalizer c"

definition WithBoxMetaMerge :: "meta_merge \<Rightarrow> 'c box_option" where
  "WithBoxMetaMerge m = be_WithMetaMerge m"

record 'c boxSet =
  bs_engine :: "'c box_engine"

datatype box_set_error = BSEngine box_engine_error | BSUnknownOp string | BSRetractRetract string

type_synonym ('c, 's) bs_result = "box_set_error option \<times> 'c boxSet \<times> 's"

definition with_box_engine :: "box_engine_error option \<times> 'c box_engine \<times> 's \<Rightarrow> ('c, 's) bs_result" where
  "with_box_engine r = (case r of (err, e, s) \<Rightarrow> (map_option BSEngine err, \<lparr>bs_engine = e\<rparr>, s))"

definition box_jsonl_Open :: "string option \<Rightarrow> box_op jsonl_env \<Rightarrow> store_error + (stream, box_op) Log" where
  "box_jsonl_Open mkdir_err J = (case mkdir_err of Some e \<Rightarrow> Inl (ErrIO e) | None \<Rightarrow> Inr (box_jsonl_log J))"

definition OpenBoxStore :: "('s, box_op) Log \<Rightarrow> 'c Clock \<Rightarrow> box_strategy \<Rightarrow> 'c \<Rightarrow> 'c box_option list \<Rightarrow> 's \<Rightarrow>
    box_engine_error + 'c boxSet" where
  "OpenBoxStore lg clk st dflt opts s =
     (case be_Open lg clk st dflt opts s of Inl err \<Rightarrow> Inl err | Inr e \<Rightarrow> Inr \<lparr>bs_engine = e\<rparr>)"

definition OpenBoxes :: "string option \<Rightarrow> box_op jsonl_env \<Rightarrow> 'c Clock \<Rightarrow> box_strategy \<Rightarrow> 'c \<Rightarrow> 'c box_option list \<Rightarrow> stream \<Rightarrow>
    box_engine_error + 'c boxSet" where
  "OpenBoxes mkdir_err J clk st dflt opts s =
     (case box_jsonl_Open mkdir_err J of
        Inl err \<Rightarrow> Inl (BStoreErr err)
      | Inr lg \<Rightarrow> OpenBoxStore lg clk st dflt opts s)"

definition bs_Apply :: "('s, box_op) Log \<Rightarrow> 'c Clock \<Rightarrow> (nat \<Rightarrow> 's \<Rightarrow> 's) \<Rightarrow> box_op \<Rightarrow> 'c boxSet \<Rightarrow> 's \<Rightarrow> ('c, 's) bs_result" where
  "bs_Apply lg clk env o' b s = with_box_engine (be_Apply lg clk env o' (bs_engine b) s)"

definition bs_ApplyAll :: "('s, box_op) Log \<Rightarrow> 'c Clock \<Rightarrow> (nat \<Rightarrow> 's \<Rightarrow> 's) \<Rightarrow> box_op list \<Rightarrow> 'c boxSet \<Rightarrow> 's \<Rightarrow> ('c, 's) bs_result" where
  "bs_ApplyAll lg clk env ops b s = with_box_engine (be_ApplyAll lg clk env ops (bs_engine b) s)"

definition bs_Add :: "('s, box_op) Log \<Rightarrow> 'c Clock \<Rightarrow> (nat \<Rightarrow> 's \<Rightarrow> 's) \<Rightarrow> string \<Rightarrow> float64 list \<Rightarrow> float64 list \<Rightarrow>
    'c boxSet \<Rightarrow> 's \<Rightarrow> box_op \<times> ('c, 's) bs_result" where
  "bs_Add lg clk env newid lo hi b s = (let o' = bop_Add newid lo hi in (o', bs_Apply lg clk env o' b s))"

definition bs_AddWithMeta :: "('s, box_op) Log \<Rightarrow> 'c Clock \<Rightarrow> (nat \<Rightarrow> 's \<Rightarrow> 's) \<Rightarrow> string \<Rightarrow> float64 list \<Rightarrow> float64 list \<Rightarrow>
    metadata \<Rightarrow> 'c boxSet \<Rightarrow> 's \<Rightarrow> box_op \<times> ('c, 's) bs_result" where
  "bs_AddWithMeta lg clk env newid lo hi m b s =
     (let o' = bop_Add newid lo hi; o' = o'\<lparr>BO_Box := WithMeta (BO_Box o') m\<rparr> in (o', bs_Apply lg clk env o' b s))"

definition bs_Remove :: "('s, box_op) Log \<Rightarrow> 'c Clock \<Rightarrow> (nat \<Rightarrow> 's \<Rightarrow> 's) \<Rightarrow> string \<Rightarrow> float64 list \<Rightarrow> float64 list \<Rightarrow>
    'c boxSet \<Rightarrow> 's \<Rightarrow> box_op \<times> ('c, 's) bs_result" where
  "bs_Remove lg clk env newid lo hi b s = (let o' = bop_Remove newid lo hi in (o', bs_Apply lg clk env o' b s))"

definition bs_AddBounds :: "('s, box_op) Log \<Rightarrow> 'c Clock \<Rightarrow> (nat \<Rightarrow> 's \<Rightarrow> 's) \<Rightarrow> string \<Rightarrow> float64 list \<Rightarrow> float64 list \<Rightarrow>
    bound list \<Rightarrow> bound list \<Rightarrow> 'c boxSet \<Rightarrow> 's \<Rightarrow> box_op \<times> ('c, 's) bs_result" where
  "bs_AddBounds lg clk env newid lo hi loB hiB b s =
     (let o' = bop_AddBounds newid lo hi loB hiB in (o', bs_Apply lg clk env o' b s))"

definition bs_RemoveBounds :: "('s, box_op) Log \<Rightarrow> 'c Clock \<Rightarrow> (nat \<Rightarrow> 's \<Rightarrow> 's) \<Rightarrow> string \<Rightarrow> float64 list \<Rightarrow> float64 list \<Rightarrow>
    bound list \<Rightarrow> bound list \<Rightarrow> 'c boxSet \<Rightarrow> 's \<Rightarrow> box_op \<times> ('c, 's) bs_result" where
  "bs_RemoveBounds lg clk env newid lo hi loB hiB b s =
     (let o' = bop_RemoveBounds newid lo hi loB hiB in (o', bs_Apply lg clk env o' b s))"

definition bs_RemoveWithMeta :: "('s, box_op) Log \<Rightarrow> 'c Clock \<Rightarrow> (nat \<Rightarrow> 's \<Rightarrow> 's) \<Rightarrow> string \<Rightarrow> float64 list \<Rightarrow> float64 list \<Rightarrow>
    metadata \<Rightarrow> 'c boxSet \<Rightarrow> 's \<Rightarrow> box_op \<times> ('c, 's) bs_result" where
  "bs_RemoveWithMeta lg clk env newid lo hi m b s =
     (let o' = bop_Remove newid lo hi; o' = o'\<lparr>BO_Box := WithMeta (BO_Box o') m\<rparr> in (o', bs_Apply lg clk env o' b s))"

definition bs_RetractWithID :: "('s, box_op) Log \<Rightarrow> 'c Clock \<Rightarrow> (nat \<Rightarrow> 's \<Rightarrow> 's) \<Rightarrow> string \<Rightarrow> string \<Rightarrow> string \<Rightarrow>
    'c boxSet \<Rightarrow> 's \<Rightarrow> box_op option \<times> ('c, 's) bs_result" where
  "bs_RetractWithID lg clk env newid i refID b s =
     (case be_Op refID (bs_engine b) of
        None \<Rightarrow> (None, Some (BSUnknownOp refID), b, s)
      | Some target \<Rightarrow>
          if BO_Kind target = BKindRetract then (None, Some (BSRetractRetract refID), b, s)
          else let o' = bop_Retract newid refID (BO_Box target);
                   o' = (if i \<noteq> [] then o'\<lparr>BO_ID := i\<rparr> else o')
               in (Some o', bs_Apply lg clk env o' b s))"

definition bs_Retract :: "('s, box_op) Log \<Rightarrow> 'c Clock \<Rightarrow> (nat \<Rightarrow> 's \<Rightarrow> 's) \<Rightarrow> string \<Rightarrow> string \<Rightarrow>
    'c boxSet \<Rightarrow> 's \<Rightarrow> box_op option \<times> ('c, 's) bs_result" where
  "bs_Retract lg clk env newid refID b s = bs_RetractWithID lg clk env newid [] refID b s"

definition bs_Boxes :: "'c boxSet \<Rightarrow> box list \<times> 'c boxSet" where
  "bs_Boxes b = (case be_Materialize (bs_engine b) of (bs, e) \<Rightarrow> (bs, \<lparr>bs_engine = e\<rparr>))"

definition bs_Layers :: "'c boxSet \<Rightarrow> box_layer list" where
  "bs_Layers b = be_Layers (bs_engine b)"

definition bs_Contains :: "float64 list \<Rightarrow> 'c boxSet \<Rightarrow> bool \<times> 'c boxSet" where
  "bs_Contains p b = (case be_Contains p (bs_engine b) of (r, e) \<Rightarrow> (r, \<lparr>bs_engine = e\<rparr>))"

definition bs_Overlaps :: "box \<Rightarrow> 'c boxSet \<Rightarrow> bool \<times> 'c boxSet" where
  "bs_Overlaps bx b = (case be_Overlaps bx (bs_engine b) of (r, e) \<Rightarrow> (r, \<lparr>bs_engine = e\<rparr>))"

definition bs_Crossed :: "float_ops \<Rightarrow> path \<Rightarrow> 'c boxSet \<Rightarrow> box list \<times> 'c boxSet" where
  "bs_Crossed A p b = (case bs_Boxes b of (bs, b') \<Rightarrow> (Crossed A bs p, b'))"

definition bs_Traverse :: "float_ops \<Rightarrow> path \<Rightarrow> 'c boxSet \<Rightarrow> pathSegment list \<times> 'c boxSet" where
  "bs_Traverse A p b = (case bs_Boxes b of (bs, b') \<Rightarrow> (Traverse A bs p, b'))"

definition bs_Ops :: "'c boxSet \<Rightarrow> box_op list" where
  "bs_Ops b = be_Ops (bs_engine b)"

definition bs_Snapshot :: "('s, box_op) Log \<Rightarrow> 'c boxSet \<Rightarrow> 's \<Rightarrow> ('c, 's) bs_result" where
  "bs_Snapshot lg b s = with_box_engine (be_Snapshot lg (bs_engine b) s)"

definition bs_Compact :: "('s, box_op) Log \<Rightarrow> 'c boxSet \<Rightarrow> 's \<Rightarrow> ('c, 's) bs_result" where
  "bs_Compact lg b s = with_box_engine (be_Compact lg (bs_engine b) s)"

subsection \<open>Queries\<close>

lemma Contains_in_step:
  assumes "in_step n H e" "box_history n H" "length x = n"
  shows "fst (bs_Contains (map Fin x) \<lparr>bs_engine = e\<rparr>) \<longleftrightarrow>
    fineOf x \<in> box_view_span (be_strategy e) (effective (set H))"
proof -
  note m = in_step_Materialize [OF assms(1,2)]
  have "fst (bs_Contains (map Fin x) \<lparr>bs_engine = e\<rparr>) = boxes_Contains (fst (be_Materialize e)) (map Fin x)"
    by (simp add: bs_Contains_def be_Contains_def be_Materialize_def Let_def)
  also have "\<dots> \<longleftrightarrow> fineOf x \<in> bcover (fst (be_Materialize e))"
    using boxes_Contains_iff [OF all_goodD [OF m(2)] assms(3)] box_points_bcover [OF all_goodD [OF m(2)]] by simp
  finally show ?thesis by (simp add: m(3))
qed

subsection \<open>Batches through \<open>ApplyAll\<close>\<close>

context box_engine_log
begin

lemma ApplyAll_boxes:
  assumes "inv s" "holds_boxes n H s" "in_step n H e" "room e" "bbatch n H ops" "\<forall>o'\<in>set ops. good_bop n o'"
  shows "\<exists>e' s' G. be_ApplyAll lg clk (\<lambda>_ s. s) ops e s = (None, e', s') \<and> bnews H ops G \<and> inv s' \<and>
    base s' = base s \<and> holds_boxes n (H @ G) s' \<and> in_step n (H @ G) e' \<and> be_strategy e' = be_strategy e"
proof (cases "ops = []")
  case True
  with assms(1-3) show ?thesis
    by (intro exI [of _ e] exI [of _ s] exI [of _ "[]"]) (simp add: be_ApplyAll_def bnews_def)
next
  case False
  let ?e = "e\<lparr>be_dims := int n\<rparr>"
  have e: "in_step n H ?e" "be_dims ?e = int n" "room ?e" using in_step_dims [OF assms(3)] assms(4) by (simp_all add: room_def)
  from applyLocked_current [OF assms(1,2) e assms(5), of "\<lambda>_ s. s" 0 clk] show ?thesis
    unfolding apply_dims [OF False assms(6,3)] by auto
qed

lemma ApplyAll_behind:
  assumes "inv s" "holds_boxes n (H @ ext) s" "in_step n H e" "base s \<le> length H" "ext \<noteq> []" "room e"
    and "bbatch n (H @ ext) ops" "\<forall>o'\<in>set ops. good_bop n o'" "\<exists>o'\<in>set ops. BO_ID o' \<notin> BO_ID ` set H"
  shows "\<exists>e' s' G. be_ApplyAll lg clk (\<lambda>_ s. s) ops e s = (None, e', s') \<and> bnews (H @ ext) ops G \<and> inv s' \<and>
    base s' = base s \<and> holds_boxes n (H @ ext @ G) s' \<and> in_step n (H @ ext @ G) e' \<and> be_strategy e' = be_strategy e"
proof -
  let ?e = "e\<lparr>be_dims := int n\<rparr>"
  have e: "in_step n H ?e" "room ?e" using in_step_dims [OF assms(3)] assms(6) by (simp_all add: room_def)
  have ne: "ops \<noteq> []" using assms(9) by auto
  from applyLocked_stale [OF assms(1,2) e(1) assms(4,5) e(2) assms(7,9), of clk] show ?thesis
    unfolding apply_dims [OF ne assms(8,3)] by auto
qed

lemma bnews_stamped:
  assumes "bnews H ops G" "\<forall>o'\<in>set ops. BO_TS o' \<noteq> 0"
  shows "G = filter (\<lambda>o'. BO_ID o' \<notin> BO_ID ` set H) ops"
proof -
  have "list_all2 bstamped xs G \<Longrightarrow> \<forall>o'\<in>set xs. BO_TS o' \<noteq> 0 \<Longrightarrow> G = xs" for xs
    by (induction rule: list_all2_induct) (auto simp: bstamped_def)
  with assms show ?thesis by (auto simp: bnews_def)
qed

end

text \<open>Replicas that know the same operations show the same geometry.\<close>

lemma in_step_agree:
  assumes "in_step n H e" "box_history n H" "in_step n H' e'" "box_history n H'" "set H = set H'"
    "be_strategy e = be_strategy e'"
  shows "map box_key (fst (be_Materialize e)) = map box_key (fst (be_Materialize e'))"
proof -
  have "distinct H" "distinct H'"
    using assms(2,4) causal_distinct distinct_map by (auto simp: box_history_def)
  then have m: "mset H = mset H'" using assms(5) set_eq_iff_mset_eq_distinct by blast
  show ?thesis
    using in_step_Materialize(1) [OF assms(1,2), of meta_Union] in_step_Materialize(1) [OF assms(3,4), of meta_Union]
      MaterializeMerged_perm [OF box_history_good [OF assms(2)] box_history_unique [OF assms(2)] m, of _ meta_Union meta_Union]
      assms(6) by simp
qed

subsection \<open>Last-write-wins with increasing timestamps\<close>

definition box_latest :: "box_op \<Rightarrow> box_op set \<Rightarrow> bool" where
  "box_latest o' O' \<longleftrightarrow> (\<forall>p\<in>O'. i_lt (BO_TS p) (BO_TS o'))"

lemma bdecides_latest:
  assumes "box_latest o' E"
  shows "bdecides BLWW (insert o' E) x p \<longleftrightarrow> (if x \<in> bspan (BO_Box o') then p = o' else bdecides BLWW E x p)"
proof -
  have better: "bbetter BLWW (bwinnerOf o') (bwinnerOf p)" "\<not> bbetter BLWW (bwinnerOf p) (bwinnerOf o')" if "p \<in> E" for p
    using assms that by (auto simp: box_latest_def bbetter_def bwinnerOf_def i_lt_def)
  moreover have "\<not> bbetter BLWW w w" for w by (simp add: bbetter_def)
  ultimately show ?thesis by (auto simp: bdecides_def)
qed

lemma effective_snoc:
  assumes "box_history n (H @ [o'])" "BO_Kind o' \<noteq> BKindRetract"
  shows "effective (set (H @ [o'])) = insert o' (effective (set H))"
  using assms Effective_snoc [of o' H] by (auto simp: set_Effective)

lemma view_latest:
  assumes "box_history n (H @ [o'])" "box_latest o' (set H)" "BO_Kind o' = BKindAdd \<or> BO_Kind o' = BKindRemove"
  shows "x \<in> box_view_span BLWW (effective (set (H @ [o']))) \<longleftrightarrow>
    (if x \<in> bspan (BO_Box o') then BO_Kind o' = BKindAdd else x \<in> box_view_span BLWW (effective (set H)))"
proof -
  have l: "box_latest o' (effective (set H))" using assms(2) by (auto simp: box_latest_def effective_def)
  have e: "effective (set (H @ [o'])) = insert o' (effective (set H))"
    using assms(3) effective_snoc [OF assms(1)] by auto
  show ?thesis unfolding e box_view_span.simps mem_Collect_eq bdecides_latest [OF l] by auto
qed

text \<open>A retraction gives the set of operations without its target.\<close>

lemma effective_retract:
  assumes "box_history n (H @ [r])" "BO_Kind r = BKindRetract" "t \<in> set H" "BO_ID t = BO_Ref r" "BO_Kind t \<noteq> BKindRetract"
  shows "effective (set (H @ [r])) = effective (set H - {t})"
proof -
  have "unique_bids (set H)" using assms(1) box_history_unique by auto
  then have t: "BO_ID o' = BO_Ref r \<longleftrightarrow> o' = t" if "o' \<in> set H" for o'
    using that assms(3,4) by (auto simp: unique_bids_def inj_on_def)
  have "o' \<in> effective (set (H @ [r])) \<longleftrightarrow> o' \<in> effective (set H - {t})" for o'
  proof (cases "o' \<in> set H")
    case True
    then show ?thesis using assms(2,5) t [OF True] by (auto simp: effective_def)
  qed (use assms(2) in \<open>auto simp: effective_def\<close>)
  then show ?thesis by blast
qed

definition box_ahead :: "('c \<Rightarrow> int64) \<Rightarrow> box_op list \<Rightarrow> 'c box_engine \<Rightarrow> bool" where
  "box_ahead last_of H e \<longleftrightarrow> last_of (be_clock e) \<noteq> max_int64 \<and> (\<forall>p\<in>set H. i_le (BO_TS p) (last_of (be_clock e)))"

locale box_engine_clocked = box_engine_log lg inv base tail snap storable sn fits + clock "Tick clk" "Observe clk" last_of
  for lg :: "('s, box_op) Log" and inv base tail snap storable sn fits and clk :: "'c Clock" and last_of
begin

lemma Apply_fresh_box:
  assumes "inv s" "holds_boxes n H s" "in_step n H e" "room e" "BO_TS o' = 0"
    "box_history n (H @ [o'])" "\<And>ts. storable (o'\<lparr>BO_TS := ts\<rparr>)" "box_ahead last_of H e"
  shows "\<exists>e' s' p. be_Apply lg clk (\<lambda>_ s. s) o' e s = (None, e', s') \<and> inv s' \<and> holds_boxes n (H @ [p]) s' \<and>
      in_step n (H @ [p]) e' \<and> be_strategy e' = be_strategy e \<and> box_latest p (set H) \<and> (\<exists>ts. p = o'\<lparr>BO_TS := ts\<rparr>)"
proof -
  let ?e = "e\<lparr>be_dims := int n\<rparr>"
  have e: "in_step n H ?e" "be_dims ?e = int n" "room ?e" using in_step_dims [OF assms(3)] assms(4) by (simp_all add: room_def)
  have u: "filter (\<lambda>o'. BO_ID o' \<notin> BO_ID ` set H) [o'] = [o']" using assms(6) by auto
  have b: "bbatch n H [o']" using assms(6,7) u by (simp add: bbatch_def) (metis bstamped_def)
  obtain ts c where t: "Tick clk (be_clock e) = (ts, c)" by (cases "Tick clk (be_clock e)")
  let ?p = "o'\<lparr>BO_TS := ts\<rparr>"
  have st: "fst (be_stamp clk [o'] (be_clock ?e)) = [?p]" using assms(5) t by simp
  have "i_lt (last_of (be_clock e)) ts" using tick_greater [OF t] assms(8) by (simp add: box_ahead_def)
  then have "box_latest ?p (set H)" using assms(8) by (auto simp: box_ahead_def box_latest_def i_lt_def i_le_def)
  moreover have "be_Apply lg clk (\<lambda>_ s. s) o' e s = be_applyLocked lg clk (\<lambda>_ s. s) 0 [o'] ?e s"
    using apply_dims [of "[o']" n H e lg clk "\<lambda>_ s. s" s] assms(3,6) by (simp add: be_ApplyAll_def be_Apply_def)
  ultimately show ?thesis
    using applyLocked_stamped [OF assms(1,2) e b, of "\<lambda>_ s. s" 0 clk] unfolding u st by fastforce
qed

lemma Apply_latest_box:
  assumes "inv s" "holds_boxes n H s" "in_step n H e" "room e" "BO_TS o' = 0"
    "box_history n (H @ [o'])" "\<And>ts. storable (o'\<lparr>BO_TS := ts\<rparr>)" "box_ahead last_of H e" "be_strategy e = BLWW"
    "BO_Kind o' = BKindAdd \<or> BO_Kind o' = BKindRemove"
  shows "\<exists>b' s'. bs_Apply lg clk (\<lambda>_ s. s) o' \<lparr>bs_engine = e\<rparr> s = (None, b', s') \<and>
    (\<forall>x. length x = n \<longrightarrow> (fst (bs_Contains (map Fin x) b') \<longleftrightarrow>
       (if Box_Contains (BO_Box o') (map Fin x) then BO_Kind o' = BKindAdd
        else fst (bs_Contains (map Fin x) \<lparr>bs_engine = e\<rparr>))))"
proof -
  obtain e' s' p ts where r: "be_Apply lg clk (\<lambda>_ s. s) o' e s = (None, e', s')" "holds_boxes n (H @ [p]) s'"
      "in_step n (H @ [p]) e'" "be_strategy e' = be_strategy e" "box_latest p (set H)" "p = o'\<lparr>BO_TS := ts\<rparr>"
    using Apply_fresh_box [OF assms(1-8)] by blast
  have h: "box_history n (H @ [p])" "box_history n H"
    using r(2) assms(2) by (simp_all add: box_store_holds_def)
  have p: "BO_Kind p = BO_Kind o'" "BO_Box p = BO_Box o'" using r(6) by simp_all
  have g: "good_box n (BO_Box o')" using assms(6) good_bop_box by simp
  have mem: "Box_Contains (BO_Box o') (map Fin x) \<longleftrightarrow> fineOf x \<in> bspan (BO_Box o')" if "length x = n" for x
    using mem_bpoints_iff [OF good_boxD(1) [OF g], of x] good_boxD(5) [OF g] that by (simp add: bpoints_def)
  show ?thesis
    using r(1) view_latest [OF h(1) r(5)] Contains_in_step [OF r(3) h(1)] Contains_in_step [OF assms(3) h(2)]
      assms(9,10) r(4) p mem
    by (auto simp: bs_Apply_def with_box_engine_def)
qed

lemma Retract_box:
  assumes "inv s" "holds_boxes n H s" "in_step n H e" "room e" "box_ahead last_of H e"
    and t: "t \<in> set H" "BO_Kind t \<noteq> BKindRetract" and i: "newid \<notin> BO_ID ` set H" "newid \<noteq> []"
    and fresh: "\<forall>a\<in>set H. BO_Kind a = BKindRetract \<longrightarrow> BO_Ref a \<noteq> newid"
    and sto: "\<And>ts. storable ((bop_Retract newid (BO_ID t) (BO_Box t))\<lparr>BO_TS := ts\<rparr>)"
  shows "\<exists>r b' s'. bs_Retract lg clk (\<lambda>_ s. s) newid (BO_ID t) \<lparr>bs_engine = e\<rparr> s = (Some r, None, b', s') \<and>
    (\<forall>x. length x = n \<longrightarrow> (fst (bs_Contains (map Fin x) b') \<longleftrightarrow>
       fineOf x \<in> box_view_span (be_strategy e) (effective (set H - {t}))))"
proof -
  let ?r = "bop_Retract newid (BO_ID t) (BO_Box t)"
  have H: "box_history n H" using assms(2) by (simp add: box_store_holds_def)
  have t_ok: "good_bop n t" "meta_ok (Meta (BO_Box t))" using H t(1) by (auto simp: box_history_def)
  have "good_bop n ?r" using t_ok(1) i(2) by (auto simp: good_bop_def BOp_Validate_iff bop_Retract_def known_bkind_def)
  then have h: "box_history n (H @ [?r])"
    using H i(1) fresh t_ok(2) by (auto simp: bop_Retract_def)
  have "BO_TS ?r = 0" by (simp add: bop_Retract_def)
  from Apply_fresh_box [OF assms(1-4) this h sto assms(5)]
  obtain e' s' p ts where r: "be_Apply lg clk (\<lambda>_ s. s) ?r e s = (None, e', s')" "holds_boxes n (H @ [p]) s'"
      "in_step n (H @ [p]) e'" "be_strategy e' = be_strategy e" "p = ?r\<lparr>BO_TS := ts\<rparr>" by blast
  have h': "box_history n (H @ [p])" using r(2) by (simp add: box_store_holds_def)
  have d: "distinct (map fst (be_ops e))" and ids: "\<forall>(i, o')\<in>set (be_ops e). i = BO_ID o'"
    using assms(3) by (simp_all add: in_step_def)
  have "t \<in> snd ` set (be_ops e)" using t(1) in_step_set(1) [OF assms(3)] by (simp add: be_opsList_def)
  with ids have "(BO_ID t, t) \<in> set (be_ops e)" by auto
  with d have op: "be_Op (BO_ID t) e = Some t" by (simp add: be_Op_def)
  have p: "BO_Kind p = BKindRetract" "BO_ID t = BO_Ref p" unfolding r(5) by (simp_all add: bop_Retract_def)
  have "effective (set (H @ [p])) = effective (set H - {t})"
    by (rule effective_retract [OF h' p(1) t(1) p(2) t(2)])
  with op r(1,4) t(2) Contains_in_step [OF r(3) h'] show ?thesis
    by (auto simp: bs_Retract_def bs_RetractWithID_def bs_Apply_def with_box_engine_def Let_def)
qed

end

interpretation box_mem_hybrid: box_engine_clocked box_mem_log mem_inv "\<lambda>_. 0" mem_ops mem_snap "\<lambda>_. True"
    mem_snapshotter "\<lambda>_ _. True" hybrid_Clock h_last
  by (intro box_engine_clocked.intro box_mem_engine.box_engine_log_axioms)
    (simp add: hybrid_Clock_def hybrid_clock.clock_axioms)

interpretation box_jsonl_lamport: box_engine_clocked "box_jsonl_log (bop_env fmtf)" "jsonl_inv (bop_env fmtf)"
    "jsonl_base (bop_env fmtf)" "jsonl_tail (bop_env fmtf)" "jsonl_snap (bop_env fmtf)"
    "jsonl_storable (bop_env fmtf)" "jsonl_snapshotter (bop_env fmtf)" "jsonl_fits (bop_env fmtf)" lamport_Clock "\<lambda>l. l"
  for fmtf
  by (intro box_engine_clocked.intro box_jsonl_engine.box_engine_log_axioms)
    (simp add: lamport_Clock_def lamport_clock.clock_axioms)

end
