(* ===== verification/Range_Examples.thy ===== *)
theory Range_Examples
  imports Range_Set
begin

section \<open>Example data for the 1-D stack\<close>

text \<open>
  Concrete operations, engines and stores on which the properties are applied: three operations, an engine
  on a Lamport clock that knows a list of operations and has a rebuild pending, an in-memory store with
  those operations, and a JSON Lines stream with one of them.
\<close>

definition ex_iv :: "real \<Rightarrow> real \<Rightarrow> interval" where
  "ex_iv x y = \<lparr>Start = Fin x, End = Fin y, StartBound = Closed, EndBound = Closed\<rparr>"

definition ex_op :: "string \<Rightarrow> kind \<Rightarrow> real \<Rightarrow> real \<Rightarrow> int64 \<Rightarrow> op" where
  "ex_op i k x y t = \<lparr>ID = i, Kind = k, OpInterval = ex_iv x y, TS = t, Origin = []\<rparr>"

definition ex_engine :: "strategy \<Rightarrow> 'c \<Rightarrow> op list \<Rightarrow> 'c engine" where
  "ex_engine st c ops = \<lparr>e_strategy = st, e_clock = c, e_snapshotEvery = 0, e_ops = map (\<lambda>o'. (ID o', o')) ops,
     e_view = [], e_segments = [], e_adds = [], e_removes = [], e_version = int (length ops), e_since = 0,
     e_dirty = True\<rparr>"

definition ex_mem :: "op list \<Rightarrow> op mem_store" where
  "ex_mem ops = mem_New\<lparr>mem_ops := ops\<rparr>"

definition op1 :: op where "op1 = ex_op ''a'' KindAdd 1 5 10"
definition op2 :: op where "op2 = ex_op ''b'' KindRemove 2 3 20"
definition op3 :: op where "op3 = ex_op ''c'' KindAdd 4 9 0"

lemmas ex_defs = ex_iv_def ex_op_def ex_engine_def ex_mem_def op1_def op2_def op3_def

lemma ex_valid_iv [simp]: "valid_iv (ex_iv x y) \<longleftrightarrow> x \<le> y"
  by (auto simp: valid_iff ex_iv_def fine_def fin_point_def)

lemma ex_valid_op [simp]: "valid_op op1" "valid_op op2" "valid_op op3"
  by (simp_all add: valid_op_iff op1_def op2_def op3_def ex_op_def)

lemma ex_points [simp]: "x \<in> points (ex_iv a b) \<longleftrightarrow> a \<le> x \<and> x \<le> b"
  by (auto simp: points_def Interval_Contains_def ex_iv_def)

lemma ex_fields [simp]:
  "OpInterval op1 = ex_iv 1 5" "OpInterval op2 = ex_iv 2 3" "OpInterval op3 = ex_iv 4 9"
  "Kind op1 = KindAdd" "Kind op2 = KindRemove" "Kind op3 = KindAdd"
  by (simp_all add: op1_def op2_def op3_def ex_op_def)

lemma ex_ids [simp]: "ID op1 = ''a''" "ID op2 = ''b''" "ID op3 = ''c''"
  by (simp_all add: op1_def op2_def op3_def ex_op_def)

lemma ex_ts [simp]: "TS op1 = 10" "TS op2 = 20" "TS op3 = 0"
  by (simp_all add: op1_def op2_def op3_def ex_op_def)

lemma ex_neq [simp]: "op1 \<noteq> op2" "op2 \<noteq> op1" "op1 \<noteq> op3" "op3 \<noteq> op1" "op2 \<noteq> op3" "op3 \<noteq> op2"
  by (simp_all add: op1_def op2_def op3_def ex_op_def)

lemma ex_engine_strategy [simp]: "e_strategy (ex_engine st c ops) = st"
  by (simp add: ex_engine_def)

lemma ex_synced:
  assumes "valid_history ops" "isDefined st"
  shows "synced ops (ex_engine st c ops)"
proof -
  have d: "distinct (map ID ops)" using assms by (simp add: valid_history_def)
  have "map_of (map (\<lambda>o'. (ID o', o')) ops) k = Some o' \<longleftrightarrow> o' \<in> set ops \<and> ID o' = k" for k o'
    using d map_of_eq_Some_iff [of "map (\<lambda>o'. (ID o', o')) ops" k o'] by (auto simp: comp_def)
  then show ?thesis
    using assms d by (simp add: synced_def known_def holds_def ex_engine_def comp_def)
qed

lemma ex_replica:
  assumes "valid_history ops" "isDefined st"
  shows "replica mem_inv (\<lambda>_. 0) mem_ops mem_snap ops (ex_engine st c ops) (ex_mem ops)"
  using assms ex_synced [OF assms]
  by (simp add: replica_def store_holds_def ex_mem_def mem_inv_def mem_snap_def mem_New_def ex_engine_def)

lemma ex_history [simp]: "valid_history [op1]" "valid_history [op2]" "valid_history [op1, op2]" "valid_history []"
  by (simp_all add: valid_history_def)


definition fm :: "float64 \<Rightarrow> string" where "fm x = ''0''"

lemma ex_ops_ok [simp]: "valid_ops [op1, op2]" "unique_ids {op1, op2}" "valid_ops [op1]" "valid_ops [op2]"
  using valid_ops_history [of "[op1, op2]"] unique_history [of "[op1, op2]" "[op1, op2]"] by auto

lemma op1_json: "put_op op1 = Some (JObj [(''id'', JStr ''a''), (''kind'', JStr ''add''),
   (''interval'', JObj [(''start'', JFloat (Fin 1)), (''end'', JFloat (Fin 5)), (''startBound'', JStr (Bound_String Closed)),
     (''endBound'', JStr (Bound_String Closed))]), (''ts'', JInt 10)])"
  by (simp add: put_op_def op1_def ex_op_def ex_iv_def put_interval_def put_float_def omit_if_def Kind_String_def is_fin_iff)

lemma op1_len: "op_len fm op1 \<le> 200"
  unfolding op_len_def op1_json
  by code_simp

lemma op1_storable: "jsonl_storable (quiet (op_env fm)) (op1\<lparr>TS := 10\<rparr>)"
  using storable_op_jsonl [of op1 fm] op1_len
  by (simp add: storable_op_def known_kind_def op1_def ex_op_def max_token_def)

definition ex_stream :: stream where
  "ex_stream = Some [Marshal (put_op op1)]"

lemma op1_same: "op1\<lparr>TS := 10\<rparr> = op1" by (simp add: op1_def ex_op_def)

lemma ex_stream_append: "jsonl_Append (quiet (op_env fm)) 0 [op1] None = (None, ex_stream)"
  by (simp add: jsonl_Append_def jsonl_count_def scan_def appendEvents_quiet lines_of_def ex_stream_def op_env_def)

lemma ex_stream_replica:
  assumes "isDefined st"
  shows "replica (jsonl_inv (quiet (op_env fm))) (jsonl_base (quiet (op_env fm))) (jsonl_tail (quiet (op_env fm)))
     (jsonl_snap (quiet (op_env fm))) [op1] (ex_engine st 10 [op1]) ex_stream"
proof -
  have e: "jsonl_base J None = 0" "jsonl_tail J None = []" "jsonl_snap J None = None" for J :: "op jsonl_env"
    by (simp_all add: jsonl_base_def jsonl_tail_def jsonl_snap_def jsonl_latest_def entries_def lines_of_def)
  show ?thesis
  using jsonl_Append_law [of "op_env fm" None "[op1]" 0] ex_stream_append op1_storable assms ex_synced [of "[op1]" st 10]
  unfolding op1_same
  by (auto simp: replica_def store_holds_def e ex_engine_def)
qed

lemma ex_view: "ensureView (ex_engine GrowOnly (10 :: int64) [op1]) =
    (ex_engine GrowOnly (10 :: int64) [op1])\<lparr>e_adds := [ex_iv 1 5], e_view := [ex_iv 1 5], e_dirty := False\<rparr>"
proof -
  have "IntervalsOf [op1] KindAdd = [ex_iv 1 5]"
    using Normalize_canonical [of "[ex_iv 1 5]"]
    by (simp add: IntervalsOf_def op1_def ex_op_def canonical_def separated_def)
  then show ?thesis
    by (simp add: ensureView_def materializeAll_def ex_engine_def opsList_def sort_slice_def Let_def)
qed


lemma op_env_float [simp]: "float_text (op_env fmtf) = fmtf"
  by (simp add: op_env_def)

lemma ex_fits: "jsonl_fits (quiet (op_env fm)) (e_version (ex_engine GrowOnly (10 :: int64) [op1]))
    (snapshot_data (ensureView (ex_engine GrowOnly (10 :: int64) [op1])))"
proof -
  let ?iv = "JObj [(''start'', JFloat (Fin 1)), (''end'', JFloat (Fin 5)),
    (''startBound'', JStr (Bound_String Closed)), (''endBound'', JStr (Bound_String Closed))]"
  let ?j = "JObj [(''strategy'', JStr ''grow-only''), (''version'', JInt 1), (''intervals'', JArr [?iv]),
    (''ops'', JArr [JObj [(''id'', JStr ''a''), (''kind'', JStr ''add''), (''interval'', ?iv), (''ts'', JInt 10)]])]"
  have d: "snapshot_data (ensureView (ex_engine GrowOnly (10 :: int64) [op1])) = Valid ?j"
    unfolding ex_view
    by (simp add: snapshot_data_def buildSnapshot_def ex_engine_def put_snapshot_def put_strategy_def
        Strategy_MarshalText_def names_def Strategy_String_def put_list_def opsList_def sort_slice_def op1_json
        omit_if_def put_interval_valid, simp add: ex_iv_def)
  have "length (json_text fm (JObj [(''snapshot'', JObj [(''version'', JInt 1), (''data'', ?j)])])) \<le> 1000"
    by code_simp
  then show ?thesis
    unfolding d by (simp add: jsonl_fits_def snapshotPayload_def line_len_def max_token_def ex_engine_def
        del: json_text.simps)
qed


definition ex_hybrid :: hybrid where
  "ex_hybrid = \<lparr>h_last = 20, h_wall = (\<lambda>n. of_nat n), h_reads = 0\<rparr>"

end
