(* ===== verification/Rtree.thy ===== *)
theory Rtree
  imports Box_Difference
begin

section \<open>The R-tree (rtree/rtree.go)\<close>

text \<open>
  A bulk-loaded, read-only index over boxes. \<open>widestAxis\<close> subtracts coordinates, so the float subtraction is a
  parameter \<open>sub\<close>; the answer of a search does not depend on it. Copying a box changes nothing here, so
  \<open>Build\<close> and \<open>BuildRef\<close> differ in ownership only.

  The theorems: the tree holds the non-empty boxes, each once; a search returns exactly the indexed boxes
  that share a point with the query, in the order \<open>lessBox\<close>; the tree is balanced.
\<close>

subsection \<open>The source\<close>

definition capacity :: nat where
  "capacity = 8"

datatype node = Node (mbr: box) (nboxes: "box list") (children: "node list") (leaf: bool)

record rtree =
  t_root :: "node option"
  t_n :: nat
  t_dims :: nat

datatype rtree_error = RBadBox box_error | RDims nat nat

fun less_floats :: "float64 list \<Rightarrow> float64 list \<Rightarrow> nat list \<Rightarrow> bool option" where
  "less_floats x y [] = None"
| "less_floats x y (d # ds) = (if \<not> f_eq (x ! d) (y ! d) then Some (f_lt (x ! d) (y ! d)) else less_floats x y ds)"

fun less_bounds :: "box \<Rightarrow> box \<Rightarrow> nat list \<Rightarrow> bool option" where
  "less_bounds a b [] = None"
| "less_bounds a b (d # ds) =
     (if loBound a d \<noteq> loBound b d then Some (bound_lt (loBound a d) (loBound b d))
      else if hiBound a d \<noteq> hiBound b d then Some (bound_lt (hiBound a d) (hiBound b d))
      else less_bounds a b ds)"

definition lessBox :: "box \<Rightarrow> box \<Rightarrow> bool" where
  "lessBox a b =
     (case less_floats (BMin a) (BMin b) [0..<length (BMin a)] of Some r \<Rightarrow> r | None \<Rightarrow>
      (case less_floats (BMax a) (BMax b) [0..<length (BMax a)] of Some r \<Rightarrow> r | None \<Rightarrow>
       (case less_bounds a b [0..<length (BMin a)] of Some r \<Rightarrow> r | None \<Rightarrow> meta_text (Meta a) < meta_text (Meta b))))"

definition lessOn :: "nat \<Rightarrow> box \<Rightarrow> box \<Rightarrow> bool" where
  "lessOn ax a b =
     (if \<not> f_eq (BMin a ! ax) (BMin b ! ax) then f_lt (BMin a ! ax) (BMin b ! ax)
      else if \<not> f_eq (BMax a ! ax) (BMax b ! ax) then f_lt (BMax a ! ax) (BMax b ! ax)
      else lessBox a b)"

definition widestAxis :: "(float64 \<Rightarrow> float64 \<Rightarrow> float64) \<Rightarrow> box list \<Rightarrow> nat" where
  "widestAxis sub boxes =
     fst (fold (\<lambda>d (ax, width).
         let lo = fold (\<lambda>b lo. if f_lt (BMin b ! d) lo then BMin b ! d else lo) (tl boxes) (BMin (hd boxes) ! d);
             hi = fold (\<lambda>b hi. if f_lt hi (BMax b ! d) then BMax b ! d else hi) (tl boxes) (BMax (hd boxes) ! d)
         in if f_lt width (sub hi lo) then (d, sub hi lo) else (ax, width))
       [0..<length (BMin (hd boxes))] (0, Fin 0))"

definition mbrOf :: "box list \<Rightarrow> box" where
  "mbrOf boxes =
     (let mn = fold (\<lambda>b mn. map (\<lambda>d. if f_lt (BMin b ! d) (mn ! d) then BMin b ! d else mn ! d) [0..<length mn])
                (tl boxes) (BMin (hd boxes));
          mx = fold (\<lambda>b mx. map (\<lambda>d. if f_lt (mx ! d) (BMax b ! d) then BMax b ! d else mx ! d) [0..<length mx])
                (tl boxes) (BMax (hd boxes))
      in NewBoxWithBounds mn mx (replicate (length mn) Closed) (replicate (length mn) Closed))"

function buildNode :: "(float64 \<Rightarrow> float64 \<Rightarrow> float64) \<Rightarrow> box list \<Rightarrow> node" where
  "buildNode sub boxes =
     (if length boxes \<le> capacity then Node (mbrOf boxes) boxes [] True
      else let sorted_boxes = sort_slice (lessOn (widestAxis sub boxes)) boxes;
               mid = length boxes div 2;
               l = buildNode sub (take mid sorted_boxes);
               r = buildNode sub (drop mid sorted_boxes)
           in Node (mbrOf [mbr l, mbr r]) [] [l, r] False)"
  by pat_completeness auto
termination
  by (relation "measure (\<lambda>(_, boxes). length boxes)") (auto simp: capacity_def)

fun build_loop :: "box list \<Rightarrow> nat \<Rightarrow> box list \<Rightarrow> rtree_error + nat \<times> box list" where
  "build_loop [] dims kept = Inr (dims, kept)"
| "build_loop (b # bs) dims kept =
     (if Box_Empty b then build_loop bs dims kept
      else case Box_Validate b of
        Some err \<Rightarrow> Inl (RBadBox err)
      | None \<Rightarrow>
          if dims \<noteq> 0 \<and> length (BMin b) \<noteq> dims then Inl (RDims (length (BMin b)) dims)
          else build_loop bs (if dims = 0 then length (BMin b) else dims) (kept @ [b]))"

definition build :: "(float64 \<Rightarrow> float64 \<Rightarrow> float64) \<Rightarrow> box list \<Rightarrow> rtree_error + rtree" where
  "build sub boxes =
     (case build_loop boxes 0 [] of
        Inl err \<Rightarrow> Inl err
      | Inr (dims, kept) \<Rightarrow>
          if kept = [] then Inr \<lparr>t_root = None, t_n = 0, t_dims = 0\<rparr>
          else Inr \<lparr>t_root = Some (buildNode sub kept), t_n = length kept, t_dims = dims\<rparr>)"

definition Build :: "(float64 \<Rightarrow> float64 \<Rightarrow> float64) \<Rightarrow> box list \<Rightarrow> rtree_error + rtree" where
  "Build sub boxes = build sub boxes"

definition BuildRef :: "(float64 \<Rightarrow> float64 \<Rightarrow> float64) \<Rightarrow> box list \<Rightarrow> rtree_error + rtree" where
  "BuildRef sub boxes = build sub boxes"

definition Tree_Len :: "rtree \<Rightarrow> nat" where
  "Tree_Len t = t_n t"

definition Tree_Dims :: "rtree \<Rightarrow> nat" where
  "Tree_Dims t = t_dims t"

fun searchNode :: "node \<Rightarrow> box \<Rightarrow> box list \<Rightarrow> box list" where
  "searchNode (Node m bs cs lf) q out =
     (if \<not> Overlaps m q then out
      else if lf then out @ filter (\<lambda>b. Overlaps b q) bs
      else fold (\<lambda>c out. searchNode c q out) cs out)"

definition searchInto :: "rtree \<Rightarrow> box \<Rightarrow> box list \<Rightarrow> box list" where
  "searchInto t q dst =
     (case t_root t of
        None \<Rightarrow> dst
      | Some nd \<Rightarrow> if Box_Empty q \<or> length (BMin q) \<noteq> t_dims t then dst else searchNode nd q dst)"

definition Search :: "rtree \<Rightarrow> box \<Rightarrow> box list" where
  "Search t q = (let refs = searchInto t q [] in if refs = [] then [] else map cloneBox (sort_slice lessBox refs))"

definition SearchRef :: "rtree \<Rightarrow> box \<Rightarrow> box list" where
  "SearchRef t q = searchInto t q []"

declare buildNode.simps [simp del]

subsection \<open>Bounding boxes\<close>

lemma bspan_axes_sub:
  assumes "good_box n a" "good_box n m" "\<And>i. i < n \<Longrightarrow> fspan (axis a i) \<subseteq> fspan (axis m i)"
  shows "bspan a \<subseteq> bspan m"
  using assms(3) by (auto simp: bspan_def good_boxD [OF assms(1)] good_boxD [OF assms(2)])

text \<open>Folding a choice between two coordinates over the boxes, axis by axis.\<close>

lemma fold_axes:
  "fold (\<lambda>b m. map (\<lambda>d. g (f b ! d) (m ! d)) [0..<length m]) bs m0 =
     map (\<lambda>d. fold (\<lambda>b x. g (f b ! d) x) bs (m0 ! d)) [0..<length m0]"
  by (induction bs arbitrary: m0) (simp_all add: map_nth)

lemma fold_choose_min:
  assumes "\<forall>b\<in>set bs. is_fin (f b)" "is_fin x"
  shows "is_fin (fold (\<lambda>b lo. if f_lt (f b) lo then f b else lo) bs x)"
    and "fold (\<lambda>b lo. if f_lt (f b) lo then f b else lo) bs x \<le> x"
    and "\<forall>b\<in>set bs. fold (\<lambda>b lo. if f_lt (f b) lo then f b else lo) bs x \<le> f b"
proof -
  let ?r = "fold (\<lambda>b lo. if f_lt (f b) lo then f b else lo) bs"
  have "is_fin (?r x) \<and> ?r x \<le> x \<and> (\<forall>b\<in>set bs. ?r x \<le> f b)" using assms
  proof (induction bs arbitrary: x)
    case (Cons b bs)
    let ?y = "if f_lt (f b) x then f b else x"
    have "is_fin ?y" "?y \<le> x" "?y \<le> f b" using Cons.prems by (auto simp: is_fin_iff)
    with Cons.IH [of ?y] Cons.prems show ?case by (auto intro: order_trans)
  qed simp
  then show "is_fin (?r x)" "?r x \<le> x" "\<forall>b\<in>set bs. ?r x \<le> f b" by blast+
qed

lemma fold_choose_max:
  assumes "\<forall>b\<in>set bs. is_fin (f b)" "is_fin x"
  shows "is_fin (fold (\<lambda>b hi. if f_lt hi (f b) then f b else hi) bs x)"
    and "x \<le> fold (\<lambda>b hi. if f_lt hi (f b) then f b else hi) bs x"
    and "\<forall>b\<in>set bs. f b \<le> fold (\<lambda>b hi. if f_lt hi (f b) then f b else hi) bs x"
proof -
  let ?r = "fold (\<lambda>b hi. if f_lt hi (f b) then f b else hi) bs"
  have "is_fin (?r x) \<and> x \<le> ?r x \<and> (\<forall>b\<in>set bs. f b \<le> ?r x)" using assms
  proof (induction bs arbitrary: x)
    case (Cons b bs)
    let ?y = "if f_lt x (f b) then f b else x"
    have "is_fin ?y" "x \<le> ?y" "f b \<le> ?y" using Cons.prems by (auto simp: is_fin_iff)
    with Cons.IH [of ?y] Cons.prems show ?case by (auto intro: order_trans)
  qed simp
  then show "is_fin (?r x)" "x \<le> ?r x" "\<forall>b\<in>set bs. f b \<le> ?r x" by blast+
qed

lemma mbrOf_spec:
  assumes "all_good n bs" "bs \<noteq> []"
  shows "good_box n (mbrOf bs)" and "b \<in> set bs \<Longrightarrow> bspan b \<subseteq> bspan (mbrOf bs)"
proof -
  obtain b0 bt where bs: "bs = b0 # bt" using assms(2) by (cases bs) auto
  have g: "good_box n b" if "b \<in> set bs" for b using assms(1) that by (simp add: all_good_def)
  note g0 = g [of b0, unfolded bs, simplified]
  let ?lo = "\<lambda>d. fold (\<lambda>b lo. if f_lt (BMin b ! d) lo then BMin b ! d else lo) bt (BMin b0 ! d)"
  let ?hi = "\<lambda>d. fold (\<lambda>b hi. if f_lt hi (BMax b ! d) then BMax b ! d else hi) bt (BMax b0 ! d)"
  have m: "mbrOf bs = NewBoxWithBounds (map ?lo [0..<n]) (map ?hi [0..<n]) (replicate n Closed) (replicate n Closed)"
    using good_boxD [OF g0]
    by (simp add: mbrOf_def bs fold_axes [of "\<lambda>x y. if f_lt x y then x else y" BMin]
        fold_axes [of "\<lambda>x y. if f_lt y x then x else y" BMax])
  have fin: "is_fin (BMin b ! d)" "is_fin (BMax b ! d)" if "b \<in> set bs" "d < n" for b d
    using good_box_fin [OF g [OF that(1)] that(2)] .
  have lo: "is_fin (?lo d)" "\<forall>b\<in>set bs. ?lo d \<le> BMin b ! d" if "d < n" for d
    using fold_choose_min [of bt "\<lambda>b. BMin b ! d" "BMin b0 ! d"] fin that by (auto simp: bs)
  have hi: "is_fin (?hi d)" "\<forall>b\<in>set bs. BMax b ! d \<le> ?hi d" if "d < n" for d
    using fold_choose_max [of bt "\<lambda>b. BMax b ! d" "BMax b0 ! d"] fin that by (auto simp: bs)
  have ax: "axis (mbrOf bs) d = \<lparr>Start = ?lo d, End = ?hi d, StartBound = Closed, EndBound = Closed\<rparr>" if "d < n" for d
    using that nth_upt [of 0 d n] by (simp add: m NewBoxWithBounds_def axis_def loBound_def hiBound_def cong: if_cong)
  have le: "?lo d \<le> ?hi d" if "d < n" for d
  proof -
    have "BMin b0 ! d \<le> BMax b0 ! d" by (rule box_ok_axis [OF good_boxD(1) [OF g0] that]) simp
    with lo(2) [OF that] hi(2) [OF that] show ?thesis by (auto simp: bs intro: order_trans)
  qed
  have fins: "\<exists>x y. ?lo d = Fin x \<and> ?hi d = Fin y \<and> x \<le> y" if d: "d < n" for d
  proof -
    obtain x y where xy: "?lo d = Fin x" "?hi d = Fin y" using lo(1) [OF d] hi(1) [OF d] unfolding is_fin_iff by blast
    with le [OF d] show ?thesis by auto
  qed
  have ok: "box_ok n (mbrOf bs)"
    unfolding box_ok_iff using good_boxD(4) [OF g0] fins by (simp add: m NewBoxWithBounds_def cong: if_cong)
  moreover have "\<not> Interval_empty (axis (mbrOf bs) d)" if "d < n" for d
    unfolding ax [OF that] using fins [OF that] by (auto simp: Interval_empty_def)
  then have "\<not> Box_Empty (mbrOf bs)" by (simp add: Box_Empty_axis box_okD [OF ok])
  ultimately show gm: "good_box n (mbrOf bs)" by (simp add: good_box_def)
  show "bspan b \<subseteq> bspan (mbrOf bs)" if b: "b \<in> set bs"
  proof (rule bspan_axes_sub [OF g [OF b] gm])
    fix d assume d: "d < n"
    have "ilo (axis (mbrOf bs) d) \<le> ilo (axis b d)" "ihi (axis b d) \<le> ihi (axis (mbrOf bs) d)"
      using lo(2) [OF d] hi(2) [OF d] b by (auto simp: fine_def ax [OF d] less_eq_finePoint_def order_le_less)
    then show "fspan (axis b d) \<subseteq> fspan (axis (mbrOf bs) d)" by (auto simp: fspan_def)
  qed
qed

subsection \<open>The tree\<close>

text \<open>\<open>covered\<close>: every bounding box contains the boxes below it, down to the leaves, which hold boxes of dimension \<open>n\<close>.\<close>

fun node_boxes :: "node \<Rightarrow> box list" where
  "node_boxes (Node m bs cs lf) = (if lf then bs else concat (map node_boxes cs))"

fun covered :: "nat \<Rightarrow> node \<Rightarrow> bool" where
  "covered n (Node m bs cs lf) \<longleftrightarrow> good_box n m \<and> (\<forall>b\<in>set (node_boxes (Node m bs cs lf)). good_box n b \<and> bspan b \<subseteq> bspan m) \<and>
     (\<not> lf \<longrightarrow> (\<forall>c\<in>set cs. covered n c))"

fun height :: "node \<Rightarrow> nat" where
  "height (Node m bs cs lf) = (if lf then 0 else Suc (fold max (map height cs) 0))"

fun leaves_fit :: "node \<Rightarrow> bool" where
  "leaves_fit (Node m bs cs lf) \<longleftrightarrow> (if lf then length bs \<le> capacity else (\<forall>c\<in>set cs. leaves_fit c))"

lemma buildNode_mset: "mset (node_boxes (buildNode sub bs)) = mset bs"
proof (induction sub bs rule: buildNode.induct)
  case (1 sub bs)
  let ?s = "sort_slice (lessOn (widestAxis sub bs)) bs"
  show ?case
  proof (cases "length bs \<le> capacity")
    case False
    have "mset ?s = mset bs" by simp
    moreover have "mset (take (length bs div 2) ?s) + mset (drop (length bs div 2) ?s) = mset ?s"
      by (metis append_take_drop_id mset_append)
    ultimately show ?thesis
      using "1.IH" [OF False refl refl] by (subst buildNode.simps) (simp add: False Let_def)
  qed (simp add: buildNode.simps)
qed

lemma covered_mbr: "covered n nd \<Longrightarrow> good_box n (mbr nd) \<and> (\<forall>b\<in>set (node_boxes nd). good_box n b \<and> bspan b \<subseteq> bspan (mbr nd))"
  by (cases nd) auto

lemma covered_pair:
  assumes "covered n l" "covered n r"
  shows "covered n (Node (mbrOf [mbr l, mbr r]) [] [l, r] False)"
proof -
  have ag: "all_good n [mbr l, mbr r]" using covered_mbr [OF assms(1)] covered_mbr [OF assms(2)] by (simp add: all_good_def)
  have "bspan (mbr l) \<subseteq> bspan (mbrOf [mbr l, mbr r])" "bspan (mbr r) \<subseteq> bspan (mbrOf [mbr l, mbr r])"
    using mbrOf_spec(2) [OF ag] by simp_all
  moreover have "good_box n (mbrOf [mbr l, mbr r])" using mbrOf_spec(1) [OF ag] by simp
  ultimately show ?thesis
    using assms covered_mbr [OF assms(1)] covered_mbr [OF assms(2)] by (simp add: ball_Un) blast
qed

lemma buildNode_covered:
  "all_good n bs \<Longrightarrow> bs \<noteq> [] \<Longrightarrow> covered n (buildNode sub bs)"
proof (induction sub bs rule: buildNode.induct)
  case (1 sub bs)
  let ?s = "sort_slice (lessOn (widestAxis sub bs)) bs" and ?m = "length bs div 2"
  show ?case
  proof (cases "length bs \<le> capacity")
    case True
    then show ?thesis using mbrOf_spec [OF "1.prems"] "1.prems"(1) by (simp add: buildNode.simps all_good_def)
  next
    case False
    let ?l = "buildNode sub (take ?m ?s)" and ?r = "buildNode sub (drop ?m ?s)"
    have len: "0 < ?m" "?m < length ?s" using False by (auto simp: capacity_def)
    have "all_good n (take ?m ?s)" "all_good n (drop ?m ?s)"
      using "1.prems"(1) by (auto simp: all_good_def dest: in_set_takeD in_set_dropD)
    moreover have "take ?m ?s \<noteq> []" "drop ?m ?s \<noteq> []" using len by (auto simp flip: length_greater_0_conv)
    ultimately have c: "covered n ?l" "covered n ?r"
      using "1.IH"(1) [OF False refl refl] "1.IH"(2) [OF False refl refl refl] by blast+
    from covered_pair [OF this]
    show ?thesis by (subst buildNode.simps) (simp add: False Let_def)
  qed
qed

lemma searchNode_eq:
  assumes "covered n nd" "good_box n q"
  shows "searchNode nd q out = out @ filter (\<lambda>b. Overlaps b q) (node_boxes nd)"
  using assms
proof (induction nd arbitrary: out)
  case (Node m bs cs lf)
  let ?nd = "Node m bs cs lf"
  show ?case
  proof (cases "Overlaps m q")
    case True
    have "fold (\<lambda>c out. searchNode c q out) ds out = out @ concat (map (\<lambda>c. filter (\<lambda>b. Overlaps b q) (node_boxes c)) ds)"
      if "\<not> lf" "set ds \<subseteq> set cs" for ds out
      using that Node.IH Node.prems by (induction ds arbitrary: out) auto
    with True show ?thesis by (auto simp: filter_concat comp_def)
  next
    case False
    have g: "good_box n m" using Node.prems by simp
    have "\<not> Overlaps b q" if "b \<in> set (node_boxes ?nd)" for b
    proof -
      have b: "good_box n b" "bspan b \<subseteq> bspan m" using Node.prems(1) that by auto
      then show ?thesis
        using False Overlaps_iff_bspan [OF g Node.prems(2)] Overlaps_iff_bspan [OF b(1) Node.prems(2)] by blast
    qed
    then have "filter (\<lambda>b. Overlaps b q) (node_boxes ?nd) = []" by (simp only: filter_empty_conv) blast
    with False show ?thesis by simp
  qed
qed

lemma buildNode_height:
  "length bs \<le> capacity * 2 ^ h \<Longrightarrow> height (buildNode sub bs) \<le> h"
proof (induction sub bs arbitrary: h rule: buildNode.induct)
  case (1 sub bs)
  let ?s = "sort_slice (lessOn (widestAxis sub bs)) bs" and ?m = "length bs div 2"
  show ?case
  proof (cases "length bs \<le> capacity")
    case False
    then obtain k where h: "h = Suc k" using "1.prems" by (cases h) auto
    have "length (take ?m ?s) \<le> capacity * 2 ^ k" "length (drop ?m ?s) \<le> capacity * 2 ^ k"
      using "1.prems" by (auto simp: h)
    from "1.IH"(1) [OF False refl refl this(1)] "1.IH"(2) [OF False refl refl refl this(2)]
    show ?thesis by (subst buildNode.simps) (simp add: False Let_def h)
  qed (simp add: buildNode.simps)
qed

lemma buildNode_leaves: "leaves_fit (buildNode sub bs)"
proof (induction sub bs rule: buildNode.induct)
  case (1 sub bs)
  then show ?case by (subst buildNode.simps) (simp add: Let_def)
qed

subsection \<open>Building and searching\<close>

lemma build_loop_spec:
  assumes "build_loop bs dims kept = Inr (d, ks)" "all_good dims kept" "dims = 0 \<longleftrightarrow> kept = []"
  shows "ks = kept @ filter (\<lambda>b. \<not> Box_Empty b) bs \<and> all_good d ks \<and> (d = 0 \<longleftrightarrow> ks = [])"
  using assms
proof (induction bs dims kept rule: build_loop.induct)
  case (2 b bs dims kept)
  show ?case
  proof (cases "Box_Empty b")
    case False
    have v: "Box_Validate b = None" using "2.prems"(1) False by (auto split: option.splits)
    let ?d = "if dims = 0 then length (BMin b) else dims"
    have d: "\<not> (dims \<noteq> 0 \<and> length (BMin b) \<noteq> dims)" using "2.prems"(1) False v by (auto split: if_splits)
    have g: "good_box (Dims b) b" using v False by (simp add: good_box_def box_ok_def)
    have "0 < length (BMin b)" using good_boxD(2,4) [OF g] by simp
    then have "all_good ?d (kept @ [b])" "?d = 0 \<longleftrightarrow> kept @ [b] = []"
      using "2.prems"(2,3) g d by (auto simp: all_good_def Dims_def)
    then show ?thesis
      using "2.IH"(2) [OF False v d] "2.prems"(1) False v d by auto
  qed (use 2 in auto)
qed auto

lemma Build_shape:
  assumes "Build sub boxes = Inr t"
  defines "ks \<equiv> filter (\<lambda>b. \<not> Box_Empty b) boxes"
  obtains d where "all_good d ks"
    "t = (if ks = [] then \<lparr>t_root = None, t_n = 0, t_dims = 0\<rparr>
      else \<lparr>t_root = Some (buildNode sub ks), t_n = length ks, t_dims = d\<rparr>)"
proof -
  obtain d ks' where l: "build_loop boxes 0 [] = Inr (d, ks')"
    using assms(1) by (auto simp: Build_def build_def split: sum.splits)
  from build_loop_spec [OF this] have ks: "ks' = ks" "all_good d ks" by (auto simp: all_good_def ks_def)
  with assms(1) l show ?thesis by (intro that [of d]) (auto simp: Build_def build_def)
qed

lemma map_cloneBox: "map cloneBox xs = xs"
  by (simp add: cloneBox_def map_idI)

theorem Search_exact:
  assumes "Build sub boxes = Inr t" "box_ok (Dims q) q"
  shows "mset (Search t q) = mset (filter (\<lambda>b. \<not> Box_Empty b \<and> bpoints b \<inter> bpoints q \<noteq> {}) boxes)"
proof -
  let ?k = "filter (\<lambda>b. \<not> Box_Empty b) boxes"
  obtain d where ks: "all_good d ?k"
    and t: "t = (if ?k = [] then \<lparr>t_root = None, t_n = 0, t_dims = 0\<rparr>
      else \<lparr>t_root = Some (buildNode sub ?k), t_n = length ?k, t_dims = d\<rparr>)"
    by (rule Build_shape [OF assms(1)])
  have s: "mset (Search t q) = mset (searchInto t q [])" by (simp add: Search_def Let_def map_cloneBox)
  have g: "good_box d b" if "b \<in> set ?k" for b using ks that by (simp add: all_good_def)
  have f: "filter (\<lambda>b. \<not> Box_Empty b \<and> bpoints b \<inter> bpoints q \<noteq> {}) boxes = filter (\<lambda>b. bpoints b \<inter> bpoints q \<noteq> {}) ?k"
    by (simp add: conj_commute)
  consider "?k = []" | "?k \<noteq> []" "Box_Empty q \<or> Dims q \<noteq> d" | "?k \<noteq> []" "good_box d q"
    using assms(2) by (auto simp: good_box_def)
  then show ?thesis
  proof cases
    case 1
    then show ?thesis unfolding s f by (simp add: t searchInto_def)
  next
    case 2
    have "bpoints b \<inter> bpoints q = {}" if "b \<in> set ?k" for b
    proof (cases "Box_Empty q")
      case True
      then have "bspan q = {}" using Empty_iff_bspan [OF assms(2)] by simp
      then show ?thesis using mem_bpoints_iff [OF assms(2)] by auto
    next
      case False
      then show ?thesis using 2 good_boxD(5) [OF g [OF that]] by (auto simp: bpoints_def)
    qed
    then have "filter (\<lambda>b. bpoints b \<inter> bpoints q \<noteq> {}) ?k = []" by (simp only: filter_empty_conv) blast
    with 2 show ?thesis unfolding s f by (auto simp: t searchInto_def Dims_def)
  next
    case 3
    have "searchInto t q [] = filter (\<lambda>b. Overlaps b q) (node_boxes (buildNode sub ?k))"
      using 3 searchNode_eq [OF buildNode_covered [OF ks 3(1)] 3(2)] good_boxD [OF 3(2)]
      by (simp add: t searchInto_def)
    moreover have "filter (\<lambda>b. Overlaps b q) ?k = filter (\<lambda>b. bpoints b \<inter> bpoints q \<noteq> {}) ?k"
      using g Overlaps_iff_points [OF _ 3(2)] by (intro filter_cong) auto
    ultimately show ?thesis unfolding s f by (metis buildNode_mset mset_filter)
  qed
qed

subsection \<open>The order of the results\<close>

definition bound_keys :: "nat list \<Rightarrow> box \<Rightarrow> (bool \<times> bool) list" where
  "bound_keys ds b = map (\<lambda>d. (loBound b d = Open, hiBound b d = Open)) ds"

definition rbox_key :: "box \<Rightarrow> (float64 list \<times> float64 list) \<times> (bool \<times> bool) list \<times> string" where
  "rbox_key b = ((BMin b, BMax b), bound_keys [0..<length (BMin b)] b, meta_text (Meta b))"

lemma less_floats_keys:
  assumes "length x = n" "length y = n" "\<forall>i<n. is_fin (x ! i) \<and> is_fin (y ! i)"
  shows "less_floats x y [0..<n] = (if x = y then None else Some (x < y))"
proof -
  have "less_floats x y [k..<n] = (if drop k x = drop k y then None else Some (drop k x < drop k y))" if "k \<le> n" for k
    using that
  proof (induction rule: inc_induct)
    case (step k)
    have d: "drop k x = x ! k # drop (Suc k) x" "drop k y = y ! k # drop (Suc k) y"
      using step assms by (simp_all add: Cons_nth_drop_Suc)
    have "is_fin (x ! k)" "is_fin (y ! k)" using assms step by auto
    then show ?case
      using step by (auto simp: upt_conv_Cons d is_fin_iff)
  qed (use assms in simp)
  from this [of 0] show ?thesis by simp
qed

lemma less_bounds_keys:
  "less_bounds a b ds = (if bound_keys ds a = bound_keys ds b then None else Some (bound_keys ds a < bound_keys ds b))"
proof (induction ds)
  case (Cons d ds)
  have "bound_keys (d # ds) x = (loBound x d = Open, hiBound x d = Open) # bound_keys ds x" for x
    by (simp add: bound_keys_def)
  with Cons.IH show ?case
    by (cases "loBound a d"; cases "loBound b d"; cases "hiBound a d"; cases "hiBound b d") (simp_all add: bound_lt_def)
qed (simp add: bound_keys_def)

lemma lessBox_keys:
  assumes "good_box n a" "good_box n b"
  shows "lessBox a b \<longleftrightarrow> rbox_key a < rbox_key b"
proof -
  note l = good_boxD(2,3) [OF assms(1)] good_boxD(2,3) [OF assms(2)]
  have "less_floats (BMin a) (BMin b) [0..<n] = (if BMin a = BMin b then None else Some (BMin a < BMin b))"
    "less_floats (BMax a) (BMax b) [0..<n] = (if BMax a = BMax b then None else Some (BMax a < BMax b))"
    using good_box_fin [OF assms(1)] good_box_fin [OF assms(2)] l by (simp_all add: less_floats_keys)
  then show ?thesis by (auto simp: lessBox_def l less_bounds_keys rbox_key_def)
qed

interpretation rtree_order: weak_less lessBox "good_box n" for n
  by unfold_locales (auto simp: lessBox_keys)

lemma searchNode_sub: "set (searchNode nd q out) \<subseteq> set out \<union> set (node_boxes nd)"
proof (induction nd arbitrary: out)
  case (Node m bs cs lf)
  have fold_sub: "set (fold (\<lambda>c out. searchNode c q out) ds out) \<subseteq> set out \<union> (\<Union>c\<in>set ds. set (node_boxes c))"
    if "set ds \<subseteq> set cs" for ds out
    using that
  proof (induction ds arbitrary: out)
    case (Cons d ds)
    have "set (searchNode d q out) \<subseteq> set out \<union> set (node_boxes d)" using Node.IH Cons.prems by simp
    with Cons.IH [of "searchNode d q out"] Cons.prems show ?case by auto
  qed simp
  from fold_sub [OF subset_refl] show ?case by auto
qed

theorem Search_sorted:
  assumes "Build sub boxes = Inr t"
  shows "sorted_wrt (\<lambda>a b. \<not> lessBox b a) (Search t q)"
proof -
  let ?k = "filter (\<lambda>b. \<not> Box_Empty b) boxes"
  obtain d where ks: "all_good d ?k"
    and t: "t = (if ?k = [] then \<lparr>t_root = None, t_n = 0, t_dims = 0\<rparr>
      else \<lparr>t_root = Some (buildNode sub ?k), t_n = length ?k, t_dims = d\<rparr>)"
    by (rule Build_shape [OF assms(1)])
  have "set (searchInto t q []) \<subseteq> set ?k"
    using searchNode_sub [of "buildNode sub ?k" q "[]"] mset_eq_setD [OF buildNode_mset [of sub ?k]]
    by (simp add: t searchInto_def)
  then have "\<forall>b\<in>set (searchInto t q []). good_box d b" using ks by (auto simp: all_good_def)
  from rtree_order.in_order_sort_slice [OF this] show ?thesis
    by (simp add: Search_def Let_def map_cloneBox)
qed

end
