(* ===== verification/Box_Examples.thy ===== *)
theory Box_Examples
  imports Box_Set Range_Examples Rtree
begin

section \<open>Example data for the n-D stack\<close>

text \<open>
  Concrete boxes, operations, engines and stores on which the properties are applied: half-open rectangles in two
  dimensions, an addition, a removal inside it, the retraction of the removal and a fresh addition, an
  engine on a given clock that knows a list of operations and has a rebuild pending, and the two stores.
\<close>

definition ex_box :: "real \<Rightarrow> real \<Rightarrow> real \<Rightarrow> real \<Rightarrow> box" where
  "ex_box x y x' y' = NewBox [Fin x, Fin y] [Fin x', Fin y']"

definition ex_bop :: "string \<Rightarrow> box_kind \<Rightarrow> box \<Rightarrow> int64 \<Rightarrow> string \<Rightarrow> box_op" where
  "ex_bop i k b t ref = \<lparr>BO_ID = i, BO_Kind = k, BO_Box = b, BO_TS = t, BO_Ref = ref, BO_Origin = []\<rparr>"

definition bo1 :: box_op where "bo1 = ex_bop ''a'' BKindAdd (ex_box 0 0 4 4) 10 []"
definition bo2 :: box_op where "bo2 = ex_bop ''b'' BKindRemove (ex_box 1 1 2 2) 20 []"
definition bo3 :: box_op where "bo3 = ex_bop ''c'' BKindRetract (ex_box 1 1 2 2) 30 ''b''"
definition bo4 :: box_op where "bo4 = ex_bop ''d'' BKindAdd (ex_box 3 3 6 6) 0 []"

definition ex_box_engine :: "box_strategy \<Rightarrow> 'c \<Rightarrow> box_op list \<Rightarrow> 'c box_engine" where
  "ex_box_engine st c ops = \<lparr>be_strategy = st, be_clock = c, be_snapshotEvery = 0, be_ops = map (\<lambda>o'. (BO_ID o', o')) ops,
     be_view = [], be_adds = [], be_removes = [], be_version = int (length ops), be_since = 0, be_dims = 2,
     be_dirty = True, be_canonicalize = None, be_metaMerge = meta_Union\<rparr>"

definition ex_box_mem :: "box_op list \<Rightarrow> box_op mem_store" where
  "ex_box_mem ops = mem_New\<lparr>mem_ops := ops\<rparr>"

lemma less_two: "i < (2 :: nat) \<longleftrightarrow> i = 0 \<or> i = 1"
  by auto

lemma ex_box_good [simp]: "good_box 2 (ex_box x y x' y') \<longleftrightarrow> x < x' \<and> y < y'"
proof -
  have "box_ok 2 (ex_box x y x' y') \<longleftrightarrow> x \<le> x' \<and> y \<le> y'"
    by (auto simp: box_ok_iff ex_box_def NewBox_def less_two)
  moreover have "Box_Empty (ex_box x y x' y') \<longleftrightarrow> x' \<le> x \<or> y' \<le> y"
    by (auto simp: Box_Empty_def ex_box_def NewBox_def loBound_def hiBound_def upt_rec)
  ultimately show ?thesis by (auto simp: good_box_def)
qed

lemma ex_box_ok [simp]: "x < x' \<Longrightarrow> y < y' \<Longrightarrow> box_ok 2 (ex_box x y x' y')"
  using good_boxD(1) [of 2 "ex_box x y x' y'"] by simp

lemma ex_box_Dims [simp]: "Dims (ex_box x y x' y') = 2" "Meta (ex_box x y x' y') = NoMeta"
  by (simp_all add: ex_box_def NewBox_def Dims_def)

lemma ex_box_points [simp]:
  "[p, q] \<in> bpoints (ex_box x y x' y') \<longleftrightarrow> x \<le> p \<and> p < x' \<and> y \<le> q \<and> q < y'"
  "Box_Contains (ex_box x y x' y') [Fin p, Fin q] \<longleftrightarrow> x \<le> p \<and> p < x' \<and> y \<le> q \<and> q < y'"
  by (auto simp: bpoints_def Box_Contains_def ex_box_def NewBox_def loBound_def hiBound_def Dims_def upt_rec)

lemma ex_box_span:
  assumes "x < x'" "y < y'"
  shows "fineOf [p, q] \<in> bspan (ex_box x y x' y') \<longleftrightarrow> x \<le> p \<and> p < x' \<and> y \<le> q \<and> q < y'"
  using mem_bpoints_iff [of 2 "ex_box x y x' y'" "[p, q]"] assms by simp

lemma ex_bop_fields [simp]:
  "BO_Box bo1 = ex_box 0 0 4 4" "BO_Box bo2 = ex_box 1 1 2 2" "BO_Box bo3 = ex_box 1 1 2 2" "BO_Box bo4 = ex_box 3 3 6 6"
  "BO_Kind bo1 = BKindAdd" "BO_Kind bo2 = BKindRemove" "BO_Kind bo3 = BKindRetract" "BO_Kind bo4 = BKindAdd"
  "BO_ID bo1 = ''a''" "BO_ID bo2 = ''b''" "BO_ID bo3 = ''c''" "BO_ID bo4 = ''d''"
  "BO_TS bo1 = 10" "BO_TS bo2 = 20" "BO_TS bo3 = 30" "BO_TS bo4 = 0"
  "BO_Ref bo3 = ''b''"
  by (simp_all add: bo1_def bo2_def bo3_def bo4_def ex_bop_def)

lemma ex_bop_neq [simp]: "bo1 \<noteq> bo2" "bo2 \<noteq> bo1" "bo1 \<noteq> bo3" "bo3 \<noteq> bo1" "bo2 \<noteq> bo3" "bo3 \<noteq> bo2" "bo1 \<noteq> bo4" "bo4 \<noteq> bo1"
  by (simp_all add: bo1_def bo2_def bo3_def bo4_def ex_bop_def)

lemma ex_bop_good [simp]: "good_bop 2 bo1" "good_bop 2 bo2" "good_bop 2 bo3" "good_bop 2 bo4"
  by (simp_all add: good_bop_def BOp_Validate_iff known_bkind_def)

lemma ex_box_history [simp]:
  "box_history 2 [bo1]" "box_history 2 [bo2]" "box_history 2 [bo1, bo2]" "box_history 2 [bo1, bo2, bo3]" "box_history 2 [bo1, bo4]"
  by (simp_all add: box_history_def meta_ok_def)

lemma ex_box_strategy [simp]: "be_strategy (ex_box_engine st c ops) = st"
  by (simp add: ex_box_engine_def)

lemma ex_in_step:
  assumes "box_history 2 ops" "be_isDefined st"
  shows "in_step 2 ops (ex_box_engine st c ops)"
proof -
  have "distinct (map BO_ID ops)" using assms(1) causal_distinct by (simp add: box_history_def)
  then show ?thesis
    using assms by (auto simp: in_step_def ex_box_engine_def tracks_view_def metas_ok_def merge_ok_Union comp_def)
qed

lemma ex_box_store:
  assumes "box_history 2 ops"
  shows "mem_inv (ex_box_mem ops)" "box_store_holds (\<lambda>_. 0) mem_ops mem_snap 2 ops (ex_box_mem ops)"
  using assms by (simp_all add: ex_box_mem_def mem_inv_def mem_New_def box_store_holds_def mem_snap_def)

subsection \<open>A box stream with one operation\<close>

definition ex_box_json :: json where
  "ex_box_json = JObj [(''min'', JArr [JFloat (Fin 0), JFloat (Fin 0)]), (''max'', JArr [JFloat (Fin 4), JFloat (Fin 4)])]"

definition bo1_json :: json where
  "bo1_json = JObj [(''id'', JStr ''a''), (''kind'', JStr ''add''), (''box'', ex_box_json), (''ts'', JInt 10)]"

lemma ex_put_box: "put_box (ex_box 0 0 4 4) = Some ex_box_json"
  by (simp add: put_box_def ex_box_def NewBox_def put_floats_def put_float_def put_meta_def omit_if_def ex_box_json_def)

lemma bo1_put: "put_bop bo1 = Some bo1_json"
  by (simp add: put_bop_def ex_put_box)
    (simp add: bo1_def ex_bop_def omit_if_def BKind_MarshalText_def BKind_String_def bo1_json_def)

lemma bo1_storable: "jsonl_storable (bop_env fm) bo1"
proof -
  have "length (json_text fm bo1_json) \<le> 200" unfolding bo1_json_def ex_box_json_def by code_simp
  then have "bop_len fm bo1 \<le> max_token" by (simp add: bop_len_def bo1_put max_token_def)
  moreover have "storable_bop bo1" by (auto simp: storable_bop_def known_bkind_def meta_ok_def intro!: exI [of _ 2])
  ultimately show ?thesis by (rule storable_bop_jsonl [rotated])
qed

definition ex_box_stream :: stream where
  "ex_box_stream = Some [Marshal (put_bop bo1)]"

lemma ex_box_stream:
  "jsonl_inv (bop_env fm) ex_box_stream"
  "box_store_holds (jsonl_base (bop_env fm)) (jsonl_tail (bop_env fm)) (jsonl_snap (bop_env fm)) 2 [bo1] ex_box_stream"
proof -
  have e: "jsonl_base J None = 0" "jsonl_tail J None = []" "jsonl_snap J None = None" "jsonl_inv J None" for J :: "box_op jsonl_env"
    by (simp_all add: jsonl_base_def jsonl_tail_def jsonl_snap_def jsonl_latest_def entries_def lines_of_def)
  have a: "jsonl_Append (quiet (bop_env fm)) 0 [bo1] None = (None, ex_box_stream)"
    by (simp add: jsonl_Append_def jsonl_count_def scan_def appendEvents_quiet lines_of_def ex_box_stream_def bop_env_def quiet_def)
  show "jsonl_inv (bop_env fm) ex_box_stream"
    "box_store_holds (jsonl_base (bop_env fm)) (jsonl_tail (bop_env fm)) (jsonl_snap (bop_env fm)) 2 [bo1] ex_box_stream"
    using jsonl_Append_law [of "bop_env fm" None "[bo1]" 0] a bo1_storable
    by (auto simp: box_store_holds_def e)
qed

lemma ex_box_view: "be_ensureView (ex_box_engine BGrowOnly c [bo1]) =
    (ex_box_engine BGrowOnly c [bo1])\<lparr>be_adds := [ex_box 0 0 4 4], be_view := [ex_box 0 0 4 4], be_dirty := False\<rparr>"
proof -
  have "\<not> Box_Empty (ex_box 0 0 4 4)" using ex_box_good [of 0 0 4 4] by (simp add: good_box_def)
  then have "NormalizeMerged [ex_box 0 0 4 4] meta_Union = [ex_box 0 0 4 4]"
    by (simp add: NormalizeMerged_def normalizeStep_def sortBoxes_def sort_slice_def cloneBox_def)
  moreover have "Effective [bo1] = [bo1]" by (simp add: Effective_def)
  ultimately have "BoxesOf (Effective [bo1]) BKindAdd meta_Union = [ex_box 0 0 4 4]"
    by (simp add: BoxesOf_def opsOf_def)
  then show ?thesis
    by (simp add: be_ensureView_def be_materializeAll_def ex_box_engine_def be_opsList_def sort_slice_def Let_def be_setView_def)
qed

lemma ex_box_fits: "jsonl_fits (bop_env fm) (be_version (ex_box_engine BGrowOnly (10 :: int64) [bo1]))
    (be_snapshot_data (be_ensureView (ex_box_engine BGrowOnly (10 :: int64) [bo1])))"
proof -
  let ?j = "JObj [(''strategy'', JStr ''grow-only''), (''version'', JInt 1), (''boxes'', JArr [ex_box_json]), (''ops'', JArr [bo1_json])]"
  have d: "be_snapshot_data (be_ensureView (ex_box_engine BGrowOnly (10 :: int64) [bo1])) = Valid ?j"
    unfolding ex_box_view
    by (simp add: be_snapshot_data_def be_buildSnapshot_def ex_box_engine_def put_bsnapshot_def Let_def
        BStrategy_MarshalText_def bnames_def BStrategy_String_def put_list_def be_opsList_def sort_slice_def bo1_put ex_put_box
        omit_if_def)
  have "length (json_text fm (JObj [(''snapshot'', JObj [(''version'', JInt 1), (''data'', ?j)])])) \<le> 1000"
    unfolding bo1_json_def ex_box_json_def by code_simp
  then show ?thesis
    unfolding d by (simp add: jsonl_fits_def snapshotPayload_def line_len_def max_token_def ex_box_engine_def bop_env_def
        del: json_text.simps)
qed

end
