(* ===== verification/Box_Results.thy ===== *)
theory Box_Results
  imports Box_Examples
begin

section \<open>Properties of the n-D stack\<close>

text \<open>
  The properties of the box engine, its stores, its strategies and its queries that the library proves, each
  with an instance on the data of \<open>Box_Examples\<close>.
\<close>

subsection \<open>Replication\<close>




text \<open>C24. An engine that is behind its log (another replica has appended \<open>ext\<close> since it last read) still gets its
  batch in: the append is refused, the engine catches up and the retry succeeds. Afterwards the log holds
  the other replica's operations followed by the new ones, stamped, and the engine is in step with all of it.\<close>

theorem box_apply_behind:
  assumes "mem_inv s" and "box_store_holds (\<lambda>_. 0) mem_ops mem_snap n (H @ ext) s" and "in_step n H e" and "ext \<noteq> []"
    and "box_history n (H @ ext @ filter (\<lambda>o'. BO_ID o' \<notin> BO_ID ` set (H @ ext)) ops)"
    and "\<forall>o'\<in>set ops. good_bop n o'" and "\<exists>o'\<in>set ops. BO_ID o' \<notin> BO_ID ` set H"
  shows "\<exists>e' s' G. be_ApplyAll box_mem_log clk (\<lambda>_ s. s) ops e s = (None, e', s') \<and>
      mem_ops s' = H @ ext @ G \<and> list_all2 bstamped (filter (\<lambda>o'. BO_ID o' \<notin> BO_ID ` set (H @ ext)) ops) G \<and>
      in_step n (H @ ext @ G) e'"
proof -
  have "box_mem_engine.bbatch n (H @ ext) ops" using assms(5) by (simp add: box_mem_engine.bbatch_def)
  moreover have "box_mem_engine.room e" by (simp add: box_mem_engine.room_def)
  ultimately show ?thesis
    using box_mem_engine.ApplyAll_behind [OF assms(1-3) _ assms(4) _ _ assms(6,7), of clk]
    by (auto simp: box_mem_engine.bnews_def box_store_holds_def)
qed

theorem box_apply_behind_witness:
  "\<exists>e' s' G. be_ApplyAll box_mem_log lamport_Clock (\<lambda>_ s. s) [bo3] (ex_box_engine BLWW (10 :: int64) [bo1]) (ex_box_mem [bo1, bo2]) = (None, e', s') \<and>
      mem_ops s' = [bo1] @ [bo2] @ G \<and> list_all2 bstamped [bo3] G \<and> in_step 2 ([bo1] @ [bo2] @ G) e'"
proof -
  have st: "be_isDefined BLWW" by (simp add: be_isDefined_def)
  show ?thesis
    using box_apply_behind [of "ex_box_mem [bo1, bo2]" 2 "[bo1]" "[bo2]" "ex_box_engine BLWW (10 :: int64) [bo1]" "[bo3]" lamport_Clock]
      ex_box_store [of "[bo1, bo2]"] ex_in_step [of "[bo1]" BLWW "10 :: int64", OF _ st] by simp
qed

text \<open>C25. A batch with an invalid operation, or with an operation of another dimension than the engine's, is
  rejected: the store is untouched, and so are the operations, the view and the version of the engine.\<close>

theorem box_apply_rejects:
  assumes "(\<exists>o'\<in>set ops. BOp_Validate o' \<noteq> None) \<or> (be_dims e \<noteq> -1 \<and> (\<exists>o'\<in>set ops. int (Dims (BO_Box o')) \<noteq> be_dims e))"
  shows "\<exists>err e'. be_ApplyAll lg clk env ops e s = (Some err, e', s) \<and> e' = e\<lparr>be_dims := be_dims e'\<rparr>"
proof -
  have ne: "ops \<noteq> []" using assms by auto
  have dims: "\<exists>err. be_ensureDims xs e = (Some err, e)"
    if "be_dims e \<noteq> -1" "\<exists>o'\<in>set xs. int (Dims (BO_Box o')) \<noteq> be_dims e" for xs
    using that by (induction xs) (auto simp: Let_def)
  show ?thesis
  proof (cases "be_validateOps ops")
    case None
    then have "\<forall>o'\<in>set ops. BOp_Validate o' = None" by (simp add: be_validateOps_None)
    with assms have "be_dims e \<noteq> -1 \<and> (\<exists>o'\<in>set ops. int (Dims (BO_Box o')) \<noteq> be_dims e)" by auto
    then obtain err where "be_ensureDims ops e = (Some err, e)" using dims by blast
    with None ne show ?thesis by (simp add: be_ApplyAll_def be_apply_def)
  qed (use ne in \<open>simp add: be_ApplyAll_def be_apply_def\<close>)
qed

theorem box_apply_rejects_witness:
  "\<exists>err e'. be_ApplyAll box_mem_log lamport_Clock (\<lambda>_ s. s) [bo1, bo4\<lparr>BO_Box := NewBox [Fin 0] [Fin 1]\<rparr>]
      (ex_box_engine BLWW (10 :: int64) []) (ex_box_mem []) = (Some err, e', ex_box_mem []) \<and>
    e' = (ex_box_engine BLWW (10 :: int64) [])\<lparr>be_dims := be_dims e'\<rparr>"
  using box_apply_rejects [of "[bo1, bo4\<lparr>BO_Box := NewBox [Fin 0] [Fin 1]\<rparr>]" "ex_box_engine BLWW (10 :: int64) []"]
  by (simp add: ex_box_engine_def NewBox_def Dims_def)





text \<open>C28. Through the facade, with last-write-wins and a clock ahead of the log, \<open>Add\<close> makes exactly the points of
  the half-open box members and leaves the others as they were, and \<open>Remove\<close> makes exactly those points
  non-members.\<close>

theorem box_add_remove_points:
  assumes "mem_inv s" and "box_store_holds (\<lambda>_. 0) mem_ops mem_snap n H s" and "in_step n H e" and "be_strategy e = BLWW"
    and "box_ahead h_last H e" and "newid \<noteq> []" and "\<forall>a\<in>set H. BO_ID a \<noteq> newid \<and> (BO_Kind a = BKindRetract \<longrightarrow> BO_Ref a \<noteq> newid)"
    and "good_box n (NewBox lo hi)"
  shows "(\<exists>b' s'. snd (bs_Add box_mem_log hybrid_Clock (\<lambda>_ s. s) newid lo hi \<lparr>bs_engine = e\<rparr> s) = (None, b', s') \<and>
        (\<forall>x. length x = n \<longrightarrow> (fst (bs_Contains (map Fin x) b') \<longleftrightarrow>
           Box_Contains (NewBox lo hi) (map Fin x) \<or> fst (bs_Contains (map Fin x) \<lparr>bs_engine = e\<rparr>)))) \<and>
      (\<exists>b' s'. snd (bs_Remove box_mem_log hybrid_Clock (\<lambda>_ s. s) newid lo hi \<lparr>bs_engine = e\<rparr> s) = (None, b', s') \<and>
        (\<forall>x. length x = n \<longrightarrow> (fst (bs_Contains (map Fin x) b') \<longleftrightarrow>
           \<not> Box_Contains (NewBox lo hi) (map Fin x) \<and> fst (bs_Contains (map Fin x) \<lparr>bs_engine = e\<rparr>))))"
proof -
  have H: "box_history n H" using assms(2) by (simp add: box_store_holds_def)
  have room: "box_mem_engine.room e" by (simp add: box_mem_engine.room_def)
  have nb: "Dims (NewBox lo hi) = n" "Meta (NewBox lo hi) = NoMeta" "good_box (Dims (NewBox lo hi)) (NewBox lo hi)"
    using good_boxD(5) [OF assms(8)] assms(8) by (simp_all add: NewBox_def)
  have good: "good_bop n (bop_New newid k (NewBox lo hi))" if "k = BKindAdd \<or> k = BKindRemove" for k
    using that assms(6) nb by (auto simp: good_bop_def BOp_Validate_iff known_bkind_def bop_New_def)
  have h: "box_history n (H @ [bop_New newid k (NewBox lo hi)])" if "k = BKindAdd \<or> k = BKindRemove" for k
    using H good [OF that] assms(7) nb by (simp add: bop_New_def meta_ok_def)
  have tf: "(if P then True else Q) = (P \<or> Q)" "(if P then False else Q) = (\<not> P \<and> Q)" for P Q by simp_all
  note app = box_mem_hybrid.Apply_latest_box [OF assms(1-3) room _ _ _ assms(5,4)]
  show ?thesis
    using app [OF _ h [of BKindAdd]] app [OF _ h [of BKindRemove]]
    by (simp add: bs_Add_def bs_Remove_def bop_Add_def bop_Remove_def bop_New_def Let_def tf cong: if_cong)
qed

theorem box_add_remove_points_witness:
  "\<exists>b' s'. snd (bs_Remove box_mem_log hybrid_Clock (\<lambda>_ s. s) ''z'' [Fin 1, Fin 1] [Fin 3, Fin 3]
        \<lparr>bs_engine = ex_box_engine BLWW ex_hybrid [bo1, bo2]\<rparr> (ex_box_mem [bo1, bo2])) = (None, b', s') \<and>
      (\<forall>x. length x = 2 \<longrightarrow> (fst (bs_Contains (map Fin x) b') \<longleftrightarrow> \<not> Box_Contains (NewBox [Fin 1, Fin 1] [Fin 3, Fin 3]) (map Fin x) \<and>
         fst (bs_Contains (map Fin x) \<lparr>bs_engine = ex_box_engine BLWW ex_hybrid [bo1, bo2]\<rparr>)))"
proof -
  have st: "be_isDefined BLWW" by (simp add: be_isDefined_def)
  have a: "box_ahead h_last [bo1, bo2] (ex_box_engine BLWW ex_hybrid [bo1, bo2])"
    by (simp add: box_ahead_def ex_box_engine_def ex_hybrid_def max_int64_def i_le_def)
  have g: "good_box 2 (NewBox [Fin 1, Fin 1] [Fin 3, Fin 3])" using ex_box_good [of 1 1 3 3] by (simp add: ex_box_def)
  show ?thesis
    using box_add_remove_points [OF ex_box_store [of "[bo1, bo2]"] ex_in_step [OF _ st] _ a _ _ g, of "''z''"] by simp
qed

text \<open>C29. \<open>Retract\<close> undoes one operation: afterwards the set is what the strategy makes of the history without the
  retracted operation. A retraction of an unknown operation, or of a retraction, is refused without any effect.\<close>

theorem box_retract_undoes:
  assumes "mem_inv s" and "box_store_holds (\<lambda>_. 0) mem_ops mem_snap n H s" and "in_step n H e" and "box_ahead h_last H e"
    and "newid \<noteq> []" and "\<forall>a\<in>set H. BO_ID a \<noteq> newid \<and> (BO_Kind a = BKindRetract \<longrightarrow> BO_Ref a \<noteq> newid)"
  shows "(\<forall>t\<in>set H. BO_Kind t \<noteq> BKindRetract \<longrightarrow>
      (\<exists>r b' s'. bs_Retract box_mem_log hybrid_Clock (\<lambda>_ s. s) newid (BO_ID t) \<lparr>bs_engine = e\<rparr> s = (Some r, None, b', s') \<and>
        (\<forall>x. length x = n \<longrightarrow> (fst (bs_Contains (map Fin x) b') \<longleftrightarrow>
           fineOf x \<in> box_view_span (be_strategy e) (effective (set H - {t})))))) \<and>
    (\<forall>i. (\<forall>t\<in>set H. BO_ID t = i \<longrightarrow> BO_Kind t = BKindRetract) \<longrightarrow>
      (\<exists>err. bs_Retract box_mem_log hybrid_Clock (\<lambda>_ s. s) newid i \<lparr>bs_engine = e\<rparr> s = (None, Some err, \<lparr>bs_engine = e\<rparr>, s)))"
proof (intro conjI ballI impI allI)
  fix t assume t: "t \<in> set H" "BO_Kind t \<noteq> BKindRetract"
  have room: "box_mem_engine.room e" by (simp add: box_mem_engine.room_def)
  have "newid \<notin> BO_ID ` set H" using assms(6) by auto
  then show "\<exists>r b' s'. bs_Retract box_mem_log hybrid_Clock (\<lambda>_ s. s) newid (BO_ID t) \<lparr>bs_engine = e\<rparr> s = (Some r, None, b', s') \<and>
      (\<forall>x. length x = n \<longrightarrow> (fst (bs_Contains (map Fin x) b') \<longleftrightarrow>
         fineOf x \<in> box_view_span (be_strategy e) (effective (set H - {t}))))"
    using assms(5,6) by (intro box_mem_hybrid.Retract_box [OF assms(1-3) room assms(4) t]) auto
next
  fix i assume i: "\<forall>t\<in>set H. BO_ID t = i \<longrightarrow> BO_Kind t = BKindRetract"
  have "BO_Kind t = BKindRetract" if "be_Op i e = Some t" for t
  proof -
    have "(i, t) \<in> set (be_ops e)" using that by (auto simp: be_Op_def dest: map_of_SomeD)
    moreover from this have "t \<in> set H" using in_step_set(1) [OF assms(3)] by (force simp: be_opsList_def)
    moreover have "\<forall>(j, o')\<in>set (be_ops e). j = BO_ID o'" using assms(3) by (simp add: in_step_def)
    ultimately show ?thesis using i by auto
  qed
  then show "\<exists>err. bs_Retract box_mem_log hybrid_Clock (\<lambda>_ s. s) newid i \<lparr>bs_engine = e\<rparr> s = (None, Some err, \<lparr>bs_engine = e\<rparr>, s)"
    by (cases "be_Op i e") (auto simp: bs_Retract_def bs_RetractWithID_def)
qed

theorem box_retract_undoes_witness:
  "(\<exists>r b' s'. bs_Retract box_mem_log hybrid_Clock (\<lambda>_ s. s) ''z'' ''b''
        \<lparr>bs_engine = ex_box_engine BLWW ex_hybrid [bo1, bo2]\<rparr> (ex_box_mem [bo1, bo2]) = (Some r, None, b', s') \<and>
      (\<forall>x. length x = 2 \<longrightarrow> (fst (bs_Contains (map Fin x) b') \<longleftrightarrow> fineOf x \<in> box_view_span BLWW (effective {bo1}))))"
proof -
  have st: "be_isDefined BLWW" by (simp add: be_isDefined_def)
  have a: "box_ahead h_last [bo1, bo2] (ex_box_engine BLWW ex_hybrid [bo1, bo2])"
    by (simp add: box_ahead_def ex_box_engine_def ex_hybrid_def max_int64_def i_le_def)
  have d: "{bo1, bo2} - {bo2} = {bo1}" by auto
  have "bo2 \<in> set [bo1, bo2]" "BO_Kind bo2 \<noteq> BKindRetract" by simp_all
  with conjunct1 [OF box_retract_undoes [OF ex_box_store [of "[bo1, bo2]"] ex_in_step [OF _ st] a, of "''z''"]] show ?thesis
    by (simp add: d)
qed

end
