(* ===== verification/Space_Results.thy ===== *)
theory Space_Results
  imports Box_Examples
begin

section \<open>Properties of the box algebra, the strategies and the queries\<close>

text \<open>
  What the n-D algebra, the conflict resolution, the stored form, the paths and the R-tree compute, as sets of
  points, each with an instance on the data of \<open>Box_Examples\<close>.
\<close>

subsection \<open>Conflict resolution\<close>

text \<open>C30. The points of the view, for every strategy. A retracted operation does not count. Under last- and
  first-write-wins a point is in the view when the best operation that covers it is an addition; under the
  union strategies when an addition covers it and (except for grow-only) no removal does.\<close>

theorem box_materialize_points:
  assumes "good_bops n ops" and "unique_bids (set ops)" and "length x = n"
  shows "boxes_Contains (MaterializeMerged s ops merge) (map Fin x) \<longleftrightarrow>
    (let covering = {o' \<in> effective (set ops). x \<in> bpoints (BO_Box o')} in
     case s of
       BGrowOnly \<Rightarrow> \<exists>o'\<in>covering. BO_Kind o' = BKindAdd
     | BUnknownStrategy _ \<Rightarrow> False
     | BLWW \<Rightarrow> \<exists>o'\<in>covering. BO_Kind o' = BKindAdd \<and> (\<forall>p\<in>covering. \<not> bbetter s (bwinnerOf p) (bwinnerOf o'))
     | BFWW \<Rightarrow> \<exists>o'\<in>covering. BO_Kind o' = BKindAdd \<and> (\<forall>p\<in>covering. \<not> bbetter s (bwinnerOf p) (bwinnerOf o'))
     | _ \<Rightarrow> (\<exists>o'\<in>covering. BO_Kind o' = BKindAdd) \<and> (\<forall>o'\<in>covering. BO_Kind o' \<noteq> BKindRemove))"
proof -
  note m = MaterializeMerged_spec [OF assms(1,2), of s merge]
  have good: "all_good n (MaterializeMerged s ops merge)" using m(1) by (simp add: box_canonical_def)
  have p: "x \<in> bpoints (BO_Box o') \<longleftrightarrow> fineOf x \<in> bspan (BO_Box o')" if "o' \<in> effective (set ops)" for o'
    using that assms(1) effective_sub mem_bpoints_iff good_boxD(1) by (fastforce simp: good_bops_def)
  have "boxes_Contains (MaterializeMerged s ops merge) (map Fin x) \<longleftrightarrow> fineOf x \<in> box_view_span s (effective (set ops))"
    using boxes_Contains_iff [OF all_goodD [OF good] assms(3)] box_points_bcover [OF all_goodD [OF good]] m(2) by simp
  then show ?thesis
    using p by (cases s) (auto simp: bdecides_def bkind_span_def Let_def)
qed

theorem box_materialize_points_witness:
  "boxes_Contains (MaterializeMerged BLWW [bo1, bo2] meta_Union) (map Fin [3, 3]) \<and>
   \<not> boxes_Contains (MaterializeMerged BLWW [bo1, bo2] meta_Union) (map Fin [1, 1]) \<and>
   boxes_Contains (MaterializeMerged BLWW [bo1, bo2, bo3] meta_Union) (map Fin [1, 1])"
proof -
  have "good_bops 2 [bo1, bo2, bo3]" "unique_bids (set [bo1, bo2, bo3])" "good_bops 2 [bo1, bo2]" "unique_bids (set [bo1, bo2])"
    by (simp_all add: good_bops_def unique_bids_def)
  moreover have "effective {bo1, bo2} = {bo1, bo2}" "effective {bo1, bo2, bo3} = {bo1}"
    by (auto simp: effective_def)
  ultimately show ?thesis
    using box_materialize_points [of 2 "[bo1, bo2]" "[3, 3]" BLWW meta_Union]
      box_materialize_points [of 2 "[bo1, bo2]" "[1, 1]" BLWW meta_Union]
      box_materialize_points [of 2 "[bo1, bo2, bo3]" "[1, 1]" BLWW meta_Union]
    by (auto simp: Let_def bbetter_def bwinnerOf_def i_lt_def)
qed

text \<open>C31. The boxes of a view, in order, do not depend on the order of the operations nor on how metadata is joined.\<close>

theorem box_materialize_order_independent:
  assumes "good_bops n ops" and "unique_bids (set ops)" and "mset ops = mset ops'"
  shows "map box_key (MaterializeMerged s ops merge) = map box_key (MaterializeMerged s ops' merge')"
  by (rule MaterializeMerged_perm [OF assms])

theorem box_materialize_order_independent_witness:
  "map box_key (MaterializeMerged BFWW [bo1, bo2, bo3] meta_Union) = map box_key (MaterializeMerged BFWW [bo3, bo2, bo1] meta_Union)"
proof -
  have "good_bops 2 [bo1, bo2, bo3]" "unique_bids (set [bo1, bo2, bo3])" by (simp_all add: good_bops_def unique_bids_def)
  then show ?thesis
    using box_materialize_order_independent [of 2 "[bo1, bo2, bo3]" "[bo3, bo2, bo1]" BFWW meta_Union meta_Union] by simp
qed

text \<open>C32. Layers: at every point the topmost layer is the operation that decides the point under last-write-wins, and
  every layer is visible somewhere, so nothing that could be culled is left.\<close>

theorem layers_are_the_visible_front:
  assumes "good_bops n ops" and "unique_bids (set ops)"
  shows "(\<forall>x l. find (\<lambda>l. x \<in> bspan (L_Box l)) (rev (Layers ops)) = Some l \<longleftrightarrow>
      (\<exists>o'. bdecides BLWW (effective (set ops)) x o' \<and> l = layer_of o')) \<and>
    (\<forall>lower l higher. Layers ops = lower @ l # higher \<longrightarrow> (\<exists>x\<in>bspan (L_Box l). \<forall>h\<in>set higher. x \<notin> bspan (L_Box h)))"
  using Layers_top [OF assms] Layers_visible [OF assms(1)] by blast

theorem layers_are_the_visible_front_witness:
  "find (\<lambda>l. fineOf [1, 1] \<in> bspan (L_Box l)) (rev (Layers [bo2, bo1])) = Some (layer_of bo2)"
proof -
  have "good_bops 2 [bo2, bo1]" "unique_bids (set [bo2, bo1])" by (simp_all add: good_bops_def unique_bids_def)
  moreover have "effective {bo2, bo1} = {bo2, bo1}" by (auto simp: effective_def)
  then have "bdecides BLWW (effective (set [bo2, bo1])) (fineOf [1, 1]) bo2"
    using ex_box_span [of 1 2 1 2 1 1] by (simp add: bdecides_def bbetter_def bwinnerOf_def i_lt_def)
  ultimately show ?thesis using layers_are_the_visible_front [of 2 "[bo2, bo1]"] by blast
qed

subsection \<open>The algebra of boxes\<close>



text \<open>C34. \<open>Difference\<close> is exact: its boxes are canonical and cover the points of the first set that are not in the
  second; and cutting one box out of another yields pairwise disjoint pieces that keep its metadata.\<close>

theorem box_difference_exact:
  assumes "\<forall>p\<in>set a. box_ok n p" and "\<forall>q\<in>set b. box_ok n q" and "good_box n p" and "good_box n q"
  shows "box_canonical n (DifferenceMerged a b merge) \<and> box_points (DifferenceMerged a b merge) = box_points a - box_points b \<and>
    box_points (subtractBox p q) = bpoints p - bpoints q \<and> bdisjoint (subtractBox p q) \<and> (\<forall>r\<in>set (subtractBox p q). Meta r = Meta p)"
proof -
  note d = DifferenceMerged_spec [OF assms(1,2), of merge]
  note s = subtractBox_spec [OF assms(3,4)]
  have "all_good n (DifferenceMerged a b merge)" using d(1) by (simp add: box_canonical_def)
  then have "box_points (DifferenceMerged a b merge) = box_points a - box_points b"
    using box_points_bcover [OF all_goodD] box_points_bcover [OF assms(1)] box_points_bcover [OF assms(2)] d(2) by blast
  moreover have "box_points (subtractBox p q) = bpoints p - bpoints q"
    using box_points_bcover [OF all_goodD [OF s(1)]] s(2) mem_bpoints_iff [OF good_boxD(1) [OF assms(3)]]
      mem_bpoints_iff [OF good_boxD(1) [OF assms(4)]] by blast
  ultimately show ?thesis using d(1) s(3,4) by blast
qed

theorem box_difference_exact_witness:
  "box_points (DifferenceMerged [ex_box 0 0 4 4] [ex_box 1 1 2 2] meta_Union) =
     box_points [ex_box 0 0 4 4] - box_points [ex_box 1 1 2 2] \<and> bdisjoint (subtractBox (ex_box 0 0 4 4) (ex_box 1 1 2 2))"
  using box_difference_exact [of "[ex_box 0 0 4 4]" 2 "[ex_box 1 1 2 2]" "ex_box 0 0 4 4" "ex_box 1 1 2 2" meta_Union] by simp

text \<open>C35. Inserting a box into a canonical cover gives the cover that normalizing everything again would give.\<close>

theorem insert_normalized_incremental:
  assumes "box_canonical n bs" and "box_ok n b"
  shows "map box_key (InsertNormalized bs b) = map box_key (box_Normalize (bs @ [b])) \<and> box_canonical n (InsertNormalized bs b)"
  using InsertNormalized_incremental [OF assms] InsertNormalized_spec(1) [OF assms] by (simp add: box_Normalize_def)

theorem insert_normalized_incremental_witness:
  "map box_key (InsertNormalized [ex_box 1 1 2 2] (ex_box 0 0 4 4)) = map box_key (box_Normalize [ex_box 1 1 2 2, ex_box 0 0 4 4])"
  using insert_normalized_incremental [of 2 "[ex_box 1 1 2 2]" "ex_box 0 0 4 4"]
  by (simp add: box_canonical_def antichain_def)

subsection \<open>Paths\<close>

text \<open>C36. Whatever the float arithmetic yields, a traversal tiles the parameter range: its segments are not empty, the
  first starts at 0, the last ends at 1, each ends where the next starts. A segment lists exactly the boxes of
  the canonical cover whose span contains it, the span of every other box misses it, and it counts as covered
  when that list is not empty.\<close>

theorem traverse_tiles_path:
  "tiling (map seg_range (Traverse A boxes p)) \<and>
   (\<forall>g\<in>set (Traverse A boxes p).
      set (PS_Boxes g) = {b \<in> set (box_Normalize boxes). covers A p b (PS_Start g) (PS_End g)} \<and>
      (\<forall>b\<in>set (box_Normalize boxes). covers A p b (PS_Start g) (PS_End g) \<or> misses A p b (PS_Start g) (PS_End g)) \<and>
      (PS_Covered g \<longleftrightarrow> PS_Boxes g \<noteq> []))"
  using Traverse_tiles Traverse_coverage by blast

definition ex_path :: path where
  "ex_path = NewPath [Fin 0, Fin 1] [Fin 8, Fin 1]"

lemma ex_path_good: "good_path 2 ex_path"
  by (auto simp: good_path_def Path_Validate_def Path_Dims_def ex_path_def NewPath_def validateEnd_def less_two)

lemma ex_path_span: "Path_Span exact ex_path (ex_box 2 0 4 3) = Some \<lparr>SStart = Fin (1 / 4), SEnd = Fin (1 / 2)\<rparr>"
  by (simp add: Path_Span_def ex_path_def NewPath_def ex_box_def NewBox_def entryExit_def inInterval_def loBound_def hiBound_def
      upt_rec)

theorem traverse_tiles_path_witness:
  "\<exists>g\<in>set (Traverse exact [ex_box 2 0 4 3] ex_path). PS_Covered g \<and> tiling (map seg_range (Traverse exact [ex_box 2 0 4 3] ex_path))"
proof -
  note t = traverse_tiles_path [of exact "[ex_box 2 0 4 3]" ex_path]
  have n: "box_Normalize [ex_box 2 0 4 3] = [ex_box 2 0 4 3]"
    using ex_box_good [of 2 0 4 3]
    by (simp add: box_Normalize_def NormalizeMerged_def normalizeStep_def sortBoxes_def sort_slice_def cloneBox_def good_box_def)
  have "sort_slice f_lt [Fin 0, Fin 1, Fin (1 / 4), Fin (1 / 2)] = [Fin 0, Fin (1 / 4), Fin (1 / 2), Fin 1]"
    by (simp add: sort_slice_def)
  then have "uniqueBreakpoints [(ex_box 2 0 4 3, \<lparr>SStart = Fin (1 / 4), SEnd = Fin (1 / 2)\<rparr>)] = [Fin 0, Fin (1 / 4), Fin (1 / 2), Fin 1]"
    by (simp add: uniqueBreakpoints_def)
  then have "\<exists>g\<in>set (Traverse exact [ex_box 2 0 4 3] ex_path). PS_Covered g"
    by (simp add: Traverse_def n collectCrossings_def ex_path_span Let_def upt_rec boxesCovering_def sortBoxes_def sort_slice_def)
  with t show ?thesis by blast
qed

text \<open>C37. Under exact arithmetic the span of a path in a box is the part of the path inside it: every point strictly
  between its ends is in the box, every point of the path in the box lies between its ends, and when there is
  no span the path is inside the box on no piece of positive length.\<close>

theorem path_span_exact:
  assumes "good_path n p" and "box_ok n b"
  shows "(\<forall>s. Path_Span exact p b = Some s \<longrightarrow>
      (\<exists>u v. SStart s = Fin u \<and> SEnd s = Fin v \<and> 0 \<le> u \<and> u < v \<and> v \<le> 1 \<and>
        (\<forall>t. u < t \<and> t < v \<longrightarrow> along p b t) \<and> (\<forall>t. 0 \<le> t \<and> t \<le> 1 \<and> along p b t \<longrightarrow> u \<le> t \<and> t \<le> v))) \<and>
    (Path_Span exact p b = None \<longrightarrow> (\<forall>u v. 0 \<le> u \<and> u < v \<and> v \<le> 1 \<longrightarrow> (\<exists>t. u < t \<and> t < v \<and> \<not> along p b t)))"
  using Path_Span_Some_exact [OF assms] Path_Span_None_exact [OF assms] by blast

theorem path_span_exact_witness:
  "along ex_path (ex_box 2 0 4 3) (3 / 8) \<and> \<not> along ex_path (ex_box 2 0 4 3) (3 / 4)"
proof -
  have r: "\<exists>u v. Fin (1 / 4) = Fin u \<and> Fin (1 / 2) = Fin v \<and> 0 \<le> u \<and> u < v \<and> v \<le> 1 \<and>
      (\<forall>t. u < t \<and> t < v \<longrightarrow> along ex_path (ex_box 2 0 4 3) t) \<and>
      (\<forall>t. 0 \<le> t \<and> t \<le> 1 \<and> along ex_path (ex_box 2 0 4 3) t \<longrightarrow> u \<le> t \<and> t \<le> v)"
    using path_span_exact [OF ex_path_good ex_box_ok [of 2 4 0 3]] ex_path_span by force
  then have in_t: "\<forall>t. 1 / 4 < t \<and> t < 1 / 2 \<longrightarrow> along ex_path (ex_box 2 0 4 3) t"
    and out_t: "\<forall>t. 0 \<le> t \<and> t \<le> 1 \<and> along ex_path (ex_box 2 0 4 3) t \<longrightarrow> 1 / 4 \<le> t \<and> t \<le> 1 / 2" by auto
  have "\<not> along ex_path (ex_box 2 0 4 3) (3 / 4)"
  proof
    assume "along ex_path (ex_box 2 0 4 3) (3 / 4)"
    with spec [OF out_t, of "3 / 4"] show False by simp
  qed
  with in_t show ?thesis by simp
qed

subsection \<open>The R-tree\<close>

text \<open>C38. A search of a bulk-loaded R-tree returns exactly the non-empty boxes that share a point with the query,
  each as often as it was indexed, in the canonical order; nothing is lost by pruning, whatever the float
  subtraction that chose the splitting axes.\<close>

theorem rtree_search_exact:
  assumes "Build sub boxes = Inr t" and "box_ok (Dims q) q"
  shows "mset (Search t q) = mset (filter (\<lambda>b. \<not> Box_Empty b \<and> bpoints b \<inter> bpoints q \<noteq> {}) boxes) \<and>
    sorted_wrt (\<lambda>a b. \<not> lessBox b a) (Search t q)"
  using Search_exact [OF assms] Search_sorted [OF assms(1)] by blast

theorem rtree_search_exact_witness:
  "\<exists>t. Build (f_sub exact) [ex_box 0 0 4 4, ex_box 5 5 6 6, ex_box 3 3 7 7] = Inr t \<and>
     mset (Search t (ex_box 1 1 2 2)) = {#ex_box 0 0 4 4#}"
proof -
  let ?bs = "[ex_box 0 0 4 4, ex_box 5 5 6 6, ex_box 3 3 7 7]"
  have g: "good_box 2 b" if "b \<in> set ?bs" for b using that by auto
  have l: "length (BMin b) = 2" "Box_Validate b = None" "\<not> Box_Empty b" if "b \<in> set ?bs" for b
    using good_boxD [OF g [OF that]] by (auto simp: box_ok_def)
  have "build_loop ?bs 0 [] = Inr (2, ?bs)" using l by simp
  then obtain t where t: "Build (f_sub exact) ?bs = Inr t" by (simp add: Build_def build_def)
  have e: "\<not> Box_Empty b" if "b \<in> set ?bs" for b using l(3) that by blast
  have o: "Overlaps b (ex_box 1 1 2 2) \<longleftrightarrow> bpoints b \<inter> bpoints (ex_box 1 1 2 2) \<noteq> {}" if "b \<in> set ?bs" for b
    by (rule Overlaps_iff_points [OF g [OF that]]) simp
  have "Overlaps (ex_box 0 0 4 4) (ex_box 1 1 2 2)" "\<not> Overlaps (ex_box 5 5 6 6) (ex_box 1 1 2 2)"
      "\<not> Overlaps (ex_box 3 3 7 7) (ex_box 1 1 2 2)"
    by (simp_all add: Overlaps_def ex_box_def NewBox_def intervalOverlap_def f_max_def f_min_def IsNaN_def Let_def upt_rec)
  then have "filter (\<lambda>b. \<not> Box_Empty b \<and> bpoints b \<inter> bpoints (ex_box 1 1 2 2) \<noteq> {}) ?bs = [ex_box 0 0 4 4]"
    using o e by simp
  with rtree_search_exact [OF t, of "ex_box 1 1 2 2"] t show ?thesis by auto
qed

end
