(* ===== verification/Canonical.thy ===== *)
theory Canonical
  imports Box_Difference
begin

section \<open>Merging adjacent boxes (space/canonical.go, space/merge_scan.go)\<close>

text \<open>
  \<open>mergePair\<close> glues two boxes along a shared face when they agree on every other axis. The greedy fixpoint runs
  over an index (\<open>Scan_Merge\<close>, \<open>Indexed_Merge\<close>); here are the pair merge and what it does to points.
\<close>

subsection \<open>The source\<close>

definition Chain :: "(box list \<Rightarrow> box list) option list \<Rightarrow> box list \<Rightarrow> box list" where
  "Chain cs boxes = fold (\<lambda>c boxes. case c of None \<Rightarrow> boxes | Some f \<Rightarrow> f boxes) cs boxes"

fun singleDiffAxis_from :: "box \<Rightarrow> box \<Rightarrow> nat list \<Rightarrow> nat option \<Rightarrow> nat option" where
  "singleDiffAxis_from a b [] diff = diff"
| "singleDiffAxis_from a b (d # ds) diff =
     (if f_eq (BMin a ! d) (BMin b ! d) \<and> f_eq (BMax a ! d) (BMax b ! d)
      then if loBound a d \<noteq> loBound b d \<or> hiBound a d \<noteq> hiBound b d then None
           else singleDiffAxis_from a b ds diff
      else if diff \<noteq> None then None
      else singleDiffAxis_from a b ds (Some d))"

definition singleDiffAxis :: "box \<Rightarrow> box \<Rightarrow> nat option" where
  "singleDiffAxis a b = singleDiffAxis_from a b [0..<length (BMin a)] None"

definition mergePair :: "box \<Rightarrow> box \<Rightarrow> box option" where
  "mergePair a b =
     (if length (BMin a) \<noteq> length (BMin b) then None
      else case singleDiffAxis a b of
        None \<Rightarrow> None
      | Some diff \<Rightarrow>
          let (lo, hi) = (if f_eq (BMax b ! diff) (BMin a ! diff) then (b, a) else (a, b))
          in if \<not> f_eq (BMax b ! diff) (BMin a ! diff) \<and> \<not> f_eq (BMax a ! diff) (BMin b ! diff) then None
             else if hiBound lo diff = Open \<and> loBound hi diff = Open then None
             else Some \<lparr>BMin = BMin lo, BMax = BMax hi, MinBound = MinBound lo, MaxBound = MaxBound hi, Meta = NoMeta\<rparr>)"

subsection \<open>The axis of a merge\<close>

definition same_axis :: "box \<Rightarrow> box \<Rightarrow> nat \<Rightarrow> bool" where
  "same_axis a b i \<longleftrightarrow> f_eq (BMin a ! i) (BMin b ! i) \<and> f_eq (BMax a ! i) (BMax b ! i) \<and>
     loBound a i = loBound b i \<and> hiBound a i = hiBound b i"

lemma singleDiffAxis_from_Some:
  "singleDiffAxis_from a b ds diff = Some d \<Longrightarrow>
     (diff = Some d \<or> diff = None \<and> d \<in> set ds) \<and> (\<forall>i\<in>set ds. i \<noteq> d \<longrightarrow> same_axis a b i)"
proof (induction ds arbitrary: diff)
  case (Cons i ds)
  show ?case
  proof (cases "f_eq (BMin a ! i) (BMin b ! i) \<and> f_eq (BMax a ! i) (BMax b ! i)")
    case True
    then have "same_axis a b i" "singleDiffAxis_from a b ds diff = Some d"
      using Cons.prems by (simp_all add: same_axis_def split: if_splits)
    with Cons.IH [of diff] show ?thesis by auto
  next
    case False
    then have "diff = None" "singleDiffAxis_from a b ds (Some i) = Some d"
      using Cons.prems by (simp_all split: if_splits)
    with Cons.IH [of "Some i"] show ?thesis by auto
  qed
qed simp

lemma same_axis_axis: "same_axis a b i \<Longrightarrow> axis a i = axis b i"
  by (simp add: same_axis_def axis_def f_eq_def)

text \<open>The union of two boxes that agree on all axes but one, where their spans join.\<close>

lemma bspan_join:
  assumes "Dims a = n" "Dims b = n" "Dims m = n" "d < n"
    and "\<forall>i<n. i \<noteq> d \<longrightarrow> axis a i = axis b i \<and> axis m i = axis a i"
    and "fspan (axis m d) = fspan (axis a d) \<union> fspan (axis b d)"
  shows "bspan m = bspan a \<union> bspan b"
proof -
  have "(\<forall>i<n. ps ! i \<in> fspan (axis m i)) \<longleftrightarrow>
      (\<forall>i<n. ps ! i \<in> fspan (axis a i)) \<or> (\<forall>i<n. ps ! i \<in> fspan (axis b i))" for ps :: "finePoint list"
  proof -
    have split: "(\<forall>i<n. P i) \<longleftrightarrow> P d \<and> (\<forall>i<n. i \<noteq> d \<longrightarrow> P i)" for P using assms(4) by auto
    show ?thesis
      unfolding split [of "\<lambda>i. ps ! i \<in> fspan (axis m i)"] split [of "\<lambda>i. ps ! i \<in> fspan (axis a i)"]
        split [of "\<lambda>i. ps ! i \<in> fspan (axis b i)"]
      using assms(5,6) by auto
  qed
  then show ?thesis using assms(1-3) by (auto simp: bspan_def)
qed

lemma mergePair_cases:
  assumes "mergePair a b = Some m" "good_box n a"
  obtains d lo hi where "d < n" "\<And>i. i < n \<Longrightarrow> i \<noteq> d \<Longrightarrow> axis a i = axis b i"
    "lo = a \<and> hi = b \<or> lo = b \<and> hi = a" "BMax lo ! d = BMin hi ! d" "\<not> (hiBound lo d = Open \<and> loBound hi d = Open)"
    "m = \<lparr>BMin = BMin lo, BMax = BMax hi, MinBound = MinBound lo, MaxBound = MaxBound hi, Meta = NoMeta\<rparr>"
proof -
  obtain d where d: "singleDiffAxis a b = Some d" using assms(1) by (auto simp: mergePair_def split: if_splits option.splits)
  have dn: "d < n" "\<And>i. i < n \<Longrightarrow> i \<noteq> d \<Longrightarrow> axis a i = axis b i"
    using singleDiffAxis_from_Some [OF d [unfolded singleDiffAxis_def]] same_axis_axis good_boxD(2) [OF assms(2)] by auto
  have len: "length (BMin a) = length (BMin b)" using assms(1) by (simp add: mergePair_def split: if_splits)
  show ?thesis
  proof (cases "f_eq (BMax b ! d) (BMin a ! d)")
    case True
    then have "\<not> (hiBound b d = Open \<and> loBound a d = Open)"
      "m = \<lparr>BMin = BMin b, BMax = BMax a, MinBound = MinBound b, MaxBound = MaxBound a, Meta = NoMeta\<rparr>"
      using assms(1) d len by (simp_all add: mergePair_def split: if_splits)
    with True dn that [of d b a] show ?thesis by (simp add: f_eq_def)
  next
    case False
    then have "f_eq (BMax a ! d) (BMin b ! d)" "\<not> (hiBound a d = Open \<and> loBound b d = Open)"
      "m = \<lparr>BMin = BMin a, BMax = BMax b, MinBound = MinBound a, MaxBound = MaxBound b, Meta = NoMeta\<rparr>"
      using assms(1) d len by (simp_all add: mergePair_def split: if_splits)
    with dn that [of d a b] show ?thesis by (simp add: f_eq_def)
  qed
qed

lemma mergePair_spec:
  assumes "good_box n a" "good_box n b" "mergePair a b = Some m"
  shows "good_box n m" "bspan m = bspan a \<union> bspan b" "Meta m = NoMeta"
proof -
  obtain d lo hi where dn: "d < n" "\<And>i. i < n \<Longrightarrow> i \<noteq> d \<Longrightarrow> axis a i = axis b i"
    and lh: "lo = a \<and> hi = b \<or> lo = b \<and> hi = a" "BMax lo ! d = BMin hi ! d" "\<not> (hiBound lo d = Open \<and> loBound hi d = Open)"
    and m: "m = \<lparr>BMin = BMin lo, BMax = BMax hi, MinBound = MinBound lo, MaxBound = MaxBound hi, Meta = NoMeta\<rparr>"
    using mergePair_cases [OF assms(3,1)] by blast
  have g: "good_box n lo" "good_box n hi" using lh(1) assms(1,2) by auto
  note ll = good_boxD [OF g(1)] and hh = good_boxD [OF g(2)]
  have same: "axis hi i = axis lo i" if "i < n" "i \<noteq> d" for i using lh(1) dn(2) [OF that] by auto
  have ax: "axis m i = \<lparr>Start = BMin lo ! i, End = BMax hi ! i, StartBound = loBound lo i, EndBound = hiBound hi i\<rparr>" for i
    by (simp add: m axis_def loBound_def hiBound_def)
  have other: "axis m i = axis lo i" if "i < n" "i \<noteq> d" for i
  proof -
    have "BMax hi ! i = BMax lo ! i" "hiBound hi i = hiBound lo i" using same [OF that] by (simp_all add: axis_def)
    then show ?thesis unfolding ax by (simp add: axis_def)
  qed
  have iv: "valid_iv (axis lo d)" "valid_iv (axis hi d)" using good_box_valid g dn(1) by blast+
  have lt: "ilo (axis lo d) < ihi (axis lo d)" "ilo (axis hi d) < ihi (axis hi d)"
    and fin: "fin_point (ilo (axis lo d))" "fin_point (ihi (axis hi d))" using iv valid_iff by blast+
  have joint: "ihi (axis lo d) = FinePoint (BMax lo ! d) (hiBound lo d = Closed)"
      "ilo (axis hi d) = FinePoint (BMax lo ! d) (loBound hi d = Open)"
    using lh(2) by (simp_all add: fine_def)
  have meet: "ilo (axis hi d) \<le> ihi (axis lo d)"
    using lh(3) unfolding joint by (cases "hiBound lo d"; cases "loBound hi d") (simp_all add: less_eq_finePoint_def)
  have mid: "ihi (axis lo d) \<le> ihi (axis hi d)" "ilo (axis lo d) \<le> ilo (axis hi d)"
    using lt unfolding joint
    by (cases "ihi (axis hi d)"; cases "ilo (axis lo d)"; auto simp: less_eq_finePoint_def less_finePoint_def)+
  have ends: "ilo (axis m d) = ilo (axis lo d)" "ihi (axis m d) = ihi (axis hi d)"
    unfolding ax by (simp_all add: fine_def)
  have span: "fspan (axis m d) = fspan (axis lo d) \<union> fspan (axis hi d)"
    unfolding fspan_def ends using lt meet mid by auto
  have dm: "Dims m = n" using ll(5) by (simp add: m Dims_def)
  have "bspan m = bspan lo \<union> bspan hi"
    by (rule bspan_join [OF ll(5) hh(5) dm dn(1) _ span]) (use other same in auto)
  then show "bspan m = bspan a \<union> bspan b" using lh(1) by auto
  show "Meta m = NoMeta" by (simp add: m)
  have vm: "valid_iv (axis m i)" if "i < n" for i
  proof (cases "i = d")
    case True
    then show ?thesis unfolding valid_iff using fin lt mid ends by (metis order_less_le_trans)
  next
    case False
    with that show ?thesis using other good_box_valid [OF g(1) that] by simp
  qed
  show "good_box n m"
  proof -
    have "length (MinBound lo) \<in> {0, n}" "length (MaxBound hi) \<in> {0, n}"
      using g [unfolded good_box_axes] by blast+
    then have "length (BMin m) = n" "length (BMax m) = n" "length (MinBound m) \<in> {0, n}" "length (MaxBound m) \<in> {0, n}"
      using ll hh by (simp_all add: m)
    with vm ll(4) show ?thesis unfolding good_box_axes by blast
  qed
qed

end
