(* ===== verification/Scan_Merge.thy ===== *)
theory Scan_Merge
  imports Canonical
begin

section \<open>The merge fixpoint over an index (space/merge_scan.go)\<close>

text \<open>
  \<open>scanMerge\<close> repeats: find the first mergeable pair in canonical order, replace it by its union, fold away the
  boxes the union covers. Boxes carry stable ids; \<open>sc_live\<close> lists the ids in canonical order, \<open>sc_rank\<close> is its
  inverse, and \<open>sc_buckets\<close> indexes the ids by a hash of everything but one axis. The hash mixes the bit
  patterns of the coordinates (\<open>math.Float64bits\<close>), which the float model does not have: they are the parameter
  \<open>bits\<close>, an arbitrary function of the value.

  The fixpoint loop is a \<open>partial_function\<close>; that it returns is part of the theorem. The abstraction of a scanner
  is the list of its live boxes: every operation is shown to be a list operation on it, and the result is a
  canonical cover of the same points in which no pair can be merged.
\<close>

subsection \<open>The source\<close>

unbundle bit_operations_syntax

type_synonym word64 = "64 word"

record scanner =
  sc_boxes :: "box list"
  sc_live :: "nat list"
  sc_rank :: "int list"
  sc_buckets :: "word64 \<Rightarrow> nat list"
  sc_dims :: nat

definition offsetBasis :: word64 where
  "offsetBasis = 14695981039346656037"

definition prime :: word64 where
  "prime = 1099511628211"

definition canonicalBits :: "(float64 \<Rightarrow> word64) \<Rightarrow> float64 \<Rightarrow> word64" where
  "canonicalBits bits x = (if f_eq x (Fin 0) then 0 else bits x)"

definition bound_byte :: "bound \<Rightarrow> word64" where
  "bound_byte b = (case b of Closed \<Rightarrow> 0 | Open \<Rightarrow> 1)"

definition mix :: "word64 \<Rightarrow> word64 \<Rightarrow> word64" where
  "mix v h = (h XOR v) * prime"

definition crossSectionKey :: "(float64 \<Rightarrow> word64) \<Rightarrow> box \<Rightarrow> nat \<Rightarrow> word64" where
  "crossSectionKey bits b ax =
     fold (\<lambda>d h. if d = ax then h
        else mix (bound_byte (loBound b d) OR push_bit 8 (bound_byte (hiBound b d)))
          (mix (canonicalBits bits (BMax b ! d)) (mix (canonicalBits bits (BMin b ! d)) h)))
       [0..<length (BMin b)] offsetBasis"

definition index_axis :: "(float64 \<Rightarrow> word64) \<Rightarrow> nat \<Rightarrow> nat \<Rightarrow> scanner \<Rightarrow> scanner" where
  "index_axis bits i d m =
     (let k = crossSectionKey bits (sc_boxes m ! i) d
      in m\<lparr>sc_buckets := (sc_buckets m)(k := sc_buckets m k @ [i])\<rparr>)"

definition sc_index :: "(float64 \<Rightarrow> word64) \<Rightarrow> nat \<Rightarrow> scanner \<Rightarrow> scanner" where
  "sc_index bits i m = fold (index_axis bits i) [0..<sc_dims m] m"

definition unindex_axis :: "(float64 \<Rightarrow> word64) \<Rightarrow> nat \<Rightarrow> nat \<Rightarrow> scanner \<Rightarrow> scanner" where
  "unindex_axis bits i d m =
     (let k = crossSectionKey bits (sc_boxes m ! i) d
      in m\<lparr>sc_buckets := (sc_buckets m)(k := remove1 i (sc_buckets m k))\<rparr>)"

definition sc_unindex :: "(float64 \<Rightarrow> word64) \<Rightarrow> nat \<Rightarrow> scanner \<Rightarrow> scanner" where
  "sc_unindex bits i m = fold (unindex_axis bits i) [0..<sc_dims m] m"

definition newScanner :: "(float64 \<Rightarrow> word64) \<Rightarrow> box list \<Rightarrow> scanner" where
  "newScanner bits boxes =
     fold (\<lambda>i m. sc_index bits i (m\<lparr>sc_live := (sc_live m)[i := i], sc_rank := (sc_rank m)[i := int i]\<rparr>))
       [0..<length boxes]
       \<lparr>sc_boxes = boxes, sc_live = replicate (length boxes) 0, sc_rank = replicate (length boxes) 0,
        sc_buckets = (\<lambda>_. []), sc_dims = length (BMin (boxes ! 0))\<rparr>"

definition better_partner :: "scanner \<Rightarrow> nat \<Rightarrow> nat \<Rightarrow> nat \<Rightarrow> nat option \<Rightarrow> nat option" where
  "better_partner m i ident other best =
     (let j = sc_rank m ! other
      in if j \<le> int i \<or> (case best of Some b \<Rightarrow> int b \<le> j | None \<Rightarrow> False) then best
         else if mergePair (sc_boxes m ! ident) (sc_boxes m ! other) \<noteq> None then Some (nat j) else best)"

definition earliestPartner :: "(float64 \<Rightarrow> word64) \<Rightarrow> scanner \<Rightarrow> nat \<Rightarrow> nat \<Rightarrow> nat option" where
  "earliestPartner bits m i ident =
     fold (\<lambda>d. fold (better_partner m i ident) (sc_buckets m (crossSectionKey bits (sc_boxes m ! ident) d)))
       [0..<sc_dims m] None"

fun firstPair_from :: "(float64 \<Rightarrow> word64) \<Rightarrow> scanner \<Rightarrow> nat list \<Rightarrow> (nat \<times> nat) option" where
  "firstPair_from bits m [] = None"
| "firstPair_from bits m (i # is) =
     (case earliestPartner bits m i (sc_live m ! i) of
        Some j \<Rightarrow> Some (sc_live m ! i, sc_live m ! j)
      | None \<Rightarrow> firstPair_from bits m is)"

definition firstMergeablePair :: "(float64 \<Rightarrow> word64) \<Rightarrow> scanner \<Rightarrow> (nat \<times> nat) option" where
  "firstMergeablePair bits m = firstPair_from bits m [0..<length (sc_live m)]"

definition rerank :: "nat \<Rightarrow> scanner \<Rightarrow> scanner" where
  "rerank pos m = m\<lparr>sc_rank := fold (\<lambda>k r. r[sc_live m ! k := int k]) [pos..<length (sc_live m)] (sc_rank m)\<rparr>"

definition zero_box :: box where
  "zero_box = \<lparr>BMin = [], BMax = [], MinBound = [], MaxBound = [], Meta = NoMeta\<rparr>"

definition sc_removeAt :: "(float64 \<Rightarrow> word64) \<Rightarrow> nat \<Rightarrow> scanner \<Rightarrow> scanner" where
  "sc_removeAt bits pos m =
     (let i = sc_live m ! pos;
          m = rerank pos (m\<lparr>sc_live := take pos (sc_live m) @ drop (Suc pos) (sc_live m)\<rparr>);
          m = sc_unindex bits i (m\<lparr>sc_rank := (sc_rank m)[i := -1]\<rparr>)
      in m\<lparr>sc_boxes := (sc_boxes m)[i := zero_box]\<rparr>)"

definition sc_remove :: "(float64 \<Rightarrow> word64) \<Rightarrow> nat \<Rightarrow> scanner \<Rightarrow> scanner" where
  "sc_remove bits i m = sc_removeAt bits (nat (sc_rank m ! i)) m"

definition insertInOrder :: "(float64 \<Rightarrow> word64) \<Rightarrow> box \<Rightarrow> scanner \<Rightarrow> scanner" where
  "insertInOrder bits b m =
     (let pos = sort_Search (length (sc_live m)) (\<lambda>k. \<not> box_Less (sc_boxes m ! (sc_live m ! k)) b);
          i = length (sc_boxes m);
          m = m\<lparr>sc_boxes := sc_boxes m @ [b], sc_rank := sc_rank m @ [int pos],
                sc_live := take pos (sc_live m) @ i # drop pos (sc_live m)\<rparr>
      in sc_index bits i (rerank pos m))"

definition sc_insert :: "(float64 \<Rightarrow> word64) \<Rightarrow> box \<Rightarrow> scanner \<Rightarrow> scanner" where
  "sc_insert bits merged m =
     (let (merged, m) = fold (\<lambda>k (merged, m).
         let i = sc_live m ! k
         in if \<not> subsumes merged (sc_boxes m ! i) then (merged, m)
            else (merged\<lparr>Meta := meta_Union (Meta merged) (Meta (sc_boxes m ! i))\<rparr>, sc_removeAt bits k m))
       (rev [0..<length (sc_live m)]) (merged, m)
      in insertInOrder bits merged m)"

definition sc_merge :: "(float64 \<Rightarrow> word64) \<Rightarrow> nat \<Rightarrow> nat \<Rightarrow> scanner \<Rightarrow> scanner" where
  "sc_merge bits a b m =
     (case mergePair (sc_boxes m ! a) (sc_boxes m ! b) of
        None \<Rightarrow> sc_insert bits zero_box (sc_remove bits b (sc_remove bits a m))
      | Some merged \<Rightarrow> sc_insert bits merged (sc_remove bits b (sc_remove bits a m)))"

definition sc_result :: "scanner \<Rightarrow> box list" where
  "sc_result m = map (\<lambda>i. sc_boxes m ! i) (sc_live m)"

partial_function (option) scan_loop :: "(float64 \<Rightarrow> word64) \<Rightarrow> scanner \<Rightarrow> box list option" where
  "scan_loop bits m =
     (case firstMergeablePair bits m of
        None \<Rightarrow> Some (sc_result m)
      | Some (a, b) \<Rightarrow> scan_loop bits (sc_merge bits a b m))"

definition scanMerge :: "(float64 \<Rightarrow> word64) \<Rightarrow> box list \<Rightarrow> box list option" where
  "scanMerge bits boxes =
     (let boxes = box_Normalize boxes
      in if boxes = [] then Some [] else scan_loop bits (newScanner bits boxes))"

subsection \<open>Mergeable boxes share a bucket\<close>

lemma crossSectionKey_cong:
  assumes "length (BMin a) = length (BMin b)" "\<And>i. i < length (BMin a) \<Longrightarrow> i \<noteq> ax \<Longrightarrow> same_axis a b i"
  shows "crossSectionKey bits a ax = crossSectionKey bits b ax"
  unfolding crossSectionKey_def assms(1)
  using assms by (intro fold_cong) (auto simp: same_axis_def f_eq_def)

lemma mergePair_key:
  assumes "mergePair a b \<noteq> None"
  obtains d where "d < length (BMin a)" "crossSectionKey bits a d = crossSectionKey bits b d"
proof -
  have len: "length (BMin a) = length (BMin b)" using assms by (auto simp: mergePair_def split: if_splits)
  obtain d where d: "singleDiffAxis a b = Some d" using assms by (auto simp: mergePair_def split: if_splits option.splits)
  have "d < length (BMin a)" "\<And>i. i < length (BMin a) \<Longrightarrow> i \<noteq> d \<Longrightarrow> same_axis a b i"
    using singleDiffAxis_from_Some [OF d [unfolded singleDiffAxis_def]] by auto
  with crossSectionKey_cong [OF len] that show ?thesis by blast
qed

subsection \<open>The index\<close>

definition key_count :: "(float64 \<Rightarrow> word64) \<Rightarrow> box \<Rightarrow> nat list \<Rightarrow> word64 \<Rightarrow> nat" where
  "key_count bits b ds k = length (filter (\<lambda>d. crossSectionKey bits b d = k) ds)"

lemma count_remove1: "count_list (remove1 x xs) y = count_list xs y - (if x = y then 1 else 0)"
proof (induction xs)
  case (Cons z xs)
  have "0 < count_list xs y" if "y \<in> set xs" using that by (simp add: count_list_0_iff zero_less_iff_neq_zero)
  with Cons show ?case by (cases "x = y") (auto simp: count_list_0_iff)
qed simp

lemma sc_index_fields [simp]:
  "sc_boxes (sc_index bits i m) = sc_boxes m" "sc_live (sc_index bits i m) = sc_live m"
  "sc_rank (sc_index bits i m) = sc_rank m" "sc_dims (sc_index bits i m) = sc_dims m"
proof -
  have "sc_boxes (fold (index_axis bits i) ds m) = sc_boxes m \<and> sc_live (fold (index_axis bits i) ds m) = sc_live m \<and>
      sc_rank (fold (index_axis bits i) ds m) = sc_rank m \<and> sc_dims (fold (index_axis bits i) ds m) = sc_dims m" for ds
    by (induction ds arbitrary: m) (simp_all add: index_axis_def Let_def)
  then show "sc_boxes (sc_index bits i m) = sc_boxes m" "sc_live (sc_index bits i m) = sc_live m"
    "sc_rank (sc_index bits i m) = sc_rank m" "sc_dims (sc_index bits i m) = sc_dims m"
    by (simp_all add: sc_index_def)
qed

lemma sc_unindex_fields [simp]:
  "sc_boxes (sc_unindex bits i m) = sc_boxes m" "sc_live (sc_unindex bits i m) = sc_live m"
  "sc_rank (sc_unindex bits i m) = sc_rank m" "sc_dims (sc_unindex bits i m) = sc_dims m"
proof -
  have "sc_boxes (fold (unindex_axis bits i) ds m) = sc_boxes m \<and> sc_live (fold (unindex_axis bits i) ds m) = sc_live m \<and>
      sc_rank (fold (unindex_axis bits i) ds m) = sc_rank m \<and> sc_dims (fold (unindex_axis bits i) ds m) = sc_dims m" for ds
    by (induction ds arbitrary: m) (simp_all add: unindex_axis_def Let_def)
  then show "sc_boxes (sc_unindex bits i m) = sc_boxes m" "sc_live (sc_unindex bits i m) = sc_live m"
    "sc_rank (sc_unindex bits i m) = sc_rank m" "sc_dims (sc_unindex bits i m) = sc_dims m"
    by (simp_all add: sc_unindex_def)
qed

lemma sc_index_count:
  "count_list (sc_buckets (sc_index bits i m) k) j =
     count_list (sc_buckets m k) j + (if j = i then key_count bits (sc_boxes m ! i) [0..<sc_dims m] k else 0)"
proof -
  have "count_list (sc_buckets (fold (index_axis bits i) ds m) k) j =
      count_list (sc_buckets m k) j + (if j = i then key_count bits (sc_boxes m ! i) ds k else 0)" for ds
    by (induction ds arbitrary: m) (auto simp: index_axis_def Let_def key_count_def)
  then show ?thesis by (simp add: sc_index_def)
qed

lemma sc_unindex_count:
  "count_list (sc_buckets (sc_unindex bits i m) k) j =
     count_list (sc_buckets m k) j - (if j = i then key_count bits (sc_boxes m ! i) [0..<sc_dims m] k else 0)"
proof -
  have "count_list (sc_buckets (fold (unindex_axis bits i) ds m) k) j =
      count_list (sc_buckets m k) j - (if j = i then key_count bits (sc_boxes m ! i) ds k else 0)" for ds
    by (induction ds arbitrary: m) (auto simp: unindex_axis_def Let_def key_count_def count_remove1)
  then show ?thesis by (simp add: sc_unindex_def)
qed

text \<open>The invariant: live ids and ranks are inverse to each other, and the buckets hold each live id once per axis.\<close>

definition ranks_ok :: "scanner \<Rightarrow> bool" where
  "ranks_ok m \<longleftrightarrow> distinct (sc_live m) \<and> (\<forall>i\<in>set (sc_live m). i < length (sc_boxes m)) \<and>
     length (sc_rank m) = length (sc_boxes m) \<and> (\<forall>k<length (sc_live m). sc_rank m ! (sc_live m ! k) = int k)"

definition buckets_ok :: "(float64 \<Rightarrow> word64) \<Rightarrow> scanner \<Rightarrow> bool" where
  "buckets_ok bits m \<longleftrightarrow> (\<forall>k j. count_list (sc_buckets m k) j =
     (if j \<in> set (sc_live m) then key_count bits (sc_boxes m ! j) [0..<sc_dims m] k else 0))"

definition scanner_ok :: "(float64 \<Rightarrow> word64) \<Rightarrow> nat \<Rightarrow> scanner \<Rightarrow> bool" where
  "scanner_ok bits n m \<longleftrightarrow> ranks_ok m \<and> buckets_ok bits m \<and> sc_dims m = n"

lemma mem_bucket:
  assumes "buckets_ok bits m"
  shows "j \<in> set (sc_buckets m k) \<longleftrightarrow> j \<in> set (sc_live m) \<and> (\<exists>d < sc_dims m. crossSectionKey bits (sc_boxes m ! j) d = k)"
proof -
  have "j \<in> set (sc_buckets m k) \<longleftrightarrow> count_list (sc_buckets m k) j \<noteq> 0" by (simp add: count_list_0_iff)
  then show ?thesis
    using assms by (auto simp: buckets_ok_def key_count_def filter_empty_conv)
qed

lemma newScanner_ok:
  assumes "\<forall>b\<in>set bs. good_box n b" "bs \<noteq> []"
  shows "scanner_ok bits n (newScanner bits bs)" "sc_result (newScanner bits bs) = bs"
proof -
  let ?N = "length bs"
  let ?m0 = "\<lparr>sc_boxes = bs, sc_live = replicate ?N 0, sc_rank = replicate ?N 0, sc_buckets = (\<lambda>_. []), sc_dims = length (BMin (bs ! 0))\<rparr>"
  let ?f = "\<lambda>i m. sc_index bits i (m\<lparr>sc_live := (sc_live m)[i := i], sc_rank := (sc_rank m)[i := int i]\<rparr>)"
  have dims: "length (BMin (bs ! 0)) = n" using assms by (simp add: good_boxD(2))
  have inv: "sc_boxes (fold ?f [0..<k] ?m0) = bs \<and> sc_dims (fold ?f [0..<k] ?m0) = n \<and>
      sc_live (fold ?f [0..<k] ?m0) = [0..<k] @ replicate (?N - k) 0 \<and>
      sc_rank (fold ?f [0..<k] ?m0) = map int [0..<k] @ replicate (?N - k) 0 \<and>
      (\<forall>c j. count_list (sc_buckets (fold ?f [0..<k] ?m0) c) j = (if j < k then key_count bits (bs ! j) [0..<n] c else 0))"
    if "k \<le> ?N" for k
    using that
  proof (induction k)
    case (Suc k)
    have upd: "([0..<k] @ replicate (?N - k) 0)[k := k] = [0..<Suc k] @ replicate (?N - Suc k) 0"
      "(map int [0..<k] @ replicate (?N - k) 0)[k := int k] = map int [0..<Suc k] @ replicate (?N - Suc k) 0"
      using Suc.prems by (simp_all add: list_update_append Suc_diff_Suc [symmetric] del: replicate_Suc)
        (simp_all add: Suc_diff_le)
    show ?case using Suc upd by (auto simp: sc_index_count)
  qed (simp add: dims)
  from inv [of ?N] have m: "sc_boxes (newScanner bits bs) = bs" "sc_dims (newScanner bits bs) = n"
      "sc_live (newScanner bits bs) = [0..<?N]" "sc_rank (newScanner bits bs) = map int [0..<?N]"
      "\<And>c j. count_list (sc_buckets (newScanner bits bs) c) j = (if j < ?N then key_count bits (bs ! j) [0..<n] c else 0)"
    by (simp_all add: newScanner_def)
  show "scanner_ok bits n (newScanner bits bs)" by (simp add: scanner_ok_def ranks_ok_def buckets_ok_def m)
  show "sc_result (newScanner bits bs) = bs" by (simp add: sc_result_def m map_nth)
qed

subsection \<open>The first mergeable pair\<close>

definition mergeable :: "box list \<Rightarrow> nat \<Rightarrow> nat \<Rightarrow> bool" where
  "mergeable L i j \<longleftrightarrow> i < j \<and> j < length L \<and> mergePair (L ! i) (L ! j) \<noteq> None"

lemma length_sc_result [simp]: "length (sc_result m) = length (sc_live m)"
  by (simp add: sc_result_def)

lemma sc_result_nth: "k < length (sc_live m) \<Longrightarrow> sc_result m ! k = sc_boxes m ! (sc_live m ! k)"
  by (simp add: sc_result_def)

lemma earliestPartner_concat:
  "earliestPartner bits m i ident =
     fold (better_partner m i ident) (concat (map (\<lambda>d. sc_buckets m (crossSectionKey bits (sc_boxes m ! ident) d)) [0..<sc_dims m])) None"
proof -
  have "fold (\<lambda>d. fold f (g d)) ds x = fold f (concat (map g ds)) x" for f :: "nat \<Rightarrow> nat option \<Rightarrow> nat option" and g :: "nat \<Rightarrow> nat list" and ds x
    by (induction ds arbitrary: x) simp_all
  then show ?thesis by (simp add: earliestPartner_def)
qed

lemma fold_better_partner:
  assumes r: "ranks_ok m" and i: "i < length (sc_live m)" and xs: "set xs \<subseteq> set (sc_live m)"
    and b: "\<forall>b0. best = Some b0 \<longrightarrow> mergeable (sc_result m) i b0"
  shows "case fold (better_partner m i (sc_live m ! i)) xs best of
      None \<Rightarrow> best = None \<and> (\<forall>k. sc_live m ! k \<in> set xs \<longrightarrow> \<not> mergeable (sc_result m) i k)
    | Some c \<Rightarrow> mergeable (sc_result m) i c \<and> (\<forall>k. sc_live m ! k \<in> set xs \<longrightarrow> mergeable (sc_result m) i k \<longrightarrow> c \<le> k) \<and>
        (\<forall>b0. best = Some b0 \<longrightarrow> c \<le> b0)"
  using xs b
proof (induction xs arbitrary: best)
  case (Cons x xs)
  let ?f = "better_partner m i (sc_live m ! i)" and ?L = "sc_result m"
  obtain k where k: "k < length (sc_live m)" "x = sc_live m ! k" using Cons.prems(1) by (auto simp: in_set_conv_nth)
  have rk: "sc_rank m ! x = int k" using r k by (simp add: ranks_ok_def)
  have uniq: "sc_live m ! k' = x \<longleftrightarrow> k' = k" if "k' < length (sc_live m)" for k'
    using r k that by (simp add: ranks_ok_def nth_eq_iff_index_eq)
  have mg: "mergeable ?L i k \<longleftrightarrow> i < k \<and> mergePair (sc_boxes m ! (sc_live m ! i)) (sc_boxes m ! x) \<noteq> None"
    using k i by (simp add: mergeable_def sc_result_nth)
  have step: "?f x best = (if mergeable ?L i k \<and> (\<forall>b0. best = Some b0 \<longrightarrow> k < b0) then Some k else best)"
    unfolding mg by (cases best) (auto simp: better_partner_def Let_def rk)
  have only: "sc_live m ! k' = x \<Longrightarrow> mergeable ?L i k' \<Longrightarrow> k' = k" for k' using uniq by (simp add: mergeable_def)
  have split: "(\<forall>k'. sc_live m ! k' \<in> set (x # xs) \<longrightarrow> mergeable ?L i k' \<longrightarrow> Q k') \<longleftrightarrow>
      (mergeable ?L i k \<longrightarrow> Q k) \<and> (\<forall>k'. sc_live m ! k' \<in> set xs \<longrightarrow> mergeable ?L i k' \<longrightarrow> Q k')" for Q
    using only k(2) by auto
  have split': "(\<forall>k'. sc_live m ! k' \<in> set (x # xs) \<longrightarrow> \<not> mergeable ?L i k') \<longleftrightarrow>
      \<not> mergeable ?L i k \<and> (\<forall>k'. sc_live m ! k' \<in> set xs \<longrightarrow> \<not> mergeable ?L i k')"
    using split [of "\<lambda>_. False"] by simp
  show ?case
  proof (cases "mergeable ?L i k \<and> (\<forall>b0. best = Some b0 \<longrightarrow> k < b0)")
    case True
    then have s: "?f x best = Some k" using step by simp
    have "case fold ?f xs (Some k) of
      None \<Rightarrow> Some k = None \<and> (\<forall>k. sc_live m ! k \<in> set xs \<longrightarrow> \<not> mergeable ?L i k)
    | Some c \<Rightarrow> mergeable ?L i c \<and> (\<forall>k. sc_live m ! k \<in> set xs \<longrightarrow> mergeable ?L i k \<longrightarrow> c \<le> k) \<and>
        (\<forall>b0. Some k = Some b0 \<longrightarrow> c \<le> b0)"
      by (rule Cons.IH) (use Cons.prems(1) True in auto)
    then show ?thesis
      unfolding fold_Cons comp_apply s split split' using True by (auto split: option.splits)
  next
    case False
    then have s: "?f x best = best" unfolding step by (rule if_not_P)
    have "case fold ?f xs best of
      None \<Rightarrow> best = None \<and> (\<forall>k. sc_live m ! k \<in> set xs \<longrightarrow> \<not> mergeable ?L i k)
    | Some c \<Rightarrow> mergeable ?L i c \<and> (\<forall>k. sc_live m ! k \<in> set xs \<longrightarrow> mergeable ?L i k \<longrightarrow> c \<le> k) \<and>
        (\<forall>b0. best = Some b0 \<longrightarrow> c \<le> b0)"
      by (rule Cons.IH) (use Cons.prems in auto)
    then show ?thesis
      unfolding fold_Cons comp_apply s split split' using False by (auto split: option.splits)
  qed
qed (auto split: option.splits)

lemma earliestPartner_spec:
  assumes ok: "scanner_ok bits n m" "all_good n (sc_result m)" and i: "i < length (sc_live m)"
  shows "case earliestPartner bits m i (sc_live m ! i) of
      None \<Rightarrow> \<forall>k. \<not> mergeable (sc_result m) i k
    | Some c \<Rightarrow> mergeable (sc_result m) i c \<and> (\<forall>k. mergeable (sc_result m) i k \<longrightarrow> c \<le> k)"
proof -
  let ?xs = "concat (map (\<lambda>d. sc_buckets m (crossSectionKey bits (sc_boxes m ! (sc_live m ! i)) d)) [0..<sc_dims m])"
  have o: "ranks_ok m" "buckets_ok bits m" "sc_dims m = n" using ok(1) by (simp_all add: scanner_ok_def)
  have sub: "set ?xs \<subseteq> set (sc_live m)" using mem_bucket [OF o(2)] by auto
  have all: "sc_live m ! k \<in> set ?xs" if "mergeable (sc_result m) i k" for k
  proof -
    have k: "k < length (sc_live m)" "mergePair (sc_boxes m ! (sc_live m ! i)) (sc_boxes m ! (sc_live m ! k)) \<noteq> None"
      using that i by (simp_all add: mergeable_def sc_result_nth cong: conj_cong)
    have "good_box n (sc_boxes m ! (sc_live m ! i))"
      using ok(2) i by (simp add: all_good_def sc_result_def)
    with k(2) obtain d where "d < n" "crossSectionKey bits (sc_boxes m ! (sc_live m ! i)) d = crossSectionKey bits (sc_boxes m ! (sc_live m ! k)) d"
      using mergePair_key good_boxD(2) by metis
    with k(1) show ?thesis using o by (auto simp: mem_bucket [OF o(2)] intro!: bexI [of _ d])
  qed
  show ?thesis
    unfolding earliestPartner_concat
    using fold_better_partner [OF o(1) i sub, of None] all by (auto split: option.splits)
qed

text \<open>The pair found is the first in lexicographic order of positions; none is found when there is none.\<close>

lemma firstMergeablePair_spec:
  assumes ok: "scanner_ok bits n m" "all_good n (sc_result m)"
  shows "case firstMergeablePair bits m of
      None \<Rightarrow> \<forall>i j. \<not> mergeable (sc_result m) i j
    | Some (a, b) \<Rightarrow> \<exists>i j. a = sc_live m ! i \<and> b = sc_live m ! j \<and> mergeable (sc_result m) i j \<and>
        (\<forall>i' j'. mergeable (sc_result m) i' j' \<longrightarrow> i < i' \<or> i = i' \<and> j \<le> j')"
proof -
  have "case firstPair_from bits m [k..<length (sc_live m)] of
      None \<Rightarrow> \<forall>i j. k \<le> i \<longrightarrow> \<not> mergeable (sc_result m) i j
    | Some (a, b) \<Rightarrow> \<exists>i j. a = sc_live m ! i \<and> b = sc_live m ! j \<and> mergeable (sc_result m) i j \<and>
        (\<forall>i' j'. k \<le> i' \<longrightarrow> mergeable (sc_result m) i' j' \<longrightarrow> i < i' \<or> i = i' \<and> j \<le> j')"
    if "k \<le> length (sc_live m)" for k
    using that
  proof (induction rule: inc_induct)
    case (step k)
    have e: "[k..<length (sc_live m)] = k # [Suc k..<length (sc_live m)]" using step by (simp add: upt_conv_Cons)
    have le: "k \<le> i \<longleftrightarrow> i = k \<or> Suc k \<le> i" for i by auto
    show ?case
    proof (cases "earliestPartner bits m k (sc_live m ! k)")
      case None
      then have "\<forall>j. \<not> mergeable (sc_result m) k j" using earliestPartner_spec [OF ok step.hyps(2)] by simp
      with step.IH None show ?thesis unfolding e firstPair_from.simps le by (auto split: option.splits)
    next
      case (Some j)
      then have "mergeable (sc_result m) k j" "\<forall>j'. mergeable (sc_result m) k j' \<longrightarrow> j \<le> j'"
        using earliestPartner_spec [OF ok step.hyps(2)] by simp_all
      then have "\<forall>i' j'. k \<le> i' \<longrightarrow> mergeable (sc_result m) i' j' \<longrightarrow> k < i' \<or> k = i' \<and> j \<le> j'"
        by (auto simp: le)
      with Some \<open>mergeable (sc_result m) k j\<close> show ?thesis unfolding e firstPair_from.simps by auto
    qed
  qed (auto simp: mergeable_def)
  from this [of 0] show ?thesis by (simp add: firstMergeablePair_def split: option.splits prod.splits)
qed

subsection \<open>Editing the cover\<close>

lemma rerank_fields [simp]:
  "sc_boxes (rerank pos m) = sc_boxes m" "sc_live (rerank pos m) = sc_live m"
  "sc_buckets (rerank pos m) = sc_buckets m" "sc_dims (rerank pos m) = sc_dims m"
  by (simp_all add: rerank_def)

lemma length_rerank [simp]: "length (sc_rank (rerank pos m)) = length (sc_rank m)"
proof -
  have "length (fold (\<lambda>k r. r[sc_live m ! k := int k]) ks r) = length r" for ks r
    by (induction ks arbitrary: r) simp_all
  then show ?thesis by (simp add: rerank_def)
qed

text \<open>After reranking from \<open>pos\<close> every live id has its position, if those before \<open>pos\<close> had.\<close>

lemma rerank_rank:
  assumes "distinct (sc_live m)" "\<forall>i\<in>set (sc_live m). i < length (sc_rank m)"
    and "\<And>k. k < pos \<Longrightarrow> k < length (sc_live m) \<Longrightarrow> sc_rank m ! (sc_live m ! k) = int k" and "k < length (sc_live m)"
  shows "sc_rank (rerank pos m) ! (sc_live m ! k) = int k"
proof -
  have "fold (\<lambda>k r. r[sc_live m ! k := int k]) ks r ! (sc_live m ! k) = (if k \<in> set ks then int k else r ! (sc_live m ! k))"
    if "set ks \<subseteq> {..<length (sc_live m)}" "length r = length (sc_rank m)" for ks and r :: "int list"
    using that
  proof (induction ks arbitrary: r)
    case (Cons c ks)
    have c: "c < length (sc_live m)" using Cons.prems(1) by auto
    have "sc_live m ! c < length (sc_rank m)" using assms(2) c by simp
    moreover have "sc_live m ! c = sc_live m ! k \<longleftrightarrow> c = k" using assms(1,4) c by (simp add: nth_eq_iff_index_eq)
    ultimately show ?case using Cons by (auto simp: nth_list_update)
  qed simp
  moreover have "set [pos..<length (sc_live m)] \<subseteq> {..<length (sc_live m)}" by auto
  ultimately show ?thesis using assms(3,4)
    by (cases "k < pos") (auto simp: rerank_def)
qed

lemma nth_delete:
  "pos < length xs \<Longrightarrow> k < length xs - 1 \<Longrightarrow> (take pos xs @ drop (Suc pos) xs) ! k = (if k < pos then xs ! k else xs ! Suc k)"
  by (auto simp: nth_append min_def)

lemma set_delete:
  assumes "distinct xs" "pos < length xs"
  shows "set (take pos xs @ drop (Suc pos) xs) = set xs - {xs ! pos}"
proof -
  have "xs = take pos xs @ xs ! pos # drop (Suc pos) xs" using assms(2) by (rule id_take_nth_drop)
  then have "distinct (take pos xs @ xs ! pos # drop (Suc pos) xs)" "set xs = set (take pos xs @ xs ! pos # drop (Suc pos) xs)"
    using assms(1) by simp_all
  then show ?thesis by auto
qed

lemma removeAt_spec:
  assumes ok: "scanner_ok bits n m" and pos: "pos < length (sc_live m)"
  shows "scanner_ok bits n (sc_removeAt bits pos m)"
    and "sc_live (sc_removeAt bits pos m) = take pos (sc_live m) @ drop (Suc pos) (sc_live m)"
    and "sc_result (sc_removeAt bits pos m) = take pos (sc_result m) @ drop (Suc pos) (sc_result m)"
    and "j \<noteq> sc_live m ! pos \<Longrightarrow> sc_boxes (sc_removeAt bits pos m) ! j = sc_boxes m ! j"
proof -
  let ?i = "sc_live m ! pos" and ?l = "take pos (sc_live m) @ drop (Suc pos) (sc_live m)"
  let ?m1 = "rerank pos (m\<lparr>sc_live := ?l\<rparr>)"
  let ?m2 = "?m1\<lparr>sc_rank := (sc_rank ?m1)[?i := -1]\<rparr>"
  let ?m3 = "sc_unindex bits ?i ?m2"
  have o: "distinct (sc_live m)" "\<forall>i\<in>set (sc_live m). i < length (sc_boxes m)" "length (sc_rank m) = length (sc_boxes m)"
    "\<And>k. k < length (sc_live m) \<Longrightarrow> sc_rank m ! (sc_live m ! k) = int k" "buckets_ok bits m" "sc_dims m = n"
    using ok by (simp_all add: scanner_ok_def ranks_ok_def)
  have r: "sc_removeAt bits pos m = ?m3\<lparr>sc_boxes := (sc_boxes m)[?i := zero_box]\<rparr>"
    by (simp add: sc_removeAt_def Let_def)
  have l: "set ?l = set (sc_live m) - {?i}" "distinct ?l" "?i \<notin> set ?l"
    using set_delete [OF o(1) pos] o(1) by (auto simp: set_take_disj_set_drop_if_distinct)
  show live: "sc_live (sc_removeAt bits pos m) = ?l" by (simp add: r)
  show other: "sc_boxes (sc_removeAt bits pos m) ! j = sc_boxes m ! j" if "j \<noteq> ?i" for j
    using that by (simp add: r)
  have ranks: "sc_rank ?m1 ! (?l ! k) = int k" if "k < length ?l" for k
    using rerank_rank [of "m\<lparr>sc_live := ?l\<rparr>" pos k] l o(2,3,4) that pos by (auto simp: nth_append)
  have "ranks_ok (sc_removeAt bits pos m)"
    unfolding ranks_ok_def live
  proof (intro conjI allI impI ballI)
    show "distinct ?l" by (rule l(2))
    show "i < length (sc_boxes (sc_removeAt bits pos m))" if "i \<in> set ?l" for i
    proof -
      have "i \<in> set (sc_live m)" using that unfolding l(1) by blast
      with o(2) show ?thesis by (simp add: r)
    qed
    show "length (sc_rank (sc_removeAt bits pos m)) = length (sc_boxes (sc_removeAt bits pos m))"
      by (simp add: r o(3))
    fix k assume k: "k < length ?l"
    then have "?l ! k \<noteq> ?i" using l(3) by (metis nth_mem)
    then show "sc_rank (sc_removeAt bits pos m) ! (?l ! k) = int k"
      using ranks [OF k] by (simp add: r)
  qed
  moreover have "buckets_ok bits (sc_removeAt bits pos m)"
    unfolding buckets_ok_def live l(1)
  proof (intro allI)
    fix k j
    have "count_list (sc_buckets m k) j = (if j \<in> set (sc_live m) then key_count bits (sc_boxes m ! j) [0..<sc_dims m] k else 0)"
      using o(5) by (simp add: buckets_ok_def)
    moreover have "?i \<in> set (sc_live m)" using pos by simp
    ultimately show "count_list (sc_buckets (sc_removeAt bits pos m) k) j =
        (if j \<in> set (sc_live m) - {?i} then key_count bits (sc_boxes (sc_removeAt bits pos m) ! j) [0..<sc_dims (sc_removeAt bits pos m)] k else 0)"
      using other [of j] by (cases "j = ?i") (simp_all add: r sc_unindex_count)
  qed
  ultimately show "scanner_ok bits n (sc_removeAt bits pos m)" by (simp add: scanner_ok_def r o(6))
  have "sc_result (sc_removeAt bits pos m) = map (\<lambda>i. sc_boxes m ! i) ?l"
    unfolding sc_result_def live
  proof (intro map_cong refl)
    fix x assume "x \<in> set ?l"
    then have "x \<noteq> ?i" using l(3) by blast
    then show "sc_boxes (sc_removeAt bits pos m) ! x = sc_boxes m ! x" by (rule other)
  qed
  then show "sc_result (sc_removeAt bits pos m) = take pos (sc_result m) @ drop (Suc pos) (sc_result m)"
    by (simp add: sc_result_def take_map drop_map)
qed

lemma insertInOrder_spec:
  assumes ok: "scanner_ok bits n m"
  shows "scanner_ok bits n (insertInOrder bits b m)"
    and "sc_result (insertInOrder bits b m) = insertSortedBox (sc_result m) b"
proof -
  let ?pos = "sort_Search (length (sc_live m)) (\<lambda>k. \<not> box_Less (sc_boxes m ! (sc_live m ! k)) b)"
  let ?i = "length (sc_boxes m)" and ?l = "take ?pos (sc_live m) @ length (sc_boxes m) # drop ?pos (sc_live m)"
  let ?m1 = "m\<lparr>sc_boxes := sc_boxes m @ [b], sc_rank := sc_rank m @ [int ?pos], sc_live := ?l\<rparr>"
  have o: "distinct (sc_live m)" "\<forall>i\<in>set (sc_live m). i < length (sc_boxes m)" "length (sc_rank m) = length (sc_boxes m)"
    "\<And>k. k < length (sc_live m) \<Longrightarrow> sc_rank m ! (sc_live m ! k) = int k" "buckets_ok bits m" "sc_dims m = n"
    using ok by (simp_all add: scanner_ok_def ranks_ok_def)
  have pos: "?pos \<le> length (sc_live m)" by (rule sort_Search_le)
  have r: "insertInOrder bits b m = sc_index bits ?i (rerank ?pos ?m1)"
    by (simp add: insertInOrder_def Let_def)
  have l: "set ?l = insert ?i (set (sc_live m))" "distinct ?l"
  proof -
    have "?i \<notin> set (sc_live m)" using o(2) by blast
    moreover have "set (take ?pos (sc_live m)) \<union> set (drop ?pos (sc_live m)) = set (sc_live m)"
      by (metis append_take_drop_id set_append)
    ultimately show "set ?l = insert ?i (set (sc_live m))" "distinct ?l"
      using o(1) by (auto simp: set_take_disj_set_drop_if_distinct dest: in_set_takeD in_set_dropD)
  qed
  have live: "sc_live (insertInOrder bits b m) = ?l" and boxes: "sc_boxes (insertInOrder bits b m) = sc_boxes m @ [b]"
    by (simp_all add: r)
  have ranks: "sc_rank (insertInOrder bits b m) ! (?l ! k) = int k" if k: "k < length ?l" for k
  proof -
    have "sc_rank ?m1 ! (sc_live ?m1 ! h) = int h" if "h < ?pos" "h < length (sc_live ?m1)" for h
    proof -
      have "h < length (sc_live m)" using that(1) pos by simp
      moreover have "sc_live m ! h < length (sc_rank m)" using o(2,3) calculation by simp
      ultimately show ?thesis using that o(4) by (simp add: nth_append)
    qed
    from rerank_rank [of ?m1 ?pos k, OF _ _ this] l o(2,3) k show ?thesis by (fastforce simp: r)
  qed
  have "ranks_ok (insertInOrder bits b m)"
    unfolding ranks_ok_def live boxes l(1) using l(2) o(2,3) ranks by (auto simp: r)
  moreover have "buckets_ok bits (insertInOrder bits b m)"
    unfolding buckets_ok_def live boxes l(1)
  proof (intro allI)
    fix k j
    have c: "count_list (sc_buckets m k) j = (if j \<in> set (sc_live m) then key_count bits (sc_boxes m ! j) [0..<sc_dims m] k else 0)"
      using o(5) by (simp add: buckets_ok_def)
    have "?i \<notin> set (sc_live m)" "j \<in> set (sc_live m) \<Longrightarrow> (sc_boxes m @ [b]) ! j = sc_boxes m ! j"
      using o(2) by (auto simp: nth_append)
    then show "count_list (sc_buckets (insertInOrder bits b m) k) j =
        (if j \<in> insert ?i (set (sc_live m)) then key_count bits ((sc_boxes m @ [b]) ! j) [0..<sc_dims (insertInOrder bits b m)] k else 0)"
      using c by (auto simp: r sc_index_count)
  qed
  ultimately show "scanner_ok bits n (insertInOrder bits b m)" by (simp add: scanner_ok_def r o(6))
  have eq: "?pos = sort_Search (length (sc_result m)) (\<lambda>k. \<not> box_Less (sc_result m ! k) b)"
    by (rule sort_Search_cong [THEN trans]) (simp_all add: sc_result_nth)
  have "map (\<lambda>i. (sc_boxes m @ [b]) ! i) xs = map (\<lambda>i. sc_boxes m ! i) xs" if "set xs \<subseteq> set (sc_live m)" for xs
    using that o(2) by (auto simp: nth_append)
  from this [of "take ?pos (sc_live m)"] this [of "drop ?pos (sc_live m)"]
  have "sc_result (insertInOrder bits b m) = take ?pos (sc_result m) @ b # drop ?pos (sc_result m)"
    unfolding sc_result_def live boxes by (simp add: set_take_subset set_drop_subset take_map drop_map)
  then show "sc_result (insertInOrder bits b m) = insertSortedBox (sc_result m) b"
    by (simp add: insertSortedBox_def Let_def eq)
qed

text \<open>Folding away the covered boxes, from the highest position down.\<close>

definition absorb_step :: "(float64 \<Rightarrow> word64) \<Rightarrow> nat \<Rightarrow> box \<times> scanner \<Rightarrow> box \<times> scanner" where
  "absorb_step bits k = (\<lambda>(merged, m).
     if \<not> subsumes merged (sc_boxes m ! (sc_live m ! k)) then (merged, m)
     else (merged\<lparr>Meta := meta_Union (Meta merged) (Meta (sc_boxes m ! (sc_live m ! k)))\<rparr>, sc_removeAt bits k m))"

lemma sc_insert_alt:
  "sc_insert bits merged m = (case fold (absorb_step bits) (rev [0..<length (sc_live m)]) (merged, m) of
     (merged, m) \<Rightarrow> insertInOrder bits merged m)"
  by (simp add: sc_insert_def absorb_step_def [abs_def] Let_def)

lemma filter_delete:
  assumes "pos < length xs" "\<not> P (xs ! pos)"
  shows "filter P (take pos xs @ drop (Suc pos) xs) = filter P xs"
proof -
  have "filter P xs = filter P (take pos xs @ xs ! pos # drop (Suc pos) xs)"
    using id_take_nth_drop [OF assms(1)] by simp
  with assms(2) show ?thesis by simp
qed

lemma absorb_steps:
  assumes "scanner_ok bits n m" "k \<le> length (sc_live m)"
  shows "case fold (absorb_step bits) (rev [0..<k]) (merged, m) of (merged', m') \<Rightarrow>
     strip merged' = strip merged \<and> scanner_ok bits n m' \<and>
     sc_result m' = filter (\<lambda>b. \<not> subsumes merged b) (take k (sc_result m)) @ drop k (sc_result m)"
  using assms
proof (induction k arbitrary: m merged)
  case (Suc k)
  let ?L = "sc_result m" and ?F = "filter (\<lambda>b. \<not> subsumes merged b)"
  have k: "k < length (sc_live m)" and nth: "sc_boxes m ! (sc_live m ! k) = ?L ! k"
    using Suc.prems(2) by (simp_all add: sc_result_nth)
  have tk: "take (Suc k) ?L = take k ?L @ [?L ! k]" using k by (simp add: take_Suc_conv_app_nth)
  show ?case
  proof (cases "subsumes merged (?L ! k)")
    case False
    then have "absorb_step bits k (merged, m) = (merged, m)" by (simp add: absorb_step_def nth)
    moreover have "?F (take (Suc k) ?L) @ drop (Suc k) ?L = ?F (take k ?L) @ drop k ?L"
      using False k by (simp add: tk Cons_nth_drop_Suc)
    ultimately show ?thesis using Suc.IH [OF Suc.prems(1), of merged] k by simp
  next
    case True
    let ?u = "merged\<lparr>Meta := meta_Union (Meta merged) (Meta (?L ! k))\<rparr>" and ?m = "sc_removeAt bits k m"
    have s: "absorb_step bits k (merged, m) = (?u, ?m)" using True by (simp add: absorb_step_def nth)
    note r = removeAt_spec [OF Suc.prems(1) k]
    have "k \<le> length (sc_live ?m)" using r(2) k by simp
    from Suc.IH [OF r(1) this, of ?u] have "case fold (absorb_step bits) (rev [0..<k]) (?u, ?m) of (merged', m') \<Rightarrow>
        strip merged' = strip merged \<and> scanner_ok bits n m' \<and> sc_result m' = ?F (take k ?L) @ drop (Suc k) ?L"
      using k r(3) by (simp add: min_def)
    then show ?thesis using True s by (simp add: tk)
  qed
qed simp

lemma sc_insert_spec:
  assumes ok: "scanner_ok bits n m"
  obtains merged' where "strip merged' = strip merged" "scanner_ok bits n (sc_insert bits merged m)"
    "sc_result (sc_insert bits merged m) = insertSortedBox (filter (\<lambda>b. \<not> subsumes merged b) (sc_result m)) merged'"
proof -
  obtain u m' where u: "fold (absorb_step bits) (rev [0..<length (sc_live m)]) (merged, m) = (u, m')" by force
  from absorb_steps [OF ok order_refl, of merged]
  have a: "strip u = strip merged" "scanner_ok bits n m'" "sc_result m' = filter (\<lambda>b. \<not> subsumes merged b) (sc_result m)"
    by (simp_all add: u)
  from insertInOrder_spec [OF a(2), of u] a that show ?thesis by (simp add: sc_insert_alt u)
qed

subsection \<open>One merge\<close>

lemma remove_spec:
  assumes ok: "scanner_ok bits n m" and k: "k < length (sc_live m)"
  shows "sc_remove bits (sc_live m ! k) m = sc_removeAt bits k m"
  using ok k by (simp add: sc_remove_def scanner_ok_def ranks_ok_def)

lemma remove_pair:
  assumes ok: "scanner_ok bits n m" and ij: "i < j" "j < length (sc_live m)"
    and u: "subsumes u (sc_result m ! i)" "subsumes u (sc_result m ! j)"
  defines "m2 \<equiv> sc_remove bits (sc_live m ! j) (sc_remove bits (sc_live m ! i) m)"
  shows "scanner_ok bits n m2"
    "filter (\<lambda>b. \<not> subsumes u b) (sc_result m2) = filter (\<lambda>b. \<not> subsumes u b) (sc_result m)"
    "length (sc_result m) = length (sc_result m2) + 2"
proof -
  have i: "i < length (sc_live m)" using ij by simp
  let ?m1 = "sc_removeAt bits i m"
  note r1 = removeAt_spec [OF ok i]
  have j1: "sc_live ?m1 ! (j - 1) = sc_live m ! j" "j - 1 < length (sc_live ?m1)"
    using ij nth_delete [OF i, of "j - 1"] by (auto simp: r1(2) Suc_diff_le)
  have m2: "m2 = sc_removeAt bits (j - 1) ?m1"
    unfolding m2_def remove_spec [OF ok i] by (rule remove_spec [OF r1(1) j1(2), unfolded j1(1)])
  note r2 = removeAt_spec [OF r1(1) j1(2)]
  show "scanner_ok bits n m2" using r2(1) by (simp add: m2)
  have nth: "sc_result ?m1 ! (j - 1) = sc_result m ! j"
    using ij nth_delete [of i "sc_result m" "j - 1"] by (simp add: r1(3))
  have "filter (\<lambda>b. \<not> subsumes u b) (sc_result m2) = filter (\<lambda>b. \<not> subsumes u b) (sc_result ?m1)"
    unfolding m2 r2(3) by (rule filter_delete) (use j1(2) nth u(2) in simp_all)
  also have "\<dots> = filter (\<lambda>b. \<not> subsumes u b) (sc_result m)"
    unfolding r1(3) by (rule filter_delete) (use i u(1) in simp_all)
  finally show "filter (\<lambda>b. \<not> subsumes u b) (sc_result m2) = filter (\<lambda>b. \<not> subsumes u b) (sc_result m)" .
  have "length (sc_live m2) = length (sc_live ?m1) - 1" unfolding m2 r2(2) using j1(2) by simp
  moreover have "length (sc_live ?m1) = length (sc_live m) - 1" unfolding r1(2) using i by simp
  ultimately show "length (sc_result m) = length (sc_result m2) + 2" using ij by simp
qed

text \<open>On the list of live boxes, a merge is an insertion of the union, up to metadata.\<close>

lemma insertSortedBox_strip:
  assumes "strip u' = strip u"
  shows "map strip (insertSortedBox bs u') = map strip (insertSortedBox bs u)"
proof -
  have "box_Less b u' = box_Less b u" for b
  proof -
    have "box_Less b (strip u') = box_Less b (strip u)" by (simp only: assms)
    then show ?thesis by simp
  qed
  then have "sort_Search (length bs) (\<lambda>i. \<not> box_Less (bs ! i) u') = sort_Search (length bs) (\<lambda>i. \<not> box_Less (bs ! i) u)"
    by (intro sort_Search_cong) simp
  then show ?thesis by (simp add: insertSortedBox_def Let_def assms)
qed

lemma box_canonical_strip:
  assumes "map strip xs = map strip ys"
  shows "box_canonical n xs = box_canonical n ys"
proof -
  have "sorted_wrt (\<lambda>a b. \<not> box_Less b a) xs = sorted_wrt (\<lambda>a b. \<not> box_Less b a) ys"
    by (rule map_strip_sorted [OF assms]) simp
  then show ?thesis
    unfolding box_canonical_def all_good_strip [OF assms] antichain_strip [OF assms] by (rule arg_cong)
qed

lemma antichain_nth:
  assumes "antichain bs" "i < length bs" "j < length bs" "i \<noteq> j"
  shows "\<not> subsumes (bs ! i) (bs ! j)"
  using assms by (cases "i < j") (auto simp: antichain_def sorted_wrt_iff_nth_less)

lemma merge_insert:
  assumes c: "box_canonical n L" and mg: "i < j" "j < length L" "mergePair (L ! i) (L ! j) = Some u"
  shows "box_ok n u" "subsumes u (L ! i)" "subsumes u (L ! j)" "bcover (InsertNormalized L u) = bcover L"
    "InsertNormalized L u = insertSortedBox (filter (\<lambda>b. \<not> subsumes u b) L) u"
proof -
  have g: "\<And>b. b \<in> set L \<Longrightarrow> good_box n b" and ac: "antichain L" using c by (simp_all add: box_canonical_def all_good_def)
  have gi: "good_box n (L ! i)" and gj: "good_box n (L ! j)" and iL: "i < length L" using g mg(1,2) by simp_all
  note u = mergePair_spec [OF gi gj mg(3)]
  show ok: "box_ok n u" using u(1) by (simp add: good_box_def)
  show si: "subsumes u (L ! i)" unfolding subsumes_iff_bspan [OF gi u(1)] u(2) by (rule Un_upper1)
  show "subsumes u (L ! j)" unfolding subsumes_iff_bspan [OF gj u(1)] u(2) by (rule Un_upper2)
  have no: "\<not> subsumes b u" if "b \<in> set L" "\<not> subsumes u b" for b
  proof
    assume "subsumes b u"
    then have "subsumes b (L ! i)"
      using subsumes_iff_bspan [OF u(1) g [OF that(1)]] subsumes_iff_bspan [OF gi g [OF that(1)]] u(2) by blast
    moreover obtain k where "k < length L" "b = L ! k" using \<open>b \<in> set L\<close> by (auto simp: in_set_conv_nth)
    ultimately have "b = L ! i" using antichain_nth [OF ac _ iL] by blast
    with si that(2) show False by simp
  qed
  then have "\<not> (\<exists>b\<in>set L. \<not> subsumes u b \<and> subsumes b u)" by blast
  then have "\<not> list_ex (\<lambda>b. \<not> subsumes u b \<and> subsumes b u) L" unfolding list_ex_iff .
  then show "InsertNormalized L u = insertSortedBox (filter (\<lambda>b. \<not> subsumes u b) L) u"
    using u(1) unfolding InsertNormalized_def Let_def good_box_def by (simp only: if_False simp_thms)
  have "set (InsertNormalized L u) = insert u {b \<in> set L. \<not> subsumes u b}"
    using no u(1) unfolding InsertNormalized_spec(2) [OF c ok] geo_insert_def good_box_def by auto
  moreover have "bspan b \<subseteq> bspan u" if "b \<in> set L" "subsumes u b" for b
    using subsumes_iff_bspan [OF g [OF that(1)] u(1)] that(2) by blast
  moreover have "bspan u \<subseteq> bcover L"
    using u(2) nth_mem [OF iL] nth_mem [OF mg(2)] by (auto simp: bcover_def)
  ultimately show "bcover (InsertNormalized L u) = bcover L" unfolding bcover_def by auto
qed

lemma sc_merge_spec:
  assumes ok: "scanner_ok bits n m" and c: "box_canonical n (sc_result m)" and mg: "mergeable (sc_result m) i j"
  defines "m' \<equiv> sc_merge bits (sc_live m ! i) (sc_live m ! j) m"
  shows "scanner_ok bits n m'" "box_canonical n (sc_result m')" "bcover (sc_result m') = bcover (sc_result m)"
    "length (sc_live m') < length (sc_live m)"
    "mergePair (sc_result m ! i) (sc_result m ! j) = Some u \<Longrightarrow> map strip (sc_result m') = map strip (InsertNormalized (sc_result m) u)"
proof -
  let ?L = "sc_result m"
  obtain u where u: "mergePair (?L ! i) (?L ! j) = Some u" using mg by (auto simp: mergeable_def)
  have ij: "i < j" "j < length (sc_live m)" "j < length ?L" using mg by (simp_all add: mergeable_def)
  note im = merge_insert [OF c ij(1,3) u]
  let ?m2 = "sc_remove bits (sc_live m ! j) (sc_remove bits (sc_live m ! i) m)"
  note r = remove_pair [OF ok ij(1,2) im(2,3)]
  have m': "m' = sc_insert bits u ?m2"
    using u ij by (simp add: m'_def sc_merge_def sc_result_nth)
  obtain u' where u': "strip u' = strip u" "scanner_ok bits n m'"
    "sc_result m' = insertSortedBox (filter (\<lambda>b. \<not> subsumes u b) ?L) u'"
    using sc_insert_spec [OF r(1), of u] unfolding m' r(2) by metis
  have st: "map strip (sc_result m') = map strip (InsertNormalized ?L u)"
    unfolding u'(3) im(5) by (rule insertSortedBox_strip [OF u'(1)])
  show "scanner_ok bits n m'" by (rule u'(2))
  show "box_canonical n (sc_result m')"
    using box_canonical_strip [OF st] InsertNormalized_spec(1) [OF c im(1)] by simp
  show "map strip (sc_result m') = map strip (InsertNormalized ?L v)" if "mergePair (?L ! i) (?L ! j) = Some v" for v
    using st u that by simp
  show "bcover (sc_result m') = bcover ?L" using map_strip_bcover [OF st] im(4) by simp
  have "length (filter (\<lambda>b. \<not> subsumes u b) (sc_result ?m2)) \<le> length (sc_result ?m2)" by (rule length_filter_le)
  then have "length (filter (\<lambda>b. \<not> subsumes u b) ?L) + 2 \<le> length ?L" using r(2,3) by simp
  moreover have "length (insertSortedBox bs b) = Suc (length bs)" for bs b
    by (simp add: insertSortedBox_def Let_def)
  ultimately show "length (sc_live m') < length (sc_live m)"
    using u'(3) length_sc_result [of m'] length_sc_result [of m] by simp
qed

subsection \<open>The greedy merge, and the fixpoint\<close>

text \<open>
  What the index stands for: take the first pair, in the order of two nested loops, that can be merged, and insert
  its union into the cover. Each round shortens the cover, so its length is enough fuel.
\<close>

definition first_pair :: "box list \<Rightarrow> (nat \<times> nat) option" where
  "first_pair L = find (\<lambda>(i, j). mergePair (L ! i) (L ! j) \<noteq> None) (pairs_below (length L))"

fun greedy :: "nat \<Rightarrow> box list \<Rightarrow> box list" where
  "greedy 0 L = L"
| "greedy (Suc k) L =
     (case first_pair L of
        None \<Rightarrow> L
      | Some (i, j) \<Rightarrow> greedy k (case mergePair (L ! i) (L ! j) of None \<Rightarrow> L | Some u \<Rightarrow> InsertNormalized L u))"

lemma mergePair_Meta: "mergePair a b = Some u \<Longrightarrow> strip u = u"
  by (auto simp: mergePair_def strip_def Let_def split: if_splits option.splits prod.splits)

lemma mergePair_strip [simp]: "mergePair (strip a) (strip b) = mergePair a b"
proof -
  have "singleDiffAxis_from (strip a) (strip b) ds diff = singleDiffAxis_from a b ds diff" for ds diff
    by (induction ds arbitrary: diff) (simp_all add: strip_def loBound_def hiBound_def cong: if_cong)
  then have ax: "singleDiffAxis (strip a) (strip b) = singleDiffAxis a b"
    by (simp add: singleDiffAxis_def strip_def)
  have f: "BMin (strip c) = BMin c" "BMax (strip c) = BMax c" "MinBound (strip c) = MinBound c" "MaxBound (strip c) = MaxBound c"
    "loBound (strip c) = loBound c" "hiBound (strip c) = hiBound c" for c
    by (simp_all add: strip_def loBound_def hiBound_def fun_eq_iff)
  show ?thesis
  proof (cases "singleDiffAxis a b")
    case (Some d)
    then show ?thesis by (cases "f_eq (BMax b ! d) (BMin a ! d)") (simp_all add: mergePair_def ax f cong: if_cong)
  qed (simp add: mergePair_def ax f)
qed

lemma first_pair_mergeable:
  assumes "mergeable L i j" "\<And>i' j'. mergeable L i' j' \<Longrightarrow> i < i' \<or> i = i' \<and> j \<le> j'"
  shows "first_pair L = Some (i, j)"
  unfolding first_pair_def
proof (rule find_first [OF pairs_below_sorted])
  show "(i, j) \<in> set (pairs_below (length L))" "case (i, j) of (i, j) \<Rightarrow> mergePair (L ! i) (L ! j) \<noteq> None"
    using assms(1) by (auto simp: mergeable_def set_pairs_below)
  fix y assume "y \<in> set (pairs_below (length L))" "case y of (i, j) \<Rightarrow> mergePair (L ! i) (L ! j) \<noteq> None"
  then have "mergeable L (fst y) (snd y)" by (auto simp: mergeable_def set_pairs_below)
  from assms(2) [OF this] show "\<not> pair_before y (i, j)" by (auto simp: pair_before_def)
qed

lemma first_pair_None: "first_pair L = None \<longleftrightarrow> (\<forall>i j. \<not> mergeable L i j)"
  by (auto simp: first_pair_def find_None_iff mergeable_def set_pairs_below)

lemma mergeable_strip: "map strip L = map strip L' \<Longrightarrow> mergeable L i j = mergeable L' i j"
  unfolding mergeable_def by (metis (no_types, lifting) length_map mergePair_strip nth_map order_less_trans)

lemma first_pair_strip: "first_pair (map strip L) = first_pair L"
proof -
  have "i < length L \<and> j < length L" if "(i, j) \<in> set (pairs_below (length L))" for i j
    using that by (auto simp: set_pairs_below)
  then show ?thesis unfolding first_pair_def by (auto intro!: find_cong simp: nth_map)
qed

lemma InsertNormalized_strip: "map strip (InsertNormalized L u) = InsertNormalized (map strip L) (strip u)"
proof -
  have f: "map strip (filter (\<lambda>b. \<not> subsumes u b) zs) = filter (\<lambda>b. \<not> subsumes u b) (map strip zs)" for zs
    by (simp add: filter_map comp_def)
  have s: "insertSortedBox (map strip bs) (strip b) = map strip (insertSortedBox bs b)" for bs b
  proof -
    have "sort_Search (length bs) (\<lambda>i. \<not> box_Less (map strip bs ! i) (strip b)) = sort_Search (length bs) (\<lambda>i. \<not> box_Less (bs ! i) b)"
      by (intro sort_Search_cong) simp
    then show ?thesis by (simp add: insertSortedBox_def Let_def take_map drop_map)
  qed
  have e: "list_ex (\<lambda>b. \<not> subsumes u b \<and> subsumes b u) (map strip L) = list_ex (\<lambda>b. \<not> subsumes u b \<and> subsumes b u) L"
    by (simp add: list_ex_iff)
  show ?thesis
    by (simp add: InsertNormalized_def Let_def f s e del: list_ex_iff flip: f)
qed

lemma scan_loop_spec:
  assumes "scanner_ok bits n m" "box_canonical n (sc_result m)"
  shows "\<exists>out. scan_loop bits m = Some out \<and> box_canonical n out \<and> bcover out = bcover (sc_result m) \<and>
    (\<forall>i j. \<not> mergeable out i j) \<and>
    (\<forall>k\<ge>length (sc_live m). map strip out = greedy k (map strip (sc_result m)))"
  using assms
proof (induction "length (sc_live m)" arbitrary: m rule: less_induct)
  case less
  have good: "all_good n (sc_result m)" using less.prems(2) by (simp add: box_canonical_def)
  note first = firstMergeablePair_spec [OF less.prems(1) good]
  let ?L = "sc_result m"
  show ?case
  proof (cases "firstMergeablePair bits m")
    case None
    then have "first_pair (map strip ?L) = None" using first by (simp add: first_pair_strip first_pair_None)
    then have "greedy k (map strip ?L) = map strip ?L" for k by (cases k) simp_all
    then show ?thesis using None first less.prems by (simp add: scan_loop.simps)
  next
    case (Some ab)
    then obtain i j where ij: "ab = (sc_live m ! i, sc_live m ! j)" "mergeable ?L i j"
        "\<And>i' j'. mergeable ?L i' j' \<Longrightarrow> i < i' \<or> i = i' \<and> j \<le> j'"
      using first by (cases ab) auto
    note s = sc_merge_spec [OF less.prems ij(2)]
    let ?m = "sc_merge bits (sc_live m ! i) (sc_live m ! j) m"
    obtain u where u: "mergePair (?L ! i) (?L ! j) = Some u" "i < length ?L" "j < length ?L"
      using ij(2) by (auto simp: mergeable_def)
    have st: "map strip (sc_result ?m) = InsertNormalized (map strip ?L) u"
      using s(5) [OF u(1)] mergePair_Meta [OF u(1)] by (simp add: InsertNormalized_strip)
    have g: "greedy (Suc k) (map strip ?L) = greedy k (map strip (sc_result ?m))" for k
      using u first_pair_mergeable [OF ij(2,3)] by (simp add: first_pair_strip st)
    from less.hyps [OF s(4,1,2)] obtain out where out: "scan_loop bits ?m = Some out" "box_canonical n out"
        "bcover out = bcover (sc_result ?m)" "\<forall>i j. \<not> mergeable out i j"
        "\<And>k. length (sc_live ?m) \<le> k \<Longrightarrow> map strip out = greedy k (map strip (sc_result ?m))" by blast
    have "map strip out = greedy k (map strip ?L)" if "length (sc_live m) \<le> k" for k
      using that s(4) g out(5) [of "k - 1"] by (cases k) auto
    with out s(3) Some ij(1) show ?thesis by (subst scan_loop.simps) auto
  qed
qed

lemma scanMerge_spec:
  assumes "\<forall>b\<in>set boxes. box_ok n b"
  shows "\<exists>out. scanMerge bits boxes = Some out \<and> box_canonical n out \<and> bcover out = bcover boxes \<and>
    (\<forall>i j. \<not> mergeable out i j) \<and>
    map strip out = greedy (length (box_Normalize boxes)) (map strip (box_Normalize boxes))"
proof (cases "box_Normalize boxes = []")
  case True
  then have "box_canonical n []" "bcover [] = bcover boxes"
    using NormalizeMerged_spec(1) [OF assms, of meta_Union] NormalizeMerged_bcover [OF assms, of meta_Union]
    by (simp_all only: box_Normalize_def)
  with True show ?thesis by (simp add: scanMerge_def mergeable_def)
next
  case False
  have c: "box_canonical n (box_Normalize boxes)" "bcover (box_Normalize boxes) = bcover boxes"
    using NormalizeMerged_spec(1) [OF assms] NormalizeMerged_bcover [OF assms] by (simp_all add: box_Normalize_def)
  then have "\<forall>b\<in>set (box_Normalize boxes). good_box n b" by (simp add: box_canonical_def all_good_def)
  from newScanner_ok [OF this False, of bits] scan_loop_spec [of bits n "newScanner bits (box_Normalize boxes)"] c False
  show ?thesis by (auto simp: scanMerge_def Let_def simp flip: length_sc_result)
qed

end
