(* ===== verification/Cover_Grid.thy ===== *)
theory Cover_Grid
  imports Scan_Merge Paths
begin

section \<open>The cover grid (space/merge_index.go)\<close>

text \<open>
  A uniform grid over the bounding box of a cover answers which boxes may share a point with a given one. A box is
  listed under every bin it touches, or kept aside when it touches too many. Float subtraction, division and the
  conversion of a floored quotient to an index are parameters (\<open>grid_ops\<close>); the counts of bins are 64-bit
  integers, the coordinates of a bin are integers. The hash of a bin mixes the bit patterns \<open>bits\<close>, as in the
  cross-section key.

  The grid is correct for every arithmetic that keeps the order of the corners of the cover
  (\<open>keeps_order\<close>): a query lists every registered box that meets it, whatever else it lists.
\<close>

subsection \<open>The source\<close>

record grid_ops = float_ops +
  f_floorInt :: "float64 \<Rightarrow> int"

record coverGrid =
  g_cell :: "float64 list"
  g_origin :: "float64 list"
  g_bins :: "word64 \<Rightarrow> nat list"
  g_binOf :: "word64 list list"
  g_big :: "nat list"
  g_bigAt :: "nat \<Rightarrow> nat option"
  g_disjoint :: bool

definition go_min :: "float64 \<Rightarrow> float64 \<Rightarrow> float64" where
  "go_min x y = (if IsNaN x \<or> IsNaN y then NaN else if f_lt y x then y else x)"

definition go_max :: "float64 \<Rightarrow> float64 \<Rightarrow> float64" where
  "go_max x y = (if IsNaN x \<or> IsNaN y then NaN else if f_lt x y then y else x)"

definition copy_floats :: "nat \<Rightarrow> float64 list \<Rightarrow> float64 list" where
  "copy_floats dims xs = map (\<lambda>d. if d < length xs then xs ! d else Fin 0) [0..<dims]"

definition coverBounds :: "grid_ops \<Rightarrow> box list \<Rightarrow> nat \<Rightarrow> float64 list \<times> float64 list" where
  "coverBounds A boxes dims =
     (if boxes = [] then (replicate dims (Fin 0), replicate dims (Fin 0))
      else let (org, upper) = fold (\<lambda>b (org, upper).
               (map (\<lambda>d. go_min (org ! d) (BMin b ! d)) [0..<dims],
                map (\<lambda>d. go_max (upper ! d) (BMax b ! d)) [0..<dims]))
             boxes (copy_floats dims (BMin (boxes ! 0)), copy_floats dims (BMax (boxes ! 0)))
           in (org, map (\<lambda>d. f_sub A (upper ! d) (org ! d)) [0..<dims]))"

function binsPerAxis_loop :: "int64 \<Rightarrow> nat \<Rightarrow> nat \<Rightarrow> int64 \<Rightarrow> nat" where
  "binsPerAxis_loop n dims side capacity =
     (if i_lt capacity n \<and> side < 64
      then binsPerAxis_loop n dims (side + 1) (fold (\<lambda>_ c. c * of_nat (side + 1)) [0..<dims] 1)
      else side)"
  by pat_completeness auto
termination by (relation "measure (\<lambda>(n, dims, side, capacity). 64 - side)") auto

declare binsPerAxis_loop.simps [simp del]

definition binsPerAxis :: "nat \<Rightarrow> nat \<Rightarrow> nat" where
  "binsPerAxis n dims = binsPerAxis_loop (of_nat n) dims 1 1"

definition allIDs :: "nat \<Rightarrow> nat list" where
  "allIDs n = [0..<n]"

definition maxBinsPerAxis :: int64 where
  "maxBinsPerAxis = 4"

definition binsBudget :: "nat \<Rightarrow> int64" where
  "binsBudget dims = fold (\<lambda>_ budget. budget * maxBinsPerAxis) [0..<dims] 1"

definition binIndex :: "grid_ops \<Rightarrow> float64 list \<Rightarrow> float64 list \<Rightarrow> nat \<Rightarrow> float64 \<Rightarrow> int" where
  "binIndex A cell org d x = f_floorInt A (f_div A (f_sub A x (org ! d)) (cell ! d))"

fun binRange_from :: "grid_ops \<Rightarrow> coverGrid \<Rightarrow> box \<Rightarrow> nat list \<Rightarrow> int64 \<Rightarrow> (int list \<times> int list) option" where
  "binRange_from A g b [] reached = Some ([], [])"
| "binRange_from A g b (d # ds) reached =
     (let lo = binIndex A (g_cell g) (g_origin g) d (BMin b ! d);
          hi = binIndex A (g_cell g) (g_origin g) d (BMax b ! d);
          reached = reached * of_int (hi - lo + 1)
      in if i_lt (binsBudget (length (g_cell g))) reached then None
         else map_option (\<lambda>(los, his). (lo # los, hi # his)) (binRange_from A g b ds reached))"

definition binRange :: "grid_ops \<Rightarrow> coverGrid \<Rightarrow> box \<Rightarrow> (int list \<times> int list) option" where
  "binRange A g b = binRange_from A g b [0..<length (g_cell g)] 1"

text \<open>\<open>eachBin\<close> steps its coordinate like an odometer, the first axis fastest; here it lists what it visits.\<close>

fun advance :: "int list \<Rightarrow> int list \<Rightarrow> int list \<Rightarrow> int list option" where
  "advance (a # pos) (l # lo) (h # hi) =
     (if a + 1 \<le> h then Some ((a + 1) # pos) else map_option ((#) l) (advance pos lo hi))"
| "advance _ _ _ = None"

definition odometer :: "int list \<Rightarrow> int list \<Rightarrow> nat list" where
  "odometer pos hi = rev (map (\<lambda>(a, h). nat (h + 1 - a)) (zip pos hi))"

lemma advance_odometer:
  assumes "advance pos lo hi = Some pos'"
  shows "(odometer pos' hi, odometer pos hi) \<in> lex less_than"
  using assms
proof (induction pos lo hi arbitrary: pos' rule: advance.induct)
  case (1 a pos l lo h hi)
  show ?case
  proof (cases "a + 1 \<le> h")
    case True
    then have "(odometer pos hi @ [nat (h + 1 - (a + 1))], odometer pos hi @ [nat (h + 1 - a)]) \<in> lex less_than"
      by (intro lex_append_leftI) auto
    with True 1 show ?thesis by (auto simp: odometer_def)
  next
    case False
    then obtain r where r: "advance pos lo hi = Some r" "pos' = l # r" using 1 by auto
    then have "(odometer r hi, odometer pos hi) \<in> lex less_than" using 1 False by simp
    then have "(odometer r hi @ [nat (h + 1 - l)], odometer pos hi @ [nat (h + 1 - a)]) \<in> lex less_than"
      by (rule lex_append_rightI) simp
    with r show ?thesis by (simp add: odometer_def)
  qed
qed auto

function eachBin_from :: "int list \<Rightarrow> int list \<Rightarrow> int list \<Rightarrow> int list list" where
  "eachBin_from pos lo hi =
     pos # (case advance pos lo hi of None \<Rightarrow> [] | Some pos' \<Rightarrow> eachBin_from pos' lo hi)"
  by pat_completeness auto
termination
  by (relation "inv_image (lex less_than) (\<lambda>(pos, lo, hi). odometer pos hi)") (auto simp: advance_odometer)

declare eachBin_from.simps [simp del]

definition eachBin :: "int list \<Rightarrow> int list \<Rightarrow> int list list" where
  "eachBin lo hi = eachBin_from lo lo hi"

definition binKey :: "(float64 \<Rightarrow> word64) \<Rightarrow> int list \<Rightarrow> word64" where
  "binKey bits pos = fold (\<lambda>v h. mix prime (mix (canonicalBits bits (Fin (of_int v))) h)) pos offsetBasis"

definition grid_grow :: "nat \<Rightarrow> coverGrid \<Rightarrow> coverGrid" where
  "grid_grow i g = g\<lparr>g_binOf := g_binOf g @ replicate (i + 1 - length (g_binOf g)) []\<rparr>"

definition grid_add :: "grid_ops \<Rightarrow> (float64 \<Rightarrow> word64) \<Rightarrow> nat \<Rightarrow> box \<Rightarrow> coverGrid \<Rightarrow> coverGrid" where
  "grid_add A bits i b g =
     (let g = grid_grow i g
      in case binRange A g b of
           None \<Rightarrow> g\<lparr>g_bigAt := (g_bigAt g)(i \<mapsto> length (g_big g)), g_big := g_big g @ [i]\<rparr>
         | Some (lo, hi) \<Rightarrow>
             (let (bins, keys) = fold (\<lambda>pos (bins, keys).
                    let k = binKey bits pos in (bins(k := bins k @ [i]), keys @ [k]))
                  (eachBin lo hi) (g_bins g, [])
              in g\<lparr>g_bins := bins, g_binOf := (g_binOf g)[i := keys]\<rparr>))"

definition grid_remove :: "nat \<Rightarrow> coverGrid \<Rightarrow> coverGrid" where
  "grid_remove i g =
     (case g_bigAt g i of
        Some p \<Rightarrow>
          (let big = butlast ((g_big g)[p := last (g_big g)]);
               bigAt = (g_bigAt g)(i := None);
               bigAt = (if p < length big then bigAt(big ! p \<mapsto> p) else bigAt)
           in g\<lparr>g_big := big, g_bigAt := bigAt\<rparr>)
      | None \<Rightarrow>
          g\<lparr>g_bins := fold (\<lambda>k bins. bins(k := remove1 i (bins k))) (g_binOf g ! i) (g_bins g),
            g_binOf := (g_binOf g)[i := []]\<rparr>)"

definition overlapping :: "grid_ops \<Rightarrow> (float64 \<Rightarrow> word64) \<Rightarrow> box \<Rightarrow> coverGrid \<Rightarrow> nat list \<times> bool" where
  "overlapping A bits q g =
     (case binRange A g q of
        None \<Rightarrow> ([], True)
      | Some (lo, hi) \<Rightarrow> (concat (map (\<lambda>pos. g_bins g (binKey bits pos)) (eachBin lo hi)) @ g_big g, False))"

definition isDisjoint :: "grid_ops \<Rightarrow> (float64 \<Rightarrow> word64) \<Rightarrow> box list \<Rightarrow> coverGrid \<Rightarrow> bool" where
  "isDisjoint A bits boxes g =
     list_all (\<lambda>i. case overlapping A bits (boxes ! i) g of (candidates, exhaustive) \<Rightarrow>
         list_all (\<lambda>c. \<not> (c \<noteq> i \<and> c < length boxes \<and> Overlaps (boxes ! i) (boxes ! c)))
           (if exhaustive then allIDs (length boxes) else candidates))
       [0..<length boxes]"

definition gridShape :: "grid_ops \<Rightarrow> box list \<Rightarrow> nat \<Rightarrow> float64 list \<times> float64 list" where
  "gridShape A boxes dims =
     (let (org, extent) = coverBounds A boxes dims; side = binsPerAxis (length boxes) dims
      in (org, map (\<lambda>d. let c = f_div A (extent ! d) (Fin (of_nat side)) in if f_le c (Fin 0) then Fin 1 else c) [0..<dims]))"

definition newCoverGrid :: "grid_ops \<Rightarrow> (float64 \<Rightarrow> word64) \<Rightarrow> box list \<Rightarrow> nat \<Rightarrow> coverGrid" where
  "newCoverGrid A bits boxes dims =
     (let (org, cell) = gridShape A boxes dims;
          g = \<lparr>g_cell = cell, g_origin = org, g_bins = (\<lambda>_. []), g_binOf = replicate (length boxes) [],
               g_big = [], g_bigAt = (\<lambda>_. None), g_disjoint = False\<rparr>;
          g = fold (\<lambda>i. grid_add A bits i (boxes ! i)) [0..<length boxes] g
      in g\<lparr>g_disjoint := isDisjoint A bits boxes g\<rparr>)"

subsection \<open>The bins of a range\<close>

text \<open>\<open>before p v\<close>: the odometer shows \<open>p\<close> earlier than \<open>v\<close>; the last axis counts most.\<close>

fun before :: "int list \<Rightarrow> int list \<Rightarrow> bool" where
  "before (a # p) (x # v) = (before p v \<or> p = v \<and> a < x)"
| "before _ _ = False"

lemma advance_before:
  assumes "list_all2 (\<le>) lo v" "list_all2 (\<le>) v hi" "before pos v"
  obtains pos' where "advance pos lo hi = Some pos'" "pos' = v \<or> before pos' v"
proof -
  have "\<exists>pos'. advance pos lo hi = Some pos' \<and> (pos' = v \<or> before pos' v)"
    using assms
  proof (induction pos lo hi arbitrary: v rule: advance.induct)
    case (1 a pos l lo h hi)
    obtain x w where v: "v = x # w" "l \<le> x" "x \<le> h" "list_all2 (\<le>) lo w" "list_all2 (\<le>) w hi"
      using "1.prems" by (auto simp: list_all2_Cons1)
    show ?case
    proof (cases "a + 1 \<le> h")
      case True
      then show ?thesis using "1.prems"(3) v(1) by auto
    next
      case False
      then have "before pos w" using "1.prems"(3) v(1,3) by auto
      from "1.IH" [OF False v(4,5) this] show ?thesis using False v(1,2) by auto
    qed
  qed (auto simp: list_all2_Cons1 list_all2_Cons2)
  with that show ?thesis by blast
qed

lemma mem_eachBin_from:
  assumes "list_all2 (\<le>) lo v" "list_all2 (\<le>) v hi" "pos = v \<or> before pos v"
  shows "v \<in> set (eachBin_from pos lo hi)"
  using assms
proof (induction pos lo hi rule: eachBin_from.induct)
  case (1 pos lo hi)
  show ?case
  proof (cases "pos = v")
    case True
    then show ?thesis by (subst eachBin_from.simps) simp
  next
    case False
    then obtain pos' where p: "advance pos lo hi = Some pos'" "pos' = v \<or> before pos' v"
      using advance_before [OF "1.prems"(1,2)] "1.prems"(3) by blast
    from "1.IH" [OF p(1) "1.prems"(1,2) p(2)] show ?thesis using p(1) by (subst eachBin_from.simps) simp
  qed
qed

lemma mem_eachBin:
  assumes "list_all2 (\<le>) lo v" "list_all2 (\<le>) v hi"
  shows "v \<in> set (eachBin lo hi)"
proof -
  have "lo = v \<or> before lo v" using assms(1) by (induction rule: list_all2_induct) auto
  with assms show ?thesis unfolding eachBin_def by (rule mem_eachBin_from)
qed

text \<open>The range of a box, when it is small enough, is its corners' bins.\<close>

definition corner_bins :: "grid_ops \<Rightarrow> coverGrid \<Rightarrow> float64 list \<Rightarrow> int list" where
  "corner_bins A g c = map (\<lambda>d. binIndex A (g_cell g) (g_origin g) d (c ! d)) [0..<length (g_cell g)]"

lemma binRange_Some: "binRange A g b = Some (lo, hi) \<Longrightarrow> lo = corner_bins A g (BMin b) \<and> hi = corner_bins A g (BMax b)"
proof -
  have "binRange_from A g b ds reached = Some (lo, hi) \<Longrightarrow>
      lo = map (\<lambda>d. binIndex A (g_cell g) (g_origin g) d (BMin b ! d)) ds \<and>
      hi = map (\<lambda>d. binIndex A (g_cell g) (g_origin g) d (BMax b ! d)) ds" for ds reached lo hi
    by (induction ds arbitrary: reached lo hi) (auto simp: Let_def split: if_splits)
  then show "binRange A g b = Some (lo, hi) \<Longrightarrow> lo = corner_bins A g (BMin b) \<and> hi = corner_bins A g (BMax b)"
    by (simp add: binRange_def corner_bins_def)
qed

text \<open>The corners keep their order: what the arithmetic has to do, on the coordinates \<open>C d\<close> of each axis.\<close>

definition keeps_order :: "grid_ops \<Rightarrow> float64 list \<Rightarrow> float64 list \<Rightarrow> (nat \<Rightarrow> float64 set) \<Rightarrow> bool" where
  "keeps_order A cell org C \<longleftrightarrow>
     (\<forall>d<length cell. \<forall>x\<in>C d. \<forall>y\<in>C d. x \<le> y \<longrightarrow> binIndex A cell org d x \<le> binIndex A cell org d y)"

definition corners_in :: "(nat \<Rightarrow> float64 set) \<Rightarrow> nat \<Rightarrow> box \<Rightarrow> bool" where
  "corners_in C n b \<longleftrightarrow> (\<forall>d<n. BMin b ! d \<in> C d \<and> BMax b ! d \<in> C d)"

definition spans_meet :: "nat \<Rightarrow> box \<Rightarrow> box \<Rightarrow> bool" where
  "spans_meet n a b \<longleftrightarrow> (\<forall>d<n. BMin a ! d \<le> BMax a ! d \<and> BMin b ! d \<le> BMax b ! d \<and>
     BMin a ! d \<le> BMax b ! d \<and> BMin b ! d \<le> BMax a ! d)"

lemma common_bin:
  assumes k: "keeps_order A (g_cell g) (g_origin g) C" and n: "length (g_cell g) = n"
    and c: "corners_in C n a" "corners_in C n b" and m: "spans_meet n a b"
    and r: "binRange A g a = Some (alo, ahi)" "binRange A g b = Some (blo, bhi)"
  shows "\<exists>v\<in>set (eachBin alo ahi). v \<in> set (eachBin blo bhi)"
proof -
  let ?i = "binIndex A (g_cell g) (g_origin g)"
  let ?v = "map (\<lambda>d. max (?i d (BMin a ! d)) (?i d (BMin b ! d))) [0..<n]"
  note e = binRange_Some [OF r(1), unfolded corner_bins_def n] binRange_Some [OF r(2), unfolded corner_bins_def n]
  have mono: "?i d x \<le> ?i d y" if "d < n" "x \<in> C d" "y \<in> C d" "x \<le> y" for d x y
    using k that n by (simp add: keeps_order_def)
  have le: "?i d (BMin a ! d) \<le> ?i d (BMax a ! d)" "?i d (BMin b ! d) \<le> ?i d (BMax b ! d)"
      "?i d (BMin a ! d) \<le> ?i d (BMax b ! d)" "?i d (BMin b ! d) \<le> ?i d (BMax a ! d)" if "d < n" for d
    using mono [OF that] c m that by (simp_all add: corners_in_def spans_meet_def)
  have "?v \<in> set (eachBin alo ahi)"
    by (rule mem_eachBin) (use e le in \<open>auto simp: list_all2_conv_all_nth\<close>)
  moreover have "?v \<in> set (eachBin blo bhi)"
    by (rule mem_eachBin) (use e le in \<open>auto simp: list_all2_conv_all_nth\<close>)
  ultimately show ?thesis by blast
qed

subsection \<open>What is registered\<close>

definition keys_of :: "grid_ops \<Rightarrow> (float64 \<Rightarrow> word64) \<Rightarrow> coverGrid \<Rightarrow> box \<Rightarrow> word64 list" where
  "keys_of A bits g b =
     (case binRange A g b of None \<Rightarrow> [] | Some (lo, hi) \<Rightarrow> map (binKey bits) (eachBin lo hi))"

text \<open>The ids below \<open>N\<close> are known, those in \<open>R\<close> registered with the boxes \<open>B\<close>.\<close>

definition big_ok :: "coverGrid \<Rightarrow> bool" where
  "big_ok g \<longleftrightarrow> distinct (g_big g) \<and> (\<forall>i p. g_bigAt g i = Some p \<longleftrightarrow> p < length (g_big g) \<and> g_big g ! p = i)"

definition grid_ok :: "grid_ops \<Rightarrow> (float64 \<Rightarrow> word64) \<Rightarrow> nat \<Rightarrow> nat set \<Rightarrow> (nat \<Rightarrow> box) \<Rightarrow> coverGrid \<Rightarrow> bool" where
  "grid_ok A bits N R B g \<longleftrightarrow>
     length (g_binOf g) = N \<and> R \<subseteq> {..<N} \<and> big_ok g \<and>
     (\<forall>k i. count_list (g_bins g k) i = (if i < N then count_list (g_binOf g ! i) k else 0)) \<and>
     (\<forall>i<N. g_binOf g ! i = (if i \<in> R then keys_of A bits g (B i) else [])) \<and>
     set (g_big g) = {i \<in> R. binRange A g (B i) = None}"

lemma binRange_grid_cong:
  assumes "g_cell g = g_cell g'" "g_origin g = g_origin g'"
  shows "binRange A g b = binRange A g' b"
proof -
  have "binRange_from A g b ds r = binRange_from A g' b ds r" for ds r
    by (induction ds arbitrary: r) (simp_all add: assms Let_def cong: if_cong)
  then show ?thesis by (simp add: binRange_def assms)
qed

lemma keys_of_grid_cong:
  "g_cell g = g_cell g' \<Longrightarrow> g_origin g = g_origin g' \<Longrightarrow> keys_of A bits g b = keys_of A bits g' b"
  using binRange_grid_cong [of g g' A b] by (simp add: keys_of_def)

lemma add_bins:
  assumes "fold (\<lambda>pos (bins, keys). let k = binKey bits pos in (bins(k := bins k @ [i]), keys @ [k])) ps (bins, keys) = (bins', keys')"
  shows "keys' = keys @ map (binKey bits) ps"
    "count_list (bins' k) j = count_list (bins k) j + (if j = i then count_list (map (binKey bits) ps) k else 0)"
proof -
  have "keys' = keys @ map (binKey bits) ps \<and>
      count_list (bins' k) j = count_list (bins k) j + (if j = i then count_list (map (binKey bits) ps) k else 0)"
    using assms
  proof (induction ps arbitrary: bins keys)
    case (Cons p ps)
    let ?k = "binKey bits p"
    have "fold (\<lambda>pos (bins, keys). let k = binKey bits pos in (bins(k := bins k @ [i]), keys @ [k])) ps
        (bins(?k := bins ?k @ [i]), keys @ [?k]) = (bins', keys')"
      using Cons.prems by (simp only: fold_Cons comp_apply Let_def prod.case)
    from Cons.IH [OF this] show ?case by auto
  qed simp
  then show "keys' = keys @ map (binKey bits) ps"
    "count_list (bins' k) j = count_list (bins k) j + (if j = i then count_list (map (binKey bits) ps) k else 0)" by simp_all
qed

lemma remove_bins:
  "count_list (fold (\<lambda>k bins. bins(k := remove1 i (bins k))) ks bins k') j =
     count_list (bins k') j - (if j = i then count_list ks k' else 0)"
  by (induction ks arbitrary: bins) (auto simp: count_remove1)

lemma grid_grow_fields [simp]:
  "g_cell (grid_grow i g) = g_cell g" "g_origin (grid_grow i g) = g_origin g" "g_bins (grid_grow i g) = g_bins g"
  "g_big (grid_grow i g) = g_big g" "g_bigAt (grid_grow i g) = g_bigAt g" "g_disjoint (grid_grow i g) = g_disjoint g"
  "length (g_binOf (grid_grow i g)) = max (length (g_binOf g)) (i + 1)"
  by (simp_all add: grid_grow_def)

lemma grid_grow_binOf:
  "j < max (length (g_binOf g)) (i + 1) \<Longrightarrow>
     g_binOf (grid_grow i g) ! j = (if j < length (g_binOf g) then g_binOf g ! j else [])"
  by (auto simp: grid_grow_def nth_append)

lemma grid_add_shape [simp]:
  "g_cell (grid_add A bits i b g) = g_cell g" "g_origin (grid_add A bits i b g) = g_origin g"
  by (auto simp: grid_add_def Let_def split: option.split prod.split)

lemma grid_remove_shape [simp]:
  "g_cell (grid_remove i g) = g_cell g" "g_origin (grid_remove i g) = g_origin g"
  by (auto simp: grid_remove_def Let_def split: option.split)

lemma grid_add_ok:
  assumes ok: "grid_ok A bits N R B g" and i: "i \<notin> R" and B: "\<And>j. j \<in> R \<Longrightarrow> B' j = B j" "B' i = b"
  shows "grid_ok A bits (max N (i + 1)) (insert i R) B' (grid_add A bits i b g)"
proof -
  let ?g = "grid_grow i g" and ?N = "max N (i + 1)" and ?g' = "grid_add A bits i b g"
  have o: "length (g_binOf g) = N" "R \<subseteq> {..<N}" "big_ok g"
      "\<And>k j. count_list (g_bins g k) j = (if j < N then count_list (g_binOf g ! j) k else 0)"
      "\<And>j. j < N \<Longrightarrow> g_binOf g ! j = (if j \<in> R then keys_of A bits g (B j) else [])"
      "set (g_big g) = {j \<in> R. binRange A g (B j) = None}"
    using ok by (auto simp: grid_ok_def)
  have grown: "g_binOf ?g ! j = (if j \<in> R then keys_of A bits g (B j) else [])" if "j < ?N" for j
    using that grid_grow_binOf [of j g i] o(1,2,5) by auto
  have cnt: "count_list (g_bins g k) j = (if j < ?N then count_list (g_binOf ?g ! j) k else 0)" for k j
    using o(1,2,4,5) grown [of j] by auto
  have R: "insert i R \<subseteq> {..<?N}" using o(2) by auto
  have rg: "binRange A ?g b = binRange A g b" by (rule binRange_grid_cong) simp_all
  have kk: "keys_of A bits ?g' c = keys_of A bits g c" "binRange A ?g' c = binRange A g c" for c
    by (rule keys_of_grid_cong binRange_grid_cong; simp)+
  show ?thesis
  proof (cases "binRange A g b")
    case None
    then have g': "?g' = ?g\<lparr>g_bigAt := (g_bigAt g)(i \<mapsto> length (g_big g)), g_big := g_big g @ [i]\<rparr>"
      using rg by (simp add: grid_add_def Let_def)
    have notbig: "i \<notin> set (g_big g)" using o(6) i by blast
    then have "big_ok ?g'"
      using o(3) unfolding big_ok_def g' by (auto simp: nth_append less_Suc_eq)
    moreover have "keys_of A bits g b = []" using None by (simp add: keys_of_def)
    ultimately show ?thesis
      unfolding grid_ok_def kk using R cnt grown B i None o(1,6) by (auto simp: g')
  next
    case (Some r)
    obtain lo hi where r: "r = (lo, hi)" by force
    obtain bins keys where f: "fold (\<lambda>pos (bins, keys). let k = binKey bits pos in (bins(k := bins k @ [i]), keys @ [k]))
        (eachBin lo hi) (g_bins g, []) = (bins, keys)" by force
    have g': "?g' = ?g\<lparr>g_bins := bins, g_binOf := (g_binOf ?g)[i := keys]\<rparr>"
      using Some rg f by (simp add: grid_add_def Let_def r)
    have keys: "keys = keys_of A bits g b" "\<And>k j. count_list (bins k) j = count_list (g_bins g k) j + (if j = i then count_list keys k else 0)"
      using add_bins [OF f] Some by (simp_all add: keys_of_def r)
    have "big_ok ?g'" using o(3) by (simp add: big_ok_def g')
    then show ?thesis
      unfolding grid_ok_def kk using R cnt grown B i Some o(1,6) keys
      by (auto simp: g' nth_list_update)
  qed
qed

lemma swap_delete:
  assumes "distinct xs" "p < length xs"
  defines "ys \<equiv> butlast (xs[p := last xs])"
  shows "distinct ys" "set ys = set xs - {xs ! p}"
    "q < length ys \<Longrightarrow> ys ! q = (if q = p then last xs else xs ! q)" "length ys = length xs - 1"
proof -
  show len: "length ys = length xs - 1" by (simp add: ys_def)
  have l: "last xs = xs ! (length xs - 1)" using assms(2) by (intro last_conv_nth) auto
  show nth: "ys ! q = (if q = p then last xs else xs ! q)" if "q < length ys" for q
    using that assms(2) by (simp add: ys_def nth_butlast)
  have eq: "xs ! a = xs ! b \<longleftrightarrow> a = b" if "a < length xs" "b < length xs" for a b
    using assms(1) that by (simp add: nth_eq_iff_index_eq)
  show "distinct ys"
    unfolding distinct_conv_nth using nth len l eq assms(2) by auto
  have "x \<in> set ys \<longleftrightarrow> x \<in> set xs - {xs ! p}" for x
  proof
    assume "x \<in> set ys"
    then obtain q where "q < length ys" "x = ys ! q" by (auto simp: in_set_conv_nth)
    then show "x \<in> set xs - {xs ! p}" using nth [of q] len l eq assms(2) by (cases "q = p") auto
  next
    assume "x \<in> set xs - {xs ! p}"
    then obtain q where q: "q < length xs" "x = xs ! q" "q \<noteq> p" by (auto simp: in_set_conv_nth)
    show "x \<in> set ys"
    proof (cases "q = length xs - 1")
      case True
      then have "p < length ys" "ys ! p = x" using q assms(2) len nth [of p] l by auto
      then show ?thesis by (metis nth_mem)
    next
      case False
      then have "q < length ys" "ys ! q = x" using q len nth [of q] by auto
      then show ?thesis by (metis nth_mem)
    qed
  qed
  then show "set ys = set xs - {xs ! p}" by blast
qed

lemma grid_remove_ok:
  assumes ok: "grid_ok A bits N R B g" and i: "i \<in> R"
  shows "grid_ok A bits N (R - {i}) B (grid_remove i g)"
proof -
  let ?g' = "grid_remove i g"
  have o: "length (g_binOf g) = N" "R \<subseteq> {..<N}" "big_ok g"
      "\<And>k j. count_list (g_bins g k) j = (if j < N then count_list (g_binOf g ! j) k else 0)"
      "\<And>j. j < N \<Longrightarrow> g_binOf g ! j = (if j \<in> R then keys_of A bits g (B j) else [])"
      "set (g_big g) = {j \<in> R. binRange A g (B j) = None}"
    using ok by (auto simp: grid_ok_def)
  have iN: "i < N" using i o(2) by blast
  have kk: "keys_of A bits ?g' c = keys_of A bits g c" "binRange A ?g' c = binRange A g c" for c
    by (rule keys_of_grid_cong binRange_grid_cong; simp)+
  have bigAt: "\<And>j p. g_bigAt g j = Some p \<longleftrightarrow> p < length (g_big g) \<and> g_big g ! p = j" and dist: "distinct (g_big g)"
    using o(3) by (simp_all add: big_ok_def)
  show ?thesis
  proof (cases "g_bigAt g i")
    case None
    then have g': "?g' = g\<lparr>g_bins := fold (\<lambda>k bins. bins(k := remove1 i (bins k))) (g_binOf g ! i) (g_bins g), g_binOf := (g_binOf g)[i := []]\<rparr>"
      by (simp add: grid_remove_def)
    have "i \<notin> set (g_big g)" using None bigAt by (metis in_set_conv_nth option.distinct(1))
    then have "set (g_big g) = {j \<in> R - {i}. binRange A g (B j) = None}" using o(6) by auto
    moreover have "big_ok ?g'" using o(3) by (simp add: big_ok_def g')
    moreover have "count_list (g_bins ?g' k) j = (if j < N then count_list (g_binOf ?g' ! j) k else 0)" for k j
      using o(1,4) iN by (auto simp: g' remove_bins nth_list_update)
    ultimately show ?thesis
      unfolding grid_ok_def kk using o(1,2,5) iN by (auto simp: g' nth_list_update)
  next
    case (Some p)
    let ?big = "butlast ((g_big g)[p := last (g_big g)])"
    have p: "p < length (g_big g)" "g_big g ! p = i" using Some bigAt by blast+
    note d = swap_delete [OF dist p(1)]
    have g': "?g' = g\<lparr>g_big := ?big, g_bigAt := (if p < length ?big then ((g_bigAt g)(i := None))(?big ! p \<mapsto> p) else (g_bigAt g)(i := None))\<rparr>"
      using Some by (simp add: grid_remove_def Let_def)
    have set: "set ?big = {j \<in> R - {i}. binRange A g (B j) = None}" using d(2) p(2) o(6) by auto
    obtain e where e: "length (g_big g) = Suc e" using p(1) by (cases "length (g_big g)") auto
    then have l: "last (g_big g) = g_big g ! e" by (metis diff_Suc_1 last_conv_nth length_0_conv nat.distinct(1))
    have len: "length ?big = e" using e by simp
    have inj: "g_big g ! a = g_big g ! b \<longleftrightarrow> a = b" if "a \<le> e" "b \<le> e" for a b
      using dist that e by (simp add: nth_eq_iff_index_eq)
    have nth: "?big ! q = (if q = p then g_big g ! e else g_big g ! q)" if "q < e" for q
      using d(3) [of q] that l e by simp
    have at: "g_bigAt ?g' j = Some q \<longleftrightarrow> q < length ?big \<and> ?big ! q = j" for j q
    proof (cases "p < e")
      case True
      have new: "g_bigAt ?g' j = (if j = g_big g ! e then Some p else if j = i then None else g_bigAt g j)"
        using True nth [OF True] len by (simp add: g')
      consider "j = g_big g ! e" | "j = i" "j \<noteq> g_big g ! e" | "j \<noteq> i" "j \<noteq> g_big g ! e" by blast
      then show ?thesis
      proof cases
        case 1
        then show ?thesis unfolding new len using True nth [of q] inj [of q e] by (cases "q = p") auto
      next
        case 2
        then show ?thesis unfolding new len using True nth [of q] inj [of q p] inj [of p e] p by auto
      next
        case 3
        have "q < Suc e \<and> g_big g ! q = j \<longleftrightarrow> q < e \<and> ?big ! q = j"
          using 3 p(2) nth [of q] by (auto simp: less_Suc_eq)
        with 3 show ?thesis unfolding new len using bigAt [of j q] e by simp
      qed
    next
      case False
      then have pe: "p = e" using p(1) e by simp
      have new: "g_bigAt ?g' j = (if j = i then None else g_bigAt g j)" using False len by (simp add: g')
      show ?thesis
        unfolding new len using bigAt [of j q] nth [of q] inj [of q e] p pe e by (auto simp: less_Suc_eq)
    qed
    have "big_ok ?g'" using at d(1) unfolding big_ok_def by (simp add: g')
    moreover have "keys_of A bits g (B i) = []" using p o(6) nth_mem [OF p(1)] by (auto simp: keys_of_def)
    ultimately show ?thesis
      unfolding grid_ok_def kk using o(1,2,4,5) set iN by (auto simp: g')
  qed
qed

text \<open>A query lists every registered box whose span meets it on every axis.\<close>

lemma overlapping_complete:
  assumes ok: "grid_ok A bits N R B g" and k: "keeps_order A (g_cell g) (g_origin g) C" and n: "length (g_cell g) = n"
    and c: "corners_in C n (B i)" "corners_in C n q" and m: "spans_meet n (B i) q" and i: "i \<in> R"
  shows "case overlapping A bits q g of (ids, exhaustive) \<Rightarrow> exhaustive \<or> i \<in> set ids"
proof (cases "binRange A g q")
  case (Some r)
  obtain lo hi where r: "r = (lo, hi)" by force
  have o: "R \<subseteq> {..<N}" "\<And>k j. count_list (g_bins g k) j = (if j < N then count_list (g_binOf g ! j) k else 0)"
      "\<And>j. j < N \<Longrightarrow> g_binOf g ! j = (if j \<in> R then keys_of A bits g (B j) else [])"
      "set (g_big g) = {j \<in> R. binRange A g (B j) = None}"
    using ok by (auto simp: grid_ok_def)
  show ?thesis
  proof (cases "binRange A g (B i)")
    case None
    then have "i \<in> set (g_big g)" using o(4) i by simp
    then show ?thesis using Some by (simp add: overlapping_def r)
  next
    case (Some s)
    obtain lo' hi' where s: "s = (lo', hi')" by force
    obtain v where v: "v \<in> set (eachBin lo' hi')" "v \<in> set (eachBin lo hi)"
      using common_bin [OF k n c m] Some \<open>binRange A g q = Some r\<close> by (auto simp: r s)
    have "binKey bits v \<in> set (g_binOf g ! i)" using o(1,3) i v(1) Some by (auto simp: keys_of_def s)
    then have "count_list (g_bins g (binKey bits v)) i \<noteq> 0"
      using o(1,2) i by (auto simp: count_list_0_iff simp del: neq0_conv)
    then have "i \<in> set (g_bins g (binKey bits v))" by (simp add: count_list_0_iff)
    then show ?thesis using \<open>binRange A g q = Some r\<close> v(2) by (auto simp: overlapping_def r)
  qed
qed (simp add: overlapping_def)

lemma newCoverGrid_ok:
  "grid_ok A bits (length boxes) {..<length boxes} ((!) boxes) (newCoverGrid A bits boxes dims)"
  "g_origin (newCoverGrid A bits boxes dims) = fst (gridShape A boxes dims)"
  "g_cell (newCoverGrid A bits boxes dims) = snd (gridShape A boxes dims)"
  "length (snd (gridShape A boxes dims)) = dims"
proof -
  obtain org cell where sh: "gridShape A boxes dims = (org, cell)" by force
  let ?g0 = "\<lparr>g_cell = cell, g_origin = org, g_bins = (\<lambda>_. []), g_binOf = replicate (length boxes) [],
               g_big = [], g_bigAt = (\<lambda>_. None), g_disjoint = False\<rparr>"
  let ?f = "\<lambda>k. fold (\<lambda>i. grid_add A bits i (boxes ! i)) [0..<k] ?g0"
  have "grid_ok A bits (length boxes) {} ((!) boxes) ?g0" by (auto simp: grid_ok_def big_ok_def)
  then have ok: "grid_ok A bits (length boxes) {..<k} ((!) boxes) (?f k) \<and> g_cell (?f k) = cell \<and> g_origin (?f k) = org"
    if "k \<le> length boxes" for k
    using that
  proof (induction k)
    case (Suc k)
    then have "grid_ok A bits (max (length boxes) (k + 1)) (insert k {..<k}) ((!) boxes) (grid_add A bits k (boxes ! k) (?f k))"
      by (intro grid_add_ok [of A bits "length boxes" "{..<k}" "(!) boxes"]) auto
    then show ?case using Suc by (simp add: max_def lessThan_Suc)
  qed simp
  have new: "newCoverGrid A bits boxes dims = (?f (length boxes))\<lparr>g_disjoint := isDisjoint A bits boxes (?f (length boxes))\<rparr>"
    by (simp add: newCoverGrid_def sh Let_def)
  have kk: "keys_of A bits (newCoverGrid A bits boxes dims) c = keys_of A bits (?f (length boxes)) c"
      "binRange A (newCoverGrid A bits boxes dims) c = binRange A (?f (length boxes)) c" for c
    by (rule keys_of_grid_cong binRange_grid_cong; simp add: new)+
  show "grid_ok A bits (length boxes) {..<length boxes} ((!) boxes) (newCoverGrid A bits boxes dims)"
    using ok [OF order_refl] unfolding grid_ok_def kk by (auto simp: new big_ok_def)
  show "g_origin (newCoverGrid A bits boxes dims) = fst (gridShape A boxes dims)"
    "g_cell (newCoverGrid A bits boxes dims) = snd (gridShape A boxes dims)"
    using ok [OF order_refl] by (simp_all add: new sh)
  show "length (snd (gridShape A boxes dims)) = dims"
    by (simp add: gridShape_def Let_def split: prod.split)
qed

subsection \<open>Exact arithmetic keeps the order\<close>

definition exact_grid :: grid_ops where
  "exact_grid = float_ops.extend exact \<lparr>f_floorInt = (\<lambda>x. case x of Fin r \<Rightarrow> \<lfloor>r\<rfloor> | _ \<Rightarrow> 0)\<rparr>"

lemma exact_grid_sel [simp]:
  "f_sub exact_grid = f_op (-)" "f_div exact_grid = f_op (/)" "f_floorInt exact_grid (Fin r) = \<lfloor>r\<rfloor>"
  by (simp_all add: exact_grid_def float_ops.defs exact_def)

lemma exact_keeps_order:
  assumes "\<forall>d<length cell. \<exists>c. cell ! d = Fin c \<and> 0 < c" "\<forall>d<length cell. \<exists>c. org ! d = Fin c"
    and "\<forall>d<length cell. \<forall>x\<in>C d. is_fin x"
  shows "keeps_order exact_grid cell org C"
  unfolding keeps_order_def
proof (intro allI impI ballI)
  fix d x y assume d: "d < length cell" and xy: "x \<in> C d" "y \<in> C d" "x \<le> y"
  obtain c a where "cell ! d = Fin c" "0 < c" "org ! d = Fin a" using assms(1,2) d by blast
  moreover obtain u v where "x = Fin u" "y = Fin v" using assms(3) d xy(1,2) by (metis is_finE)
  ultimately show "binIndex exact_grid cell org d x \<le> binIndex exact_grid cell org d y"
    using xy(3) by (simp add: binIndex_def floor_mono divide_right_mono)
qed

lemma go_min_max_fin: "is_fin x \<Longrightarrow> is_fin y \<Longrightarrow> is_fin (go_min x y)" "is_fin x \<Longrightarrow> is_fin y \<Longrightarrow> is_fin (go_max x y)"
  by (auto simp: is_fin_iff go_min_def go_max_def)

lemma exact_gridShape:
  assumes "\<forall>b\<in>set boxes. box_ok n b" "boxes \<noteq> []" and "\<forall>d<n. \<forall>x\<in>C d. is_fin x"
  shows "keeps_order exact_grid (snd (gridShape exact_grid boxes n)) (fst (gridShape exact_grid boxes n)) C"
proof -
  have fin: "is_fin (BMin b ! d)" "is_fin (BMax b ! d)" "length (BMin b) = n" "length (BMax b) = n" if b: "b \<in> set boxes" and d: "d < n" for b d
  proof -
    have ok: "box_ok n b" using assms(1) b by blast
    then show "length (BMin b) = n" "length (BMax b) = n" by (rule box_okD)+
    obtain lo hi where "BMin b ! d = Fin lo" "BMax b ! d = Fin hi" by (rule box_ok_axis [OF ok d])
    then show "is_fin (BMin b ! d)" "is_fin (BMax b ! d)" by simp_all
  qed
  let ?step = "\<lambda>b (org, upper). (map (\<lambda>d. go_min (org ! d) (BMin b ! d)) [0..<n], map (\<lambda>d. go_max (upper ! d) (BMax b ! d)) [0..<n])"
  have stay: "case fold ?step bs s of (org, upper) \<Rightarrow> \<forall>d<n. is_fin (org ! d) \<and> is_fin (upper ! d)"
    if "set bs \<subseteq> set boxes" "case s of (org, upper) \<Rightarrow> \<forall>d<n. is_fin (org ! d) \<and> is_fin (upper ! d)" for bs s
    using that
  proof (induction bs arbitrary: s)
    case (Cons b bs)
    have b: "b \<in> set boxes" using Cons.prems(1) by simp
    have "case ?step b s of (org, upper) \<Rightarrow> \<forall>d<n. is_fin (org ! d) \<and> is_fin (upper ! d)"
      using Cons.prems(2) fin(1,2) [OF b] by (auto simp: go_min_max_fin split: prod.split)
    with Cons show ?case by simp
  qed simp
  have "boxes ! 0 \<in> set boxes" using assms(2) by simp
  then have "\<forall>d<n. is_fin (copy_floats n (BMin (boxes ! 0)) ! d) \<and> is_fin (copy_floats n (BMax (boxes ! 0)) ! d)"
    using fin by (auto simp: copy_floats_def)
  then obtain org upper where f: "fold ?step boxes (copy_floats n (BMin (boxes ! 0)), copy_floats n (BMax (boxes ! 0))) = (org, upper)"
      "\<forall>d<n. is_fin (org ! d) \<and> is_fin (upper ! d)"
    using stay [of boxes "(copy_floats n (BMin (boxes ! 0)), copy_floats n (BMax (boxes ! 0)))"] by force
  let ?side = "binsPerAxis (length boxes) n"
  have shape: "gridShape exact_grid boxes n = (org, map (\<lambda>d. let c = f_div exact_grid (map (\<lambda>d. f_sub exact_grid (upper ! d) (org ! d)) [0..<n] ! d) (Fin (of_nat ?side))
      in if f_le c (Fin 0) then Fin 1 else c) [0..<n])"
    unfolding gridShape_def coverBounds_def if_not_P [OF assms(2)] f(1) Let_def prod.case by (rule refl)
  have cell: "\<exists>c. snd (gridShape exact_grid boxes n) ! d = Fin c \<and> 0 < c" if "d < n" for d
  proof -
    have "is_fin (org ! d)" "is_fin (upper ! d)" using f(2) that by simp_all
    then obtain a b where "org ! d = Fin a" "upper ! d = Fin b" unfolding is_fin_iff by blast
    then show ?thesis using that by (auto simp: shape Let_def not_le)
  qed
  have "\<exists>c. fst (gridShape exact_grid boxes n) ! d = Fin c" if "d < n" for d
    using f(2) that by (auto simp: shape is_fin_iff)
  then show ?thesis
    using cell assms(3) newCoverGrid_ok(4) [of exact_grid boxes n] by (intro exact_keeps_order) auto
qed

end
