(* ===== verification/Indexed_Merge.thy ===== *)
theory Indexed_Merge
  imports Cover_Grid Go_Heap Box_Views
begin

section \<open>The indexed merge (space/merge_index.go)\<close>

text \<open>
  \<open>MergeAdjacent\<close> uses \<open>scanMerge\<close> for small covers and the indexed merger for large ones: buckets by cross-section
  find the partners of a box, a heap of pairs yields the pair that comes first in canonical order, the cover
  grid finds the boxes a union swallows. Dead boxes stay where they are, so entries of the heap go stale and are
  discarded when they surface. The merger is shown to perform the rounds of the greedy merge: its live boxes are,
  as a set of spans, the cover of the greedy at every round, so the two branches return the same boxes.
\<close>

subsection \<open>The source\<close>

record merger =
  mg_boxes :: "box list"
  mg_live :: "bool list"
  mg_buckets :: "word64 \<Rightarrow> nat list"
  mg_grid :: coverGrid
  mg_pairs :: "(nat \<times> nat) list"
  mg_dims :: nat
  mg_disjoint :: bool

definition mg_index :: "(float64 \<Rightarrow> word64) \<Rightarrow> nat \<Rightarrow> merger \<Rightarrow> merger" where
  "mg_index bits i m =
     m\<lparr>mg_buckets := fold (\<lambda>d bk. let k = crossSectionKey bits (mg_boxes m ! i) d in bk(k := bk k @ [i]))
         [0..<mg_dims m] (mg_buckets m)\<rparr>"

definition mg_unindex :: "(float64 \<Rightarrow> word64) \<Rightarrow> nat \<Rightarrow> merger \<Rightarrow> merger" where
  "mg_unindex bits i m =
     m\<lparr>mg_buckets := fold (\<lambda>d bk. let k = crossSectionKey bits (mg_boxes m ! i) d in bk(k := remove1 i (bk k)))
         [0..<mg_dims m] (mg_buckets m)\<rparr>"

definition mg_kill :: "(float64 \<Rightarrow> word64) \<Rightarrow> nat \<Rightarrow> merger \<Rightarrow> merger" where
  "mg_kill bits i m =
     (let m = mg_unindex bits i (m\<lparr>mg_live := (mg_live m)[i := False]\<rparr>);
          m = m\<lparr>mg_grid := grid_remove i (mg_grid m)\<rparr>
      in m\<lparr>mg_boxes := (mg_boxes m)[i := (mg_boxes m ! i)\<lparr>Meta := NoMeta\<rparr>]\<rparr>)"

definition mg_candidates :: "grid_ops \<Rightarrow> (float64 \<Rightarrow> word64) \<Rightarrow> nat \<Rightarrow> merger \<Rightarrow> nat list" where
  "mg_candidates A bits i m =
     (case overlapping A bits (mg_boxes m ! i) (mg_grid m) of
        (ids, exhaustive) \<Rightarrow> if exhaustive then allIDs (length (mg_boxes m)) else ids)"

definition subsumer :: "grid_ops \<Rightarrow> (float64 \<Rightarrow> word64) \<Rightarrow> nat \<Rightarrow> merger \<Rightarrow> nat option" where
  "subsumer A bits i m =
     fold (\<lambda>c best.
         if c = i \<or> \<not> mg_live m ! c \<or> \<not> subsumes (mg_boxes m ! c) (mg_boxes m ! i) then best
         else if (case best of None \<Rightarrow> True | Some b \<Rightarrow> c < b) then Some c else best)
       (mg_candidates A bits i m) None"

definition dedupe_one :: "grid_ops \<Rightarrow> (float64 \<Rightarrow> word64) \<Rightarrow> nat \<Rightarrow> merger \<Rightarrow> merger" where
  "dedupe_one A bits i m =
     (if \<not> mg_live m ! i then m
      else case subsumer A bits i m of
        None \<Rightarrow> m
      | Some s \<Rightarrow> mg_kill bits i (m\<lparr>mg_boxes := (mg_boxes m)[s :=
          (mg_boxes m ! s)\<lparr>Meta := meta_Union (Meta (mg_boxes m ! s)) (Meta (mg_boxes m ! i))\<rparr>]\<rparr>))"

definition mg_dedupe :: "grid_ops \<Rightarrow> (float64 \<Rightarrow> word64) \<Rightarrow> merger \<Rightarrow> merger" where
  "mg_dedupe A bits m = fold (dedupe_one A bits) [0..<length (mg_boxes m)] m"

definition detectDisjoint :: "grid_ops \<Rightarrow> (float64 \<Rightarrow> word64) \<Rightarrow> merger \<Rightarrow> bool" where
  "detectDisjoint A bits m =
     list_all (\<lambda>i. mg_live m ! i \<longrightarrow>
         list_all (\<lambda>c. \<not> (c \<noteq> i \<and> mg_live m ! c \<and> Overlaps (mg_boxes m ! i) (mg_boxes m ! c)))
           (mg_candidates A bits i m))
       [0..<length (mg_boxes m)]"

definition compareBoxes :: "box list \<Rightarrow> nat \<Rightarrow> nat \<Rightarrow> int" where
  "compareBoxes boxes i j =
     (if box_Less (boxes ! i) (boxes ! j) then -1 else if box_Less (boxes ! j) (boxes ! i) then 1 else 0)"

definition pairLess :: "box list \<Rightarrow> nat \<times> nat \<Rightarrow> nat \<times> nat \<Rightarrow> bool" where
  "pairLess boxes a b =
     (let c = compareBoxes boxes (fst a) (fst b)
      in if c \<noteq> 0 then c < 0 else compareBoxes boxes (snd a) (snd b) < 0)"

definition orderedPair :: "box list \<Rightarrow> nat \<Rightarrow> nat \<Rightarrow> nat \<times> nat" where
  "orderedPair boxes a b = (if box_Less (boxes ! b) (boxes ! a) then (b, a) else (a, b))"

definition partners :: "(float64 \<Rightarrow> word64) \<Rightarrow> nat \<Rightarrow> merger \<Rightarrow> nat list" where
  "partners bits i m =
     concat (map (\<lambda>d. filter (\<lambda>other. \<not> (other = i \<or> \<not> mg_live m ! other) \<and>
           mergePair (mg_boxes m ! i) (mg_boxes m ! other) \<noteq> None)
         (mg_buckets m (crossSectionKey bits (mg_boxes m ! i) d))) [0..<mg_dims m])"

definition offer :: "(float64 \<Rightarrow> word64) \<Rightarrow> nat \<Rightarrow> merger \<Rightarrow> merger" where
  "offer bits i m =
     m\<lparr>mg_pairs := fold (\<lambda>other. heap_Push (pairLess (mg_boxes m)) (orderedPair (mg_boxes m) i other))
         (partners bits i m) (mg_pairs m)\<rparr>"

function nextPair :: "merger \<Rightarrow> (nat \<times> nat) option \<times> merger" where
  "nextPair m =
     (if mg_pairs m = [] then (None, m)
      else let (p, pairs) = heap_Pop (pairLess (mg_boxes m)) (mg_pairs m);
               m = m\<lparr>mg_pairs := pairs\<rparr>
           in if \<not> mg_live m ! fst p \<or> \<not> mg_live m ! snd p then nextPair m
              else if mergePair (mg_boxes m ! fst p) (mg_boxes m ! snd p) = None then nextPair m
              else (Some p, m))"
  by pat_completeness auto
termination
  by (relation "measure (\<lambda>m. length (mg_pairs m))") (auto simp: heap_Pop_def Let_def length_heap_down)

declare nextPair.simps [simp del]

definition mg_add :: "grid_ops \<Rightarrow> (float64 \<Rightarrow> word64) \<Rightarrow> box \<Rightarrow> merger \<Rightarrow> nat \<times> merger" where
  "mg_add A bits b m =
     (let i = length (mg_boxes m);
          m = mg_index bits i (m\<lparr>mg_boxes := mg_boxes m @ [b], mg_live := mg_live m @ [True]\<rparr>)
      in (i, m\<lparr>mg_grid := grid_add A bits i b (mg_grid m)\<rparr>))"

definition absorbOne :: "(float64 \<Rightarrow> word64) \<Rightarrow> nat \<Rightarrow> nat \<Rightarrow> merger \<Rightarrow> merger" where
  "absorbOne bits u c m =
     (if c = u \<or> \<not> mg_live m ! c \<or> \<not> subsumes (mg_boxes m ! u) (mg_boxes m ! c) then m
      else mg_kill bits c (m\<lparr>mg_boxes := (mg_boxes m)[u :=
        (mg_boxes m ! u)\<lparr>Meta := meta_Union (Meta (mg_boxes m ! u)) (Meta (mg_boxes m ! c))\<rparr>]\<rparr>))"

definition mg_absorb :: "grid_ops \<Rightarrow> (float64 \<Rightarrow> word64) \<Rightarrow> nat \<Rightarrow> merger \<Rightarrow> merger" where
  "mg_absorb A bits u m =
     (if mg_disjoint m then m else fold (absorbOne bits u) (mg_candidates A bits u m) m)"

definition mg_merge :: "grid_ops \<Rightarrow> (float64 \<Rightarrow> word64) \<Rightarrow> nat \<times> nat \<Rightarrow> merger \<Rightarrow> merger" where
  "mg_merge A bits p m =
     (let merged = (case mergePair (mg_boxes m ! fst p) (mg_boxes m ! snd p) of None \<Rightarrow> zero_box | Some b \<Rightarrow> b);
          m = mg_kill bits (snd p) (mg_kill bits (fst p) m);
          (u, m) = mg_add A bits merged m
      in offer bits u (mg_absorb A bits u m))"

definition mg_result :: "merger \<Rightarrow> box list" where
  "mg_result m = sortBoxes (map (\<lambda>i. mg_boxes m ! i) (filter (\<lambda>i. mg_live m ! i) [0..<length (mg_boxes m)]))"

partial_function (option) mg_run :: "grid_ops \<Rightarrow> (float64 \<Rightarrow> word64) \<Rightarrow> merger \<Rightarrow> box list option" where
  "mg_run A bits m =
     (case nextPair m of
        (None, m) \<Rightarrow> Some (mg_result m)
      | (Some p, m) \<Rightarrow> mg_run A bits (mg_merge A bits p m))"

definition newMerger :: "grid_ops \<Rightarrow> (float64 \<Rightarrow> word64) \<Rightarrow> box list \<Rightarrow> merger" where
  "newMerger A bits boxes =
     (let m = \<lparr>mg_boxes = boxes, mg_live = replicate (length boxes) False, mg_buckets = (\<lambda>_. []),
               mg_grid = newCoverGrid A bits boxes (length (BMin (boxes ! 0))), mg_pairs = [],
               mg_dims = length (BMin (boxes ! 0)), mg_disjoint = False\<rparr>;
          m = fold (\<lambda>i m.
              if Box_Empty (mg_boxes m ! i) then m\<lparr>mg_live := (mg_live m)[i := False]\<rparr>
              else mg_index bits i (m\<lparr>mg_live := (mg_live m)[i := True]\<rparr>)) [0..<length boxes] m;
          m = mg_dedupe A bits m;
          m = m\<lparr>mg_disjoint := detectDisjoint A bits m\<rparr>
      in fold (\<lambda>i m. if mg_live m ! i then offer bits i m else m) [0..<length boxes] m)"

definition indexedMergeThreshold :: nat where
  "indexedMergeThreshold = 2048"

definition MergeAdjacent :: "grid_ops \<Rightarrow> (float64 \<Rightarrow> word64) \<Rightarrow> box list \<Rightarrow> box list option" where
  "MergeAdjacent A bits boxes =
     (if length boxes < indexedMergeThreshold then scanMerge bits boxes
      else mg_run A bits (newMerger A bits boxes))"

subsection \<open>Merging reads the geometry alone, and is symmetric\<close>

lemma same_axis_geo: "same_geo n a a' \<Longrightarrow> i < n \<Longrightarrow>
    BMin a ! i = BMin a' ! i \<and> BMax a ! i = BMax a' ! i \<and> loBound a i = loBound a' i \<and> hiBound a i = hiBound a' i"
  by (auto simp: same_geo_def axis_def)

lemma mergePair_geo:
  assumes "same_geo n a a'" "same_geo n b b'"
  shows "mergePair a b = None \<longleftrightarrow> mergePair a' b' = None"
proof -
  note fa = same_axis_geo [OF assms(1)] and fb = same_axis_geo [OF assms(2)]
  have len: "length (BMin a) = n" "length (BMin b) = n" "length (BMin a') = n" "length (BMin b') = n"
    using assms good_boxD(2) by (auto simp: same_geo_def)
  have "singleDiffAxis_from a b ds diff = singleDiffAxis_from a' b' ds diff" if "set ds \<subseteq> {..<n}" for ds diff
    using that by (induction ds arbitrary: diff) (simp_all add: fa fb cong: if_cong)
  then have ax: "singleDiffAxis a b = singleDiffAxis a' b'" by (simp add: singleDiffAxis_def len atLeast_upt lessThan_atLeast0)
  show ?thesis
  proof (cases "singleDiffAxis a' b'")
    case None
    then show ?thesis by (simp add: mergePair_def ax)
  next
    case (Some d)
    then have "d < n" using singleDiffAxis_from_Some [of a' b' "[0..<length (BMin a')]" None d] len by (auto simp: singleDiffAxis_def)
    then show ?thesis using Some fa fb
      by (cases "f_eq (BMax b' ! d) (BMin a' ! d)") (simp_all add: mergePair_def ax len)
  qed
qed

lemma singleDiffAxis_sym: "length (BMin a) = length (BMin b) \<Longrightarrow> singleDiffAxis a b = singleDiffAxis b a"
proof -
  assume len: "length (BMin a) = length (BMin b)"
  have "f_eq x y = f_eq y x" for x y by (auto simp: f_eq_def)
  then have "singleDiffAxis_from a b ds diff = singleDiffAxis_from b a ds diff" for ds diff
    by (induction ds arbitrary: diff) (auto cong: if_cong)
  then show ?thesis using len by (simp add: singleDiffAxis_def)
qed

lemma mergePair_sym:
  assumes "good_box n a" "good_box n b"
  shows "mergePair a b = mergePair b a"
proof -
  have len: "length (BMin a) = length (BMin b)" "length (BMin a) = n" using assms good_boxD(2) by auto
  note sym = singleDiffAxis_sym [OF len(1)]
  have fs: "f_eq x y = f_eq y x" for x y by (auto simp: f_eq_def)
  show ?thesis
  proof (cases "singleDiffAxis b a")
    case None
    then show ?thesis by (simp add: mergePair_def sym)
  next
    case (Some d)
    then have d: "d < n"
      using singleDiffAxis_from_Some [of b a "[0..<length (BMin b)]" None d] len by (auto simp: singleDiffAxis_def)
    have diff: "\<not> (f_eq (BMin b ! d) (BMin a ! d) \<and> f_eq (BMax b ! d) (BMax a ! d))"
    proof -
      have "diff = Some d \<or> \<not> (f_eq (BMin b ! d) (BMin a ! d) \<and> f_eq (BMax b ! d) (BMax a ! d))"
        if "singleDiffAxis_from b a ds diff = Some d" for ds diff
        using that by (induction ds arbitrary: diff) (auto split: if_splits)
      then show ?thesis using Some by (auto simp: singleDiffAxis_def)
    qed
    obtain al ah bl bh where v: "BMin a ! d = Fin al" "BMax a ! d = Fin ah" "al \<le> ah" "BMin b ! d = Fin bl" "BMax b ! d = Fin bh" "bl \<le> bh"
      using box_ok_axis [OF good_boxD(1) [OF assms(1)] d] box_ok_axis [OF good_boxD(1) [OF assms(2)] d] by metis
    have "\<not> (bh = al \<and> ah = bl)" using diff v by auto
    then show ?thesis using Some v len
      by (cases "bh = al"; cases "ah = bl") (simp_all add: mergePair_def sym)
  qed
qed

lemma bspan_spans_meet:
  assumes a: "good_box n a" and b: "good_box n b" and m: "bspan a \<inter> bspan b \<noteq> {}"
  shows "spans_meet n a b"
  unfolding spans_meet_def
proof (intro allI impI)
  fix d assume d: "d < n"
  obtain ps where ps: "ps \<in> bspan a" "ps \<in> bspan b" using m by blast
  have s: "ilo (axis a d) \<le> ps ! d" "ps ! d < ihi (axis a d)" "ilo (axis b d) \<le> ps ! d" "ps ! d < ihi (axis b d)"
    using ps d by (auto simp: bspan_def fspan_def good_boxD [OF a] good_boxD [OF b])
  have le: "BMin p ! d \<le> BMax q ! d" if "ilo (axis p d) < ihi (axis q d)" for p q
    using that by (auto simp: axis_def fine_def less_finePoint_def less_eq_finePoint_def split: if_splits)
  show "BMin a ! d \<le> BMax a ! d \<and> BMin b ! d \<le> BMax b ! d \<and> BMin a ! d \<le> BMax b ! d \<and> BMin b ! d \<le> BMax a ! d"
    using s by (intro conjI le) (meson order_le_less_trans)+
qed

lemma mergePair_corners:
  assumes "good_box n a" "good_box n b" "mergePair a b = Some u" "corners_in C n a" "corners_in C n b"
  shows "corners_in C n u"
  by (rule mergePair_cases [OF assms(3,1)]) (use assms(4,5) in \<open>auto simp: corners_in_def\<close>)

subsection \<open>The indexes agree with the live boxes\<close>

definition alive :: "merger \<Rightarrow> nat \<Rightarrow> bool" where
  "alive m i \<longleftrightarrow> i < length (mg_boxes m) \<and> mg_live m ! i"

definition merger_ok :: "grid_ops \<Rightarrow> (float64 \<Rightarrow> word64) \<Rightarrow> nat \<Rightarrow> (nat \<Rightarrow> float64 set) \<Rightarrow> merger \<Rightarrow> bool" where
  "merger_ok A bits n C m \<longleftrightarrow>
     length (mg_live m) = length (mg_boxes m) \<and> mg_dims m = n \<and>
     (\<forall>i. alive m i \<longrightarrow> good_box n (mg_boxes m ! i) \<and> corners_in C n (mg_boxes m ! i)) \<and>
     (\<forall>k i. count_list (mg_buckets m k) i = (if alive m i then key_count bits (mg_boxes m ! i) [0..<n] k else 0)) \<and>
     (\<exists>R. Collect (alive m) \<subseteq> R \<and> grid_ok A bits (length (mg_boxes m)) R ((!) (mg_boxes m)) (mg_grid m)) \<and>
     length (g_cell (mg_grid m)) = n \<and> keeps_order A (g_cell (mg_grid m)) (g_origin (mg_grid m)) C"

lemma merger_okD:
  assumes "merger_ok A bits n C m"
  shows "length (mg_live m) = length (mg_boxes m)" "mg_dims m = n"
    "alive m i \<Longrightarrow> good_box n (mg_boxes m ! i)" "alive m i \<Longrightarrow> corners_in C n (mg_boxes m ! i)"
    "count_list (mg_buckets m k) i = (if alive m i then key_count bits (mg_boxes m ! i) [0..<n] k else 0)"
    "length (g_cell (mg_grid m)) = n" "keeps_order A (g_cell (mg_grid m)) (g_origin (mg_grid m)) C"
  using assms by (auto simp: merger_ok_def)

text \<open>What reads the geometry alone: a change of metadata goes unnoticed.\<close>

definition same_shape :: "merger \<Rightarrow> merger \<Rightarrow> bool" where
  "same_shape m m' \<longleftrightarrow> map strip (mg_boxes m) = map strip (mg_boxes m')"

lemma same_shape_nth:
  assumes "same_shape m m'"
  shows "length (mg_boxes m) = length (mg_boxes m')"
    "i < length (mg_boxes m) \<Longrightarrow> strip (mg_boxes m ! i) = strip (mg_boxes m' ! i)"
  using assms unfolding same_shape_def by (metis length_map, metis length_map nth_map)

lemma strip_eq_fields:
  assumes "strip a = strip b"
  shows "BMin a = BMin b" "BMax a = BMax b" "loBound a = loBound b" "hiBound a = hiBound b"
    "good_box n a = good_box n b" "bspan a = bspan b" "box_key a = box_key b"
    "box_Less a c = box_Less b c" "box_Less c a = box_Less c b" "subsumes a c = subsumes b c" "subsumes c a = subsumes c b"
proof -
  have "a\<lparr>Meta := NoMeta\<rparr> = b\<lparr>Meta := NoMeta\<rparr>" using assms by (simp add: strip_def)
  then show f: "BMin a = BMin b" "BMax a = BMax b" and "loBound a = loBound b" "hiBound a = hiBound b"
    by (cases a; cases b; simp add: loBound_def hiBound_def fun_eq_iff)+
  show "good_box n a = good_box n b" "bspan a = bspan b" "box_key a = box_key b"
    "box_Less a c = box_Less b c" "box_Less c a = box_Less c b" "subsumes a c = subsumes b c" "subsumes c a = subsumes c b"
    using assms strip_simps by metis+
qed

lemma strip_upd: "map strip (xs[i := (xs ! i)\<lparr>Meta := x\<rparr>]) = map strip xs"
proof (rule nth_equalityI)
  fix j assume "j < length (map strip (xs[i := (xs ! i)\<lparr>Meta := x\<rparr>]))"
  then show "map strip (xs[i := (xs ! i)\<lparr>Meta := x\<rparr>]) ! j = map strip xs ! j" by (cases "i = j") simp_all
qed simp

lemma crossSectionKey_strip:
  assumes "strip a = strip b"
  shows "crossSectionKey bits a d = crossSectionKey bits b d"
  by (simp add: crossSectionKey_def strip_eq_fields [OF assms] cong: if_cong)

lemma binRange_strip:
  assumes "strip a = strip b"
  shows "binRange A g a = binRange A g b"
proof -
  have "binRange_from A g a ds r = binRange_from A g b ds r" for ds r
    by (induction ds arbitrary: r) (simp_all add: strip_eq_fields [OF assms] Let_def cong: if_cong)
  then show ?thesis by (simp add: binRange_def)
qed

lemma grid_ok_strip:
  assumes "map strip bs = map strip bs'" "grid_ok A bits (length bs) R ((!) bs) g"
  shows "grid_ok A bits (length bs') R ((!) bs') g"
proof -
  have len: "length bs = length bs'" using assms(1) by (metis length_map)
  have "strip (bs ! i) = strip (bs' ! i)" if "i < length bs" for i
    using assms(1) that len by (metis nth_map)
  then have b: "binRange A g (bs ! i) = binRange A g (bs' ! i)" if "i < length bs" for i
    using that binRange_strip by blast
  have "R \<subseteq> {..<length bs}" using assms(2) by (simp add: grid_ok_def)
  then have "{i \<in> R. binRange A g (bs ! i) = None} = {i \<in> R. binRange A g (bs' ! i) = None}" using b by auto
  moreover have "keys_of A bits g (bs ! i) = keys_of A bits g (bs' ! i)" if "i < length bs" for i
    using b [OF that] by (simp add: keys_of_def)
  ultimately show ?thesis using assms(2) unfolding grid_ok_def len [symmetric] by auto
qed

lemma merger_ok_strip:
  assumes "merger_ok A bits n C m" "map strip bs = map strip (mg_boxes m)"
  shows "merger_ok A bits n C (m\<lparr>mg_boxes := bs\<rparr>)"
proof -
  let ?m = "m\<lparr>mg_boxes := bs\<rparr>"
  have len: "length bs = length (mg_boxes m)" using assms(2) by (metis length_map)
  have st: "strip (bs ! i) = strip (mg_boxes m ! i)" if "i < length bs" for i
    using assms(2) that len by (metis nth_map)
  have al: "alive ?m i = alive m i" for i by (simp add: alive_def len)
  have f: "good_box n (bs ! i) = good_box n (mg_boxes m ! i)" "corners_in C n (bs ! i) = corners_in C n (mg_boxes m ! i)"
    "key_count bits (bs ! i) [0..<n] k = key_count bits (mg_boxes m ! i) [0..<n] k" if "alive m i" for i k
    using strip_eq_fields [OF st] crossSectionKey_strip [OF st] that
    by (simp_all add: corners_in_def key_count_def alive_def len)
  obtain R where R: "Collect (alive m) \<subseteq> R" "grid_ok A bits (length (mg_boxes m)) R ((!) (mg_boxes m)) (mg_grid m)"
    using assms(1) by (auto simp: merger_ok_def)
  have "grid_ok A bits (length bs) R ((!) bs) (mg_grid m)" using grid_ok_strip [OF assms(2) [symmetric] R(2)] .
  with R(1) have "\<exists>R. Collect (alive m) \<subseteq> R \<and> grid_ok A bits (length bs) R ((!) bs) (mg_grid m)" by blast
  then show ?thesis using assms(1) unfolding merger_ok_def al by (simp add: f len)
qed

lemma bucket_add_count:
  "count_list (fold (\<lambda>d bk. let k = crossSectionKey bits b d in bk(k := bk k @ [i])) ds bk k) j =
     count_list (bk k) j + (if j = i then key_count bits b ds k else 0)"
  by (induction ds arbitrary: bk) (auto simp: Let_def key_count_def)

lemma bucket_remove_count:
  "count_list (fold (\<lambda>d bk. let k = crossSectionKey bits b d in bk(k := remove1 i (bk k))) ds bk k) j =
     count_list (bk k) j - (if j = i then key_count bits b ds k else 0)"
  by (induction ds arbitrary: bk) (auto simp: Let_def key_count_def count_remove1)

lemma mg_kill_fields [simp]:
  "mg_live (mg_kill bits i m) = (mg_live m)[i := False]" "mg_dims (mg_kill bits i m) = mg_dims m"
  "mg_pairs (mg_kill bits i m) = mg_pairs m" "mg_disjoint (mg_kill bits i m) = mg_disjoint m"
  "map strip (mg_boxes (mg_kill bits i m)) = map strip (mg_boxes m)"
  "length (mg_boxes (mg_kill bits i m)) = length (mg_boxes m)"
  by (simp_all add: mg_kill_def mg_unindex_def Let_def strip_upd)

lemma alive_kill: "length (mg_live m) = length (mg_boxes m) \<Longrightarrow> alive (mg_kill bits i m) j \<longleftrightarrow> alive m j \<and> j \<noteq> i"
  by (cases "j = i") (auto simp: alive_def)

lemma kill_ok:
  assumes ok: "merger_ok A bits n C m" and i: "alive m i"
  shows "merger_ok A bits n C (mg_kill bits i m)"
proof -
  note o = merger_okD [OF ok]
  let ?m = "mg_unindex bits i (m\<lparr>mg_live := (mg_live m)[i := False]\<rparr>)"
  let ?m' = "?m\<lparr>mg_grid := grid_remove i (mg_grid m)\<rparr>"
  have f: "mg_boxes ?m' = mg_boxes m" "mg_live ?m' = (mg_live m)[i := False]" "mg_dims ?m' = n" "mg_grid ?m' = grid_remove i (mg_grid m)"
    by (simp_all add: mg_unindex_def o(2))
  have al: "alive ?m' j \<longleftrightarrow> alive m j \<and> j \<noteq> i" for j using o(1) by (cases "j = i") (auto simp: alive_def f)
  obtain R where R: "Collect (alive m) \<subseteq> R" "grid_ok A bits (length (mg_boxes m)) R ((!) (mg_boxes m)) (mg_grid m)"
    using ok by (auto simp: merger_ok_def)
  have "i \<in> R" using R(1) i by auto
  from grid_remove_ok [OF R(2) this]
  have g: "grid_ok A bits (length (mg_boxes m)) (R - {i}) ((!) (mg_boxes m)) (grid_remove i (mg_grid m))" .
  have sub: "Collect (alive ?m') \<subseteq> R - {i}" using R(1) al by auto
  have cnt: "count_list (mg_buckets ?m' k) j = (if alive ?m' j then key_count bits (mg_boxes m ! j) [0..<n] k else 0)" for k j
  proof -
    have "count_list (mg_buckets ?m' k) j = count_list (mg_buckets m k) j - (if j = i then key_count bits (mg_boxes m ! i) [0..<n] k else 0)"
      by (simp add: mg_unindex_def bucket_remove_count o(2))
    then show ?thesis unfolding al o(5) using i by (cases "j = i") simp_all
  qed
  have "merger_ok A bits n C ?m'"
    unfolding merger_ok_def f(1,3,4) grid_remove_shape
  proof (intro conjI allI impI exI [of _ "R - {i}"])
    show "length (mg_live ?m') = length (mg_boxes m)" using o(1) f(2) by simp
    show "count_list (mg_buckets ?m' k) j = (if alive ?m' j then key_count bits (mg_boxes m ! j) [0..<n] k else 0)" for k j
      by (rule cnt)
  qed (use g sub o al in blast)+
  moreover have "mg_kill bits i m = ?m'\<lparr>mg_boxes := (mg_boxes m)[i := (mg_boxes m ! i)\<lparr>Meta := NoMeta\<rparr>]\<rparr>"
    by (simp add: mg_kill_def Let_def mg_unindex_def)
  ultimately show ?thesis using merger_ok_strip strip_upd f(1) by metis
qed

lemma add_ok:
  assumes ok: "merger_ok A bits n C m" and b: "good_box n b" "corners_in C n b" and a: "mg_add A bits b m = (u, m')"
  shows "merger_ok A bits n C m'" "u = length (mg_boxes m)" "mg_boxes m' = mg_boxes m @ [b]" "mg_live m' = mg_live m @ [True]"
    "mg_pairs m' = mg_pairs m" "mg_disjoint m' = mg_disjoint m" "alive m' j \<longleftrightarrow> alive m j \<or> j = u"
proof -
  note o = merger_okD [OF ok]
  let ?N = "length (mg_boxes m)"
  have m': "u = ?N" "m' = (mg_index bits ?N (m\<lparr>mg_boxes := mg_boxes m @ [b], mg_live := mg_live m @ [True]\<rparr>))
      \<lparr>mg_grid := grid_add A bits ?N b (mg_grid m)\<rparr>"
    using a by (auto simp: mg_add_def Let_def mg_index_def)
  show f: "u = ?N" "mg_boxes m' = mg_boxes m @ [b]" "mg_live m' = mg_live m @ [True]" "mg_pairs m' = mg_pairs m" "mg_disjoint m' = mg_disjoint m"
    by (simp_all add: m' mg_index_def)
  have g: "mg_grid m' = grid_add A bits ?N b (mg_grid m)" "mg_dims m' = n" by (simp_all add: m' mg_index_def o(2))
  show al: "alive m' j \<longleftrightarrow> alive m j \<or> j = u" for j using o(1) by (auto simp: alive_def f nth_append less_Suc_eq)
  obtain R where R: "Collect (alive m) \<subseteq> R" "grid_ok A bits ?N R ((!) (mg_boxes m)) (mg_grid m)"
    using ok by (auto simp: merger_ok_def)
  have RN: "R \<subseteq> {..<?N}" using R(2) by (simp add: grid_ok_def)
  have "grid_ok A bits (max ?N (?N + 1)) (insert ?N R) ((!) (mg_boxes m @ [b])) (grid_add A bits ?N b (mg_grid m))"
    by (rule grid_add_ok [OF R(2)]) (use RN in \<open>auto simp: nth_append\<close>)
  then have "grid_ok A bits (length (mg_boxes m')) (insert ?N R) ((!) (mg_boxes m')) (mg_grid m')" by (simp add: f g max_def)
  moreover have "Collect (alive m') \<subseteq> insert ?N R" using R(1) al f(1) by auto
  moreover have nb: "mg_boxes m' ! j = (if j = ?N then b else mg_boxes m ! j)" if "alive m' j" for j
    using that by (auto simp: al f(1,2) alive_def nth_append)
  moreover have "count_list (mg_buckets m' k) j = (if alive m' j then key_count bits (mg_boxes m' ! j) [0..<n] k else 0)" for k j
  proof -
    have na: "\<not> alive m ?N" by (simp add: alive_def)
    have "count_list (mg_buckets m' k) j = count_list (mg_buckets m k) j + (if j = ?N then key_count bits b [0..<n] k else 0)"
      by (simp add: m' mg_index_def bucket_add_count o(2) nth_append)
    then show ?thesis using o(5) [of k j] na nb [of j] by (auto simp: al f(1))
  qed
  ultimately show "merger_ok A bits n C m'"
    unfolding merger_ok_def using o b al f(1) by (auto simp: f(2,3) g nb grid_add_shape)
qed

text \<open>Every live box that shares a point with a given box is among the candidates for it.\<close>

lemma candidates_complete:
  assumes ok: "merger_ok A bits n C m" and c: "alive m c" and i: "good_box n (mg_boxes m ! i)" "corners_in C n (mg_boxes m ! i)"
    and o: "bspan (mg_boxes m ! c) \<inter> bspan (mg_boxes m ! i) \<noteq> {}"
  shows "c \<in> set (mg_candidates A bits i m)"
proof -
  note d = merger_okD [OF ok]
  obtain R where R: "Collect (alive m) \<subseteq> R" "grid_ok A bits (length (mg_boxes m)) R ((!) (mg_boxes m)) (mg_grid m)"
    using ok by (auto simp: merger_ok_def)
  have "c \<in> R" using R(1) c by auto
  from overlapping_complete [OF R(2) d(7,6) d(4) [OF c] i(2) bspan_spans_meet [OF d(3) [OF c] i(1) o] this]
  show ?thesis using c by (auto simp: mg_candidates_def allIDs_def alive_def split: prod.splits)
qed

lemma partners_iff:
  assumes ok: "merger_ok A bits n C m" and i: "alive m i"
  shows "c \<in> set (partners bits i m) \<longleftrightarrow> alive m c \<and> c \<noteq> i \<and> mergePair (mg_boxes m ! i) (mg_boxes m ! c) \<noteq> None"
proof -
  note o = merger_okD [OF ok]
  have mem: "c \<in> set (mg_buckets m k) \<longleftrightarrow> alive m c \<and> (\<exists>d<n. crossSectionKey bits (mg_boxes m ! c) d = k)" for k
  proof -
    have "c \<in> set (mg_buckets m k) \<longleftrightarrow> count_list (mg_buckets m k) c \<noteq> 0" by (simp add: count_list_0_iff)
    then show ?thesis by (auto simp: o(5) key_count_def filter_empty_conv)
  qed
  have "\<exists>d<n. crossSectionKey bits (mg_boxes m ! c) d = crossSectionKey bits (mg_boxes m ! i) d"
    if "mergePair (mg_boxes m ! i) (mg_boxes m ! c) \<noteq> None"
    using mergePair_key [OF that, of bits] good_boxD(2) [OF o(3) [OF i]] by metis
  moreover have "c \<in> set (partners bits i m) \<longleftrightarrow> (\<exists>d<n. c \<in> set (mg_buckets m (crossSectionKey bits (mg_boxes m ! i) d))) \<and>
      c \<noteq> i \<and> mg_live m ! c \<and> mergePair (mg_boxes m ! i) (mg_boxes m ! c) \<noteq> None"
    by (auto simp: partners_def o(2))
  ultimately show ?thesis unfolding mem alive_def by blast
qed

lemma candidates_range:
  assumes "merger_ok A bits n C m"
  shows "set (mg_candidates A bits i m) \<subseteq> {..<length (mg_boxes m)}"
proof -
  obtain R where R: "grid_ok A bits (length (mg_boxes m)) R ((!) (mg_boxes m)) (mg_grid m)"
    using assms by (auto simp: merger_ok_def)
  have "c < length (mg_boxes m)" if "c \<in> set (g_bins (mg_grid m) k)" for c k
  proof -
    have "count_list (g_bins (mg_grid m) k) c \<noteq> 0" using that by (simp add: count_list_0_iff)
    then show ?thesis using R by (auto simp: grid_ok_def split: if_splits)
  qed
  moreover have "set (g_big (mg_grid m)) \<subseteq> {..<length (mg_boxes m)}" using R by (auto simp: grid_ok_def)
  ultimately show ?thesis
    by (auto simp: mg_candidates_def overlapping_def allIDs_def split: option.split prod.split)
qed

text \<open>Absorbing kills the candidates that the union covers.\<close>

definition kills :: "merger \<Rightarrow> merger \<Rightarrow> nat set \<Rightarrow> bool" where
  "kills m m' K \<longleftrightarrow> map strip (mg_boxes m') = map strip (mg_boxes m) \<and> mg_pairs m' = mg_pairs m \<and>
     mg_disjoint m' = mg_disjoint m \<and> (\<forall>i. alive m' i \<longleftrightarrow> alive m i \<and> i \<notin> K)"

lemma absorbOne_spec:
  assumes ok: "merger_ok A bits n C m" and u: "alive m u" and c: "c < length (mg_boxes m)"
  defines "K \<equiv> {i. i = c \<and> c \<noteq> u \<and> subsumes (mg_boxes m ! u) (mg_boxes m ! c)}"
  shows "merger_ok A bits n C (absorbOne bits u c m)" "kills m (absorbOne bits u c m) K"
proof -
  have len: "length (mg_live m) = length (mg_boxes m)" by (rule merger_okD(1) [OF ok])
  have "merger_ok A bits n C (absorbOne bits u c m) \<and> kills m (absorbOne bits u c m) K"
  proof (cases "c \<noteq> u \<and> mg_live m ! c \<and> subsumes (mg_boxes m ! u) (mg_boxes m ! c)")
    case True
    let ?m = "m\<lparr>mg_boxes := (mg_boxes m)[u := (mg_boxes m ! u)\<lparr>Meta := meta_Union (Meta (mg_boxes m ! u)) (Meta (mg_boxes m ! c))\<rparr>]\<rparr>"
    have m': "absorbOne bits u c m = mg_kill bits c ?m" using True by (simp add: absorbOne_def)
    have ok': "merger_ok A bits n C ?m" by (rule merger_ok_strip [OF ok strip_upd])
    have al: "alive ?m j \<longleftrightarrow> alive m j" for j by (simp add: alive_def)
    have "alive ?m c" using True c by (simp add: alive_def)
    then have "merger_ok A bits n C (mg_kill bits c ?m)" by (rule kill_ok [OF ok'])
    moreover have "alive (mg_kill bits c ?m) j \<longleftrightarrow> alive m j \<and> j \<noteq> c" for j using alive_kill [of ?m] len al by simp
    ultimately show ?thesis unfolding m' kills_def K_def using True by (simp add: strip_upd)
  next
    case False
    then have "absorbOne bits u c m = m" by (auto simp: absorbOne_def)
    then show ?thesis using ok False c by (auto simp: kills_def K_def alive_def)
  qed
  then show "merger_ok A bits n C (absorbOne bits u c m)" "kills m (absorbOne bits u c m) K" by blast+
qed

lemma kills_nth:
  assumes "kills m m' K"
  shows "length (mg_boxes m') = length (mg_boxes m)"
    "i < length (mg_boxes m) \<Longrightarrow> strip (mg_boxes m' ! i) = strip (mg_boxes m ! i)"
    "alive m i \<Longrightarrow> strip (mg_boxes m' ! i) = strip (mg_boxes m ! i)"
proof -
  have e: "map strip (mg_boxes m') = map strip (mg_boxes m)" using assms by (simp add: kills_def)
  then show l: "length (mg_boxes m') = length (mg_boxes m)" by (metis length_map)
  show n: "strip (mg_boxes m' ! i) = strip (mg_boxes m ! i)" if "i < length (mg_boxes m)" for i
    using e l that by (metis nth_map)
  show "alive m i \<Longrightarrow> strip (mg_boxes m' ! i) = strip (mg_boxes m ! i)" using n by (simp add: alive_def)
qed

lemma kills_trans: "kills m m1 K \<Longrightarrow> kills m1 m2 K' \<Longrightarrow> kills m m2 (K \<union> K')"
  by (auto simp: kills_def)

lemma absorb_fold:
  assumes "merger_ok A bits n C m" "alive m u" "set cs \<subseteq> {..<length (mg_boxes m)}"
  shows "merger_ok A bits n C (fold (absorbOne bits u) cs m) \<and>
    kills m (fold (absorbOne bits u) cs m) {i \<in> set cs. i \<noteq> u \<and> subsumes (mg_boxes m ! u) (mg_boxes m ! i)}"
  using assms
proof (induction cs arbitrary: m)
  case (Cons c cs)
  let ?m = "absorbOne bits u c m"
  have c: "c < length (mg_boxes m)" using Cons.prems(3) by simp
  note s = absorbOne_spec [OF Cons.prems(1,2) c]
  note k = kills_nth [OF s(2)]
  have u: "alive ?m u" using s(2) Cons.prems(2) by (auto simp: kills_def)
  have "set cs \<subseteq> {..<length (mg_boxes ?m)}" using Cons.prems(3) k(1) by simp
  note ih = Cons.IH [OF s(1) u this]
  have sub: "subsumes (mg_boxes ?m ! u) (mg_boxes ?m ! i) = subsumes (mg_boxes m ! u) (mg_boxes m ! i)" if "i < length (mg_boxes m)" for i
    using strip_eq_fields(10,11) k(2) [OF that] k(3) [OF Cons.prems(2)] by metis
  have e1: "{i \<in> set cs. i \<noteq> u \<and> subsumes (mg_boxes ?m ! u) (mg_boxes ?m ! i)} =
      {i \<in> set cs. i \<noteq> u \<and> subsumes (mg_boxes m ! u) (mg_boxes m ! i)}"
    using sub Cons.prems(3) by auto
  have e2: "{i. i = c \<and> c \<noteq> u \<and> subsumes (mg_boxes m ! u) (mg_boxes m ! c)} \<union>
      {i \<in> set cs. i \<noteq> u \<and> subsumes (mg_boxes m ! u) (mg_boxes m ! i)} =
      {i \<in> set (c # cs). i \<noteq> u \<and> subsumes (mg_boxes m ! u) (mg_boxes m ! i)}" by auto
  show ?case using ih kills_trans [OF s(2) ih [THEN conjunct2, unfolded e1], unfolded e2] by simp
qed (simp add: kills_def)

lemma mg_absorb_spec:
  assumes ok: "merger_ok A bits n C m" and u: "alive m u"
    and dis: "mg_disjoint m \<Longrightarrow> \<forall>i. alive m i \<longrightarrow> i \<noteq> u \<longrightarrow> \<not> subsumes (mg_boxes m ! u) (mg_boxes m ! i)"
  shows "merger_ok A bits n C (mg_absorb A bits u m)"
    "kills m (mg_absorb A bits u m) {i. alive m i \<and> i \<noteq> u \<and> subsumes (mg_boxes m ! u) (mg_boxes m ! i)}"
proof -
  let ?K = "{i. alive m i \<and> i \<noteq> u \<and> subsumes (mg_boxes m ! u) (mg_boxes m ! i)}"
  note o = merger_okD [OF ok]
  have "merger_ok A bits n C (mg_absorb A bits u m) \<and> kills m (mg_absorb A bits u m) ?K"
  proof (cases "mg_disjoint m")
    case True
    then show ?thesis using ok dis by (auto simp: mg_absorb_def kills_def)
  next
    case False
    note f = absorb_fold [OF ok u candidates_range [OF ok], of u]
    have "i \<in> set (mg_candidates A bits u m)" if "i \<in> ?K" for i
    proof (rule candidates_complete [OF ok _ o(3,4) [OF u]])
      have i: "alive m i" "subsumes (mg_boxes m ! u) (mg_boxes m ! i)" using that by auto
      then have "bspan (mg_boxes m ! i) \<subseteq> bspan (mg_boxes m ! u)" using subsumes_iff_bspan [OF o(3) o(3) [OF u]] by blast
      then show "bspan (mg_boxes m ! i) \<inter> bspan (mg_boxes m ! u) \<noteq> {}" using good_box_bspan [OF o(3) [OF i(1)]] by blast
    qed (use that u in auto)
    then have "kills m m' {i \<in> set (mg_candidates A bits u m). i \<noteq> u \<and> subsumes (mg_boxes m ! u) (mg_boxes m ! i)} \<longleftrightarrow> kills m m' ?K" for m'
      unfolding kills_def by blast
    then show ?thesis using f False by (simp add: mg_absorb_def)
  qed
  then show "merger_ok A bits n C (mg_absorb A bits u m)" "kills m (mg_absorb A bits u m) ?K" by blast+
qed

subsection \<open>The heap of pairs\<close>

definition ok_pair :: "nat \<Rightarrow> box list \<Rightarrow> nat \<times> nat \<Rightarrow> bool" where
  "ok_pair n bs p \<longleftrightarrow> fst p < length bs \<and> snd p < length bs \<and> good_box n (bs ! fst p) \<and> good_box n (bs ! snd p) \<and>
     box_key (bs ! fst p) \<le> box_key (bs ! snd p)"

definition pair_key :: "box list \<Rightarrow> nat \<times> nat \<Rightarrow> (float64 \<times> float64 \<times> bool \<times> bool) list \<times> (float64 \<times> float64 \<times> bool \<times> bool) list" where
  "pair_key bs p = (box_key (bs ! fst p), box_key (bs ! snd p))"

lemma pairLess_keys:
  assumes "ok_pair n bs p" "ok_pair n bs q"
  shows "pairLess bs p q \<longleftrightarrow> box_key (bs ! fst p) < box_key (bs ! fst q) \<or>
    box_key (bs ! fst p) = box_key (bs ! fst q) \<and> box_key (bs ! snd p) < box_key (bs ! snd q)"
  using assms unfolding pairLess_def compareBoxes_def ok_pair_def
  by (auto simp: box_Less_keys [of n] Let_def)

interpretation pair_order: weak_less "pairLess bs" "ok_pair n bs" for bs n
proof unfold_locales
  fix x y z
  show "ok_pair n bs x \<Longrightarrow> ok_pair n bs y \<Longrightarrow> pairLess bs x y \<Longrightarrow> \<not> pairLess bs y x"
    by (auto simp: pairLess_keys [of n])
  show "ok_pair n bs x \<Longrightarrow> ok_pair n bs y \<Longrightarrow> ok_pair n bs z \<Longrightarrow> pairLess bs x z \<Longrightarrow> pairLess bs x y \<or> pairLess bs y z"
    by (auto simp: pairLess_keys [of n])
qed

definition pairs_ok :: "nat \<Rightarrow> box list \<Rightarrow> (nat \<times> nat) list \<Rightarrow> bool" where
  "pairs_ok n bs ps \<longleftrightarrow> is_heap (pairLess bs) ps (length ps) \<and> (\<forall>p\<in>set ps. ok_pair n bs p)"

text \<open>New boxes and new metadata leave the order of the pairs alone.\<close>

lemma pairs_ok_mono:
  assumes "pairs_ok n bs ps" and "length bs \<le> length bs'" and st: "\<And>i. i < length bs \<Longrightarrow> strip (bs' ! i) = strip (bs ! i)"
  shows "pairs_ok n bs' ps"
proof -
  have f: "good_box n (bs' ! i) = good_box n (bs ! i)" "box_key (bs' ! i) = box_key (bs ! i)" if "i < length bs" for i
    using strip_eq_fields [OF st [OF that]] by simp_all
  have ok: "ok_pair n bs' p" "pair_key bs' p = pair_key bs p" if "ok_pair n bs p" for p
    using that f assms(2) by (auto simp: ok_pair_def pair_key_def)
  have less: "pairLess bs' p q = pairLess bs p q" if "ok_pair n bs p" "ok_pair n bs q" for p q
    using pairLess_keys [OF that] pairLess_keys [OF ok(1) [OF that(1)] ok(1) [OF that(2)]] ok(2) [OF that(1)] ok(2) [OF that(2)]
    by (simp add: pair_key_def)
  have "is_heap (pairLess bs') ps (length ps)"
    unfolding is_heap_def
  proof (intro allI impI)
    fix k assume k: "0 < k" "k < length ps"
    then have "(k - 1) div 2 < length ps" by auto
    with k assms(1) less [of "ps ! k" "ps ! ((k - 1) div 2)"] show "\<not> pairLess bs' (ps ! k) (ps ! ((k - 1) div 2))"
      by (simp add: pairs_ok_def is_heap_def)
  qed
  with assms(1) ok(1) show ?thesis by (auto simp: pairs_ok_def)
qed

lemma orderedPair_ok:
  assumes "a < length bs" "b < length bs" "good_box n (bs ! a)" "good_box n (bs ! b)"
  shows "ok_pair n bs (orderedPair bs a b)"
  using assms by (auto simp: ok_pair_def orderedPair_def box_Less_keys [of n] not_less)

lemma offer_spec:
  assumes ok: "merger_ok A bits n C m" and i: "alive m i" and p: "pairs_ok n (mg_boxes m) (mg_pairs m)"
  shows "offer bits i m = m\<lparr>mg_pairs := mg_pairs (offer bits i m)\<rparr>" "pairs_ok n (mg_boxes m) (mg_pairs (offer bits i m))"
    "set (mg_pairs (offer bits i m)) = set (mg_pairs m) \<union> orderedPair (mg_boxes m) i `
       {c. alive m c \<and> c \<noteq> i \<and> mergePair (mg_boxes m ! i) (mg_boxes m ! c) \<noteq> None}"
proof -
  let ?push = "\<lambda>c. heap_Push (pairLess (mg_boxes m)) (orderedPair (mg_boxes m) i c)"
  have "pairs_ok n (mg_boxes m) (fold ?push cs ps) \<and> set (fold ?push cs ps) = set ps \<union> orderedPair (mg_boxes m) i ` set cs"
    if "pairs_ok n (mg_boxes m) ps" "\<forall>c\<in>set cs. alive m c" for cs ps
    using that
  proof (induction cs arbitrary: ps)
    case (Cons c cs)
    have "ok_pair n (mg_boxes m) (orderedPair (mg_boxes m) i c)"
      using Cons.prems(2) i merger_okD(3) [OF ok] by (intro orderedPair_ok) (auto simp: alive_def)
    then have "pairs_ok n (mg_boxes m) (?push c ps)"
      using Cons.prems(1) pair_order.is_heap_Push [of ps n "mg_boxes m" "orderedPair (mg_boxes m) i c"]
      by (auto simp: pairs_ok_def set_heap_Push)
    from Cons.IH [OF this] Cons.prems(2) show ?case by (simp add: set_heap_Push)
  qed simp
  from this [of "mg_pairs m" "partners bits i m"] p partners_iff [OF ok i]
  show "pairs_ok n (mg_boxes m) (mg_pairs (offer bits i m))"
    "set (mg_pairs (offer bits i m)) = set (mg_pairs m) \<union> orderedPair (mg_boxes m) i `
       {c. alive m c \<and> c \<noteq> i \<and> mergePair (mg_boxes m ! i) (mg_boxes m ! c) \<noteq> None}"
    by (auto simp: offer_def)
  show "offer bits i m = m\<lparr>mg_pairs := mg_pairs (offer bits i m)\<rparr>" by (simp add: offer_def)
qed

lemma mergePair_self: "good_box n a \<Longrightarrow> mergePair a a = None"
proof -
  assume g: "good_box n a"
  have "f_eq (BMin a ! d) (BMin a ! d)" "f_eq (BMax a ! d) (BMax a ! d)" if "d < n" for d
    using good_box_fin [OF g that] by (auto simp: is_fin_iff f_eq_def)
  then have "singleDiffAxis_from a a ds None = None" if "set ds \<subseteq> {..<n}" for ds
    using that by (induction ds) auto
  from this [of "[0..<n]"] show ?thesis by (simp add: mergePair_def singleDiffAxis_def good_boxD(2) [OF g] atLeast_upt lessThan_atLeast0)
qed

definition joinable :: "merger \<Rightarrow> nat \<Rightarrow> nat \<Rightarrow> bool" where
  "joinable m a b \<longleftrightarrow> alive m a \<and> alive m b \<and> mergePair (mg_boxes m ! a) (mg_boxes m ! b) \<noteq> None"

definition pairs_complete :: "merger \<Rightarrow> bool" where
  "pairs_complete m \<longleftrightarrow> (\<forall>a b. joinable m a b \<longrightarrow> orderedPair (mg_boxes m) a b \<in> set (mg_pairs m))"

lemma alive_pairs [simp]: "alive (m\<lparr>mg_pairs := ps\<rparr>) = alive m"
  by (simp add: alive_def fun_eq_iff)

lemma joinable_pairs [simp]: "joinable (m\<lparr>mg_pairs := ps\<rparr>) = joinable m"
  by (simp add: joinable_def fun_eq_iff)

lemma merger_ok_pairs [simp]: "merger_ok A bits n C (m\<lparr>mg_pairs := ps\<rparr>) = merger_ok A bits n C m"
  by (simp add: merger_ok_def)

lemma joinable_sym: "merger_ok A bits n C m \<Longrightarrow> joinable m a b \<Longrightarrow> joinable m b a"
  using mergePair_sym [OF merger_okD(3) merger_okD(3)] by (metis joinable_def)

lemma joinable_neq: "merger_ok A bits n C m \<Longrightarrow> joinable m a b \<Longrightarrow> a \<noteq> b"
  using mergePair_self [OF merger_okD(3)] by (metis joinable_def)

text \<open>What \<open>nextPair\<close> returns: the least live pair that can be merged, or the news that there is none.\<close>

definition next_ok :: "nat \<Rightarrow> merger \<Rightarrow> (nat \<times> nat) option \<times> merger \<Rightarrow> bool" where
  "next_ok n m r \<longleftrightarrow>
     snd r = m\<lparr>mg_pairs := mg_pairs (snd r)\<rparr> \<and> pairs_ok n (mg_boxes m) (mg_pairs (snd r)) \<and>
     (fst r = None \<longrightarrow> (\<forall>a b. \<not> joinable m a b)) \<and>
     (\<forall>p. fst r = Some p \<longrightarrow> joinable m (fst p) (snd p) \<and> ok_pair n (mg_boxes m) p \<and>
       (\<forall>a b. joinable m a b \<longrightarrow> \<not> pairLess (mg_boxes m) (orderedPair (mg_boxes m) a b) p) \<and>
       (\<forall>a b. joinable m a b \<longrightarrow> orderedPair (mg_boxes m) a b = p \<or> orderedPair (mg_boxes m) a b \<in> set (mg_pairs (snd r))))"

lemma next_ok_pairs: "next_ok n (m\<lparr>mg_pairs := ps\<rparr>) r = next_ok n m r"
  by (simp add: next_ok_def)

lemma nextPair_spec:
  assumes "merger_ok A bits n C m" "pairs_ok n (mg_boxes m) (mg_pairs m)" "pairs_complete m"
  shows "next_ok n m (nextPair m)"
  using assms
proof (induction m rule: nextPair.induct)
  case (1 m)
  show ?case
  proof (cases "mg_pairs m = []")
    case True
    then show ?thesis using "1.prems" by (subst nextPair.simps) (simp add: pairs_complete_def next_ok_def)
  next
    case False
    let ?bs = "mg_boxes m"
    obtain p ps where pop: "heap_Pop (pairLess ?bs) (mg_pairs m) = (p, ps)" by (metis surj_pair)
    have h: "is_heap (pairLess ?bs) (mg_pairs m) (length (mg_pairs m))" "\<forall>q\<in>set (mg_pairs m). ok_pair n ?bs q"
      using "1.prems"(2) by (simp_all add: pairs_ok_def)
    note spec = pair_order.heap_Pop_spec [OF h(1) False h(2) pop]
    have set: "set (mg_pairs m) = insert p (set ps)" using spec(2) by (metis set_mset_add_mset_insert set_mset_mset)
    have ps: "pairs_ok n ?bs ps" using spec(3) h(2) set by (simp add: pairs_ok_def)
    let ?m = "m\<lparr>mg_pairs := ps\<rparr>"
    have okp: "ok_pair n ?bs p" using h(2) set by simp
    show ?thesis
    proof (cases "joinable m (fst p) (snd p)")
      case True
      then have "nextPair m = (Some p, ?m)" using False pop
        by (subst nextPair.simps) (auto simp: joinable_def alive_def Let_def)
      moreover have "\<not> pairLess ?bs q p" if "q \<in> set (mg_pairs m)" for q
      proof -
        obtain k where "k < length (mg_pairs m)" "q = mg_pairs m ! k" using \<open>q \<in> set (mg_pairs m)\<close> by (auto simp: in_set_conv_nth)
        then show ?thesis using pair_order.heap_root_least [OF h(1) order_refl h(2)] spec(1) by simp
      qed
      ultimately show ?thesis using True okp ps "1.prems"(3) set by (auto simp: pairs_complete_def next_ok_def)
    next
      case stale: False
      have "pairs_complete ?m"
        unfolding pairs_complete_def
      proof (intro allI impI)
        fix a b assume j: "joinable ?m a b"
        then have "joinable m a b" "joinable m b a" using joinable_sym [OF "1.prems"(1)] by simp_all
        then have "orderedPair ?bs a b \<noteq> p" using stale by (auto simp: orderedPair_def)
        with j "1.prems"(3) set show "orderedPair (mg_boxes ?m) a b \<in> set (mg_pairs ?m)" by (auto simp: pairs_complete_def)
      qed
      moreover have live: "\<not> mg_live m ! fst p \<or> \<not> mg_live m ! snd p \<or> mergePair (?bs ! fst p) (?bs ! snd p) = None"
        using stale okp by (auto simp: joinable_def alive_def ok_pair_def)
      moreover have "nextPair m = nextPair ?m"
        using live False pop by (subst nextPair.simps) (auto simp: Let_def)
      moreover have "merger_ok A bits n C ?m" "pairs_ok n (mg_boxes ?m) (mg_pairs ?m)" using "1.prems"(1) ps by simp_all
      moreover note ih = "1.IH"(1) [OF False pop [symmetric] refl refl] "1.IH"(2) [OF False pop [symmetric] refl refl]
      ultimately have "next_ok n ?m (nextPair ?m)"
        by (cases "\<not> mg_live m ! fst p \<or> \<not> mg_live m ! snd p") auto
      then show ?thesis unfolding \<open>nextPair m = nextPair ?m\<close> next_ok_pairs .
    qed
  qed
qed

end
