(* ===== verification/Merge_Rounds.thy ===== *)
theory Merge_Rounds
  imports Indexed_Merge
begin

section \<open>The rounds of the indexed merge\<close>

text \<open>
  A round of the merger is a round of the greedy merge. \<open>round_ok\<close> relates the merger to a canonical cover \<open>L\<close>: the
  indexes agree with the live boxes, no live box covers another, the heap holds every pair that can be merged,
  and the live boxes have the keys of \<open>L\<close>. The pair the heap yields is then the first pair of \<open>L\<close>, and what
  \<open>merge\<close> does to the live boxes is what \<open>InsertNormalized\<close> does to \<open>L\<close>.
\<close>

subsection \<open>Live boxes and a canonical cover\<close>

definition live_antichain :: "merger \<Rightarrow> bool" where
  "live_antichain m \<longleftrightarrow>
     (\<forall>i j. alive m i \<longrightarrow> alive m j \<longrightarrow> i \<noteq> j \<longrightarrow> \<not> subsumes (mg_boxes m ! i) (mg_boxes m ! j))"

definition live_disjoint :: "merger \<Rightarrow> bool" where
  "live_disjoint m \<longleftrightarrow>
     (\<forall>i j. alive m i \<longrightarrow> alive m j \<longrightarrow> i \<noteq> j \<longrightarrow> bspan (mg_boxes m ! i) \<inter> bspan (mg_boxes m ! j) = {})"

definition live_keys :: "merger \<Rightarrow> (float64 \<times> float64 \<times> bool \<times> bool) list set" where
  "live_keys m = {box_key (mg_boxes m ! i) |i. alive m i}"

definition round_ok :: "grid_ops \<Rightarrow> (float64 \<Rightarrow> word64) \<Rightarrow> nat \<Rightarrow> (nat \<Rightarrow> float64 set) \<Rightarrow> merger \<Rightarrow> box list \<Rightarrow> bool" where
  "round_ok A bits n C m L \<longleftrightarrow>
     merger_ok A bits n C m \<and> pairs_ok n (mg_boxes m) (mg_pairs m) \<and> pairs_complete m \<and> live_antichain m \<and>
     (mg_disjoint m \<longrightarrow> live_disjoint m) \<and> box_canonical n L \<and> box_key ` set L = live_keys m"

lemma round_okD:
  assumes "round_ok A bits n C m L"
  shows "merger_ok A bits n C m" "pairs_ok n (mg_boxes m) (mg_pairs m)" "pairs_complete m" "live_antichain m"
    "mg_disjoint m \<Longrightarrow> live_disjoint m" "box_canonical n L" "box_key ` set L = live_keys m"
  using assms by (simp_all add: round_ok_def)

lemma live_key_inj:
  assumes "merger_ok A bits n C m" "live_antichain m" "alive m i" "alive m j"
    and "box_key (mg_boxes m ! i) = box_key (mg_boxes m ! j)"
  shows "i = j"
proof (rule ccontr)
  assume "i \<noteq> j"
  note g = merger_okD(3) [OF assms(1)]
  have "bspan (mg_boxes m ! i) = bspan (mg_boxes m ! j)"
    using assms(5) box_key_bspan [OF g [OF assms(3)] g [OF assms(4)]] by simp
  then have "subsumes (mg_boxes m ! i) (mg_boxes m ! j)"
    using subsumes_iff_bspan [OF g [OF assms(4)] g [OF assms(3)]] by simp
  with assms(2-4) \<open>i \<noteq> j\<close> show False by (simp add: live_antichain_def)
qed

lemma canonical_key_less:
  assumes "box_canonical n L" "i < length L" "j < length L"
  shows "box_key (L ! i) < box_key (L ! j) \<longleftrightarrow> i < j"
proof -
  have "sorted_wrt (<) (map box_key L)" using canonical_keys [OF assms(1)] by (simp add: strict_sorted_iff)
  then have lt: "box_key (L ! x) < box_key (L ! y)" if "x < y" "y < length L" for x y
    using that sorted_wrt_nth_less [of "(<)" "map box_key L" x y] by simp
  show ?thesis using lt [of i j] lt [of j i] assms(2,3) by (metis less_asym linorder_neqE_nat order_less_irrefl)
qed

lemma position_of:
  assumes "round_ok A bits n C m L" "alive m a"
  obtains i where "i < length L" "same_geo n (mg_boxes m ! a) (L ! i)"
proof -
  note r = round_okD [OF assms(1)]
  have "box_key (mg_boxes m ! a) \<in> box_key ` set L" unfolding r(7) live_keys_def using assms(2) by blast
  then obtain i where i: "i < length L" "box_key (L ! i) = box_key (mg_boxes m ! a)" by (auto simp: in_set_conv_nth)
  moreover have "good_box n (L ! i)" using r(6) i(1) by (simp add: box_canonical_def all_good_def)
  ultimately show ?thesis using that [of i] same_geo_key [OF merger_okD(3) [OF r(1) assms(2)]] by simp
qed

lemma id_of:
  assumes "round_ok A bits n C m L" "i < length L"
  obtains a where "alive m a" "same_geo n (mg_boxes m ! a) (L ! i)"
proof -
  note r = round_okD [OF assms(1)]
  have "box_key (L ! i) \<in> live_keys m" unfolding r(7) [symmetric] using assms(2) by simp
  then obtain a where a: "alive m a" "box_key (mg_boxes m ! a) = box_key (L ! i)" by (auto simp: live_keys_def)
  moreover have "good_box n (L ! i)" using r(6) assms(2) by (simp add: box_canonical_def all_good_def)
  ultimately show ?thesis using that [of a] same_geo_key [OF merger_okD(3) [OF r(1) a(1)]] by simp
qed

lemma same_geo_boxes: "same_geo n a b \<Longrightarrow> good_box n a \<and> good_box n b \<and> box_key a = box_key b"
  using same_geo_key [of n a b] by (auto simp: same_geo_def)

lemma orderedPair_less:
  assumes "good_box n (bs ! a)" "good_box n (bs ! b)" "box_key (bs ! a) < box_key (bs ! b)"
  shows "orderedPair bs a b = (a, b)" "orderedPair bs b a = (a, b)"
  using assms by (auto simp: orderedPair_def box_Less_keys [of n])

lemma joinable_mergeable:
  assumes r: "round_ok A bits n C m L" and a: "alive m a" "alive m b"
    and i: "i < length L" "j < length L" and g: "same_geo n (mg_boxes m ! a) (L ! i)" "same_geo n (mg_boxes m ! b) (L ! j)"
  shows "joinable m a b \<and> box_key (mg_boxes m ! a) < box_key (mg_boxes m ! b) \<longleftrightarrow> mergeable L i j"
  using canonical_key_less [OF round_okD(6) [OF r] i] mergePair_geo [OF g] a i
    same_geo_boxes [OF g(1)] same_geo_boxes [OF g(2)]
  by (auto simp: joinable_def mergeable_def)

subsection \<open>The pair that the heap yields\<close>

lemma next_pair_first:
  assumes r: "round_ok A bits n C m L" and nx: "next_ok n m (Some p, m1)"
  obtains i j where "first_pair L = Some (i, j)" "mergeable L i j"
    "same_geo n (mg_boxes m ! fst p) (L ! i)" "same_geo n (mg_boxes m ! snd p) (L ! j)"
    "box_key (mg_boxes m ! fst p) < box_key (mg_boxes m ! snd p)"
proof -
  note d = round_okD [OF r] and g = merger_okD(3) [OF round_okD(1) [OF r]]
  let ?k = "\<lambda>x. box_key (mg_boxes m ! x)"
  obtain a b where p: "p = (a, b)" by force
  have j: "joinable m a b" "ok_pair n (mg_boxes m) (a, b)"
    and least: "\<And>x y. joinable m x y \<Longrightarrow> \<not> pairLess (mg_boxes m) (orderedPair (mg_boxes m) x y) (a, b)"
    using nx by (auto simp: next_ok_def p)
  have al: "alive m a" "alive m b" "a \<noteq> b" using j(1) joinable_neq [OF d(1)] by (auto simp: joinable_def)
  have "?k a \<noteq> ?k b" using live_key_inj [OF d(1,4) al(1,2)] al(3) by blast
  then have lt: "?k a < ?k b" using j(2) by (auto simp: ok_pair_def)
  obtain i where i: "i < length L" "same_geo n (mg_boxes m ! a) (L ! i)" using position_of [OF r al(1)] .
  obtain j where j': "j < length L" "same_geo n (mg_boxes m ! b) (L ! j)" using position_of [OF r al(2)] .
  have mg: "mergeable L i j" using joinable_mergeable [OF r al(1,2) i(1) j'(1) i(2) j'(2)] j(1) lt by blast
  have "i < i' \<or> i = i' \<and> j \<le> j'" if m': "mergeable L i' j'" for i' j'
  proof -
    have l: "i' < length L" "j' < length L" using m' by (auto simp: mergeable_def)
    obtain x where x: "alive m x" "same_geo n (mg_boxes m ! x) (L ! i')" using id_of [OF r l(1)] .
    obtain y where y: "alive m y" "same_geo n (mg_boxes m ! y) (L ! j')" using id_of [OF r l(2)] .
    have xy: "joinable m x y" "?k x < ?k y" using joinable_mergeable [OF r x(1) y(1) l x(2) y(2)] m' by blast+
    have ok: "ok_pair n (mg_boxes m) (x, y)" using x(1) y(1) g xy(2) by (auto simp: ok_pair_def alive_def)
    have "\<not> pairLess (mg_boxes m) (x, y) (a, b)" using least [OF xy(1)] orderedPair_less(1) [OF g [OF x(1)] g [OF y(1)] xy(2)] by simp
    then have "\<not> (?k x < ?k a \<or> ?k x = ?k a \<and> ?k y < ?k b)" using pairLess_keys [OF ok j(2)] by simp
    then have "\<not> (box_key (L ! i') < box_key (L ! i) \<or> box_key (L ! i') = box_key (L ! i) \<and> box_key (L ! j') < box_key (L ! j))"
      using same_geo_boxes [OF x(2)] same_geo_boxes [OF y(2)] same_geo_boxes [OF i(2)] same_geo_boxes [OF j'(2)] by simp
    moreover have "box_key (L ! i') = box_key (L ! i) \<longleftrightarrow> i' = i"
      using canonical_key_less [OF d(6) l(1) i(1)] canonical_key_less [OF d(6) i(1) l(1)] by (metis linorder_neqE_nat order_less_irrefl)
    ultimately show ?thesis
      using canonical_key_less [OF d(6) l(1) i(1)] canonical_key_less [OF d(6) l(2) j'(1)] by auto
  qed
  from first_pair_mergeable [OF mg this] mg i(2) j'(2) lt that show ?thesis by (simp add: p)
qed

lemma no_pair_left:
  assumes r: "round_ok A bits n C m L" and nx: "next_ok n m (None, m1)"
  shows "first_pair L = None"
  unfolding first_pair_None
proof (intro allI notI)
  fix i j assume m: "mergeable L i j"
  then have l: "i < length L" "j < length L" by (auto simp: mergeable_def)
  obtain a where a: "alive m a" "same_geo n (mg_boxes m ! a) (L ! i)" using id_of [OF r l(1)] .
  obtain b where b: "alive m b" "same_geo n (mg_boxes m ! b) (L ! j)" using id_of [OF r l(2)] .
  show False using joinable_mergeable [OF r a(1) b(1) l a(2) b(2)] m nx by (auto simp: next_ok_def)
qed

subsection \<open>What a merge does to the live boxes\<close>

definition merged_into :: "merger \<Rightarrow> box \<Rightarrow> merger \<Rightarrow> bool" where
  "merged_into m u m' \<longleftrightarrow>
     mg_disjoint m' = mg_disjoint m \<and>
     (\<forall>x. alive m' x \<longleftrightarrow> x = length (mg_boxes m) \<or> alive m x \<and> \<not> subsumes u (mg_boxes m ! x)) \<and>
     (\<forall>x<length (mg_boxes m). strip (mg_boxes m' ! x) = strip (mg_boxes m ! x)) \<and>
     strip (mg_boxes m' ! length (mg_boxes m)) = strip u"

lemma merge_effect:
  assumes ok: "merger_ok A bits n C m" and ps: "pairs_ok n (mg_boxes m) (mg_pairs m)" and anti: "live_antichain m"
    and dis: "mg_disjoint m \<Longrightarrow> live_disjoint m"
    and ab: "alive m a" "alive m b" "a \<noteq> b" and u: "mergePair (mg_boxes m ! a) (mg_boxes m ! b) = Some u"
  defines "m' \<equiv> mg_merge A bits (a, b) m" and "w \<equiv> length (mg_boxes m)"
  shows "merger_ok A bits n C m'" "pairs_ok n (mg_boxes m') (mg_pairs m')" "merged_into m u m'"
    "set (mg_pairs m') = set (mg_pairs m) \<union> orderedPair (mg_boxes m') w ` {c. joinable m' w c}"
proof -
  note g = merger_okD(3) [OF ok]
  note mu = mergePair_spec [OF g [OF ab(1)] g [OF ab(2)] u]
  have cu: "corners_in C n u" using mergePair_corners [OF g [OF ab(1)] g [OF ab(2)] u] merger_okD(4) [OF ok] ab by blast
  let ?k = "mg_kill bits b (mg_kill bits a m)"
  have k1: "merger_ok A bits n C (mg_kill bits a m)" by (rule kill_ok [OF ok ab(1)])
  have al1: "alive (mg_kill bits a m) x \<longleftrightarrow> alive m x \<and> x \<noteq> a" for x by (rule alive_kill [OF merger_okD(1) [OF ok]])
  have k2: "merger_ok A bits n C ?k" by (rule kill_ok [OF k1]) (simp add: al1 ab(2) ab(3) [symmetric])
  have al2: "alive ?k x \<longleftrightarrow> alive m x \<and> x \<noteq> a \<and> x \<noteq> b" for x
    using alive_kill [OF merger_okD(1) [OF k1], of bits b x] al1 by auto
  have st2: "map strip (mg_boxes ?k) = map strip (mg_boxes m)" and len2: "length (mg_boxes ?k) = w" by (simp_all add: w_def)
  obtain w' ma where add: "mg_add A bits u ?k = (w', ma)" by force
  note a = add_ok [OF k2 mu(1) cu add]
  have w': "w' = w" using a(2) len2 by simp
  have ala: "alive ma x \<longleftrightarrow> x = w \<or> alive m x \<and> x \<noteq> a \<and> x \<noteq> b" for x using a(7) [of x] al2 [of x] w' by auto
  have sta: "strip (mg_boxes ma ! x) = (if x = w then strip u else strip (mg_boxes m ! x))" if "x \<le> w" for x
  proof (cases "x = w")
    case False
    with that have "x < w" by simp
    then have "strip (mg_boxes ?k ! x) = strip (mg_boxes m ! x)" using st2 len2 by (metis nth_map w_def)
    with \<open>x < w\<close> show ?thesis using a(3) len2 by (simp add: nth_append)
  qed (simp add: a(3) nth_append w_def)
  have uw: "mg_boxes ma ! w = u" using a(3) len2 by (simp add: nth_append)
  have lw: "x < w" if "alive m x" for x using that by (simp add: alive_def w_def)
  have sub: "subsumes (mg_boxes ma ! w) (mg_boxes ma ! x) = subsumes u (mg_boxes m ! x)" if "alive m x" for x
  proof -
    have "strip (mg_boxes ma ! x) = strip (mg_boxes m ! x)" using sta [of x] lw [OF that] by simp
    then show ?thesis using strip_eq_fields(11) uw by metis
  qed
  have sab: "subsumes u (mg_boxes m ! a)" "subsumes u (mg_boxes m ! b)"
    using subsumes_iff_bspan [OF g [OF ab(1)] mu(1)] subsumes_iff_bspan [OF g [OF ab(2)] mu(1)] mu(2) by blast+
  have nosub: "\<not> subsumes (mg_boxes ma ! w) (mg_boxes ma ! x)" if md: "mg_disjoint m" and x: "alive ma x" "x \<noteq> w" for x
  proof -
    have ax: "alive m x" "x \<noteq> a" "x \<noteq> b" using x ala by auto
    then have "bspan (mg_boxes m ! x) \<inter> (bspan (mg_boxes m ! a) \<union> bspan (mg_boxes m ! b)) = {}"
      using dis [OF md] ab by (auto simp: live_disjoint_def)
    then have "\<not> bspan (mg_boxes m ! x) \<subseteq> bspan u" using mu(2) good_box_bspan [OF g [OF ax(1)]] by blast
    then show ?thesis using subsumes_iff_bspan [OF g [OF ax(1)] mu(1)] sub [OF ax(1)] by simp
  qed
  have alw: "alive ma w" by (simp add: ala)
  let ?b = "mg_absorb A bits w ma"
  have b: "merger_ok A bits n C ?b" "kills ma ?b {i. alive ma i \<and> i \<noteq> w \<and> subsumes (mg_boxes ma ! w) (mg_boxes ma ! i)}"
    using mg_absorb_spec [OF a(1) alw] nosub a(6) by (auto simp: mg_kill_fields)
  have alb: "alive ?b x \<longleftrightarrow> x = w \<or> alive m x \<and> \<not> subsumes u (mg_boxes m ! x)" for x
    using b(2) ala [of x] sub [of x] sab lw [of x] by (auto simp: kills_def)
  note kn = kills_nth [OF b(2)]
  have lena: "length (mg_boxes ma) = Suc w" using a(3) len2 by simp
  have stb: "strip (mg_boxes ?b ! x) = (if x = w then strip u else strip (mg_boxes m ! x))" if "x \<le> w" for x
    using kn(2) [of x] sta [OF that] that lena by simp
  have pb: "mg_pairs ?b = mg_pairs m" "mg_disjoint ?b = mg_disjoint m" using b(2) a(5,6) by (simp_all add: kills_def)
  have pok: "pairs_ok n (mg_boxes ?b) (mg_pairs ?b)"
    unfolding pb by (rule pairs_ok_mono [OF ps]) (use kn(1) lena stb in \<open>auto simp: w_def\<close>)
  have m': "m' = offer bits w ?b"
    using u add w' by (simp add: m'_def mg_merge_def Let_def)
  have alwb: "alive ?b w" by (simp add: alb)
  note o = offer_spec [OF b(1) alwb pok]
  have f: "mg_boxes m' = mg_boxes ?b" "alive m' = alive ?b" "mg_disjoint m' = mg_disjoint m" "joinable m' = joinable ?b"
    using o(1) pb(2) unfolding m' by (metis merger.simps alive_pairs joinable_pairs merger.surjective merger.update_convs)+
  show "merger_ok A bits n C m'" unfolding m' using o(1) b(1) by (metis merger_ok_pairs)
  show "pairs_ok n (mg_boxes m') (mg_pairs m')" using o(2) f(1) m' by simp
  show "merged_into m u m'" using alb stb unfolding merged_into_def f by (simp add: w_def)
  have "{c. joinable ?b w c} = {c. alive ?b c \<and> c \<noteq> w \<and> mergePair (mg_boxes ?b ! w) (mg_boxes ?b ! c) \<noteq> None}"
    using alwb mergePair_self [OF merger_okD(3) [OF b(1) alwb]] by (auto simp: joinable_def)
  then have "set (mg_pairs m') = set (mg_pairs ?b) \<union> orderedPair (mg_boxes ?b) w ` {c. joinable ?b w c}"
    using o(3) m' by simp
  then show "set (mg_pairs m') = set (mg_pairs m) \<union> orderedPair (mg_boxes m') w ` {c. joinable m' w c}"
    unfolding f(1,4) pb(1) .
qed

text \<open>The merger after a merge stands for the cover with the union inserted.\<close>

lemma merged_round:
  assumes r: "round_ok A bits n C m L" and mg: "mergeable L i j" and u': "mergePair (L ! i) (L ! j) = Some u'"
    and gu: "good_box n u" "bspan u = bspan u'" and mi: "merged_into m u m'" and ok': "merger_ok A bits n C m'"
    and ab: "alive m a" "alive m b" "bspan u = bspan (mg_boxes m ! a) \<union> bspan (mg_boxes m ! b)"
  shows "live_antichain m'" "mg_disjoint m' \<Longrightarrow> live_disjoint m'"
    "box_canonical n (InsertNormalized L u')" "box_key ` set (InsertNormalized L u') = live_keys m'"
proof -
  note d = round_okD [OF r] and g = merger_okD(3) [OF round_okD(1) [OF r]] and g' = merger_okD(3) [OF ok']
  let ?w = "length (mg_boxes m)"
  have ij: "i < j" "j < length L" using mg by (auto simp: mergeable_def)
  note im = merge_insert [OF d(6) ij u']
  have al: "alive m' x \<longleftrightarrow> x = ?w \<or> alive m x \<and> \<not> subsumes u (mg_boxes m ! x)" for x
    using mi by (simp add: merged_into_def)
  have stx: "strip (mg_boxes m' ! x) = strip (mg_boxes m ! x)" if "alive m x" for x
    using mi that by (simp add: merged_into_def alive_def)
  have stw: "strip (mg_boxes m' ! ?w) = strip u" using mi by (simp add: merged_into_def)
  have bx: "bspan (mg_boxes m' ! x) = bspan (mg_boxes m ! x)" "box_key (mg_boxes m' ! x) = box_key (mg_boxes m ! x)"
    if "alive m x" for x using strip_eq_fields(6,7) [OF stx [OF that]] by simp_all
  have bw: "bspan (mg_boxes m' ! ?w) = bspan u" "box_key (mg_boxes m' ! ?w) = box_key u"
    using strip_eq_fields(6,7) [OF stw] by simp_all
  have sub: "subsumes (mg_boxes m' ! x) (mg_boxes m' ! y) \<longleftrightarrow> bspan (mg_boxes m' ! y) \<subseteq> bspan (mg_boxes m' ! x)"
    if "alive m' x" "alive m' y" for x y using subsumes_iff_bspan [OF g' [OF that(2)] g' [OF that(1)]] .
  have subm: "subsumes u (mg_boxes m ! x) \<longleftrightarrow> bspan (mg_boxes m ! x) \<subseteq> bspan u" if "alive m x" for x
    using subsumes_iff_bspan [OF g [OF that] gu(1)] .
  have anti: "bspan (mg_boxes m ! y) \<subseteq> bspan (mg_boxes m ! x) \<longrightarrow> x = y" if "alive m x" "alive m y" for x y
    using d(4) that subsumes_iff_bspan [OF g [OF that(2)] g [OF that(1)]] by (auto simp: live_antichain_def)
  show "live_antichain m'"
    unfolding live_antichain_def
  proof (intro allI impI)
    fix x y assume xy: "alive m' x" "alive m' y" "x \<noteq> y"
    consider "x = ?w" "alive m y" | "y = ?w" "alive m x" | "alive m x" "alive m y" using al [of x] al [of y] xy by metis
    then show "\<not> subsumes (mg_boxes m' ! x) (mg_boxes m' ! y)"
    proof cases
      case 1
      then have "\<not> bspan (mg_boxes m ! y) \<subseteq> bspan u" using al [of y] xy subm by auto
      then show ?thesis unfolding sub [OF xy(1,2)] using 1 bw bx by simp
    next
      case 2
      have "\<not> bspan u \<subseteq> bspan (mg_boxes m ! x)"
      proof
        assume s: "bspan u \<subseteq> bspan (mg_boxes m ! x)"
        then have "bspan (mg_boxes m ! a) \<subseteq> bspan (mg_boxes m ! x)" using ab(3) by blast
        then have "x = a" using anti [OF 2(2) ab(1)] by blast
        then have "bspan (mg_boxes m ! x) \<subseteq> bspan u" using ab(3) by blast
        then show False using al [of x] xy 2 subm [OF 2(2)] by auto
      qed
      then show ?thesis unfolding sub [OF xy(1,2)] using 2 bw bx by simp
    next
      case 3
      then show ?thesis unfolding sub [OF xy(1,2)] using anti [OF 3] xy(3) bx by simp
    qed
  qed
  show "live_disjoint m'" if md: "mg_disjoint m'"
  proof -
    have "mg_disjoint m" using mi md by (simp add: merged_into_def)
    then have ld: "bspan (mg_boxes m ! x) \<inter> bspan (mg_boxes m ! y) = {}" if "alive m x" "alive m y" "x \<noteq> y" for x y
      using d(5) that by (simp add: live_disjoint_def)
    have wx: "bspan u \<inter> bspan (mg_boxes m ! x) = {}" if "alive m' x" "x \<noteq> ?w" for x
    proof -
      have "alive m x" "\<not> bspan (mg_boxes m ! x) \<subseteq> bspan u" using al [of x] that subm by auto
      then have "alive m x" "x \<noteq> a" "x \<noteq> b" using ab(3) by auto
      then show ?thesis using ld ab by blast
    qed
    have "bspan (mg_boxes m' ! x) \<inter> bspan (mg_boxes m' ! y) = {}" if xy: "alive m' x" "alive m' y" "x \<noteq> y" for x y
    proof -
      consider "x = ?w" "alive m y" | "y = ?w" "alive m x" | "alive m x" "alive m y" using al [of x] al [of y] xy by metis
      then show ?thesis
        by cases (use wx [of x] wx [of y] xy bw bx ld in \<open>auto simp: Int_commute\<close>)
    qed
    then show ?thesis by (simp add: live_disjoint_def)
  qed
  show "box_canonical n (InsertNormalized L u')" by (rule InsertNormalized_spec(1) [OF d(6) im(1)])
  have gL: "all_good n L" "sorted_wrt (\<lambda>a b. \<not> box_Less b a) L" using d(6) by (simp_all add: box_canonical_def)
  have gu': "good_box n u'"
    using mergePair_spec(1) [OF _ _ u'] gL(1) ij by (simp add: all_good_def)
  have setI: "set (InsertNormalized L u') = insert u' {c \<in> set L. \<not> subsumes u' c}"
  proof -
    let ?K = "filter (\<lambda>c. \<not> subsumes u' c) L"
    have "all_good n ?K" "sorted_wrt (\<lambda>a b. \<not> box_Less b a) ?K" using gL by (auto simp: all_good_def intro: sorted_wrt_filter)
    note ins = insertSortedBox_order(1) [OF this(1) gu' this(2)]
    have "set (takeWhile P K) \<union> set (dropWhile P K) = set K" for P and K :: "box list"
      unfolding set_append [symmetric] takeWhile_dropWhile_id ..
    then show ?thesis
      unfolding im(5) ins set_append list.set Un_insert_right set_filter [symmetric] by (rule arg_cong)
  qed
  have ku: "box_key u' = box_key u" using box_key_bspan [OF gu' gu(1)] gu(2) by simp
  show "box_key ` set (InsertNormalized L u') = live_keys m'"
  proof (rule set_eqI)
    fix k
    have "k \<in> box_key ` set (InsertNormalized L u') \<longleftrightarrow> k = box_key u \<or> (\<exists>c\<in>set L. \<not> bspan c \<subseteq> bspan u \<and> k = box_key c)"
    proof -
      have "subsumes u' c \<longleftrightarrow> bspan c \<subseteq> bspan u" if "c \<in> set L" for c
        using subsumes_iff_bspan [OF _ gu'] gL(1) gu(2) that by (simp add: all_good_def)
      then show ?thesis unfolding setI image_insert image_iff insert_iff ku by blast
    qed
    also have "\<dots> \<longleftrightarrow> k = box_key u \<or> (\<exists>x. alive m x \<and> \<not> bspan (mg_boxes m ! x) \<subseteq> bspan u \<and> k = box_key (mg_boxes m ! x))"
    proof -
      have "\<exists>x. alive m x \<and> bspan (mg_boxes m ! x) = bspan c \<and> box_key (mg_boxes m ! x) = box_key c" if c: "c \<in> set L" for c
      proof -
        obtain p where p: "p < length L" "c = L ! p" using c by (auto simp: in_set_conv_nth)
        obtain x where "alive m x" "same_geo n (mg_boxes m ! x) (L ! p)" using id_of [OF r p(1)] .
        then show ?thesis using same_geo_boxes same_geo_bspan p(2) by metis
      qed
      moreover have "\<exists>c\<in>set L. bspan (mg_boxes m ! x) = bspan c \<and> box_key (mg_boxes m ! x) = box_key c" if x: "alive m x" for x
        using position_of [OF r x] same_geo_boxes same_geo_bspan by (metis nth_mem)
      ultimately show ?thesis by metis
    qed
    also have "\<dots> \<longleftrightarrow> (\<exists>x. alive m' x \<and> k = box_key (mg_boxes m' ! x))"
    proof -
      have "alive m' x \<and> k = box_key (mg_boxes m' ! x) \<longleftrightarrow> x = ?w \<and> k = box_key u \<or>
          alive m x \<and> \<not> bspan (mg_boxes m ! x) \<subseteq> bspan u \<and> k = box_key (mg_boxes m ! x)" for x
        using al [of x] subm [of x] bx(2) [of x] bw(2) by (cases "x = ?w") (auto simp: alive_def)
      then show ?thesis by blast
    qed
    also have "\<dots> \<longleftrightarrow> k \<in> live_keys m'" unfolding live_keys_def by blast
    finally show "k \<in> box_key ` set (InsertNormalized L u') \<longleftrightarrow> k \<in> live_keys m'" .
  qed
qed

lemma orderedPair_strip:
  assumes "strip (bs' ! a) = strip (bs ! a)" "strip (bs' ! b) = strip (bs ! b)"
  shows "orderedPair bs' a b = orderedPair bs a b"
  using strip_eq_fields(8) [OF assms(2)] strip_eq_fields(9) [OF assms(1)] by (simp add: orderedPair_def)

lemma orderedPair_sym:
  assumes "merger_ok A bits n C m" "live_antichain m" "alive m a" "alive m b" "a \<noteq> b"
  shows "orderedPair (mg_boxes m) a b = orderedPair (mg_boxes m) b a"
proof -
  note g = merger_okD(3) [OF assms(1)]
  have "box_key (mg_boxes m ! a) \<noteq> box_key (mg_boxes m ! b)" using live_key_inj [OF assms(1-4)] assms(5) by blast
  then show ?thesis
    using orderedPair_less [OF g [OF assms(3)] g [OF assms(4)]] orderedPair_less [OF g [OF assms(4)] g [OF assms(3)]]
    by (metis linorder_less_linear)
qed

lemma filter_drops_two:
  assumes "i < j" "j < length L" "\<not> P (L ! i)" "\<not> P (L ! j)"
  shows "length (filter P L) + 2 \<le> length L"
proof -
  have "L = take i L @ L ! i # drop (Suc i) L" using assms(1,2) by (intro id_take_nth_drop) simp
  moreover have "drop (Suc i) L = take (j - Suc i) (drop (Suc i) L) @ L ! j # drop (Suc j) L"
    using id_take_nth_drop [of "j - Suc i" "drop (Suc i) L"] assms(1,2) by simp
  ultimately have e: "L = take i L @ L ! i # take (j - Suc i) (drop (Suc i) L) @ L ! j # drop (Suc j) L" by simp
  have "length (filter P L) \<le> length (take i L) + length (take (j - Suc i) (drop (Suc i) L)) + length (drop (Suc j) L)"
    by (subst e) (use assms(3,4) length_filter_le [of P "take i L"] length_filter_le [of P "take (j - Suc i) (drop (Suc i) L)"]
      length_filter_le [of P "drop (Suc j) L"] in \<open>simp del: length_take length_drop length_filter_le\<close>)
  with assms(1,2) show ?thesis by simp
qed

text \<open>No pair is lost: a pair of old boxes was in the heap before, a pair with the union is offered.\<close>

lemma merged_pairs:
  assumes ok: "merger_ok A bits n C m" and ok': "merger_ok A bits n C m'" and anti: "live_antichain m'"
    and mi: "merged_into m u m'" and sub: "subsumes u (mg_boxes m ! a)" "subsumes u (mg_boxes m ! b)"
    and old: "\<And>x y. joinable m x y \<Longrightarrow> orderedPair (mg_boxes m) x y = (a, b) \<or> orderedPair (mg_boxes m) x y \<in> set (mg_pairs m)"
    and new: "set (mg_pairs m') = set (mg_pairs m) \<union> orderedPair (mg_boxes m') w ` {c. joinable m' w c}"
    and w: "w = length (mg_boxes m)"
  shows "pairs_complete m'"
  unfolding pairs_complete_def
proof (intro allI impI)
  fix x y assume j: "joinable m' x y"
  then have a: "alive m' x" "alive m' y" "x \<noteq> y" using joinable_neq [OF ok'] by (auto simp: joinable_def)
  have al: "alive m' z \<longleftrightarrow> z = w \<or> alive m z \<and> \<not> subsumes u (mg_boxes m ! z)" for z
    using mi by (simp add: merged_into_def w)
  consider "x = w" | "y = w" | "x \<noteq> w" "y \<noteq> w" by blast
  then show "orderedPair (mg_boxes m') x y \<in> set (mg_pairs m')"
  proof cases
    case 1
    with j new show ?thesis by auto
  next
    case 2
    with joinable_sym [OF ok' j] new orderedPair_sym [OF ok' anti a] show ?thesis by auto
  next
    case 3
    then have xy: "alive m x" "alive m y" "\<not> subsumes u (mg_boxes m ! x)" "\<not> subsumes u (mg_boxes m ! y)"
      using al [of x] al [of y] a by auto
    then have st: "strip (mg_boxes m' ! x) = strip (mg_boxes m ! x)" "strip (mg_boxes m' ! y) = strip (mg_boxes m ! y)"
      using mi by (simp_all add: merged_into_def alive_def)
    have "mergePair (mg_boxes m ! x) (mg_boxes m ! y) = mergePair (mg_boxes m' ! x) (mg_boxes m' ! y)"
      using mergePair_strip st by metis
    then have "joinable m x y" using j xy by (simp add: joinable_def)
    moreover have "orderedPair (mg_boxes m) x y \<noteq> (a, b)" using xy sub by (auto simp: orderedPair_def)
    ultimately show ?thesis using old new orderedPair_strip [OF st] by auto
  qed
qed

lemma round_step:
  assumes r: "round_ok A bits n C m L" and nx: "next_ok n m (Some p, m1)"
  obtains i j u where "first_pair L = Some (i, j)" "mergePair (L ! i) (L ! j) = Some u" "mergeable L i j"
    "round_ok A bits n C (mg_merge A bits p m1) (InsertNormalized L u)"
proof -
  note d = round_okD [OF r] and g = merger_okD(3) [OF round_okD(1) [OF r]]
  obtain a b where p: "p = (a, b)" by force
  obtain i j where ij: "first_pair L = Some (i, j)" "mergeable L i j" "same_geo n (mg_boxes m ! a) (L ! i)"
      "same_geo n (mg_boxes m ! b) (L ! j)" "box_key (mg_boxes m ! a) < box_key (mg_boxes m ! b)"
    using next_pair_first [OF r nx] p by auto
  have m1: "m1 = m\<lparr>mg_pairs := mg_pairs m1\<rparr>" and ps: "pairs_ok n (mg_boxes m) (mg_pairs m1)" and jp: "joinable m a b"
    and old: "\<And>x y. joinable m x y \<Longrightarrow> orderedPair (mg_boxes m) x y = (a, b) \<or> orderedPair (mg_boxes m) x y \<in> set (mg_pairs m1)"
    using nx by (simp_all add: next_ok_def p)
  have f: "mg_boxes m1 = mg_boxes m" "mg_disjoint m1 = mg_disjoint m" "alive m1 = alive m" "joinable m1 = joinable m"
    by (subst m1, simp)+
  have ok1: "merger_ok A bits n C m1" using d(1) m1 by (metis merger_ok_pairs)
  have inv1: "live_antichain m1" "mg_disjoint m1 \<Longrightarrow> live_disjoint m1"
    using d(4,5) by (simp_all add: live_antichain_def live_disjoint_def f)
  have ab: "alive m a" "alive m b" "a \<noteq> b" using jp joinable_neq [OF d(1)] by (auto simp: joinable_def)
  obtain v where v: "mergePair (mg_boxes m ! a) (mg_boxes m ! b) = Some v" using jp by (auto simp: joinable_def)
  obtain u where u: "mergePair (L ! i) (L ! j) = Some u" using ij(2) by (auto simp: mergeable_def)
  note mv = mergePair_spec [OF g [OF ab(1)] g [OF ab(2)] v]
  have gl: "good_box n (L ! i)" "good_box n (L ! j)" using ij(3,4) by (simp_all add: same_geo_def)
  have uv: "bspan v = bspan u"
    using mv(2) mergePair_spec(2) [OF gl u] same_geo_bspan [OF ij(3)] same_geo_bspan [OF ij(4)] by simp
  have e: "merger_ok A bits n C (mg_merge A bits (a, b) m1)"
      "pairs_ok n (mg_boxes (mg_merge A bits (a, b) m1)) (mg_pairs (mg_merge A bits (a, b) m1))"
      "merged_into m1 v (mg_merge A bits (a, b) m1)"
      "set (mg_pairs (mg_merge A bits (a, b) m1)) = set (mg_pairs m1) \<union>
        orderedPair (mg_boxes (mg_merge A bits (a, b) m1)) (length (mg_boxes m1)) ` {c. joinable (mg_merge A bits (a, b) m1) (length (mg_boxes m1)) c}"
    using merge_effect [OF ok1, of a b v] ps inv1 ab v by (simp_all add: f)
  have mi: "merged_into m v (mg_merge A bits (a, b) m1)" using e(3) by (simp add: merged_into_def f)
  note q = merged_round [OF r ij(2) u mv(1) uv mi e(1) ab(1,2) mv(2)]
  have sub: "subsumes v (mg_boxes m ! a)" "subsumes v (mg_boxes m ! b)"
    using subsumes_iff_bspan [OF g [OF ab(1)] mv(1)] subsumes_iff_bspan [OF g [OF ab(2)] mv(1)] mv(2) by blast+
  have "pairs_complete (mg_merge A bits (a, b) m1)"
    by (rule merged_pairs [where a = a and b = b, OF ok1 e(1) q(1) e(3) _ _ _ e(4) refl]) (use sub old in \<open>simp_all add: f\<close>)
  then have "round_ok A bits n C (mg_merge A bits p m1) (InsertNormalized L u)"
    using q e(1,2) by (simp add: round_ok_def p)
  with ij(1,2) u that show ?thesis by blast
qed

subsection \<open>The run\<close>

lemma result_of:
  assumes "round_ok A bits n C m L"
  shows "box_canonical n (mg_result m)" "map box_key (mg_result m) = map box_key L"
proof -
  note d = round_okD [OF assms]
  let ?l = "filter (\<lambda>i. mg_live m ! i) [0..<length (mg_boxes m)]"
  let ?bs = "map (\<lambda>i. mg_boxes m ! i) ?l"
  have mem: "i \<in> set ?l \<longleftrightarrow> alive m i" for i by (auto simp: alive_def)
  have good: "all_good n ?bs" using merger_okD(3) [OF d(1)] mem by (auto simp: all_good_def)
  have "sorted_wrt (\<lambda>i j. \<not> subsumes (mg_boxes m ! i) (mg_boxes m ! j) \<and> \<not> subsumes (mg_boxes m ! j) (mg_boxes m ! i)) ?l"
  proof (rule sorted_wrt_mono_rel)
    show "sorted_wrt (<) ?l" by (rule sorted_wrt_filter) (rule sorted_wrt_upt)
    show "\<not> subsumes (mg_boxes m ! i) (mg_boxes m ! j) \<and> \<not> subsumes (mg_boxes m ! j) (mg_boxes m ! i)"
      if "i \<in> set ?l" "j \<in> set ?l" "i < j" for i j
      using d(4) that(3) mem [of i] mem [of j] that(1,2) unfolding live_antichain_def by (metis nat_neq_iff)
  qed
  then have "antichain ?bs" by (simp add: antichain_def sorted_wrt_map)
  then show c: "box_canonical n (mg_result m)"
    using good box_order.in_order_sort_slice [of ?bs n]
    by (simp add: mg_result_def box_canonical_def all_good_def set_sortBoxes) (simp add: sortBoxes_def)
  have "set (map box_key (mg_result m)) = set (map box_key L)"
    using d(7) mem by (auto simp: mg_result_def live_keys_def set_sortBoxes)
  then show "map box_key (mg_result m) = map box_key L"
    using canonical_keys [OF c] canonical_keys [OF d(6)] by (intro sorted_distinct_set_unique) auto
qed

lemma run_spec:
  assumes "round_ok A bits n C m L"
  shows "\<exists>out. mg_run A bits m = Some out \<and> box_canonical n out \<and>
    (\<forall>k\<ge>length L. map box_key out = map box_key (greedy k L))"
  using assms
proof (induction "length L" arbitrary: m L rule: less_induct)
  case less
  note d = round_okD [OF less.prems]
  obtain o1 m1 where nxt: "nextPair m = (o1, m1)" by force
  have nx: "next_ok n m (o1, m1)" using nextPair_spec [OF d(1-3)] nxt by simp
  show ?case
  proof (cases o1)
    case None
    have fp: "first_pair L = None" using no_pair_left [OF less.prems] nx None by simp
    then have "greedy k L = L" for k by (cases k) simp_all
    moreover have m1: "m1 = m\<lparr>mg_pairs := mg_pairs m1\<rparr>" using nx by (simp add: next_ok_def)
    have "mg_result m1 = mg_result m" by (subst m1) (simp add: mg_result_def)
    ultimately show ?thesis using None nxt result_of [OF less.prems] by (subst mg_run.simps) simp
  next
    case (Some p)
    obtain i j u where s: "first_pair L = Some (i, j)" "mergePair (L ! i) (L ! j) = Some u" "mergeable L i j"
        "round_ok A bits n C (mg_merge A bits p m1) (InsertNormalized L u)"
      using round_step [OF less.prems] nx Some by blast
    have ij: "i < j" "j < length L" using s(3) by (auto simp: mergeable_def)
    note im = merge_insert [OF d(6) ij s(2)]
    have "length (filter (\<lambda>b. \<not> subsumes u b) L) + 2 \<le> length L"
      using filter_drops_two [OF ij, of "\<lambda>b. \<not> subsumes u b"] im(2,3) by simp
    then have lt: "length (InsertNormalized L u) < length L" unfolding im(5) by (simp add: insertSortedBox_def Let_def)
    obtain out where out: "mg_run A bits (mg_merge A bits p m1) = Some out" "box_canonical n out"
        "\<And>k. length (InsertNormalized L u) \<le> k \<Longrightarrow> map box_key out = map box_key (greedy k (InsertNormalized L u))"
      using less.hyps [OF lt s(4)] by blast
    have "map box_key out = map box_key (greedy k L)" if "length L \<le> k" for k
      using that lt out(3) [of "k - 1"] s(1,2) by (cases k) auto
    with out nxt Some show ?thesis by (subst mg_run.simps) auto
  qed
qed

end
