(* ===== verification/Merge_Start.thy ===== *)
theory Merge_Start
  imports Merge_Rounds
begin

section \<open>Setting the merger up, and MergeAdjacent\<close>

text \<open>
  \<open>newMerger\<close> indexes the boxes that are not empty, drops those that another covers, looks whether the rest is
  disjoint and offers the pairs. What is left alive are the boxes of the normalized cover, so the first round starts
  from \<open>Normalize\<close> and the whole run is the greedy merge of it. \<open>MergeAdjacent_spec\<close> puts the two branches together.
\<close>

subsection \<open>The live boxes\<close>

definition index_loop :: "(float64 \<Rightarrow> word64) \<Rightarrow> nat \<Rightarrow> merger \<Rightarrow> merger" where
  "index_loop bits k m = fold (\<lambda>i m.
      if Box_Empty (mg_boxes m ! i) then m\<lparr>mg_live := (mg_live m)[i := False]\<rparr>
      else mg_index bits i (m\<lparr>mg_live := (mg_live m)[i := True]\<rparr>)) [0..<k] m"

definition bare_merger :: "grid_ops \<Rightarrow> (float64 \<Rightarrow> word64) \<Rightarrow> box list \<Rightarrow> merger" where
  "bare_merger A bits boxes =
     \<lparr>mg_boxes = boxes, mg_live = replicate (length boxes) False, mg_buckets = (\<lambda>_. []),
      mg_grid = newCoverGrid A bits boxes (length (BMin (boxes ! 0))), mg_pairs = [],
      mg_dims = length (BMin (boxes ! 0)), mg_disjoint = False\<rparr>"

lemma index_loop_spec:
  fixes A :: grid_ops and bits :: "float64 \<Rightarrow> word64"
  assumes "k \<le> length boxes"
  defines "m \<equiv> index_loop bits k (bare_merger A bits boxes)"
  shows "mg_boxes m = boxes" "mg_pairs m = []" "\<not> mg_disjoint m" "mg_dims m = length (BMin (boxes ! 0))"
    "mg_grid m = newCoverGrid A bits boxes (length (BMin (boxes ! 0)))" "length (mg_live m) = length boxes"
    "alive m i \<longleftrightarrow> i < k \<and> \<not> Box_Empty (boxes ! i)"
    "count_list (mg_buckets m key) i = (if alive m i then key_count bits (boxes ! i) [0..<length (BMin (boxes ! 0))] key else 0)"
proof -
  let ?n = "length (BMin (boxes ! 0))"
  have "mg_boxes (index_loop bits k (bare_merger A bits boxes)) = boxes \<and> mg_pairs (index_loop bits k (bare_merger A bits boxes)) = [] \<and>
      \<not> mg_disjoint (index_loop bits k (bare_merger A bits boxes)) \<and> mg_dims (index_loop bits k (bare_merger A bits boxes)) = ?n \<and>
      mg_grid (index_loop bits k (bare_merger A bits boxes)) = newCoverGrid A bits boxes ?n \<and>
      length (mg_live (index_loop bits k (bare_merger A bits boxes))) = length boxes \<and>
      (\<forall>i<length boxes. mg_live (index_loop bits k (bare_merger A bits boxes)) ! i \<longleftrightarrow> i < k \<and> \<not> Box_Empty (boxes ! i)) \<and>
      (\<forall>key i. count_list (mg_buckets (index_loop bits k (bare_merger A bits boxes)) key) i =
         (if i < k \<and> \<not> Box_Empty (boxes ! i) then key_count bits (boxes ! i) [0..<?n] key else 0))"
    using assms(1)
  proof (induction k)
    case 0
    show ?case by (simp add: index_loop_def bare_merger_def)
  next
    case (Suc k)
    let ?m = "index_loop bits k (bare_merger A bits boxes)"
    have ih: "mg_boxes ?m = boxes" "mg_pairs ?m = []" "\<not> mg_disjoint ?m" "mg_dims ?m = ?n"
        "mg_grid ?m = newCoverGrid A bits boxes ?n" "length (mg_live ?m) = length boxes"
        "\<And>i. i < length boxes \<Longrightarrow> mg_live ?m ! i \<longleftrightarrow> i < k \<and> \<not> Box_Empty (boxes ! i)"
        "\<And>key i. count_list (mg_buckets ?m key) i = (if i < k \<and> \<not> Box_Empty (boxes ! i) then key_count bits (boxes ! i) [0..<?n] key else 0)"
      using Suc by simp_all
    have k: "k < length boxes" using Suc.prems by simp
    have s: "index_loop bits (Suc k) (bare_merger A bits boxes) =
        (if Box_Empty (boxes ! k) then ?m\<lparr>mg_live := (mg_live ?m)[k := False]\<rparr>
         else mg_index bits k (?m\<lparr>mg_live := (mg_live ?m)[k := True]\<rparr>))"
      using ih(1) by (simp add: index_loop_def)
    show ?case
    proof (cases "Box_Empty (boxes ! k)")
      case True
      then show ?thesis unfolding s using ih k by (auto simp: nth_list_update less_Suc_eq)
    next
      case False
      then show ?thesis unfolding s using ih k by (auto simp: mg_index_def bucket_add_count nth_list_update less_Suc_eq)
    qed
  qed
  then show "mg_boxes m = boxes" "mg_pairs m = []" "\<not> mg_disjoint m" "mg_dims m = ?n"
    "mg_grid m = newCoverGrid A bits boxes ?n" "length (mg_live m) = length boxes"
    and al: "alive m i \<longleftrightarrow> i < k \<and> \<not> Box_Empty (boxes ! i)"
    and "count_list (mg_buckets m key) i = (if alive m i then key_count bits (boxes ! i) [0..<?n] key else 0)"
    using assms(1) by (auto simp: m_def alive_def)
qed

lemma index_loop_ok:
  fixes A :: grid_ops and bits :: "float64 \<Rightarrow> word64"
  assumes ok: "\<forall>b\<in>set boxes. box_ok n b" "boxes \<noteq> []" and c: "\<forall>b\<in>set boxes. corners_in C n b"
    and k: "keeps_order A (snd (gridShape A boxes n)) (fst (gridShape A boxes n)) C"
  defines "m \<equiv> index_loop bits (length boxes) (bare_merger A bits boxes)"
  shows "merger_ok A bits n C m" "mg_boxes m = boxes" "mg_pairs m = []" "\<not> mg_disjoint m"
    "alive m i \<longleftrightarrow> i < length boxes \<and> \<not> Box_Empty (boxes ! i)"
proof -
  have n: "length (BMin (boxes ! 0)) = n" using ok by (simp add: box_okD(1))
  note s = index_loop_spec [where boxes = boxes and A = A and bits = bits, OF order_refl, folded m_def, unfolded n]
  note g = newCoverGrid_ok(1) [of A bits boxes n] newCoverGrid_ok(2,3) [of A bits boxes n] newCoverGrid_ok(4) [of A boxes n]
  have R: "Collect (alive m) \<subseteq> {..<length boxes}" using s(7) by auto
  have good: "good_box n (boxes ! i)" "corners_in C n (boxes ! i)" if "alive m i" for i
    using s(7) [of i] that ok(1) c by (auto simp: good_box_def)
  show "merger_ok A bits n C m"
    unfolding merger_ok_def s(1,4,5)
  proof (intro conjI allI impI exI [of _ "{..<length boxes}"])
    show "length (mg_live m) = length boxes" by (rule s(6))
    show "count_list (mg_buckets m key) i = (if alive m i then key_count bits (boxes ! i) [0..<n] key else 0)" for key i
      by (rule s(8))
    show "grid_ok A bits (length boxes) {..<length boxes} ((!) boxes) (newCoverGrid A bits boxes n)" by (rule g(1))
    show "length (g_cell (newCoverGrid A bits boxes n)) = n" using g by simp
    show "keeps_order A (g_cell (newCoverGrid A bits boxes n)) (g_origin (newCoverGrid A bits boxes n)) C" using g k by simp
  qed (use R good in simp_all)
  show "mg_boxes m = boxes" "mg_pairs m = []" "\<not> mg_disjoint m" by (rule s)+
  show "alive m i \<longleftrightarrow> i < length boxes \<and> \<not> Box_Empty (boxes ! i)" by (rule s(7))
qed

subsection \<open>Dropping covered boxes\<close>

definition coverer :: "merger \<Rightarrow> nat \<Rightarrow> nat \<Rightarrow> bool" where
  "coverer m i s \<longleftrightarrow> alive m s \<and> s \<noteq> i \<and> subsumes (mg_boxes m ! s) (mg_boxes m ! i)"

lemma subsumer_spec:
  assumes ok: "merger_ok A bits n C m" and i: "alive m i"
  shows "case subsumer A bits i m of None \<Rightarrow> \<forall>s. \<not> coverer m i s | Some s \<Rightarrow> coverer m i s"
proof -
  note g = merger_okD(3) [OF ok] and cr = merger_okD(4) [OF ok]
  let ?step = "\<lambda>c best. if c = i \<or> \<not> mg_live m ! c \<or> \<not> subsumes (mg_boxes m ! c) (mg_boxes m ! i) then best
         else if (case best of None \<Rightarrow> True | Some b \<Rightarrow> c < b) then Some c else best"
  have step: "?step c best = best \<and> (coverer m i c \<longrightarrow> best \<noteq> None) \<or> ?step c best = Some c \<and> coverer m i c"
    if "c < length (mg_boxes m)" for c best
    using that by (auto simp: coverer_def alive_def split: option.split)
  have "(fold ?step cs best = None \<longrightarrow> best = None \<and> (\<forall>s\<in>set cs. \<not> coverer m i s)) \<and>
      (\<forall>s. fold ?step cs best = Some s \<longrightarrow> coverer m i s)"
    if "set cs \<subseteq> {..<length (mg_boxes m)}" "\<forall>b. best = Some b \<longrightarrow> coverer m i b" for cs best
    using that
  proof (induction cs arbitrary: best)
    case (Cons c cs)
    have c: "c < length (mg_boxes m)" "set cs \<subseteq> {..<length (mg_boxes m)}" using Cons.prems(1) by simp_all
    have f: "fold ?step (c # cs) best = fold ?step cs (?step c best)" by (simp only: fold_simps)
    from step [OF c(1), of best] show ?case
    proof (elim disjE conjE)
      assume e: "?step c best = best" and nb: "coverer m i c \<longrightarrow> best \<noteq> None"
      show ?thesis unfolding f e using Cons.IH [OF c(2) Cons.prems(2)] nb by auto
    next
      assume e: "?step c best = Some c" and cc: "coverer m i c"
      have "\<forall>b. Some c = Some b \<longrightarrow> coverer m i b" using cc by simp
      then show ?thesis unfolding f e using Cons.IH [OF c(2)] by blast
    qed
  qed simp
  from this [of "mg_candidates A bits i m" None] candidates_range [OF ok]
  have f: "case subsumer A bits i m of None \<Rightarrow> \<forall>s\<in>set (mg_candidates A bits i m). \<not> coverer m i s | Some s \<Rightarrow> coverer m i s"
    by (auto simp: subsumer_def split: option.split)
  have "s \<in> set (mg_candidates A bits i m)" if "coverer m i s" for s
  proof (rule candidates_complete [OF ok _ g [OF i] cr [OF i]])
    show s: "alive m s" using that by (simp add: coverer_def)
    have "bspan (mg_boxes m ! i) \<subseteq> bspan (mg_boxes m ! s)"
      using that subsumes_iff_bspan [OF g [OF i] g [OF s]] by (simp add: coverer_def)
    then show "bspan (mg_boxes m ! s) \<inter> bspan (mg_boxes m ! i) \<noteq> {}" using good_box_bspan [OF g [OF i]] by blast
  qed
  with f show ?thesis by (auto split: option.splits)
qed

lemma dedupe_one_spec:
  assumes ok: "merger_ok A bits n C m" and len: "i < length (mg_boxes m)"
  shows "merger_ok A bits n C (dedupe_one A bits i m)"
    "kills m (dedupe_one A bits i m) {j. j = i \<and> (\<exists>s. coverer m i s)}"
proof -
  let ?m = "dedupe_one A bits i m"
  have "merger_ok A bits n C ?m \<and> kills m ?m {j. j = i \<and> (\<exists>s. coverer m i s)}"
  proof (cases "alive m i \<and> (\<exists>s. coverer m i s)")
    case True
    then have i: "alive m i" by blast
    obtain s where s: "subsumer A bits i m = Some s" "coverer m i s"
      using subsumer_spec [OF ok i] True by (auto split: option.splits)
    let ?u = "m\<lparr>mg_boxes := (mg_boxes m)[s := (mg_boxes m ! s)\<lparr>Meta := meta_Union (Meta (mg_boxes m ! s)) (Meta (mg_boxes m ! i))\<rparr>]\<rparr>"
    have m: "?m = mg_kill bits i ?u" using i s(1) by (simp add: dedupe_one_def alive_def)
    have ok': "merger_ok A bits n C ?u" by (rule merger_ok_strip [OF ok strip_upd])
    have al: "alive ?u j = alive m j" for j by (simp add: alive_def)
    have "merger_ok A bits n C (mg_kill bits i ?u)" by (rule kill_ok [OF ok']) (simp add: al i)
    moreover have "alive (mg_kill bits i ?u) j \<longleftrightarrow> alive m j \<and> j \<noteq> i" for j
      using alive_kill [of ?u bits i j] merger_okD(1) [OF ok] al by simp
    ultimately show ?thesis unfolding m kills_def using True by (simp add: strip_upd)
  next
    case False
    have "?m = m"
    proof (cases "alive m i")
      case True
      then show ?thesis using subsumer_spec [OF ok True] False by (auto simp: dedupe_one_def split: option.splits)
    next
      case False
      then show ?thesis using len by (simp add: dedupe_one_def alive_def)
    qed
    then show ?thesis using ok False by (auto simp: kills_def)
  qed
  then show "merger_ok A bits n C ?m" "kills m ?m {j. j = i \<and> (\<exists>s. coverer m i s)}" by blast+
qed

definition live_spans :: "merger \<Rightarrow> finePoint list set set" where
  "live_spans m = {bspan (mg_boxes m ! i) |i. alive m i}"

lemma maximal_covered: "y \<in> S \<Longrightarrow> x \<subseteq> y \<Longrightarrow> maximal (insert x S) = maximal S"
  unfolding maximal_def by blast

lemma kills_bspan: "kills m m' K \<Longrightarrow> alive m i \<Longrightarrow> bspan (mg_boxes m' ! i) = bspan (mg_boxes m ! i)"
  using strip_eq_fields(6) kills_nth(3) by blast

lemma kills_subsumes:
  assumes "kills m m' K" "alive m i" "alive m j"
  shows "subsumes (mg_boxes m' ! i) (mg_boxes m' ! j) = subsumes (mg_boxes m ! i) (mg_boxes m ! j)"
  using strip_eq_fields(10) [OF kills_nth(3) [OF assms(1,2)]] strip_eq_fields(11) [OF kills_nth(3) [OF assms(1,3)]] by simp

lemma kills_alive: "kills m m' K \<Longrightarrow> alive m' i \<longleftrightarrow> alive m i \<and> i \<notin> K"
  by (simp add: kills_def)

lemma kills_coverer: "kills m m' K \<Longrightarrow> alive m i \<Longrightarrow> coverer m' i s \<Longrightarrow> coverer m i s"
  using kills_subsumes [of m m' K s i] kills_alive [of m m' K s] by (auto simp: coverer_def)

lemma kills_live_spans:
  assumes "kills m m' K"
  shows "live_spans m' = (\<lambda>i. bspan (mg_boxes m ! i)) ` (Collect (alive m) - K)"
proof -
  have "live_spans m' = (\<lambda>i. bspan (mg_boxes m' ! i)) ` (Collect (alive m) - K)"
    using kills_alive [OF assms] by (auto simp: live_spans_def)
  also have "\<dots> = (\<lambda>i. bspan (mg_boxes m ! i)) ` (Collect (alive m) - K)"
    using kills_bspan [OF assms] by (intro image_cong) auto
  finally show ?thesis .
qed

lemma live_spans_image: "live_spans m = (\<lambda>i. bspan (mg_boxes m ! i)) ` Collect (alive m)"
  by (auto simp: live_spans_def)

lemma alive_disjoint [simp]: "alive (m\<lparr>mg_disjoint := b\<rparr>) = alive m"
  by (simp add: alive_def fun_eq_iff)

lemma kill_covered_spans:
  assumes ok: "merger_ok A bits n C m" and k: "kills m m' {j. j = i \<and> (\<exists>s. coverer m i s)}"
  shows "maximal (live_spans m') = maximal (live_spans m)"
proof (cases "alive m i \<and> (\<exists>s. coverer m i s)")
  case True
  then obtain s where s: "alive m s" "s \<noteq> i" "subsumes (mg_boxes m ! s) (mg_boxes m ! i)" and i: "alive m i"
    by (auto simp: coverer_def)
  have sp: "live_spans m' = (\<lambda>i. bspan (mg_boxes m ! i)) ` (Collect (alive m) - {i})"
    using kills_live_spans [OF k] True by auto
  have "live_spans m = insert (bspan (mg_boxes m ! i)) (live_spans m')"
  proof -
    have "Collect (alive m) = insert i (Collect (alive m) - {i})" using i by auto
    then show ?thesis using live_spans_image sp by (metis image_insert)
  qed
  moreover have "bspan (mg_boxes m ! s) \<in> live_spans m'" using s(1,2) by (auto simp: sp)
  moreover have "bspan (mg_boxes m ! i) \<subseteq> bspan (mg_boxes m ! s)"
    using s(3) subsumes_iff_bspan [OF merger_okD(3) [OF ok i] merger_okD(3) [OF ok s(1)]] by simp
  ultimately show ?thesis using maximal_covered by metis
next
  case False
  then have "Collect (alive m) - {j. j = i \<and> (\<exists>s. coverer m i s)} = Collect (alive m)" by auto
  then have "live_spans m' = live_spans m" using kills_live_spans [OF k] live_spans_image by metis
  then show ?thesis by simp
qed

lemma live_spans_maximal:
  assumes ok: "merger_ok A bits n C m" and anti: "live_antichain m"
  shows "maximal (live_spans m) = live_spans m"
proof -
  have "bspan (mg_boxes m ! i) = bspan (mg_boxes m ! j)"
    if "alive m i" "alive m j" "bspan (mg_boxes m ! i) \<subseteq> bspan (mg_boxes m ! j)" for i j
    using anti that subsumes_iff_bspan [OF merger_okD(3) [OF ok that(1)] merger_okD(3) [OF ok that(2)]]
    by (cases "i = j") (auto simp: live_antichain_def)
  then show ?thesis unfolding maximal_def live_spans_def by blast
qed

lemma mg_dedupe_spec:
  assumes ok: "merger_ok A bits n C m"
  defines "m' \<equiv> mg_dedupe A bits m"
  shows "merger_ok A bits n C m'" "\<exists>K. kills m m' K" "live_antichain m'" "live_spans m' = maximal (live_spans m)"
proof -
  let ?f = "\<lambda>k. fold (dedupe_one A bits) [0..<k] m"
  have inv: "merger_ok A bits n C (?f k) \<and> (\<exists>K. kills m (?f k) K) \<and> maximal (live_spans (?f k)) = maximal (live_spans m) \<and>
      (\<forall>i<k. alive (?f k) i \<longrightarrow> \<not> (\<exists>s. coverer (?f k) i s))" if "k \<le> length (mg_boxes m)" for k
    using that
  proof (induction k)
    case 0
    have "kills m m {}" by (simp add: kills_def)
    then show ?case using ok by auto
  next
    case (Suc k)
    let ?m = "?f k"
    obtain K where ih: "merger_ok A bits n C ?m" "kills m ?m K" "maximal (live_spans ?m) = maximal (live_spans m)"
        "\<And>i. i < k \<Longrightarrow> alive ?m i \<Longrightarrow> \<not> (\<exists>s. coverer ?m i s)" using Suc by auto
    have k: "k < length (mg_boxes ?m)" using kills_nth(1) [OF ih(2)] Suc.prems by simp
    note d = dedupe_one_spec [OF ih(1) k]
    have s: "?f (Suc k) = dedupe_one A bits k ?m" by simp
    have "\<not> (\<exists>s. coverer (dedupe_one A bits k ?m) i s)" if i: "i < Suc k" "alive (dedupe_one A bits k ?m) i" for i
    proof -
      have a: "alive ?m i" "i = k \<Longrightarrow> \<not> (\<exists>s. coverer ?m k s)" using kills_alive [OF d(2), of i] i(2) by auto
      then have "\<not> (\<exists>s. coverer ?m i s)" using ih(4) [of i] i(1) by (cases "i = k") auto
      then show ?thesis using kills_coverer [OF d(2) a(1)] by blast
    qed
    then show ?case
      unfolding s using d(1) kills_trans [OF ih(2) d(2)] kill_covered_spans [OF ih(1) d(2)] ih(3) by auto
  qed
  have m': "m' = ?f (length (mg_boxes m))" by (simp add: m'_def mg_dedupe_def)
  show ok': "merger_ok A bits n C m'" and ex: "\<exists>K. kills m m' K" using inv [OF order_refl] unfolding m' by blast+
  have "\<not> coverer m' j i" if "alive m' i" "alive m' j" "i \<noteq> j" for i j
  proof -
    have "j < length (mg_boxes m)" using ex kills_nth(1) that(2) by (auto simp: alive_def)
    then show ?thesis using inv [OF order_refl] that(2) unfolding m' by blast
  qed
  then show anti: "live_antichain m'" unfolding live_antichain_def coverer_def by blast
  show "live_spans m' = maximal (live_spans m)"
    using live_spans_maximal [OF ok' anti] inv [OF order_refl] unfolding m' by simp
qed

lemma detectDisjoint_spec:
  assumes ok: "merger_ok A bits n C m" and d: "detectDisjoint A bits m"
  shows "live_disjoint m"
  unfolding live_disjoint_def
proof (intro allI impI)
  note g = merger_okD(3) [OF ok] and cr = merger_okD(4) [OF ok]
  fix i c assume a: "alive m i" "alive m c" "i \<noteq> c"
  show "bspan (mg_boxes m ! i) \<inter> bspan (mg_boxes m ! c) = {}"
  proof (rule ccontr)
    assume o: "bspan (mg_boxes m ! i) \<inter> bspan (mg_boxes m ! c) \<noteq> {}"
    then have "c \<in> set (mg_candidates A bits i m)"
      using candidates_complete [OF ok a(2) g [OF a(1)] cr [OF a(1)]] by (simp add: Int_commute)
    moreover have "Overlaps (mg_boxes m ! i) (mg_boxes m ! c)" using Overlaps_iff_bspan [OF g [OF a(1)] g [OF a(2)]] o by simp
    ultimately show False using d a by (auto simp: detectDisjoint_def list_all_iff alive_def)
  qed
qed

lemma offer_all:
  assumes ok: "merger_ok A bits n C m" and anti: "live_antichain m" and p: "mg_pairs m = []" and k: "k \<le> length (mg_boxes m)"
  shows "\<exists>ps. fold (\<lambda>i m. if mg_live m ! i then offer bits i m else m) [0..<k] m = m\<lparr>mg_pairs := ps\<rparr> \<and>
    pairs_ok n (mg_boxes m) ps \<and> (\<forall>a b. joinable m a b \<longrightarrow> a < k \<longrightarrow> orderedPair (mg_boxes m) a b \<in> set ps)"
  using k
proof (induction k)
  case 0
  have "m = m\<lparr>mg_pairs := []\<rparr>" using p by simp
  then show ?case by (intro exI [of _ "[]"]) (simp add: pairs_ok_def is_heap_def)
next
  case (Suc k)
  let ?f = "\<lambda>k. fold (\<lambda>i m. if mg_live m ! i then offer bits i m else m) [0..<k] m"
  obtain ps where ps: "?f k = m\<lparr>mg_pairs := ps\<rparr>" and ih': "pairs_ok n (mg_boxes m) ps"
      "\<And>a b. joinable m a b \<Longrightarrow> a < k \<Longrightarrow> orderedPair (mg_boxes m) a b \<in> set ps"
    using Suc by (auto simp: Suc_le_eq)
  have s: "?f (Suc k) = (if mg_live m ! k then offer bits k (m\<lparr>mg_pairs := ps\<rparr>) else m\<lparr>mg_pairs := ps\<rparr>)"
    using ps by simp
  show ?case
  proof (cases "mg_live m ! k")
    case True
    then have al: "alive (m\<lparr>mg_pairs := ps\<rparr>) k" using Suc.prems by (simp add: alive_def)
    have ok': "merger_ok A bits n C (m\<lparr>mg_pairs := ps\<rparr>)" using ok by simp
    note o = offer_spec [OF ok' al]
    obtain qs where qs: "offer bits k (m\<lparr>mg_pairs := ps\<rparr>) = m\<lparr>mg_pairs := qs\<rparr>" by (simp add: offer_def)
    have "orderedPair (mg_boxes m) a b \<in> set (mg_pairs (offer bits k (m\<lparr>mg_pairs := ps\<rparr>)))" if j: "joinable m a b" "a < Suc k" for a b
    proof (cases "a = k")
      case True
      then show ?thesis using o(3) ih'(1) j(1) joinable_neq [OF ok j(1)] by (auto simp: joinable_def)
    next
      case False
      then show ?thesis using o(3) ih' j by auto
    qed
    moreover have "pairs_ok n (mg_boxes m) (mg_pairs (offer bits k (m\<lparr>mg_pairs := ps\<rparr>)))" using o(2) ih'(1) by simp
    ultimately show ?thesis unfolding s qs using True by (intro exI [of _ qs]) simp
  next
    case False
    then have "\<not> joinable m k b" for b by (simp add: joinable_def alive_def)
    then show ?thesis using ih' False unfolding s by (auto simp: less_Suc_eq)
  qed
qed

lemma newMerger_round:
  assumes ok: "\<forall>b\<in>set boxes. box_ok n b" "boxes \<noteq> []" and c: "\<forall>b\<in>set boxes. corners_in C n b"
    and k: "keeps_order A (snd (gridShape A boxes n)) (fst (gridShape A boxes n)) C"
  shows "round_ok A bits n C (newMerger A bits boxes) (map strip (box_Normalize boxes))"
proof -
  let ?i = "index_loop bits (length boxes) (bare_merger A bits boxes)"
  let ?d = "mg_dedupe A bits ?i"
  let ?e = "?d\<lparr>mg_disjoint := detectDisjoint A bits ?d\<rparr>"
  note i = index_loop_ok [where bits = bits, OF ok c k]
  note d = mg_dedupe_spec [OF i(1)]
  obtain K where K: "kills ?i ?d K" using d(2) by blast
  have len: "length (mg_boxes ?d) = length boxes" using kills_nth(1) [OF K] i(2) by simp
  have al: "alive ?e = alive ?d" by (rule alive_disjoint)
  have ok': "merger_ok A bits n C ?e" using d(1) by (simp add: merger_ok_def al)
  have anti: "live_antichain ?e" using d(3) by (simp add: live_antichain_def al)
  have p: "mg_pairs ?e = []" using K i(3) by (simp add: kills_def)
  have dis: "live_disjoint ?e" if "mg_disjoint ?e" using detectDisjoint_spec [OF d(1)] that by (simp add: live_disjoint_def)
  let ?m = "newMerger A bits boxes"
  have m: "?m = fold (\<lambda>i m. if mg_live m ! i then offer bits i m else m) [0..<length (mg_boxes ?e)] ?e"
    by (simp add: newMerger_def Let_def index_loop_def bare_merger_def len [unfolded index_loop_def bare_merger_def])
  have le: "length (mg_boxes ?e) \<le> length (mg_boxes ?e)" by simp
  from offer_all [OF ok' anti p le, folded m]
  obtain ps where ps: "?m = ?e\<lparr>mg_pairs := ps\<rparr>" and po: "pairs_ok n (mg_boxes ?e) ps"
      "\<And>a b. joinable ?e a b \<Longrightarrow> a < length (mg_boxes ?e) \<Longrightarrow> orderedPair (mg_boxes ?e) a b \<in> set ps" by blast
  have N: "box_canonical n (box_Normalize boxes)" "bspan ` set (box_Normalize boxes) = maximal (spans boxes)"
    using NormalizeMerged_spec [OF ok(1)] by (simp_all add: box_Normalize_def)
  have "live_spans ?i = spans boxes"
    unfolding live_spans_def spans_def i(2,5) by (auto simp: in_set_conv_nth)
  then have sp: "live_spans ?d = bspan ` set (box_Normalize boxes)" using d(4) N(2) by simp
  have gN: "\<forall>b\<in>set (box_Normalize boxes). good_box n b" using N(1) by (simp add: box_canonical_def all_good_def)
  have "box_key ` set (box_Normalize boxes) = live_keys ?d"
  proof (rule set_eqI)
    fix key
    have "key \<in> box_key ` set (box_Normalize boxes) \<longleftrightarrow> (\<exists>b\<in>set (box_Normalize boxes). key = box_key b)" by blast
    also have "\<dots> \<longleftrightarrow> (\<exists>i. alive ?d i \<and> key = box_key (mg_boxes ?d ! i))"
    proof
      assume "\<exists>b\<in>set (box_Normalize boxes). key = box_key b"
      then obtain b where b: "b \<in> set (box_Normalize boxes)" "key = box_key b" by blast
      then have "bspan b \<in> live_spans ?d" unfolding sp by blast
      then obtain x where x: "alive ?d x" "bspan b = bspan (mg_boxes ?d ! x)" by (auto simp: live_spans_def)
      then show "\<exists>i. alive ?d i \<and> key = box_key (mg_boxes ?d ! i)"
        using b gN box_key_bspan [of n b "mg_boxes ?d ! x"] merger_okD(3) [OF d(1) x(1)] by blast
    next
      assume "\<exists>i. alive ?d i \<and> key = box_key (mg_boxes ?d ! i)"
      then obtain x where x: "alive ?d x" "key = box_key (mg_boxes ?d ! x)" by blast
      then have "bspan (mg_boxes ?d ! x) \<in> bspan ` set (box_Normalize boxes)" unfolding sp [symmetric] live_spans_def by blast
      then obtain b where b: "b \<in> set (box_Normalize boxes)" "bspan (mg_boxes ?d ! x) = bspan b" by blast
      then show "\<exists>b\<in>set (box_Normalize boxes). key = box_key b"
        using x gN box_key_bspan [of n "mg_boxes ?d ! x" b] merger_okD(3) [OF d(1) x(1)] by blast
    qed
    also have "\<dots> \<longleftrightarrow> key \<in> live_keys ?d" unfolding live_keys_def by blast
    finally show "key \<in> box_key ` set (box_Normalize boxes) \<longleftrightarrow> key \<in> live_keys ?d" .
  qed
  moreover have "box_canonical n (map strip (box_Normalize boxes))"
    using N(1) box_canonical_strip [of "map strip (box_Normalize boxes)" "box_Normalize boxes"] by (simp add: comp_def)
  moreover have "box_key ` set (map strip (box_Normalize boxes)) = box_key ` set (box_Normalize boxes)"
    by (simp add: image_image)
  moreover have "live_keys ?m = live_keys ?d" unfolding ps live_keys_def by (simp add: alive_def)
  moreover have "live_antichain ?m" "mg_disjoint ?m \<longrightarrow> live_disjoint ?m"
    using anti dis unfolding ps live_antichain_def live_disjoint_def by (simp_all add: alive_def)
  moreover have "pairs_complete ?m" using po(2) unfolding ps pairs_complete_def by (auto simp: joinable_def alive_def)
  moreover have "merger_ok A bits n C ?m" "pairs_ok n (mg_boxes ?m) (mg_pairs ?m)"
    using ok' po(1) unfolding ps by simp_all
  ultimately show ?thesis by (simp add: round_ok_def)
qed

subsection \<open>The two branches\<close>

definition cornersOf :: "box list \<Rightarrow> nat \<Rightarrow> float64 set" where
  "cornersOf boxes d = {x. \<exists>b\<in>set boxes. x = BMin b ! d \<or> x = BMax b ! d}"

text \<open>Lists with the same keys cover the same points and can be merged at the same positions.\<close>

lemma same_keys:
  assumes "all_good n xs" "all_good n ys" "map box_key xs = map box_key ys"
  shows "bcover xs = bcover ys" "mergeable xs i j = mergeable ys i j"
proof -
  have len: "length xs = length ys" using assms(3) by (metis length_map)
  have g: "same_geo n (xs ! k) (ys ! k)" if "k < length xs" for k
    using assms that len same_geo_key [of n "xs ! k" "ys ! k"] by (metis all_good_def nth_map nth_mem)
  then have "bspan (xs ! k) = bspan (ys ! k)" if "k < length xs" for k using that same_geo_bspan by blast
  then have "map bspan xs = map bspan ys" using len by (intro nth_equalityI) simp_all
  then show "bcover xs = bcover ys" unfolding bcover_def by (metis list.set_map)
  show "mergeable xs i j = mergeable ys i j"
  proof (cases "i < j \<and> j < length xs")
    case True
    then show ?thesis using mergePair_geo [OF g g, of i j] len by (simp add: mergeable_def)
  qed (use len in \<open>auto simp: mergeable_def\<close>)
qed

lemma indexed_run:
  assumes ok: "\<forall>b\<in>set boxes. box_ok n b" "boxes \<noteq> []"
    and k: "keeps_order A (snd (gridShape A boxes n)) (fst (gridShape A boxes n)) (cornersOf boxes)"
  shows "\<exists>out. mg_run A bits (newMerger A bits boxes) = Some out \<and> box_canonical n out \<and>
    map box_key out = map box_key (greedy (length (box_Normalize boxes)) (map strip (box_Normalize boxes)))"
proof -
  have "\<forall>b\<in>set boxes. corners_in (cornersOf boxes) n b" by (auto simp: corners_in_def cornersOf_def)
  from run_spec [OF newMerger_round [OF ok this k, of bits]] show ?thesis by auto
qed

lemma MergeAdjacent_spec:
  assumes ok: "\<forall>b\<in>set boxes. box_ok n b"
    and k: "indexedMergeThreshold \<le> length boxes \<Longrightarrow>
      keeps_order A (snd (gridShape A boxes n)) (fst (gridShape A boxes n)) (cornersOf boxes)"
  shows "\<exists>out. MergeAdjacent A bits boxes = Some out \<and> box_canonical n out \<and> bcover out = bcover boxes \<and>
    (\<forall>i j. \<not> mergeable out i j) \<and>
    map box_key out = map box_key (greedy (length (box_Normalize boxes)) (map strip (box_Normalize boxes)))"
proof -
  obtain s where s: "scanMerge bits boxes = Some s" "box_canonical n s" "bcover s = bcover boxes" "\<forall>i j. \<not> mergeable s i j"
      "map strip s = greedy (length (box_Normalize boxes)) (map strip (box_Normalize boxes))"
    using scanMerge_spec [OF ok, of bits] by blast
  have "map box_key s = map box_key (map strip s)" by simp
  then have sk: "map box_key s = map box_key (greedy (length (box_Normalize boxes)) (map strip (box_Normalize boxes)))"
    using s(5) by simp
  show ?thesis
  proof (cases "length boxes < indexedMergeThreshold")
    case True
    then show ?thesis using s sk by (simp add: MergeAdjacent_def)
  next
    case False
    then have "boxes \<noteq> []" by (auto simp: indexedMergeThreshold_def)
    then obtain out where out: "mg_run A bits (newMerger A bits boxes) = Some out" "box_canonical n out"
        "map box_key out = map box_key s"
      using indexed_run [OF ok _ k, of bits] False sk by auto
    have "all_good n out" "all_good n s" using out(2) s(2) by (simp_all add: box_canonical_def)
    from same_keys [OF this out(3)] show ?thesis using out s(3,4) sk False by (auto simp: MergeAdjacent_def)
  qed
qed

end
