(* ===== verification/Components.thy ===== *)
theory Components
  imports Box_Difference "HOL-Library.AList"
begin

section \<open>Connected components (space/components.go)\<close>

text \<open>
  \<open>ConnectedComponents\<close> joins the boxes of the canonical cover that overlap or share a face, with a union-find over
  their positions. \<open>find\<close> compresses paths, so it returns the array as well; it is a \<open>partial_function\<close>, and that
  it returns follows from the invariant \<open>forest\<close>: \<open>R\<close> names the root of every entry and \<open>h\<close> decreases along
  the parents. The result is shown to group the positions by the transitive closure of \<open>connected\<close>.
\<close>

subsection \<open>The source\<close>

definition touchAlongFace :: "box \<Rightarrow> box \<Rightarrow> nat \<Rightarrow> bool" where
  "touchAlongFace a b d =
     list_all (\<lambda>k. k = d \<or> \<not> (f_le (BMax a ! k) (BMin b ! k) \<or> f_le (BMax b ! k) (BMin a ! k))) [0..<length (BMin a)]"

definition connected :: "box \<Rightarrow> box \<Rightarrow> bool" where
  "connected a b =
     (if length (BMin a) \<noteq> length (BMin b) then False
      else if Overlaps a b then True
      else list_ex (\<lambda>d. (f_eq (BMax a ! d) (BMin b ! d) \<or> f_eq (BMax b ! d) (BMin a ! d)) \<and> touchAlongFace a b d)
        [0..<length (BMin a)])"

definition newDisjointSet :: "nat \<Rightarrow> nat list" where
  "newDisjointSet n = fold (\<lambda>i parent. parent[i := i]) [0..<n] (replicate n 0)"

partial_function (option) ds_find :: "nat list \<Rightarrow> nat \<Rightarrow> (nat \<times> nat list) option" where
  "ds_find parent x =
     (if parent ! x \<noteq> x
      then Option.bind (ds_find parent (parent ! x)) (\<lambda>(r, parent). Some (parent[x := r] ! x, parent[x := r]))
      else Some (parent ! x, parent))"

definition ds_union :: "nat \<Rightarrow> nat \<Rightarrow> nat list \<Rightarrow> nat list option" where
  "ds_union a b parent =
     Option.bind (ds_find parent a) (\<lambda>(ra, parent).
     Option.bind (ds_find parent b) (\<lambda>(rb, parent).
       Some (if ra \<noteq> rb then parent[rb := ra] else parent)))"

fun join_all :: "box list \<Rightarrow> (nat \<times> nat) list \<Rightarrow> nat list \<Rightarrow> nat list option" where
  "join_all boxes [] parent = Some parent"
| "join_all boxes ((i, j) # ps) parent =
     (if connected (boxes ! i) (boxes ! j) then Option.bind (ds_union i j parent) (join_all boxes ps)
      else join_all boxes ps parent)"

text \<open>The map of groups is an association list: the roots are sorted before they are used, so its order does not matter.\<close>

definition group_at :: "(nat \<times> nat list) list \<Rightarrow> nat \<Rightarrow> nat list" where
  "group_at g r = (case map_of g r of None \<Rightarrow> [] | Some is \<Rightarrow> is)"

fun collect_groups :: "nat list \<Rightarrow> nat list \<Rightarrow> (nat \<times> nat list) list \<Rightarrow> (nat \<times> nat list) list option" where
  "collect_groups parent [] g = Some g"
| "collect_groups parent (i # is) g =
     Option.bind (ds_find parent i) (\<lambda>(r, parent).
     Option.bind (ds_find parent i) (\<lambda>(r', parent).
       collect_groups parent is (AList.update r (group_at g r' @ [i]) g)))"

definition ds_groups :: "box list \<Rightarrow> nat list \<Rightarrow> box list list option" where
  "ds_groups boxes parent =
     Option.bind (collect_groups parent [0..<length boxes] [])
       (\<lambda>g. Some (map (\<lambda>r. map (\<lambda>i. boxes ! i) (group_at g r)) (sort (map fst g))))"

definition ConnectedComponents :: "box list \<Rightarrow> box list list option" where
  "ConnectedComponents boxes =
     (let boxes = box_Normalize boxes
      in if boxes = [] then Some []
         else Option.bind (join_all boxes (pairs_below (length boxes)) (newDisjointSet (length boxes))) (ds_groups boxes))"

subsection \<open>The forest\<close>

definition forest :: "nat list \<Rightarrow> (nat \<Rightarrow> nat) \<Rightarrow> (nat \<Rightarrow> nat) \<Rightarrow> bool" where
  "forest p R h \<longleftrightarrow> (\<forall>i<length p. p ! i < length p \<and> R i < length p \<and> p ! R i = R i \<and> R (p ! i) = R i \<and>
     (if p ! i = i then R i = i else h (p ! i) < h i))"

lemma forestD:
  assumes "forest p R h" "i < length p"
  shows "p ! i < length p" "R i < length p" "p ! R i = R i" "R (p ! i) = R i" "p ! i = i \<Longrightarrow> R i = i"
    "p ! i \<noteq> i \<Longrightarrow> h (p ! i) < h i"
  using assms by (auto simp: forest_def split: if_splits)

lemma forest_root_idem: "forest p R h \<Longrightarrow> i < length p \<Longrightarrow> R (R i) = R i"
  using forestD(2,3,5) by metis

lemma forest_height:
  assumes "forest p R h" "i < length p"
  shows "h (R i) \<le> h i" "p ! i \<noteq> i \<Longrightarrow> h (R i) < h i"
proof -
  have "h (R i) \<le> h i" if "i < length p" for i
    using that
  proof (induction "h i" arbitrary: i rule: less_induct)
    case less
    note d = forestD [OF assms(1) less.prems]
    show ?case
    proof (cases "p ! i = i")
      case False
      then show ?thesis using less.hyps [OF d(6) d(1)] d by simp
    qed (use d in simp)
  qed
  from this [OF assms(2)] this [of "p ! i"] forestD [OF assms]
  show "h (R i) \<le> h i" "p ! i \<noteq> i \<Longrightarrow> h (R i) < h i" by auto
qed

lemma forest_new: "newDisjointSet n = [0..<n]" "forest [0..<n] id (\<lambda>_. 0)"
proof -
  have "k \<le> n \<Longrightarrow> fold (\<lambda>i parent. parent[i := i]) [0..<k] (replicate n 0) = [0..<k] @ replicate (n - k) 0" for k
  proof (induction k)
    case (Suc k)
    then show ?case
      by (simp add: list_update_append Suc_diff_Suc [symmetric] del: replicate_Suc) (simp add: Suc_diff_le)
  qed simp
  from this [of n] show "newDisjointSet n = [0..<n]" by (simp add: newDisjointSet_def)
  show "forest [0..<n] id (\<lambda>_. 0)" by (simp add: forest_def)
qed

lemma forest_compress:
  assumes f: "forest p R h" and x: "x < length p"
  shows "forest (p[x := R x]) R h"
  unfolding forest_def length_list_update
proof (intro allI impI)
  fix i assume i: "i < length p"
  note di = forestD [OF f i] and dx = forestD [OF f x]
  have root: "p[x := R x] ! R i = R i"
    using forestD(5) [OF f x] di(2,3) by (cases "x = R i") (simp_all add: nth_list_update)
  have "R x = x \<longleftrightarrow> p ! x = x" using dx(3,5) by auto
  with root di dx forest_root_idem [OF f x] forest_height(2) [OF f x]
  show "p[x := R x] ! i < length p \<and> R i < length p \<and> p[x := R x] ! R i = R i \<and> R (p[x := R x] ! i) = R i \<and>
      (if p[x := R x] ! i = i then R i = i else h (p[x := R x] ! i) < h i)"
    by (cases "i = x") (simp_all add: i x)
qed

lemma find_spec:
  assumes "forest p R h" "x < length p"
  obtains p' where "ds_find p x = Some (R x, p')" "forest p' R h" "length p' = length p"
proof -
  have "\<exists>p'. ds_find p x = Some (R x, p') \<and> forest p' R h \<and> length p' = length p" if "x < length p" for x
    using that
  proof (induction "h x" arbitrary: x rule: less_induct)
    case less
    note d = forestD [OF assms(1) less.prems]
    show ?case
    proof (cases "p ! x = x")
      case True
      then show ?thesis using assms(1) d by (simp add: ds_find.simps)
    next
      case False
      then obtain p' where p': "ds_find p (p ! x) = Some (R (p ! x), p')" "forest p' R h" "length p' = length p"
        using less.hyps [OF d(6) d(1)] by auto
      moreover have "forest (p'[x := R x]) R h" using forest_compress [OF p'(2)] p'(3) less.prems by simp
      ultimately show ?thesis using False d(4) less.prems by (subst ds_find.simps) simp
    qed
  qed
  with assms(2) that show ?thesis by blast
qed

lemma forest_link:
  assumes f: "forest p R h" and a: "a < length p" and b: "b < length p" and ne: "R a \<noteq> R b"
  obtains h' where "forest (p[R b := R a]) (\<lambda>i. if R i = R b then R a else R i) h'"
proof
  let ?R = "\<lambda>i. if R i = R b then R a else R i" and ?h = "\<lambda>i. if R i = R b then h i + h (R a) + 1 else h i"
  let ?p = "p[R b := R a]"
  note da = forestD [OF f a] and db = forestD [OF f b]
  have idem: "R (R a) = R a" "R (R b) = R b" using forest_root_idem f a b by blast+
  show "forest ?p ?R ?h"
    unfolding forest_def length_list_update
  proof (intro allI impI)
    fix i assume i: "i < length p"
    note di = forestD [OF f i]
    show "?p ! i < length p \<and> ?R i < length p \<and> ?p ! ?R i = ?R i \<and> ?R (?p ! i) = ?R i \<and>
        (if ?p ! i = i then ?R i = i else ?h (?p ! i) < ?h i)"
    proof (cases "i = R b")
      case True
      then show ?thesis using i da db ne idem by (auto simp: nth_list_update)
    next
      case False
      then have "?p ! i = p ! i" by simp
      moreover have "p ! i = i \<Longrightarrow> R i \<noteq> R b" using di(5) False by auto
      ultimately show ?thesis using da db di ne by (auto simp: nth_list_update)
    qed
  qed
qed

lemma union_spec:
  assumes "forest p R h" "a < length p" "b < length p"
  obtains p' h' where "ds_union a b p = Some p'" "forest p' (\<lambda>i. if R i = R b then R a else R i) h'" "length p' = length p"
proof -
  obtain p1 where p1: "ds_find p a = Some (R a, p1)" "forest p1 R h" "length p1 = length p"
    using find_spec [OF assms(1,2)] by metis
  obtain p2 where p2: "ds_find p1 b = Some (R b, p2)" "forest p2 R h" "length p2 = length p"
    using find_spec [OF p1(2), of b] assms(3) p1(3) by metis
  show ?thesis
  proof (cases "R a = R b")
    case True
    then have "(\<lambda>i. if R i = R b then R a else R i) = R" by auto
    with that [of p2 h] p1 p2 True show ?thesis by (simp add: ds_union_def)
  next
    case False
    with forest_link [OF p2(2), of a b] p2(3) assms(2,3)
    obtain h' where "forest (p2[R b := R a]) (\<lambda>i. if R i = R b then R a else R i) h'" by auto
    with that [of "p2[R b := R a]" h'] p1 p2 False show ?thesis by (simp add: ds_union_def)
  qed
qed

subsection \<open>Joining\<close>

definition links :: "box list \<Rightarrow> (nat \<times> nat) set \<Rightarrow> (nat \<times> nat) set" where
  "links boxes S = {(i, j). ((i, j) \<in> S \<or> (j, i) \<in> S) \<and> connected (boxes ! min i j) (boxes ! max i j)}"

text \<open>\<open>R\<close> puts together what is linked, and nothing else.\<close>

definition same_groups :: "nat \<Rightarrow> (nat \<Rightarrow> nat) \<Rightarrow> (nat \<times> nat) set \<Rightarrow> bool" where
  "same_groups n R E \<longleftrightarrow> (\<forall>i<n. \<forall>j<n. R i = R j \<longrightarrow> (i, j) \<in> E\<^sup>*) \<and> (\<forall>(i, j)\<in>E. R i = R j)"

lemma same_groups_iff:
  assumes "same_groups n R E" "i < n" "j < n"
  shows "R i = R j \<longleftrightarrow> (i, j) \<in> E\<^sup>*"
proof
  assume "(i, j) \<in> E\<^sup>*"
  then show "R i = R j"
    by (induction rule: rtrancl_induct) (use assms(1) in \<open>auto simp: same_groups_def\<close>)
qed (use assms in \<open>simp add: same_groups_def\<close>)

lemma same_groups_link:
  assumes g: "same_groups n R E" and ab: "a < n" "b < n"
  shows "same_groups n (\<lambda>i. if R i = R b then R a else R i) (E \<union> {(a, b), (b, a)})"
proof -
  let ?E = "E \<union> {(a, b), (b, a)}"
  have mono: "(i, j) \<in> ?E\<^sup>*" if "R i = R j" "i < n" "j < n" for i j
    using that g rtrancl_mono [of E ?E] by (auto simp: same_groups_def)
  have ba: "(b, a) \<in> ?E\<^sup>*" "(a, b) \<in> ?E\<^sup>*" by auto
  have "(i, j) \<in> ?E\<^sup>*" if e: "(if R i = R b then R a else R i) = (if R j = R b then R a else R j)" and ij: "i < n" "j < n" for i j
  proof (cases "R i = R j")
    case False
    then consider "R i = R b" "R j = R a" | "R i = R a" "R j = R b" using e by (auto split: if_splits)
    then show ?thesis
    proof cases
      case 1
      with mono [of i b] mono [of a j] ab ij have "(i, b) \<in> ?E\<^sup>*" "(a, j) \<in> ?E\<^sup>*" by auto
      with ba(1) show ?thesis by (meson rtrancl_trans)
    next
      case 2
      with mono [of i a] mono [of b j] ab ij have "(i, a) \<in> ?E\<^sup>*" "(b, j) \<in> ?E\<^sup>*" by auto
      with ba(2) show ?thesis by (meson rtrancl_trans)
    qed
  qed (use mono ij in blast)
  moreover have "\<forall>(i, j)\<in>?E. (if R i = R b then R a else R i) = (if R j = R b then R a else R j)"
    using g by (auto simp: same_groups_def)
  ultimately show ?thesis unfolding same_groups_def by blast
qed

lemma links_insert:
  assumes "i < j"
  shows "links boxes (insert (i, j) S) =
    (if connected (boxes ! i) (boxes ! j) then links boxes S \<union> {(i, j), (j, i)} else links boxes S)"
  using assms by (auto simp: links_def)

lemma join_all_spec:
  assumes "forest p R h" "length p = n" "same_groups n R (links boxes S)" "\<forall>(i, j)\<in>set ps. i < j \<and> j < n"
  obtains p' R' h' where "join_all boxes ps p = Some p'" "forest p' R' h'" "length p' = n"
    "same_groups n R' (links boxes (S \<union> set ps))"
proof -
  have "\<exists>p' R' h'. join_all boxes ps p = Some p' \<and> forest p' R' h' \<and> length p' = n \<and>
      same_groups n R' (links boxes (S \<union> set ps))"
    using assms
  proof (induction ps arbitrary: p R h S)
    case (Cons ij ps)
    obtain i j where ij: "ij = (i, j)" "i < j" "j < n" "i < n" using Cons.prems(4) by (cases ij) auto
    have S: "S \<union> set (ij # ps) = insert (i, j) S \<union> set ps" by (simp add: ij)
    have ps: "\<forall>(i, j)\<in>set ps. i < j \<and> j < n" using Cons.prems(4) by simp
    show ?case
    proof (cases "connected (boxes ! i) (boxes ! j)")
      case True
      obtain p1 h1 where p1: "ds_union i j p = Some p1" "forest p1 (\<lambda>k. if R k = R j then R i else R k) h1" "length p1 = n"
        using union_spec [OF Cons.prems(1), of i j] ij Cons.prems(2) by auto
      have "same_groups n (\<lambda>k. if R k = R j then R i else R k) (links boxes (insert (i, j) S))"
        using same_groups_link [OF Cons.prems(3) ij(4,3)] True by (simp add: links_insert [OF ij(2)])
      from Cons.IH [OF p1(2,3) this ps] show ?thesis using True p1(1) by (simp add: ij(1))
    next
      case False
      then have "same_groups n R (links boxes (insert (i, j) S))"
        using Cons.prems(3) by (simp add: links_insert [OF ij(2)])
      from Cons.IH [OF Cons.prems(1,2) this ps] show ?thesis using False by (simp add: ij(1))
    qed
  qed auto
  with that show ?thesis by blast
qed

subsection \<open>The groups\<close>

lemma collect_groups_spec:
  assumes "forest p R h" "length p = n" "set is \<subseteq> {..<n}"
    "distinct (map fst g)" "fst ` set g = R ` set done0" "\<And>r. group_at g r = filter (\<lambda>i. R i = r) done0"
  shows "\<exists>g'. collect_groups p is g = Some g' \<and> distinct (map fst g') \<and> fst ` set g' = R ` set (done0 @ is) \<and>
    (\<forall>r. group_at g' r = filter (\<lambda>i. R i = r) (done0 @ is))"
  using assms
proof (induction "is" arbitrary: p g done0)
  case (Cons i "is")
  have i: "i < n" using Cons.prems(3) by simp
  obtain p1 where p1: "ds_find p i = Some (R i, p1)" "forest p1 R h" "length p1 = n"
    using find_spec [OF Cons.prems(1), of i] i Cons.prems(2) by metis
  obtain p2 where p2: "ds_find p1 i = Some (R i, p2)" "forest p2 R h" "length p2 = n"
    using find_spec [OF p1(2), of i] i p1(3) by metis
  let ?g = "AList.update (R i) (group_at g (R i) @ [i]) g"
  have "distinct (map fst ?g)" using Cons.prems(4) by (rule distinct_update)
  moreover have "fst ` set ?g = R ` set (done0 @ [i])" using Cons.prems(5) by (simp add: dom_update)
  moreover have "group_at ?g r = filter (\<lambda>i. R i = r) (done0 @ [i])" for r
    using Cons.prems(6) by (simp add: group_at_def update_conv)
  ultimately have "\<exists>g'. collect_groups p2 is ?g = Some g' \<and> distinct (map fst g') \<and> fst ` set g' = R ` set ((done0 @ [i]) @ is) \<and>
      (\<forall>r. group_at g' r = filter (\<lambda>i. R i = r) ((done0 @ [i]) @ is))"
    using Cons.prems(3) by (intro Cons.IH [OF p2(2,3)]) auto
  then show ?case by (simp add: p1(1) p2(1))
qed simp

lemma ds_groups_spec:
  assumes "forest p R h" "length p = length boxes"
  shows "ds_groups boxes p = Some (map (\<lambda>r. map (\<lambda>i. boxes ! i) (filter (\<lambda>i. R i = r) [0..<length boxes]))
    (sorted_list_of_set (R ` {..<length boxes})))"
proof -
  obtain g where g: "collect_groups p [0..<length boxes] [] = Some g" "distinct (map fst g)"
      "fst ` set g = R ` {..<length boxes}" "\<forall>r. group_at g r = filter (\<lambda>i. R i = r) [0..<length boxes]"
    using collect_groups_spec [OF assms, of "[0..<length boxes]" "[]" "[]"]
    by (auto simp: group_at_def atLeast_upt lessThan_atLeast0)
  have "sort (map fst g) = sorted_list_of_set (R ` {..<length boxes})"
    using g(2,3) sorted_list_of_set_sort_remdups [of "map fst g"] by (simp add: distinct_remdups_id)
  with g show ?thesis by (simp add: ds_groups_def)
qed

text \<open>The positions of the canonical cover, grouped: a partition into the classes of the transitive closure.\<close>

definition linked :: "box list \<Rightarrow> (nat \<times> nat) set" where
  "linked boxes = {(i, j). i < length boxes \<and> j < length boxes \<and> i \<noteq> j \<and> connected (boxes ! min i j) (boxes ! max i j)}"

lemma ConnectedComponents_spec:
  fixes boxes :: "box list"
  defines "L \<equiv> box_Normalize boxes"
  obtains "is" where "ConnectedComponents boxes = Some (map (map (\<lambda>i. L ! i)) is)"
    "distinct (concat is)" "set (concat is) = {..<length L}" "\<forall>g\<in>set is. g \<noteq> [] \<and> sorted g"
    "\<And>i j. i < length L \<Longrightarrow> j < length L \<Longrightarrow> (\<exists>g\<in>set is. i \<in> set g \<and> j \<in> set g) \<longleftrightarrow> (i, j) \<in> (linked L)\<^sup>*"
proof (cases "L = []")
  case True
  then show ?thesis using that [of "[]"] by (simp add: ConnectedComponents_def L_def [symmetric])
next
  case False
  let ?n = "length L"
  have new: "same_groups ?n id (links L {})" by (auto simp: same_groups_def links_def)
  have len: "length [0..<?n] = ?n" by simp
  obtain p R h where p: "join_all L (pairs_below ?n) (newDisjointSet ?n) = Some p" "forest p R h" "length p = ?n"
      "same_groups ?n R (links L (set (pairs_below ?n)))"
    using join_all_spec [OF forest_new(2) len new, of "pairs_below ?n"] set_pairs_below
    by (auto simp: forest_new(1))
  have "links L (set (pairs_below ?n)) = linked L"
    by (auto simp: links_def linked_def set_pairs_below)
  note same = same_groups_iff [OF p(4), unfolded this]
  let ?roots = "sorted_list_of_set (R ` {..<?n})"
  let ?is = "map (\<lambda>r. filter (\<lambda>i. R i = r) [0..<?n]) ?roots"
  have res: "ConnectedComponents boxes = Some (map (map (\<lambda>i. L ! i)) ?is)"
    using p(1) False ds_groups_spec [OF p(2,3)]
    by (simp add: ConnectedComponents_def L_def [symmetric] comp_def)
  have roots: "distinct ?roots" "set ?roots = R ` {..<?n}" by simp_all
  have "distinct (concat (map (\<lambda>r. filter (\<lambda>i. R i = r) [0..<?n]) rs))" if "distinct rs" for rs
    using that by (induction rs) auto
  then have "distinct (concat ?is)" using roots(1) by blast
  moreover have "set (concat ?is) = {..<?n}" using roots(2) by auto
  moreover have "\<forall>g\<in>set ?is. g \<noteq> [] \<and> sorted g"
    using roots(2) by (auto simp: filter_empty_conv intro!: sorted_wrt_filter)
  moreover have "(\<exists>g\<in>set ?is. i \<in> set g \<and> j \<in> set g) \<longleftrightarrow> (i, j) \<in> (linked L)\<^sup>*" if "i < ?n" "j < ?n" for i j
    using same [OF that] that roots(2) by auto
  ultimately show ?thesis using that [of ?is] res by blast
qed

text \<open>Between valid non-empty boxes of one dimension the relation is symmetric and says what the comment says.\<close>

lemma good_box_finite:
  assumes "good_box n b" "i < n"
  obtains lo hi where "BMin b ! i = Fin lo" "BMax b ! i = Fin hi"
  using box_ok_axis [OF good_boxD(1) [OF assms(1)] assms(2)] by metis

lemma touchAlongFace_iff:
  assumes "good_box n a" "good_box n b"
  shows "touchAlongFace a b d \<longleftrightarrow> (\<forall>k<n. k \<noteq> d \<longrightarrow> f_lt (BMin b ! k) (BMax a ! k) \<and> f_lt (BMin a ! k) (BMax b ! k))"
proof -
  have le: "\<not> f_le (BMax p ! k) (BMin q ! k) \<longleftrightarrow> f_lt (BMin q ! k) (BMax p ! k)" if g: "good_box n p" "good_box n q" and k: "k < n" for p q k
  proof -
    obtain x where "BMax p ! k = Fin x" using good_box_finite [OF g(1) k] by metis
    moreover obtain y where "BMin q ! k = Fin y" using good_box_finite [OF g(2) k] by metis
    ultimately show ?thesis by (simp add: not_le)
  qed
  show ?thesis
    unfolding touchAlongFace_def list_all_iff good_boxD(2) [OF assms(1)]
    using le [OF assms] le [OF assms(2,1)] by auto
qed

lemma connected_iff:
  assumes "good_box n a" "good_box n b"
  shows "connected a b \<longleftrightarrow> bpoints a \<inter> bpoints b \<noteq> {} \<or>
    (\<exists>d<n. (BMax a ! d = BMin b ! d \<or> BMax b ! d = BMin a ! d) \<and>
      (\<forall>k<n. k \<noteq> d \<longrightarrow> f_lt (BMin b ! k) (BMax a ! k) \<and> f_lt (BMin a ! k) (BMax b ! k)))"
proof -
  have "f_eq (BMax p ! d) (BMin q ! d) \<longleftrightarrow> BMax p ! d = BMin q ! d" if g: "good_box n p" "good_box n q" and d: "d < n" for p q d
  proof -
    obtain lo hi where "BMin p ! d = Fin lo" "BMax p ! d = Fin hi" by (rule good_box_finite [OF g(1) d])
    then show ?thesis by (simp add: f_eq_def)
  qed
  note eq = this [OF assms] this [OF assms(2,1)]
  have "list_ex (\<lambda>d. (f_eq (BMax a ! d) (BMin b ! d) \<or> f_eq (BMax b ! d) (BMin a ! d)) \<and> touchAlongFace a b d) [0..<n] \<longleftrightarrow>
      (\<exists>d<n. (BMax a ! d = BMin b ! d \<or> BMax b ! d = BMin a ! d) \<and> touchAlongFace a b d)"
    using eq by (auto simp: list_ex_iff)
  then show ?thesis
    by (simp add: connected_def Overlaps_iff_points [OF assms] touchAlongFace_iff [OF assms]
        good_boxD(2) [OF assms(1)] good_boxD(2) [OF assms(2)] cong: if_cong)
qed

lemma connected_sym: "good_box n a \<Longrightarrow> good_box n b \<Longrightarrow> connected a b = connected b a"
  by (auto simp: connected_iff Int_commute)

end
