(* ===== verification/Merge_Results.thy ===== *)
theory Merge_Results
  imports Merge_Start Components Box_Examples
begin

section \<open>Properties of merging and of connected components\<close>

text \<open>
  What \<open>MergeAdjacent\<close> and \<open>ConnectedComponents\<close> return, each with an instance. A row of unit cells, as long as
  the threshold, takes the indexed branch of the merge.
\<close>

definition ex_row :: "nat \<Rightarrow> box list" where
  "ex_row k = map (\<lambda>i. ex_box (real i) 0 (real i + 1) 2) [0..<k]"

lemma ex_row_ok: "\<forall>b\<in>set (ex_row k). box_ok 2 b" "\<forall>d<2. \<forall>x\<in>cornersOf (ex_row k) d. is_fin x"
proof -
  show ok: "\<forall>b\<in>set (ex_row k). box_ok 2 b" by (auto simp: ex_row_def)
  show "\<forall>d<2. \<forall>x\<in>cornersOf (ex_row k) d. is_fin x"
    by (auto simp: ex_row_def cornersOf_def ex_box_def NewBox_def less_two)
qed

text \<open>C39. \<open>MergeAdjacent\<close> returns, on both sides of its threshold and for every hash of the coordinates, the boxes that
  the plain greedy leaves: the first pair in canonical order that can be merged is replaced by its union until no
  pair is left. The result is a canonical cover of the same points. Of the float arithmetic behind the cover grid it
  needs that the bins keep the order of the corners.\<close>

theorem merge_adjacent_is_greedy:
  assumes "\<forall>b\<in>set boxes. box_ok n b"
    and "indexedMergeThreshold \<le> length boxes \<Longrightarrow>
      keeps_order A (snd (gridShape A boxes n)) (fst (gridShape A boxes n)) (cornersOf boxes)"
  shows "\<exists>out. MergeAdjacent A bits boxes = Some out \<and> box_canonical n out \<and> box_points out = box_points boxes \<and>
    (\<forall>i j. i < j \<longrightarrow> j < length out \<longrightarrow> mergePair (out ! i) (out ! j) = None) \<and>
    map box_key out = map box_key (greedy (length (box_Normalize boxes)) (map strip (box_Normalize boxes)))"
proof -
  obtain out where out: "MergeAdjacent A bits boxes = Some out" "box_canonical n out" "bcover out = bcover boxes"
      "\<forall>i j. \<not> mergeable out i j"
      "map box_key out = map box_key (greedy (length (box_Normalize boxes)) (map strip (box_Normalize boxes)))"
    using MergeAdjacent_spec [OF assms, of bits] by blast
  have "all_good n out" using out(2) by (simp add: box_canonical_def)
  then have "box_points out = box_points boxes"
    using box_points_bcover [OF all_goodD] box_points_bcover [OF assms(1)] out(3) by blast
  with out show ?thesis by (auto simp: mergeable_def)
qed

theorem merge_adjacent_is_greedy_witness:
  "\<exists>out. MergeAdjacent exact_grid (\<lambda>_. 0) (ex_row indexedMergeThreshold) = Some out \<and> box_canonical 2 out \<and>
     MergeAdjacent exact_grid (\<lambda>_. 0) (ex_row indexedMergeThreshold) =
       mg_run exact_grid (\<lambda>_. 0) (newMerger exact_grid (\<lambda>_. 0) (ex_row indexedMergeThreshold))"
proof -
  have "ex_row indexedMergeThreshold \<noteq> []" by (simp add: ex_row_def indexedMergeThreshold_def)
  then have "keeps_order exact_grid (snd (gridShape exact_grid (ex_row indexedMergeThreshold) 2))
      (fst (gridShape exact_grid (ex_row indexedMergeThreshold) 2)) (cornersOf (ex_row indexedMergeThreshold))"
    using exact_gridShape [OF ex_row_ok(1)] ex_row_ok(2) by blast
  from merge_adjacent_is_greedy [OF ex_row_ok(1) this, of "\<lambda>_. 0"] show ?thesis
    by (auto simp: MergeAdjacent_def ex_row_def)
qed

text \<open>C40. \<open>ConnectedComponents\<close> partitions the positions of the canonical cover: two boxes are in one component exactly
  when a chain of boxes leads from one to the other in which neighbours share a point, or touch on one axis
  and overlap in positive measure on the others. Each component lists its boxes in canonical order.\<close>

theorem components_are_classes:
  assumes "\<forall>b\<in>set boxes. box_ok n b"
  defines "L \<equiv> box_Normalize boxes"
  shows "\<exists>is. ConnectedComponents boxes = Some (map (map (\<lambda>i. L ! i)) is) \<and>
    distinct (concat is) \<and> set (concat is) = {..<length L} \<and> (\<forall>g\<in>set is. g \<noteq> [] \<and> sorted g) \<and>
    (\<forall>i<length L. \<forall>j<length L. (\<exists>g\<in>set is. i \<in> set g \<and> j \<in> set g) \<longleftrightarrow>
      (i, j) \<in> {(i, j). i < length L \<and> j < length L \<and> (bpoints (L ! i) \<inter> bpoints (L ! j) \<noteq> {} \<or>
        (\<exists>d<n. (BMax (L ! i) ! d = BMin (L ! j) ! d \<or> BMax (L ! j) ! d = BMin (L ! i) ! d) \<and>
          (\<forall>k<n. k \<noteq> d \<longrightarrow> f_lt (BMin (L ! j) ! k) (BMax (L ! i) ! k) \<and> f_lt (BMin (L ! i) ! k) (BMax (L ! j) ! k))))}\<^sup>*)"
proof -
  have good: "good_box n (L ! i)" if "i < length L" for i
    using NormalizeMerged_good [OF assms(1), of meta_Union] nth_mem [OF that] by (simp add: L_def box_Normalize_def all_good_def)
  have "connected (L ! min i j) (L ! max i j) \<longleftrightarrow> connected (L ! i) (L ! j)" if "i < length L" "j < length L" for i j
    using connected_sym [OF good good, OF that] by (cases "i \<le> j") (auto simp: min_def max_def)
  then have "linked L = {(i, j). i < length L \<and> j < length L \<and> connected (L ! i) (L ! j)} - Id"
    by (auto simp: linked_def)
  then have "(linked L)\<^sup>* = {(i, j). i < length L \<and> j < length L \<and> connected (L ! i) (L ! j)}\<^sup>*"
    by (simp add: rtrancl_r_diff_Id)
  also have "\<dots> = {(i, j). i < length L \<and> j < length L \<and> (bpoints (L ! i) \<inter> bpoints (L ! j) \<noteq> {} \<or>
        (\<exists>d<n. (BMax (L ! i) ! d = BMin (L ! j) ! d \<or> BMax (L ! j) ! d = BMin (L ! i) ! d) \<and>
          (\<forall>k<n. k \<noteq> d \<longrightarrow> f_lt (BMin (L ! j) ! k) (BMax (L ! i) ! k) \<and> f_lt (BMin (L ! i) ! k) (BMax (L ! j) ! k))))}\<^sup>*"
    by (intro arg_cong [of _ _ rtrancl] Collect_cong) (auto simp: connected_iff [OF good good])
  finally have E: "(linked L)\<^sup>* = \<dots>" .
  obtain "is" where "ConnectedComponents boxes = Some (map (map (\<lambda>i. L ! i)) is)"
    "distinct (concat is)" "set (concat is) = {..<length L}" "\<forall>g\<in>set is. g \<noteq> [] \<and> sorted g"
    "\<And>i j. i < length L \<Longrightarrow> j < length L \<Longrightarrow> (\<exists>g\<in>set is. i \<in> set g \<and> j \<in> set g) \<longleftrightarrow> (i, j) \<in> (linked L)\<^sup>*"
    using ConnectedComponents_spec [of boxes] unfolding L_def [symmetric] by blast
  then show ?thesis unfolding E by blast
qed

theorem components_are_classes_witness:
  "\<exists>is. ConnectedComponents [ex_box 0 0 1 2, ex_box 1 0 2 2] =
      Some (map (map (\<lambda>i. box_Normalize [ex_box 0 0 1 2, ex_box 1 0 2 2] ! i)) is) \<and>
    set (concat is) = {..<length (box_Normalize [ex_box 0 0 1 2, ex_box 1 0 2 2])}"
  using components_are_classes [of "[ex_box 0 0 1 2, ex_box 1 0 2 2]" 2] by auto

end
