(* ===== verification/Divergences.thy ===== *)
theory Divergences
  imports Space_Results Merge_Results
begin

section \<open>Where the code departs from its documentation\<close>

text \<open>
  Small concrete inputs on which the code does something else than its comments say. None of them is reached
  through the engines with valid input unless the text says so.
\<close>

text \<open>\<open>Overlaps\<close> of the 1-D intervals joins tied bounds with "or": the point \<open>[1, 1]\<close> and the open interval \<open>(1, 2)\<close>
  share no point, yet they count as overlapping, and \<open>Intersection\<close> of \<open>(1, 3)\<close> and \<open>[1, 2]\<close> contains 1.\<close>

lemma overlaps_without_shared_point:
  defines "a \<equiv> \<lparr>Start = Fin 1, End = Fin 1, StartBound = Closed, EndBound = Closed\<rparr>"
    and "b \<equiv> \<lparr>Start = Fin 1, End = Fin 2, StartBound = Open, EndBound = Open\<rparr>"
  shows "valid_iv a \<and> valid_iv b \<and> Interval_Overlaps a b \<and> points a \<inter> points b = {}"
  by (auto simp: a_def b_def valid_iff fine_def fin_point_def Interval_Overlaps_def maxStart_def minEnd_def points_def Interval_Contains_def)

lemma intersection_keeps_excluded_point:
  defines "a \<equiv> \<lparr>Start = Fin 1, End = Fin 3, StartBound = Open, EndBound = Open\<rparr>"
    and "b \<equiv> \<lparr>Start = Fin 1, End = Fin 2, StartBound = Closed, EndBound = Closed\<rparr>"
  shows "1 \<in> points (Intersection a b) \<and> 1 \<notin> points a"
  by (auto simp: a_def b_def Intersection_def maxStart_def minEnd_def points_def Interval_Contains_def)

text \<open>\<open>Equal\<close> of box sets compares canonical covers, not points: a box and its two halves are different sets.\<close>

lemma equal_is_finer_than_points:
  defines "a \<equiv> [NewBox [Fin 0] [Fin 2]]" and "b \<equiv> [NewBox [Fin 0] [Fin 1], NewBox [Fin 1] [Fin 2]]"
  shows "box_points a = box_points b \<and> \<not> box_Equal a b"
proof
  show "box_points a = box_points b"
    by (auto simp: a_def b_def box_points_def bpoints_def Box_Contains_def NewBox_def Dims_def loBound_def hiBound_def length_Suc_conv)
  show "\<not> box_Equal a b"
    by (simp add: a_def b_def box_Equal_def box_Normalize_def NormalizeMerged_def normalizeStep_def Box_Empty_def NewBox_def loBound_def
        hiBound_def subsumes_def intervalContains_def sortBoxes_def sort_slice_def cloneBox_def Let_def)
qed

text \<open>A clock that has reached the largest timestamp wraps around to the smallest.\<close>

lemma lamport_wraps: "i_lt (fst (Lamport_Tick max_int64)) max_int64"
  by (simp add: Lamport_Tick_def max_int64_def i_lt_def)

text \<open>The join of two values that are not objects keeps the second, so it is not commutative there.\<close>

lemma union_of_scalars_keeps_second:
  "meta_Union (Doc (MNum ''1'')) (Doc (MNum ''2'')) = Doc (MNum ''2'') \<and>
   meta_Union (Doc (MNum ''2'')) (Doc (MNum ''1'')) = Doc (MNum ''1'')"
  by (simp add: meta_Union_def meta_object_def)

text \<open>\<open>ConnectedComponents\<close> promises the components in canonical order; they come in the order of the roots of its
  union-find. Here the first box of the cover is in the component listed last.\<close>

lemma Overlaps_ex_box:
  "a < c \<Longrightarrow> b < d \<Longrightarrow> a' < c' \<Longrightarrow> b' < d' \<Longrightarrow>
     Overlaps (ex_box a b c d) (ex_box a' b' c' d') \<longleftrightarrow> a' < c \<and> a < c' \<and> b' < d \<and> b < d'"
  (is "\<lbrakk>_; _; _; _\<rbrakk> \<Longrightarrow> Overlaps ?p ?q \<longleftrightarrow> ?R")
proof -
  assume lt: "a < c" "b < d" "a' < c'" "b' < d'"
  then have "Overlaps ?p ?q \<longleftrightarrow> bpoints ?p \<inter> bpoints ?q \<noteq> {}" by (intro Overlaps_iff_points [of 2]) simp_all
  also have "\<dots> \<longleftrightarrow> ?R"
  proof
    assume "bpoints ?p \<inter> bpoints ?q \<noteq> {}"
    then obtain x where x: "x \<in> bpoints ?p" "x \<in> bpoints ?q" by blast
    then have "length x = 2" by (simp add: bpoints_def)
    then obtain s t where "x = [s, t]" by (auto simp: length_Suc_conv numeral_2_eq_2)
    with x show ?R by simp
  next
    assume ?R
    with lt have "[max a a', max b b'] \<in> bpoints ?p \<inter> bpoints ?q" by simp
    then show "bpoints ?p \<inter> bpoints ?q \<noteq> {}" by blast
  qed
  finally show "Overlaps ?p ?q \<longleftrightarrow> ?R" .
qed

lemma connected_ex_box:
  "a < c \<Longrightarrow> b < d \<Longrightarrow> a' < c' \<Longrightarrow> b' < d' \<Longrightarrow>
     connected (ex_box a b c d) (ex_box a' b' c' d') \<longleftrightarrow>
     a' < c \<and> a < c' \<and> b' < d \<and> b < d' \<or>
     (c = a' \<or> c' = a) \<and> b' < d \<and> b < d' \<or> (d = b' \<or> d' = b) \<and> a' < c \<and> a < c'"
  (is "\<lbrakk>_; _; _; _\<rbrakk> \<Longrightarrow> connected ?p ?q \<longleftrightarrow> ?R")
proof -
  assume lt: "a < c" "b < d" "a' < c'" "b' < d'"
  have f: "BMin ?p = [Fin a, Fin b]" "BMax ?p = [Fin c, Fin d]" "BMin ?q = [Fin a', Fin b']" "BMax ?q = [Fin c', Fin d']"
    by (simp_all add: ex_box_def NewBox_def)
  have two: "[0..<Suc (Suc 0)] = [0, 1]" by simp
  have t: "touchAlongFace ?p ?q 0 \<longleftrightarrow> b' < d \<and> b < d'" "touchAlongFace ?p ?q (Suc 0) \<longleftrightarrow> a' < c \<and> a < c'"
    by (auto simp: touchAlongFace_def f two)
  show "connected ?p ?q \<longleftrightarrow> ?R"
    by (simp add: connected_def Overlaps_ex_box [OF lt] f two t cong: if_cong) blast
qed

lemma subsumes_ex_box:
  "subsumes (ex_box a b c d) (ex_box a' b' c' d') \<longleftrightarrow> a \<le> a' \<and> c' \<le> c \<and> b \<le> b' \<and> d' \<le> d"
  by (auto simp: subsumes_def intervalContains_def ex_box_def NewBox_def loBound_def hiBound_def upt_rec)

lemma components_out_of_order:
  defines "b0 \<equiv> ex_box 0 0 10 1" and "b1 \<equiv> ex_box 1 100 2 101" and "b2 \<equiv> ex_box 2 10 10 11" and "b3 \<equiv> ex_box 3 (1 / 2) 4 (21 / 2)"
  shows "box_Normalize [b0, b1, b2, b3] = [b0, b1, b2, b3] \<and> ConnectedComponents [b0, b1, b2, b3] = Some [[b1], [b0, b2, b3]]"
proof -
  note b = b0_def b1_def b2_def b3_def
  have sub: "\<not> subsumes x y" if "(x, y) \<in> {(b0, b1), (b1, b0), (b0, b2), (b2, b0), (b0, b3), (b3, b0), (b1, b2), (b2, b1), (b1, b3), (b3, b1), (b2, b3), (b3, b2)}" for x y
    using that by (auto simp: b subsumes_ex_box)
  have less: "\<not> box_Less b1 b0" "\<not> box_Less b2 b0" "\<not> box_Less b3 b0" "\<not> box_Less b2 b1" "\<not> box_Less b3 b1" "\<not> box_Less b3 b2"
    by (simp_all add: b box_Less_def ex_box_def NewBox_def upt_rec)
  have same: "cloneBox x = x" "\<not> Box_Empty x" if "x \<in> {b0, b1, b2, b3}" for x
    using that good_boxD(6) [of 2] ex_box_good by (auto simp: b cloneBox_def)
  have "NormalizeMerged [b0, b1, b2, b3] meta_Union = sortBoxes [b0, b1, b2, b3]"
    by (simp add: NormalizeMerged_def normalizeStep_def sub same)
  also have "\<dots> = [b0, b1, b2, b3]" using less by (simp add: sortBoxes_def sort_slice_def)
  finally have norm: "box_Normalize [b0, b1, b2, b3] = [b0, b1, b2, b3]" by (simp add: box_Normalize_def)
  have conn: "connected b0 b3" "connected b2 b3" "\<not> connected b0 b1" "\<not> connected b0 b2" "\<not> connected b1 b2" "\<not> connected b1 b3"
    by (simp_all add: b0_def b1_def b2_def b3_def connected_ex_box)
  have join: "join_all [b0, b1, b2, b3] (pairs_below 4) (newDisjointSet 4) = Some [2, 1, 2, 0]"
    by (simp add: forest_new(1) pairs_below_def upt_rec conn ds_union_def ds_find.simps)
  have "ds_groups [b0, b1, b2, b3] [2, 1, 2, 0] = Some [[b1], [b0, b2, b3]]"
    by (simp add: ds_groups_def upt_rec ds_find.simps group_at_def)
  moreover have "length [b0, b1, b2, b3] = 4" by simp
  ultimately show ?thesis using join norm unfolding ConnectedComponents_def Let_def
    by (simp only: list.simps if_False simp_thms bind.simps)
qed

end
