(* ===== verification/Partition.thy ===== *)
theory Partition
  imports Box_Difference
begin

section \<open>Partition (demo/web/partition.go)\<close>

text \<open>
  The visualizer's canonicalizer: it sweeps one axis at a time over a worklist, slices the boxes at every face
  coordinate and keeps one box per covered cell. The worklist is a stack whose top is the last element of the Go
  slice; here the top is the head. \<open>cells\<close> is the recursion that the worklist unrolls. For half-open boxes the
  cells tile the input: they are disjoint and cover the same points.
\<close>

subsection \<open>The source\<close>

definition sort_Float64s :: "float64 list \<Rightarrow> float64 list" where
  "sort_Float64s xs = sort_slice (\<lambda>x y. f_lt x y \<or> (IsNaN x \<and> \<not> IsNaN y)) xs"

definition slabCoordinates :: "box list \<Rightarrow> nat \<Rightarrow> float64 list" where
  "slabCoordinates boxes ax =
     fold (\<lambda>c out. if out = [] \<or> \<not> f_eq (last out) c then out @ [c] else out)
       (sort_Float64s (concat (map (\<lambda>b. if Box_Empty b then [] else [BMin b ! ax, BMax b ! ax]) boxes))) []"

definition slabMinBound :: "box \<Rightarrow> nat \<Rightarrow> bound" where
  "slabMinBound b ax = (if ax < length (MinBound b) then MinBound b ! ax else Closed)"

definition coversSlab :: "box \<Rightarrow> nat \<Rightarrow> float64 \<Rightarrow> float64 \<Rightarrow> bool" where
  "coversSlab b ax lo hi =
     (if f_lt lo (BMin b ! ax) \<or> f_lt (BMax b ! ax) hi then False
      else if f_eq lo (BMin b ! ax) \<and> slabMinBound b ax = Open then False
      else True)"

definition clip :: "box \<Rightarrow> nat \<Rightarrow> float64 \<Rightarrow> float64 \<Rightarrow> box" where
  "clip b ax lo hi =
     \<lparr>BMin = (BMin b)[ax := lo], BMax = (BMax b)[ax := hi], MinBound = [], MaxBound = [], Meta = Meta b\<rparr>"

definition slabAt :: "box list \<Rightarrow> nat \<Rightarrow> float64 \<Rightarrow> float64 \<Rightarrow> box list" where
  "slabAt boxes ax lo hi = map (\<lambda>b. clip b ax lo hi) (filter (\<lambda>b. coversSlab b ax lo hi) boxes)"

definition slabs :: "box list \<Rightarrow> nat \<Rightarrow> box list list" where
  "slabs boxes ax =
     (let coords = slabCoordinates boxes ax
      in filter (\<lambda>slab. slab \<noteq> [])
           (map (\<lambda>i. slabAt boxes ax (coords ! i) (coords ! Suc i)) [0..<length coords - 1]))"

partial_function (option) partition_loop :: "nat \<Rightarrow> (box list \<times> nat) list \<Rightarrow> box list \<Rightarrow> box list option" where
  "partition_loop dims stack out =
     (case stack of
        [] \<Rightarrow> Some out
      | (boxes, ax) # stack \<Rightarrow>
          (if Suc ax = dims then partition_loop dims stack (out @ map hd (slabs boxes ax))
           else partition_loop dims (rev (map (\<lambda>slab. (slab, Suc ax)) (slabs boxes ax)) @ stack) out))"

definition partition_boxes :: "box list \<Rightarrow> nat \<Rightarrow> box list option" where
  "partition_boxes boxes dims = partition_loop dims [(boxes, 0)] []"

definition Partition :: "box list \<Rightarrow> box list option" where
  "Partition boxes =
     (let dims = (case find (\<lambda>b. \<not> Box_Empty b) boxes of None \<Rightarrow> 0 | Some b \<Rightarrow> Dims b)
      in if dims = 0 then Some [] else partition_boxes boxes dims)"

subsection \<open>The worklist unrolls a recursion\<close>

fun cells :: "nat \<Rightarrow> nat \<Rightarrow> box list \<Rightarrow> box list" where
  "cells 0 ax boxes = map hd (slabs boxes ax)"
| "cells (Suc k) ax boxes = concat (map (cells k (Suc ax)) (rev (slabs boxes ax)))"

lemma partition_loop_cells:
  "Suc (ax + k) = dims \<Longrightarrow> partition_loop dims ((boxes, ax) # stack) out = partition_loop dims stack (out @ cells k ax boxes)"
proof (induction k arbitrary: ax boxes stack out)
  case 0
  then show ?case by (subst partition_loop.simps) simp
next
  case (Suc k)
  have each: "partition_loop dims (map (\<lambda>slab. (slab, Suc ax)) ss @ stack) out =
      partition_loop dims stack (out @ concat (map (cells k (Suc ax)) ss))" for ss out
  proof (induction ss arbitrary: out)
    case (Cons s ss)
    have "Suc (Suc ax + k) = dims" using Suc.prems by simp
    from Suc.IH [OF this] Cons show ?case by simp
  qed simp
  have "partition_loop dims ((boxes, ax) # stack) out =
      partition_loop dims (map (\<lambda>slab. (slab, Suc ax)) (rev (slabs boxes ax)) @ stack) out"
    using Suc.prems by (subst partition_loop.simps) (simp add: rev_map)
  then show ?case by (simp add: each)
qed

lemma partition_boxes_cells: "partition_boxes boxes (Suc k) = Some (cells k 0 boxes)"
  using partition_loop_cells [of 0 k "Suc k" boxes "[]" "[]"] by (simp add: partition_boxes_def partition_loop.simps)

subsection \<open>Half-open boxes\<close>

definition half_open :: "nat \<Rightarrow> box \<Rightarrow> bool" where
  "half_open n b \<longleftrightarrow> box_ok n b \<and> (\<forall>i<n. loBound b i = Closed \<and> hiBound b i = Open)"

lemma half_open_fin:
  assumes "half_open n b" "i < n"
  obtains lo hi where "BMin b ! i = Fin lo" "BMax b ! i = Fin hi" "lo \<le> hi"
  using assms box_ok_axis unfolding half_open_def by blast

lemma half_open_points:
  assumes "half_open n b"
  shows "xs \<in> bpoints b \<longleftrightarrow> length xs = n \<and> (\<forall>i<n. BMin b ! i \<le> Fin (xs ! i) \<and> Fin (xs ! i) < BMax b ! i)"
proof -
  have d: "Dims b = n" using assms box_okD(4) by (auto simp: half_open_def)
  have "Interval_Contains (axis b i) (Fin x) \<longleftrightarrow> BMin b ! i \<le> Fin x \<and> Fin x < BMax b ! i" if "i < n" for i x
    using assms that by (rule half_open_fin) (use assms that in \<open>auto simp: half_open_def Interval_Contains_def\<close>)
  then show ?thesis by (auto simp: bpoints_def Box_Contains_axis d)
qed

lemma half_open_Empty:
  assumes "half_open n b"
  shows "Box_Empty b \<longleftrightarrow> (\<exists>i<n. \<not> BMin b ! i < BMax b ! i)"
proof -
  have d: "Dims b = n" using assms box_okD(4) by (auto simp: half_open_def)
  have "Interval_empty (axis b i) \<longleftrightarrow> \<not> BMin b ! i < BMax b ! i" if "i < n" for i
    using assms that by (rule half_open_fin) (use assms that in \<open>auto simp: half_open_def Interval_empty_def\<close>)
  then show ?thesis by (auto simp: Box_Empty_axis d)
qed

lemma half_open_clip:
  assumes "half_open n b" "lo \<le> hi"
  shows "half_open n (clip b ax (Fin lo) (Fin hi))"
proof -
  note b = assms(1) [unfolded half_open_def box_ok_iff]
  have "\<exists>l h. (BMin b)[ax := Fin lo] ! i = Fin l \<and> (BMax b)[ax := Fin hi] ! i = Fin h \<and> l \<le> h" if "i < n" for i
    using b that assms(2) by (cases "i = ax") auto
  then show ?thesis using b by (simp add: half_open_def box_ok_iff clip_def loBound_def hiBound_def)
qed

lemma clip_points:
  assumes b: "half_open n b" and ax: "ax < n" and c: "coversSlab b ax (Fin lo) (Fin hi)" and lt: "lo < hi"
  shows "xs \<in> bpoints (clip b ax (Fin lo) (Fin hi)) \<longleftrightarrow> xs \<in> bpoints b \<and> lo \<le> xs ! ax \<and> xs ! ax < hi"
proof -
  obtain l h where lh: "BMin b ! ax = Fin l" "BMax b ! ax = Fin h" using half_open_fin [OF b ax] by blast
  have len: "length (BMin b) = n" "length (BMax b) = n" using b box_okD by (auto simp: half_open_def)
  have in_range: "l \<le> lo" "hi \<le> h" using c lh by (auto simp: coversSlab_def split: if_splits)
  have cl: "BMin (clip b ax (Fin lo) (Fin hi)) ! i = (if i = ax then Fin lo else BMin b ! i)"
    "BMax (clip b ax (Fin lo) (Fin hi)) ! i = (if i = ax then Fin hi else BMax b ! i)" if "i < n" for i
    using that len by (simp_all add: clip_def nth_list_update)
  have split: "(\<forall>i<n. P i) \<longleftrightarrow> P ax \<and> (\<forall>i<n. i \<noteq> ax \<longrightarrow> P i)" for P using ax by auto
  show ?thesis
    unfolding half_open_points [OF b] half_open_points [OF half_open_clip [OF b less_imp_le [OF lt]]]
      split [of "\<lambda>i. BMin (clip b ax (Fin lo) (Fin hi)) ! i \<le> Fin (xs ! i) \<and> Fin (xs ! i) < BMax (clip b ax (Fin lo) (Fin hi)) ! i"]
      split [of "\<lambda>i. BMin b ! i \<le> Fin (xs ! i) \<and> Fin (xs ! i) < BMax b ! i"]
    using cl ax lh in_range by auto
qed

subsection \<open>The coordinates of the slabs\<close>

definition float_before :: "float64 \<Rightarrow> float64 \<Rightarrow> bool" where
  "float_before x y \<longleftrightarrow> f_lt x y \<or> (IsNaN x \<and> \<not> IsNaN y)"

interpretation float_order: weak_less float_before is_fin
  by unfold_locales (auto simp: float_before_def is_fin_iff)

lemma slabCoordinates_spec:
  assumes "\<forall>b\<in>set boxes. half_open n b" "ax < n"
  defines "cs \<equiv> slabCoordinates boxes ax"
  shows "set cs = (\<Union>b\<in>{b \<in> set boxes. \<not> Box_Empty b}. {BMin b ! ax, BMax b ! ax})"
    "sorted_wrt (<) cs" "\<forall>c\<in>set cs. is_fin c"
proof -
  let ?raw = "concat (map (\<lambda>b. if Box_Empty b then [] else [BMin b ! ax, BMax b ! ax]) boxes)"
  let ?f = "\<lambda>c out. if out = [] \<or> \<not> f_eq (last out) c then out @ [c] else out"
  have set: "set ?raw = (\<Union>b\<in>{b \<in> set boxes. \<not> Box_Empty b}. {BMin b ! ax, BMax b ! ax})" by auto
  have fin: "\<forall>c\<in>set ?raw. is_fin c"
  proof
    fix c assume "c \<in> set ?raw"
    then obtain b where b: "b \<in> set boxes" "c = BMin b ! ax \<or> c = BMax b ! ax" unfolding set by blast
    with assms(1,2) show "is_fin c" using half_open_fin [of n b ax] by (metis is_fin_Fin)
  qed
  let ?s = "sort_Float64s ?raw"
  have s: "set ?s = set ?raw" "sorted_wrt (\<lambda>x y. \<not> float_before y x) ?s"
    using float_order.in_order_sort_slice [OF fin] by (simp_all add: sort_Float64s_def float_before_def [abs_def])
  have le: "x \<le> y" if "is_fin x" "is_fin y" "\<not> float_before y x" for x y
    using that by (auto simp: float_before_def is_fin_iff)
  have "sorted_wrt (\<lambda>x y. x \<le> y) ?s"
    by (rule sorted_wrt_mono_rel [OF _ s(2)]) (use fin s(1) le in blast)
  then have sorted: "sorted ?s" by simp
  have "set (fold ?f cs out) = set out \<union> set cs \<and> sorted_wrt (<) (fold ?f cs out)"
    if "sorted (out @ cs)" "sorted_wrt (<) out" "\<forall>c\<in>set (out @ cs). is_fin c" for cs out
    using that
  proof (induction cs arbitrary: out)
    case (Cons c cs)
    show ?case
    proof (cases "out = [] \<or> \<not> f_eq (last out) c")
      case True
      have "x < c" if x: "x \<in> set out" for x
      proof -
        have ne: "out \<noteq> []" using x by auto
        then have l: "last out \<in> set out" by simp
        then have "last out \<noteq> c" using True ne Cons.prems(3) by (auto simp: f_eq_def is_fin_iff)
        moreover have "x \<le> last out"
        proof -
          have "sorted (butlast out @ [last out])" using Cons.prems(1) ne by (simp add: sorted_append)
          moreover have "x = last out \<or> x \<in> set (butlast out)" using x ne by (metis append_butlast_last_id rotate1.simps(2) set_ConsD set_rotate1)
          ultimately show ?thesis by (auto simp: sorted_append)
        qed
        moreover have "last out \<le> c" using Cons.prems(1) l by (auto simp: sorted_append)
        ultimately show ?thesis by simp
      qed
      then have "sorted_wrt (<) (out @ [c])" using Cons.prems(2) by (simp add: sorted_wrt_append)
      moreover have "sorted ((out @ [c]) @ cs)" "\<forall>c\<in>set ((out @ [c]) @ cs). is_fin c" using Cons.prems by simp_all
      ultimately show ?thesis using Cons.IH [of "out @ [c]"] True by auto
    next
      case False
      then have "c \<in> set out" by (auto simp: f_eq_def)
      moreover have "sorted (out @ cs)" "\<forall>c\<in>set (out @ cs). is_fin c" using Cons.prems by (auto simp: sorted_append)
      ultimately show ?thesis using Cons.IH [of out] Cons.prems(2) False by auto
    qed
  qed simp
  from this [of "[]" ?s] sorted fin s(1)
  have r: "set cs = set ?raw" "sorted_wrt (<) cs" by (simp_all add: cs_def slabCoordinates_def)
  then show "set cs = (\<Union>b\<in>{b \<in> set boxes. \<not> Box_Empty b}. {BMin b ! ax, BMax b ! ax})" "sorted_wrt (<) cs" using set by simp_all
  show "\<forall>c\<in>set cs. is_fin c" using fin r(1) by simp
qed

text \<open>Between two of the coordinates lies a slab, and any value between them lies in one.\<close>

lemma slab_of:
  fixes x :: "'a::linorder"
  assumes "sorted_wrt (<) cs" "lo \<in> set cs" "hi \<in> set cs" "lo \<le> x" "x < hi"
  obtains i where "Suc i < length cs" "cs ! i \<le> x" "x < cs ! Suc i" "lo \<le> cs ! i" "cs ! Suc i \<le> hi"
proof -
  have mono: "cs ! p < cs ! q" if "p < q" "q < length cs" for p q using assms(1) that by (simp add: sorted_wrt_iff_nth_less)
  obtain p q where pq: "p < length cs" "cs ! p = lo" "q < length cs" "cs ! q = hi" using assms(2,3) by (auto simp: in_set_conv_nth)
  define j where "j = (LEAST j. j < length cs \<and> x < cs ! j)"
  have j: "j < length cs" "x < cs ! j" using LeastI [of "\<lambda>j. j < length cs \<and> x < cs ! j" q] pq assms(5) by (auto simp: j_def)
  have least: "\<not> x < cs ! i" if "i < j" for i using not_less_Least [of i "\<lambda>j. j < length cs \<and> x < cs ! j"] that j(1) by (auto simp: j_def)
  have pj: "p < j"
  proof (rule ccontr)
    assume "\<not> p < j"
    then have "cs ! j \<le> cs ! p" using mono [of j p] pq(1) by (cases "j = p") auto
    then show False using j(2) pq(2) assms(4) by simp
  qed
  then obtain i where i: "j = Suc i" by (cases j) auto
  have "lo \<le> cs ! i" using pj i mono [of p i] j(1) pq(2) by (cases "p = i") auto
  moreover have "cs ! j \<le> hi"
  proof -
    have "j \<le> q" using least [of q] pq(4) assms(5) by (meson not_less)
    then show ?thesis using mono [of j q] pq(3,4) by (cases "j = q") auto
  qed
  ultimately show ?thesis using that [of i] i j least [of i] by auto
qed

subsection \<open>One axis\<close>

text \<open>\<open>aligned n k boxes\<close>: half-open boxes that agree, and are not flat, on the axes swept so far.\<close>

definition aligned :: "nat \<Rightarrow> nat \<Rightarrow> box list \<Rightarrow> bool" where
  "aligned n k boxes \<longleftrightarrow> (\<forall>b\<in>set boxes. half_open n b \<and>
     (\<forall>i<k. BMin b ! i < BMax b ! i \<and> BMin b ! i = BMin (hd boxes) ! i \<and> BMax b ! i = BMax (hd boxes) ! i))"

lemma slabs_spec:
  assumes al: "aligned n ax boxes" and ax: "ax < n"
  shows "\<forall>s\<in>set (slabs boxes ax). s \<noteq> [] \<and> aligned n (Suc ax) s \<and> (\<forall>b\<in>set s. MinBound b = [] \<and> MaxBound b = [])"
    "(\<Union>s\<in>set (slabs boxes ax). box_points s) = box_points boxes"
    "sorted_wrt (\<lambda>s t. box_points s \<inter> box_points t = {}) (slabs boxes ax)"
proof -
  let ?cs = "slabCoordinates boxes ax"
  let ?at = "\<lambda>i. slabAt boxes ax (?cs ! i) (?cs ! Suc i)"
  have ho: "\<forall>b\<in>set boxes. half_open n b" using al by (simp add: aligned_def)
  note c = slabCoordinates_spec [OF ho ax]
  have mono: "?cs ! p < ?cs ! q" if "p < q" "q < length ?cs" for p q using c(2) that by (simp add: sorted_wrt_iff_nth_less)
  have lt: "\<exists>lo hi. ?cs ! i = Fin lo \<and> ?cs ! Suc i = Fin hi \<and> lo < hi" if "Suc i < length ?cs" for i
  proof -
    have "is_fin (?cs ! i)" "is_fin (?cs ! Suc i)" using c(3) that by simp_all
    then show ?thesis using mono [of i "Suc i"] that by (auto simp: is_fin_iff)
  qed
  have pts: "xs \<in> box_points (?at i) \<longleftrightarrow>
      (\<exists>b\<in>set boxes. coversSlab b ax (?cs ! i) (?cs ! Suc i) \<and> xs \<in> bpoints b) \<and> ?cs ! i \<le> Fin (xs ! ax) \<and> Fin (xs ! ax) < ?cs ! Suc i"
    if i: "Suc i < length ?cs" for i xs
  proof -
    obtain lo hi where lh: "?cs ! i = Fin lo" "?cs ! Suc i = Fin hi" "lo < hi" using lt [OF i] by blast
    show ?thesis
      unfolding lh(1,2) using clip_points [OF _ ax _ lh(3)] ho by (auto simp: box_points_def slabAt_def)
  qed
  have "aligned n (Suc ax) (?at i)" if i: "Suc i < length ?cs" for i
  proof -
    obtain lo hi where lh: "?cs ! i = Fin lo" "?cs ! Suc i = Fin hi" "lo < hi" using lt [OF i] by blast
    have cl: "half_open n (clip b ax (Fin lo) (Fin hi)) \<and> (\<forall>j<Suc ax. BMin (clip b ax (Fin lo) (Fin hi)) ! j = (if j = ax then Fin lo else BMin (hd boxes) ! j) \<and>
        BMax (clip b ax (Fin lo) (Fin hi)) ! j = (if j = ax then Fin hi else BMax (hd boxes) ! j) \<and>
        BMin (clip b ax (Fin lo) (Fin hi)) ! j < BMax (clip b ax (Fin lo) (Fin hi)) ! j)" if b: "b \<in> set boxes" for b
    proof -
      have h: "half_open n b" "\<forall>j<ax. BMin b ! j < BMax b ! j \<and> BMin b ! j = BMin (hd boxes) ! j \<and> BMax b ! j = BMax (hd boxes) ! j"
        using al b unfolding aligned_def by blast+
      have len: "length (BMin b) = n" "length (BMax b) = n" using h(1) box_okD by (auto simp: half_open_def)
      show ?thesis
        using half_open_clip [OF h(1) less_imp_le [OF lh(3)]] h(2) len ax lh(3)
        by (auto simp: clip_def nth_list_update less_Suc_eq)
    qed
    have mem: "\<exists>b\<in>set boxes. d = clip b ax (Fin lo) (Fin hi)" if "d \<in> set (?at i)" for d
      using that by (auto simp: slabAt_def lh(1,2))
    show ?thesis
      unfolding aligned_def
    proof (intro ballI)
      fix d assume d: "d \<in> set (?at i)"
      then have "hd (?at i) \<in> set (?at i)" by (metis empty_iff empty_set hd_in_set)
      then obtain b b' where b: "b \<in> set boxes" "d = clip b ax (Fin lo) (Fin hi)" "b' \<in> set boxes" "hd (?at i) = clip b' ax (Fin lo) (Fin hi)"
        using mem d by blast
      then show "half_open n d \<and> (\<forall>j<Suc ax. BMin d ! j < BMax d ! j \<and> BMin d ! j = BMin (hd (?at i)) ! j \<and> BMax d ! j = BMax (hd (?at i)) ! j)"
        unfolding b(2,4) using cl [OF b(1)] cl [OF b(3)] by metis
    qed
  qed
  then show "\<forall>s\<in>set (slabs boxes ax). s \<noteq> [] \<and> aligned n (Suc ax) s \<and> (\<forall>b\<in>set s. MinBound b = [] \<and> MaxBound b = [])"
    by (auto simp: slabs_def Let_def slabAt_def clip_def)
  have un: "(\<Union>s\<in>set (slabs boxes ax). box_points s) = (\<Union>i\<in>{i. Suc i < length ?cs}. box_points (?at i))"
  proof -
    have "set (slabs boxes ax) = ?at ` {i. Suc i < length ?cs} - {[]}"
      by (auto simp: slabs_def Let_def)
    then show ?thesis by (auto simp: box_points_def)
  qed
  show "(\<Union>s\<in>set (slabs boxes ax). box_points s) = box_points boxes"
    unfolding un
  proof (intro subset_antisym subsetI)
    fix xs assume "xs \<in> (\<Union>i\<in>{i. Suc i < length ?cs}. box_points (?at i))"
    then obtain i where "Suc i < length ?cs" "xs \<in> box_points (?at i)" by blast
    then have "\<exists>b\<in>set boxes. xs \<in> bpoints b" using pts by blast
    then show "xs \<in> box_points boxes" by (simp add: box_points_def)
  next
    fix xs assume "xs \<in> box_points boxes"
    then obtain b where b: "b \<in> set boxes" "xs \<in> bpoints b" by (auto simp: box_points_def)
    have h: "half_open n b" using ho b(1) by blast
    then have x: "BMin b ! i \<le> Fin (xs ! i)" "Fin (xs ! i) < BMax b ! i" if "i < n" for i
      using b(2) that by (simp_all add: half_open_points)
    then have "\<not> Box_Empty b" using half_open_Empty [OF h] by (meson order_le_less_trans)
    then have "BMin b ! ax \<in> set ?cs" "BMax b ! ax \<in> set ?cs" using b(1) c(1) by auto
    then obtain i where i: "Suc i < length ?cs" "?cs ! i \<le> Fin (xs ! ax)" "Fin (xs ! ax) < ?cs ! Suc i" "BMin b ! ax \<le> ?cs ! i" "?cs ! Suc i \<le> BMax b ! ax"
      using slab_of [OF c(2)] x [OF ax] by metis
    have "coversSlab b ax (?cs ! i) (?cs ! Suc i)"
      using i h ax by (auto simp: coversSlab_def f_lt_def slabMinBound_def half_open_def loBound_def)
    then have "xs \<in> box_points (?at i)" using pts [OF i(1)] i(2,3) b by blast
    then show "xs \<in> (\<Union>i\<in>{i. Suc i < length ?cs}. box_points (?at i))" using i(1) by blast
  qed
  have "sorted_wrt (\<lambda>i j. box_points (?at i) \<inter> box_points (?at j) = {}) [0..<length ?cs - 1]"
  proof (rule sorted_wrt_mono_rel [OF _ sorted_wrt_upt])
    fix i j assume ij: "i \<in> set [0..<length ?cs - 1]" "j \<in> set [0..<length ?cs - 1]" "i < j"
    then have l: "Suc i < length ?cs" "Suc j < length ?cs" by auto
    have "?cs ! Suc i \<le> ?cs ! j" using mono [of "Suc i" j] ij(3) l by (cases "Suc i = j") auto
    then show "box_points (?at i) \<inter> box_points (?at j) = {}" using pts [OF l(1)] pts [OF l(2)] by (auto dest: order_less_le_trans)
  qed
  then show "sorted_wrt (\<lambda>s t. box_points s \<inter> box_points t = {}) (slabs boxes ax)"
    by (auto simp: slabs_def Let_def sorted_wrt_map intro!: sorted_wrt_filter)
qed

subsection \<open>The sweep\<close>

lemma aligned_all_points:
  assumes "aligned n n boxes" "b \<in> set boxes"
  shows "bpoints b = bpoints (hd boxes)" "good_box n b"
proof -
  have h: "half_open n b" "half_open n (hd boxes)" using assms by (auto simp: aligned_def) (metis hd_in_set list.set_cases neq_Nil_conv)+
  have eq: "\<forall>i<n. BMin b ! i < BMax b ! i \<and> BMin b ! i = BMin (hd boxes) ! i \<and> BMax b ! i = BMax (hd boxes) ! i"
    using assms unfolding aligned_def by blast
  show "bpoints b = bpoints (hd boxes)" using eq by (auto simp: half_open_points [OF h(1)] half_open_points [OF h(2)])
  show "good_box n b" using eq h(1) half_open_Empty [OF h(1)] by (auto simp: good_box_def half_open_def)
qed

definition tiles :: "nat \<Rightarrow> box list \<Rightarrow> box list \<Rightarrow> bool" where
  "tiles n out boxes \<longleftrightarrow> (\<forall>c\<in>set out. good_box n c \<and> MinBound c = [] \<and> MaxBound c = []) \<and>
     box_points out = box_points boxes \<and> sorted_wrt (\<lambda>c d. bpoints c \<inter> bpoints d = {}) out"

lemma tiles_concat:
  assumes "\<forall>s\<in>set ss. tiles n (f s) s" "sorted_wrt (\<lambda>s t. box_points s \<inter> box_points t = {}) ss"
    and "(\<Union>s\<in>set ss. box_points s) = box_points boxes"
  shows "tiles n (concat (map f ss)) boxes"
proof -
  have "tiles n (concat (map f ss)) (concat ss)"
    using assms(1,2)
  proof (induction ss)
    case (Cons s ss)
    then have t: "tiles n (f s) s" "tiles n (concat (map f ss)) (concat ss)" by simp_all
    have "box_points (concat ss) = (\<Union>t\<in>set ss. box_points t)" by (auto simp: box_points_def)
    then have "box_points s \<inter> box_points (concat ss) = {}" using Cons.prems(2) by auto
    moreover have "bpoints c \<subseteq> box_points s" if "c \<in> set (f s)" for c
      using t(1) that unfolding tiles_def box_points_def by blast
    moreover have "bpoints d \<subseteq> box_points (concat ss)" if "d \<in> set (concat (map f ss))" for d
      using t(2) that unfolding tiles_def box_points_def by blast
    ultimately have "\<forall>c\<in>set (f s). \<forall>d\<in>set (concat (map f ss)). bpoints c \<inter> bpoints d = {}" by blast
    then have "sorted_wrt (\<lambda>c d. bpoints c \<inter> bpoints d = {}) (concat (map f (s # ss)))"
      using t unfolding tiles_def by (simp add: sorted_wrt_append)
    moreover have "box_points (concat (map f (s # ss))) = box_points (concat (s # ss))"
      using t unfolding tiles_def by (simp add: box_points_def Un_commute)
    moreover have "\<forall>c\<in>set (concat (map f (s # ss))). good_box n c \<and> MinBound c = [] \<and> MaxBound c = []"
      using t unfolding tiles_def by auto
    ultimately show ?case unfolding tiles_def by blast
  qed (simp add: tiles_def box_points_def)
  moreover have "box_points (concat ss) = box_points boxes" using assms(3) by (auto simp: box_points_def)
  ultimately show ?thesis by (simp add: tiles_def)
qed

lemma cells_tile:
  "Suc (ax + k) = n \<Longrightarrow> aligned n ax boxes \<Longrightarrow> tiles n (cells k ax boxes) boxes"
proof (induction k arbitrary: ax boxes)
  case 0
  have ax: "ax < n" "Suc ax = n" using "0.prems"(1) by simp_all
  note s = slabs_spec [OF "0.prems"(2) ax(1), unfolded ax(2)]
  have "tiles n [hd s] s" if "s \<in> set (slabs boxes ax)" for s
  proof -
    have s': "s \<noteq> []" "aligned n n s" "\<forall>b\<in>set s. MinBound b = [] \<and> MaxBound b = []" using s(1) that by blast+
    have h: "hd s \<in> set s" using s'(1) by simp
    have "box_points s = bpoints (hd s)" using aligned_all_points(1) [OF s'(2)] h unfolding box_points_def by blast
    then show ?thesis using s'(3) h aligned_all_points(2) [OF s'(2) h] by (simp add: tiles_def box_points_def)
  qed
  then have "tiles n (concat (map (\<lambda>s. [hd s]) (slabs boxes ax))) boxes" using s(2,3) by (intro tiles_concat) auto
  moreover have "concat (map (\<lambda>s. [hd s]) ss) = map hd ss" for ss :: "box list list" by (induction ss) auto
  ultimately show ?case by simp
next
  case (Suc k)
  have ax: "ax < n" "Suc (Suc ax + k) = n" using Suc.prems(1) by simp_all
  note s = slabs_spec [OF Suc.prems(2) ax(1)]
  have "sorted_wrt (\<lambda>s t. box_points s \<inter> box_points t = {}) (rev (slabs boxes ax))"
    using s(3) by (simp add: sorted_wrt_rev Int_commute)
  then show ?case using s(1,2) Suc.IH [OF ax(2)] by (auto intro!: tiles_concat)
qed

lemma Partition_tiles:
  assumes "\<forall>b\<in>set boxes. half_open n b"
  shows "\<exists>out. Partition boxes = Some out \<and> tiles n out boxes"
proof (cases "find (\<lambda>b. \<not> Box_Empty b) boxes")
  case None
  then have "\<forall>b\<in>set boxes. Box_Empty b" by (simp add: find_None_iff)
  then have "xs \<notin> bpoints b" if "b \<in> set boxes" for b xs
    using that assms half_open_Empty half_open_points by (meson order_le_less_trans)
  then have "box_points boxes = {}" by (auto simp: box_points_def)
  then show ?thesis using None by (simp add: Partition_def tiles_def box_points_def)
next
  case (Some b)
  then have "b \<in> set boxes" by (auto simp: find_Some_iff)
  then have "box_ok n b" using assms by (auto simp: half_open_def)
  then have d: "Dims b = n" "0 < n" using box_okD by auto
  then obtain k where k: "n = Suc k" by (cases n) auto
  have "aligned n 0 boxes" using assms by (simp add: aligned_def)
  then show ?thesis using cells_tile [of 0 k n boxes] Some d k by (simp add: Partition_def partition_boxes_cells)
qed

end
