(* ===== verification/Half_Open.thy ===== *)
theory Half_Open
  imports Partition Box_Strategies
begin

section \<open>Half-open boxes stay half-open\<close>

text \<open>
  The demo draws with half-open boxes only. The operations of \<open>space/set.go\<close> and the last-write-wins strategy cut
  and copy boxes without creating another kind of face, so the covers that the demo partitions are half-open.
\<close>

definition plain_faces :: "nat \<Rightarrow> box \<Rightarrow> bool" where
  "plain_faces n b \<longleftrightarrow> length (BMin b) = n \<and> length (BMax b) = n \<and> length (MinBound b) \<in> {0, n} \<and>
     length (MaxBound b) \<in> {0, n} \<and> (\<forall>i<n. loBound b i = Closed \<and> hiBound b i = Open)"

lemma half_open_faces: "half_open n b \<longleftrightarrow> box_ok n b \<and> plain_faces n b"
  by (auto simp: half_open_def plain_faces_def box_ok_iff)

lemma plain_faces_NewBox: "length lo = n \<Longrightarrow> length hi = n \<Longrightarrow> plain_faces n (NewBox lo hi)"
  by (simp add: plain_faces_def NewBox_def loBound_def hiBound_def)

lemma plain_faces_strip: "plain_faces n (strip b) = plain_faces n b"
  by (simp add: plain_faces_def strip_def)

lemma plain_faces_cong: "strip b = strip c \<Longrightarrow> plain_faces n b = plain_faces n c"
  using plain_faces_strip by metis

subsection \<open>Cutting\<close>

lemma plain_faces_clip:
  assumes b: "plain_faces n b" and iv: "StartBound iv = Closed" "EndBound iv = Open"
  shows "plain_faces n (clipToInterval b d iv)"
proof -
  let ?l = "(if MinBound b = [] then replicate n Closed else MinBound b)[d := Closed]"
  let ?h = "(if MaxBound b = [] then replicate n Open else MaxBound b)[d := Open]"
  have lo: "\<forall>x\<in>set (if MinBound b = [] then replicate n Closed else MinBound b). x = Closed"
    using b by (auto simp: plain_faces_def loBound_def in_set_conv_nth)
  have hi: "\<forall>x\<in>set (if MaxBound b = [] then replicate n Open else MaxBound b). x = Open"
    using b by (auto simp: plain_faces_def hiBound_def in_set_conv_nth)
  have "x = Closed" if "x \<in> set ?l" for x
    using subsetD [OF set_update_subset_insert that] lo by blast
  moreover have "x = Open" if "x \<in> set ?h" for x
    using subsetD [OF set_update_subset_insert that] hi by blast
  ultimately have "allClosed ?l" "allOpen ?h" by (auto simp: allClosed_def allOpen_def list_all_iff)
  then have "MinBound (clipToInterval b d iv) = []" "MaxBound (clipToInterval b d iv) = []"
    using b iv by (auto simp: clipToInterval_def Let_def plain_faces_def)
  then show ?thesis
    using b by (auto simp: plain_faces_def clipToInterval_sel loBound_def hiBound_def)
qed

lemma plain_intervals:
  "StartBound (intervalIntersection al bl ah bh Closed Closed Open Open) = Closed"
  "EndBound (intervalIntersection al bl ah bh Closed Closed Open Open) = Open"
  "iv \<in> set (intervalSubtract al bl ah bh Closed Closed Open Open) \<Longrightarrow> StartBound iv = Closed \<and> EndBound iv = Open"
  by (auto simp: intervalIntersection_def intervalSubtract_def invertBound_def Let_def split: if_splits)

lemma plain_faces_splitAxis:
  assumes "plain_faces n b" "plain_faces n q" "d < n"
  shows "plain_faces n (fst (splitAxis q d b))" "\<forall>c\<in>set (snd (splitAxis q d b)). plain_faces n c"
proof -
  have f: "loBound b d = Closed" "hiBound b d = Open" "loBound q d = Closed" "hiBound q d = Open"
    using assms by (auto simp: plain_faces_def)
  show "plain_faces n (fst (splitAxis q d b))" "\<forall>c\<in>set (snd (splitAxis q d b)). plain_faces n c"
    using assms(1) plain_intervals by (auto simp: splitAxis_def f intro!: plain_faces_clip)
qed

lemma plain_faces_subtractBox:
  assumes p: "plain_faces n p" and q: "plain_faces n q"
  shows "\<forall>c\<in>set (subtractBox p q). plain_faces n c"
proof -
  let ?ok = "\<lambda>st. \<forall>c\<in>set (fst st) \<union> set (snd st). plain_faces n c"
  have step: "?ok (subtractAxis q d st)" if "?ok st" "d < n" for d st
  proof -
    have "plain_faces n (fst (splitAxis q d b))" "\<forall>c\<in>set (snd (splitAxis q d b)). plain_faces n c" if "b \<in> set (fst st)" for b
      using plain_faces_splitAxis [OF _ q \<open>d < n\<close>, of b] \<open>?ok st\<close> that by blast+
    with \<open>?ok st\<close> show ?thesis by (cases st) (auto simp: subtractAxis_def)
  qed
  have loop: "?ok (fold (subtractAxis q) ds st)" if "?ok st" "\<forall>d\<in>set ds. d < n" for ds st
    using that
  proof (induction ds arbitrary: st)
    case (Cons d ds)
    have "?ok (subtractAxis q d st)" by (rule step [OF Cons.prems(1)]) (use Cons.prems(2) in simp)
    with Cons show ?case by simp
  qed simp
  have "?ok (fold (subtractAxis q) [0..<n] ([p], []))" by (rule loop) (use p in simp_all)
  moreover have "length (BMin p) = n" using p by (simp add: plain_faces_def)
  ultimately show ?thesis using p by (simp add: subtractBox_def)
qed

subsection \<open>Sets\<close>

lemma set_geo_insert: "set (fold geo_insert bs kept) \<subseteq> set bs \<union> set kept"
proof (induction bs arbitrary: kept)
  case (Cons b bs)
  have "set (geo_insert b kept) \<subseteq> insert b (set kept)" by (auto simp: geo_insert_def)
  with Cons [of "geo_insert b kept"] show ?case by auto
qed simp

lemma plain_faces_Normalize:
  assumes "\<forall>b\<in>set bs. plain_faces n b"
  shows "\<forall>b\<in>set (NormalizeMerged bs merge). plain_faces n b"
proof -
  have "\<forall>b\<in>set (sortBoxes (fold geo_insert bs [])). plain_faces n b" using assms set_geo_insert [of bs "[]"] by auto
  then show ?thesis
    using map_strip_ball [OF NormalizeMerged_geo, of "plain_faces n"] plain_faces_strip by blast
qed

lemma plain_faces_DifferenceSorted:
  assumes "\<forall>b\<in>set as. plain_faces n b" "\<forall>b\<in>set bs. plain_faces n b"
  shows "\<forall>b\<in>set (DifferenceSortedMerged as bs merge). plain_faces n b"
proof -
  have "\<forall>b\<in>set (fold (\<lambda>q result. NormalizeMerged (concat (map (\<lambda>p. subtractBox p q) result)) merge) bs result).
      plain_faces n b" if "\<forall>b\<in>set result. plain_faces n b" for result
    using that assms(2)
  proof (induction bs arbitrary: result)
    case (Cons q bs)
    have "\<forall>b\<in>set (NormalizeMerged (concat (map (\<lambda>p. subtractBox p q) result)) merge). plain_faces n b"
      by (intro plain_faces_Normalize) (use Cons.prems plain_faces_subtractBox [of n _ q] in auto)
    with Cons show ?case by simp
  qed simp
  from this [OF plain_faces_Normalize [OF assms(1)]] show ?thesis by (simp add: DifferenceSortedMerged_def)
qed

lemma plain_faces_Insert:
  assumes "\<forall>b\<in>set bs. plain_faces n b" "plain_faces n b"
  shows "\<forall>c\<in>set (InsertNormalized bs b). plain_faces n c"
proof -
  have "set (InsertNormalized bs b) \<subseteq> insert b (set bs)"
    by (auto simp: InsertNormalized_def insertSortedBox_def Let_def dest: in_set_takeD in_set_dropD)
  with assms show ?thesis by blast
qed

subsection \<open>Last-write-wins\<close>

lemma plain_faces_claims:
  assumes "\<forall>a\<in>set as. plain_faces n (bx a)" "\<forall>b\<in>set claimed. plain_faces n b"
  shows "\<forall>(a, free)\<in>set (sweep_claims bx as claimed). \<forall>b\<in>set free. plain_faces n b"
  using assms
proof (induction as arbitrary: claimed)
  case (Cons a as)
  have "\<forall>b\<in>set (box_DifferenceSorted [bx a] claimed). plain_faces n b"
    unfolding box_DifferenceSorted_def using Cons.prems by (intro plain_faces_DifferenceSorted) auto
  moreover have "\<forall>b\<in>set (InsertNormalized claimed (bx a)). plain_faces n b"
    using Cons.prems by (intro plain_faces_Insert) auto
  ultimately show ?case using Cons by simp
qed simp

lemma plain_faces_Materialize:
  assumes "\<forall>o'\<in>set ops. plain_faces n (BO_Box o')"
  shows "\<forall>b\<in>set (box_Materialize BLWW ops). plain_faces n b"
proof -
  have "set (Effective ops) \<subseteq> set ops" by (auto simp: Effective_def Let_def)
  then have segs: "\<forall>seg\<in>set (map bop_segment (Effective ops)). plain_faces n (BS_Box seg)"
    using assms by (auto simp: bop_segment_def)
  have "\<forall>seg\<in>set (box_normalize BLWW segs). plain_faces n (BS_Box seg)"
    if "\<forall>seg\<in>set segs. plain_faces n (BS_Box seg)" for segs
    using plain_faces_claims [of "sort_slice (\<lambda>a b. bbetter BLWW (BS_Winner a) (BS_Winner b)) segs" n BS_Box "[]"] that
    by (auto simp: box_normalize_def)
  from this [OF segs] have "\<forall>b\<in>set (ToBoxes (box_Segments BLWW (Effective ops))). plain_faces n b"
    unfolding ToBoxes_def box_Normalize_def box_Segments_def by (intro plain_faces_Normalize) auto
  then show ?thesis by (simp add: box_Materialize_def MaterializeMerged_def Let_def)
qed

end
