(* ===== verification/Web_Hub.thy ===== *)
theory Web_Hub
  imports Box_Set Merge_Start Partition Rtree
begin

section \<open>A drawing session (demo/web/hub.go, messages.go, persist.go, sessions.go)\<close>

text \<open>
  A hub owns one shared drawing: a box set on an in-memory store, a cached spatial index, the session's dimension and
  its activity log. The record holds the Go struct without its lock, which every method holds for its whole
  body, and besides the state of the store and of the log file that the hub writes to. The messages of
  \<open>broadcast\<close> are collected in \<open>hb_out\<close>, with the channel they leave by, in their order; the pub/sub
  library behind the channels is not modelled.

  A method that builds an operation takes the identifier that the library draws and the reading of \<open>time.Now\<close> as
  arguments. \<open>web_env\<close> holds what the parts below are parametrized with: the float arithmetic of the cover grid
  and of the R-tree, the bits of a float, the text of a time and the outcomes of the system calls.
\<close>

subsection \<open>Messages\<close>

record web_view =
  wv_Boxes :: "box list"
  wv_Adds :: nat
  wv_Removes :: nat
  wv_Dims :: int
  wv_Compact :: string
  wv_Cells :: int

record opRecord =
  or_Client :: string
  or_Kind :: string
  or_Min :: "float64 list"
  or_Max :: "float64 list"
  or_Dims :: int
  or_At :: int64

record clientOp =
  co_Kind :: string
  co_Min :: "float64 list"
  co_Max :: "float64 list"
  co_Dims :: int

record searchResult =
  sr_Min :: "float64 list"
  sr_Max :: "float64 list"
  sr_Boxes :: "box list"

record serverMsg =
  sm_Type :: string
  sm_State :: "web_view option"
  sm_Op :: "opRecord option"
  sm_Search :: "searchResult option"
  sm_Clients :: nat
  sm_Total :: int

definition msg :: "string \<Rightarrow> serverMsg" where
  "msg t = \<lparr>sm_Type = t, sm_State = None, sm_Op = None, sm_Search = None, sm_Clients = 0, sm_Total = 0\<rparr>"

datatype channel = OnEvent | EventsTopic | PresenceTopic

subsection \<open>The hub\<close>

record web_env =
  we_grid :: grid_ops
  we_bits :: "float64 \<Rightarrow> word64"
  we_sub :: "float64 \<Rightarrow> float64 \<Rightarrow> float64"
  we_put_time :: "int64 \<Rightarrow> string"
  we_get_time :: "string \<Rightarrow> int64 option"
  we_float_text :: "float64 \<Rightarrow> string"
  we_mkdir_err :: "string option"
  we_open_err :: "string option"
  we_open_file_err :: "string option"
  we_write_err :: "string option"

record hub =
  hb_onEvent :: bool
  hb_set :: "hybrid boxSet"
  hb_store :: "box_op mem_store"
  hb_idx :: "rtree option"
  hb_compact :: string
  hb_cells :: int
  hb_dims :: int
  hb_clients :: nat
  hb_total :: bool
  hb_presence :: bool
  hb_ops :: "opRecord list"
  hb_persist :: bool
  hb_file :: stream
  hb_out :: "(channel \<times> serverMsg) list"

datatype hub_error = HBox box_error | HDims nat int | HSet box_set_error | HKind string | HRange int | HFixed int
  | HIndex rtree_error

definition compactCanonical :: string where "compactCanonical = ''canonical''"
definition compactMerge :: string where "compactMerge = ''merge''"
definition compactPartition :: string where "compactPartition = ''partition''"
definition compactPartitionMerge :: string where "compactPartitionMerge = ''partition-merge''"

definition maxDims :: int where "maxDims = 4"

definition compactMode :: "string \<Rightarrow> string" where
  "compactMode v = (if v = compactMerge \<or> v = compactPartition \<or> v = compactPartitionMerge then v else compactCanonical)"

subsubsection \<open>Opening\<close>

text \<open>
  The canonicalizers return on every cover the engine hands them (\<open>returned\<close> takes the result out of the option).
  \<open>recordingPartition\<close> yields the cells and their number, which the hub remembers.
\<close>

definition returned :: "box list option \<Rightarrow> box list" where
  "returned r = (case r of Some bs \<Rightarrow> bs | None \<Rightarrow> [])"

definition recordingPartition :: "box list \<Rightarrow> box list \<times> int" where
  "recordingPartition boxes = (let cells = returned (Partition boxes) in (cells, int (length cells)))"

definition web_merge :: "web_env \<Rightarrow> canonicalizer" where
  "web_merge E boxes = returned (MergeAdjacent (we_grid E) (we_bits E) boxes)"

definition web_options :: "web_env \<Rightarrow> string \<Rightarrow> hybrid box_option list" where
  "web_options E mode =
     WithBoxSnapshotEvery 0 #
     (if mode = compactMerge then [WithBoxCanonicalizer (web_merge E)]
      else if mode = compactPartition then [WithBoxCanonicalizer (fst \<circ> recordingPartition)]
      else if mode = compactPartitionMerge then
        [WithBoxCanonicalizer (Chain [Some (fst \<circ> recordingPartition), Some (web_merge E)])]
      else [])"

definition web_mode :: "string \<Rightarrow> string" where
  "web_mode mode =
     (if mode = compactMerge \<or> mode = compactPartition \<or> mode = compactPartitionMerge then mode else compactCanonical)"

definition partitions :: "string \<Rightarrow> bool" where
  "partitions mode \<longleftrightarrow> mode = compactPartition \<or> mode = compactPartitionMerge"

text \<open>\<open>None\<close> is the panic.\<close>

definition newHubMode :: "web_env \<Rightarrow> hybrid \<Rightarrow> string \<Rightarrow> hub option" where
  "newHubMode E c mode =
     (case OpenBoxStore box_mem_log hybrid_Clock BLWW c (web_options E mode) box_mem_New of
        Inl err \<Rightarrow> None
      | Inr bset \<Rightarrow> Some
          \<lparr>hb_onEvent = False, hb_set = bset, hb_store = box_mem_New, hb_idx = None, hb_compact = web_mode mode,
           hb_cells = (if partitions mode then snd (recordingPartition []) else 0), hb_dims = -1, hb_clients = 0,
           hb_total = False, hb_presence = False, hb_ops = [], hb_persist = False, hb_file = None, hb_out = []\<rparr>)"

definition newHub :: "web_env \<Rightarrow> hybrid \<Rightarrow> bool \<Rightarrow> hub option" where
  "newHub E c merging = newHubMode E c (if merging then compactMerge else compactCanonical)"

subsubsection \<open>Delivery\<close>

definition broadcast :: "serverMsg \<Rightarrow> hub \<Rightarrow> hub" where
  "broadcast m h = h\<lparr>hb_out := hb_out h @ [(if hb_onEvent h then OnEvent else EventsTopic, m)]\<rparr>"

text \<open>
  The counter \<open>total\<close> of all sessions is shared, so it is passed along; \<open>hb_total\<close> says whether the hub has it.
\<close>

definition publishGlobalPresence :: "int \<Rightarrow> hub \<Rightarrow> hub" where
  "publishGlobalPresence tot h =
     (if hb_presence h \<and> hb_total h
      then h\<lparr>hb_out := hb_out h @ [(PresenceTopic, (msg ''presence'')\<lparr>sm_Total := tot\<rparr>)]\<rparr> else h)"

definition hub_join :: "hub \<Rightarrow> int \<Rightarrow> (opRecord list \<times> nat) \<times> hub \<times> int" where
  "hub_join h tot =
     (let h = h\<lparr>hb_clients := Suc (hb_clients h)\<rparr>;
          tot = (if hb_total h then tot + 1 else tot);
          log = hb_ops h;
          h = broadcast ((msg ''presence'')\<lparr>sm_Clients := hb_clients h\<rparr>) h
      in ((log, hb_clients h), publishGlobalPresence tot h, tot))"

definition hub_leave :: "hub \<Rightarrow> int \<Rightarrow> hub \<times> int" where
  "hub_leave h tot =
     (let (h, tot) = (if hb_clients h > 0
           then (h\<lparr>hb_clients := hb_clients h - 1\<rparr>, if hb_total h then tot - 1 else tot) else (h, tot));
          h = broadcast ((msg ''presence'')\<lparr>sm_Clients := hb_clients h\<rparr>) h
      in (publishGlobalPresence tot h, tot))"

subsubsection \<open>The view\<close>

text \<open>\<open>h.set.Boxes()\<close>: a pending rebuild runs the canonicalizer, which records the number of cells.\<close>

definition hub_Boxes :: "hub \<Rightarrow> box list \<times> hub" where
  "hub_Boxes h =
     (let e = bs_engine (hb_set h);
          h = (if be_dirty e \<and> partitions (hb_compact h)
            then h\<lparr>hb_cells := snd (recordingPartition (box_Materialize (be_strategy e) (be_opsList e)))\<rparr> else h)
      in case bs_Boxes (hb_set h) of (bs, bset) \<Rightarrow> (bs, h\<lparr>hb_set := bset\<rparr>))"

definition materializeLocked :: "hub \<Rightarrow> web_view \<times> hub" where
  "materializeLocked h =
     (let ops = bs_Ops (hb_set h);
          mode = (if hb_compact h = [] then compactCanonical else hb_compact h)
      in case hub_Boxes h of (bs, h) \<Rightarrow>
        (\<lparr>wv_Boxes = bs, wv_Adds = length (filter (\<lambda>o'. BO_Kind o' = BKindAdd) ops),
          wv_Removes = length (filter (\<lambda>o'. BO_Kind o' \<noteq> BKindAdd) ops), wv_Dims = hb_dims h,
          wv_Compact = mode, wv_Cells = hb_cells h\<rparr>, h))"

definition hub_snapshot :: "hub \<Rightarrow> web_view \<times> hub" where
  "hub_snapshot h = materializeLocked h"

subsubsection \<open>Folding operations\<close>

definition fold_applied :: "box_op \<times> (hybrid, box_op mem_store) bs_result \<Rightarrow> hub \<Rightarrow> (hub_error + web_view) \<times> hub" where
  "fold_applied r h =
     (case r of (_, err, bset, s) \<Rightarrow>
        let h = h\<lparr>hb_set := bset, hb_store := s\<rparr> in
        case err of
          Some e \<Rightarrow> (Inl (HSet e), h)
        | None \<Rightarrow> (case materializeLocked (h\<lparr>hb_idx := None\<rparr>) of (v, h) \<Rightarrow> (Inr v, h)))"

definition foldLocked :: "string \<Rightarrow> string \<Rightarrow> float64 list \<Rightarrow> float64 list \<Rightarrow> hub \<Rightarrow> (hub_error + web_view) \<times> hub" where
  "foldLocked newid kind lo hi h =
     (let b = NewBox lo hi in
      case Box_Validate b of
        Some err \<Rightarrow> (Inl (HBox err), h)
      | None \<Rightarrow>
          if hb_dims h \<noteq> -1 \<and> int (Dims b) \<noteq> hb_dims h then (Inl (HDims (Dims b) (hb_dims h)), h)
          else
            let h = (if hb_dims h = -1 then h\<lparr>hb_dims := int (Dims b)\<rparr> else h) in
            if kind = ''add'' then
              fold_applied (bs_Add box_mem_log hybrid_Clock (\<lambda>_ s. s) newid lo hi (hb_set h) (hb_store h)) h
            else if kind = ''remove'' then
              fold_applied (bs_Remove box_mem_log hybrid_Clock (\<lambda>_ s. s) newid lo hi (hb_set h) (hb_store h)) h
            else (Inl (HKind kind), h))"

definition foldDimsLocked :: "int \<Rightarrow> hub \<Rightarrow> (hub_error + web_view) \<times> hub" where
  "foldDimsLocked dims h =
     (if dims < 1 \<or> dims > maxDims then (Inl (HRange dims), h)
      else if length (bs_Ops (hb_set h)) > 0 \<and> hb_dims h \<noteq> dims then (Inl (HFixed (hb_dims h)), h)
      else case materializeLocked (h\<lparr>hb_dims := dims\<rparr>) of (v, h) \<Rightarrow> (Inr v, h))"

subsubsection \<open>The log file of a session\<close>

definition put_opRecord :: "web_env \<Rightarrow> opRecord \<Rightarrow> json option" where
  "put_opRecord E r =
     (case (put_floats (or_Min r), put_floats (or_Max r)) of
        (Some lo, Some hi) \<Rightarrow>
          Some (JObj ([(''client'', JStr (or_Client r)), (''kind'', JStr (or_Kind r))] @
            omit_if (or_Min r = []) ''min'' lo @ omit_if (or_Max r = []) ''max'' hi @
            omit_if (or_Dims r = 0) ''dims'' (JInt (or_Dims r)) @ [(''at'', JStr (we_put_time E (or_At r)))]))
      | _ \<Rightarrow> None)"

definition get_opRecord :: "web_env \<Rightarrow> json \<Rightarrow> json_error + opRecord" where
  "get_opRecord E j =
     ebind (get_obj j) (\<lambda>fs.
     ebind (get_string (get_field ''client'' fs)) (\<lambda>client.
     ebind (get_string (get_field ''kind'' fs)) (\<lambda>kind.
     ebind (get_floats (get_field ''min'' fs)) (\<lambda>lo.
     ebind (get_floats (get_field ''max'' fs)) (\<lambda>hi.
     ebind (get_int64 (get_field ''dims'' fs)) (\<lambda>dims.
     ebind (get_text (\<lambda>s. case we_get_time E s of None \<Rightarrow> Inl () | Some t \<Rightarrow> Inr t) 0 (get_field ''at'' fs)) (\<lambda>t.
       Inr \<lparr>or_Client = client, or_Kind = kind, or_Min = lo, or_Max = hi, or_Dims = dims, or_At = t\<rparr>)))))))"

text \<open>
  \<open>load\<close> stops at the first line that does not parse, and keeps what came before a line that is too long for the
  scanner; in both cases it reports an error.
\<close>

fun load_lines :: "web_env \<Rightarrow> rawjson list \<Rightarrow> opRecord list \<Rightarrow> store_error + opRecord list" where
  "load_lines E [] records = Inr records"
| "load_lines E (l # ls) records =
     (if (case l of Valid j \<Rightarrow> length (json_text (we_float_text E) j) | Invalid s \<Rightarrow> length s) > max_token then Inl ErrTooLong
      else case l of
        Invalid s \<Rightarrow> Inl (ErrJson UnexpectedEnd)
      | Valid j \<Rightarrow>
          (case get_opRecord E j of
             Inl e \<Rightarrow> Inl (ErrJson e)
           | Inr rec \<Rightarrow> load_lines E ls (records @ [rec])))"

definition hubStore_load :: "web_env \<Rightarrow> stream \<Rightarrow> store_error + opRecord list" where
  "hubStore_load E f =
     (case f of
        None \<Rightarrow> Inr []
      | Some ls \<Rightarrow> (case we_open_err E of Some e \<Rightarrow> Inl (ErrIO e) | None \<Rightarrow> load_lines E ls []))"

definition hubStore_append :: "web_env \<Rightarrow> opRecord \<Rightarrow> stream \<Rightarrow> store_error option \<times> stream" where
  "hubStore_append E rec f =
     (case we_open_file_err E of
        Some e \<Rightarrow> (Some (ErrIO e), f)
      | None \<Rightarrow>
          let ls = lines_of f in
          case put_opRecord E rec of
            None \<Rightarrow> (Some ErrNotJSON, Some ls)
          | Some j \<Rightarrow>
              (case we_write_err E of
                 Some e \<Rightarrow> (Some (ErrIO e), Some ls)
               | None \<Rightarrow> (None, Some (ls @ [Valid j]))))"

subsubsection \<open>Commands\<close>

definition hub_apply :: "string \<Rightarrow> string \<Rightarrow> float64 list \<Rightarrow> float64 list \<Rightarrow> hub \<Rightarrow> (hub_error + web_view) \<times> hub" where
  "hub_apply newid kind lo hi h =
     (case foldLocked newid kind lo hi h of
        (Inl err, h) \<Rightarrow> (Inl err, h)
      | (Inr v, h) \<Rightarrow> (Inr v, broadcast ((msg ''state'')\<lparr>sm_State := Some v\<rparr>) h))"

definition persistRecord :: "web_env \<Rightarrow> opRecord \<Rightarrow> hub \<Rightarrow> hub" where
  "persistRecord E rec h =
     (if \<not> hb_persist h then h else h\<lparr>hb_file := snd (hubStore_append E rec (hb_file h))\<rparr>)"

definition logged :: "web_env \<Rightarrow> opRecord \<Rightarrow> (hub_error + web_view) \<times> hub \<Rightarrow> (hub_error + web_view) \<times> hub" where
  "logged E rec r =
     (case r of
        (Inl err, h) \<Rightarrow> (Inl err, h)
      | (Inr v, h) \<Rightarrow>
          (let h = persistRecord E rec (h\<lparr>hb_ops := hb_ops h @ [rec]\<rparr>)
           in (Inr v, broadcast ((msg ''op'')\<lparr>sm_Op := Some rec, sm_State := Some v\<rparr>) h)))"

definition hub_record :: "web_env \<Rightarrow> string \<Rightarrow> int64 \<Rightarrow> string \<Rightarrow> string \<Rightarrow> float64 list \<Rightarrow> float64 list \<Rightarrow> hub \<Rightarrow>
    (hub_error + web_view) \<times> hub" where
  "hub_record E newid now clientID kind lo hi h =
     logged E \<lparr>or_Client = clientID, or_Kind = kind, or_Min = lo, or_Max = hi, or_Dims = 0, or_At = now\<rparr>
       (foldLocked newid kind lo hi h)"

definition applyDims :: "int \<Rightarrow> hub \<Rightarrow> (hub_error + web_view) \<times> hub" where
  "applyDims dims h =
     (case foldDimsLocked dims h of
        (Inl err, h) \<Rightarrow> (Inl err, h)
      | (Inr v, h) \<Rightarrow> (Inr v, broadcast ((msg ''state'')\<lparr>sm_State := Some v\<rparr>) h))"

definition setDims :: "web_env \<Rightarrow> int64 \<Rightarrow> string \<Rightarrow> int \<Rightarrow> hub \<Rightarrow> (hub_error + web_view) \<times> hub" where
  "setDims E now clientID dims h =
     logged E \<lparr>or_Client = clientID, or_Kind = ''dims'', or_Min = [], or_Max = [], or_Dims = dims, or_At = now\<rparr>
       (foldDimsLocked dims h)"

text \<open>\<open>replay\<close> draws one identifier per record.\<close>

fun hub_replay :: "(string \<times> opRecord) list \<Rightarrow> hub \<Rightarrow> hub" where
  "hub_replay [] h = h"
| "hub_replay ((newid, rec) # rs) h =
     (let h = (if or_Kind rec = ''dims'' then snd (foldDimsLocked (or_Dims rec) h)
               else snd (foldLocked newid (or_Kind rec) (or_Min rec) (or_Max rec) h))
      in hub_replay rs (h\<lparr>hb_ops := hb_ops h @ [rec]\<rparr>))"

subsubsection \<open>Search\<close>

definition searchLocked :: "web_env \<Rightarrow> float64 list \<Rightarrow> float64 list \<Rightarrow> hub \<Rightarrow> (hub_error + searchResult) \<times> hub" where
  "searchLocked E lo hi h =
     (let q = NewBox lo hi in
      case Box_Validate q of
        Some err \<Rightarrow> (Inl (HBox err), h)
      | None \<Rightarrow>
          if hb_dims h \<noteq> -1 \<and> int (Dims q) \<noteq> hb_dims h then (Inl (HDims (Dims q) (hb_dims h)), h)
          else
            let (r, h) = (case hb_idx h of
                Some t \<Rightarrow> (Inr t, h)
              | None \<Rightarrow>
                  (case hub_Boxes h of (bs, h) \<Rightarrow>
                     (case BuildRef (we_sub E) bs of
                        Inl err \<Rightarrow> (Inl (HIndex err), h)
                      | Inr t \<Rightarrow> (Inr t, h\<lparr>hb_idx := Some t\<rparr>))))
            in case r of
                 Inl err \<Rightarrow> (Inl err, h)
               | Inr t \<Rightarrow> (Inr \<lparr>sr_Min = lo, sr_Max = hi, sr_Boxes = Search t q\<rparr>, h))"

definition hub_search :: "web_env \<Rightarrow> float64 list \<Rightarrow> float64 list \<Rightarrow> hub \<Rightarrow> (hub_error + searchResult) \<times> hub" where
  "hub_search E lo hi h =
     (case searchLocked E lo hi h of
        (Inl err, h) \<Rightarrow> (Inl err, h)
      | (Inr res, h) \<Rightarrow> (Inr res, broadcast ((msg ''search'')\<lparr>sm_Search := Some res\<rparr>) h))"

text \<open>The error a client is told, if any.\<close>

definition err_of :: "'e + 'a \<Rightarrow> 'e option" where
  "err_of r = (case r of Inl e \<Rightarrow> Some e | Inr _ \<Rightarrow> None)"

definition applyClientOp :: "web_env \<Rightarrow> string \<Rightarrow> int64 \<Rightarrow> string \<Rightarrow> clientOp \<Rightarrow> hub \<Rightarrow> hub_error option \<times> hub" where
  "applyClientOp E newid now clientID co h =
     (if co_Kind co = ''dims'' then apfst err_of (setDims E now clientID (co_Dims co) h)
      else if co_Kind co = ''search'' then apfst err_of (hub_search E (co_Min co) (co_Max co) h)
      else apfst err_of (hub_record E newid now clientID (co_Kind co) (co_Min co) (co_Max co) h))"

subsection \<open>The sessions of a server\<close>

text \<open>
  The server keeps one hub per session identifier in an expiring cache (a library): \<open>get\<close> and \<open>put\<close> are its
  \<open>Get\<close> and \<open>SetDefault\<close>. The hubs it hands out are shared, so the cache holds their positions in a store of
  hubs. \<open>restore\<close> gives a fresh hub the records of the session's file \<open>f\<close>, as it is on disk at that moment; the
  identifiers that the replay draws come from \<open>ids\<close>.
\<close>

record 'k sessions =
  ss_cache :: 'k
  ss_hubs :: "hub list"
  ss_total :: int
  ss_dir :: bool

definition restore_hub :: "web_env \<Rightarrow> (nat \<Rightarrow> string) \<Rightarrow> bool \<Rightarrow> stream \<Rightarrow> hub \<Rightarrow> hub" where
  "restore_hub E ids dir f h =
     (if \<not> dir then h
      else case we_mkdir_err E of
        Some _ \<Rightarrow> h
      | None \<Rightarrow>
          let h = (case hubStore_load E f of
                Inl _ \<Rightarrow> h
              | Inr records \<Rightarrow> hub_replay (map (\<lambda>i. (ids i, records ! i)) [0..<length records]) h)
          in h\<lparr>hb_persist := True, hb_file := f\<rparr>)"

definition modelMode :: "web_env \<Rightarrow> ('k \<Rightarrow> string \<Rightarrow> nat option) \<Rightarrow> (string \<Rightarrow> nat \<Rightarrow> 'k \<Rightarrow> 'k) \<Rightarrow> (nat \<Rightarrow> string) \<Rightarrow> hybrid \<Rightarrow>
    stream \<Rightarrow> string \<Rightarrow> string \<Rightarrow> 'k sessions \<Rightarrow> (nat \<times> 'k sessions) option" where
  "modelMode E get put ids c f i mode ss =
     (case get (ss_cache ss) i of
        Some a \<Rightarrow> Some (a, ss\<lparr>ss_cache := put i a (ss_cache ss)\<rparr>)
      | None \<Rightarrow>
          (case newHubMode E c mode of
             None \<Rightarrow> None
           | Some h \<Rightarrow>
               let h = h\<lparr>hb_total := True, hb_presence := True\<rparr>;
                   h = restore_hub E ids (ss_dir ss) f h;
                   a = length (ss_hubs ss)
               in Some (a, ss\<lparr>ss_hubs := ss_hubs ss @ [h], ss_cache := put i a (ss_cache ss)\<rparr>)))"

definition sessions_model :: "web_env \<Rightarrow> ('k \<Rightarrow> string \<Rightarrow> nat option) \<Rightarrow> (string \<Rightarrow> nat \<Rightarrow> 'k \<Rightarrow> 'k) \<Rightarrow> (nat \<Rightarrow> string) \<Rightarrow> hybrid \<Rightarrow>
    stream \<Rightarrow> string \<Rightarrow> bool \<Rightarrow> 'k sessions \<Rightarrow> (nat \<times> 'k sessions) option" where
  "sessions_model E get put ids c f i merging ss =
     modelMode E get put ids c f i (if merging then compactMerge else compactCanonical) ss"

end
