(* ===== verification/Web_Session.thy ===== *)
theory Web_Session
  imports Half_Open Web_Hub
begin

section \<open>What a session draws\<close>

text \<open>
  The reachable hubs of a session, \<open>hub_run\<close>: a fresh hub, then any sequence of client commands, accepted or
  rejected, joins, departures, views and rewirings of its outputs. The specification is the drawing \<open>drawn\<close> that
  the activity log describes: its additions and removals, in order, as union and difference of point sets.
  \<open>hub_ok\<close> is the invariant that ties a reachable hub to its log: the engine knows a history of operations
  that matches the log, its cached view is canonicalized from that history, and the cached index is that of the view.
\<close>

subsection \<open>The canonicalizers\<close>

definition applied :: "canonicalizer option \<Rightarrow> box list \<Rightarrow> box list" where
  "applied c bs = (case c of Some f \<Rightarrow> f bs | None \<Rightarrow> bs)"

definition web_canon :: "web_env \<Rightarrow> string \<Rightarrow> canonicalizer option" where
  "web_canon E mode = bc_Canonicalize (be_apply_options (web_options E mode) undefined)"

text \<open>The arithmetic of the cover grid keeps the order of the corners of every cover.\<close>

definition sound_grid :: "grid_ops \<Rightarrow> bool" where
  "sound_grid A \<longleftrightarrow> (\<forall>n boxes. boxes \<noteq> [] \<longrightarrow> (\<forall>b\<in>set boxes. box_ok n b) \<longrightarrow>
     keeps_order A (snd (gridShape A boxes n)) (fst (gridShape A boxes n)) (cornersOf boxes))"

lemma exact_sound_grid: "sound_grid exact_grid"
  unfolding sound_grid_def
proof (intro allI impI)
  fix n and boxes :: "box list" assume b: "boxes \<noteq> []" "\<forall>b\<in>set boxes. box_ok n b"
  have "is_fin (BMin b ! d) \<and> is_fin (BMax b ! d)" if "b \<in> set boxes" "d < n" for b d
  proof -
    have "box_ok n b" using b(2) that(1) by blast
    from box_ok_axis [OF this that(2)] obtain lo hi where "BMin b ! d = Fin lo" "BMax b ! d = Fin hi" by blast
    then show ?thesis by simp
  qed
  then have "\<forall>d<n. \<forall>x\<in>cornersOf boxes d. is_fin x" by (auto simp: cornersOf_def)
  then show "keeps_order exact_grid (snd (gridShape exact_grid boxes n)) (fst (gridShape exact_grid boxes n)) (cornersOf boxes)"
    by (rule exact_gridShape [OF b(2,1)])
qed

lemma web_merge_spec:
  assumes "sound_grid (we_grid E)" "\<forall>b\<in>set bs. box_ok n b"
  shows "all_good n (web_merge E bs)" "box_points (web_merge E bs) = box_points bs"
proof -
  have "keeps_order (we_grid E) (snd (gridShape (we_grid E) bs n)) (fst (gridShape (we_grid E) bs n)) (cornersOf bs)"
    if "indexedMergeThreshold \<le> length bs"
  proof -
    have "bs \<noteq> []" using that by (auto simp: indexedMergeThreshold_def)
    with assms show ?thesis by (auto simp: sound_grid_def)
  qed
  from MergeAdjacent_spec [OF assms(2) this, of "we_bits E"] obtain out where
    out: "MergeAdjacent (we_grid E) (we_bits E) bs = Some out" "box_canonical n out" "bcover out = bcover bs" by blast
  then have r: "web_merge E bs = out" by (simp add: web_merge_def returned_def)
  show g: "all_good n (web_merge E bs)" using out(2) r by (simp add: box_canonical_def)
  show "box_points (web_merge E bs) = box_points bs"
    using box_points_bcover [OF all_goodD [OF g]] box_points_bcover [OF assms(2)] out(3) r by blast
qed

lemma recordingPartition_spec:
  assumes "\<forall>b\<in>set bs. half_open n b"
  shows "tiles n (fst (recordingPartition bs)) bs"
  using Partition_tiles [OF assms] by (auto simp: recordingPartition_def returned_def Let_def)

lemmas mode_names = compactCanonical_def compactMerge_def compactPartition_def compactPartitionMerge_def

lemma web_canon_cases:
  "web_canon E mode =
     (if mode = compactMerge then Some (web_merge E)
      else if mode = compactPartition then Some (fst \<circ> recordingPartition)
      else if mode = compactPartitionMerge then Some (Chain [Some (fst \<circ> recordingPartition), Some (web_merge E)])
      else None)"
  by (simp add: web_canon_def be_apply_options_def web_options_def WithBoxSnapshotEvery_def WithBoxCanonicalizer_def
      be_WithSnapshotEvery_def be_WithCanonicalizer_def)

lemma applied_spec:
  assumes "sound_grid (we_grid E)" "\<forall>b\<in>set bs. half_open n b" "all_good n bs"
  shows "all_good n (applied (web_canon E mode) bs)" "box_points (applied (web_canon E mode) bs) = box_points bs"
    and "mode = compactPartition \<Longrightarrow> sorted_wrt (\<lambda>c d. bpoints c \<inter> bpoints d = {}) (applied (web_canon E mode) bs)"
proof -
  have ok: "\<forall>b\<in>set bs. box_ok n b" using assms(2) by (simp add: half_open_def)
  note t = recordingPartition_spec [OF assms(2), unfolded tiles_def]
  have cells: "all_good n (fst (recordingPartition bs))" using t by (simp add: all_good_def)
  note m = web_merge_spec [OF assms(1) ok] and pm = web_merge_spec [OF assms(1) all_goodD [OF cells]]
  show "all_good n (applied (web_canon E mode) bs)" "box_points (applied (web_canon E mode) bs) = box_points bs"
    using m pm cells t assms(3) by (auto simp: web_canon_cases applied_def Chain_def)
  show "sorted_wrt (\<lambda>c d. bpoints c \<inter> bpoints d = {}) (applied (web_canon E mode) bs)" if "mode = compactPartition"
    using t that by (simp add: web_canon_cases applied_def mode_names)
qed

subsection \<open>The engine behind a hub\<close>

definition engine_ok :: "nat \<Rightarrow> box_op list \<Rightarrow> hybrid box_engine \<Rightarrow> bool" where
  "engine_ok n H e \<longleftrightarrow> box_history n H \<and> distinct (map fst (be_ops e)) \<and> (\<forall>(i, o')\<in>set (be_ops e). i = BO_ID o') \<and>
     mset (map snd (be_ops e)) = mset H \<and> be_version e = int (length H) \<and>
     (be_dims e = int n \<or> H = [] \<and> be_dims e = -1) \<and> be_strategy e = BLWW \<and> be_snapshotEvery e = 0 \<and>
     (\<forall>p\<in>set H. i_le (BO_TS p) (h_last (be_clock e)) \<and> plain_faces n (BO_Box p) \<and> BO_Kind p \<noteq> BKindRetract)"

lemma engine_ok_ops:
  assumes "engine_ok n H e"
  shows "set (be_opsList e) = set H" "mset (be_opsList e) = mset H" "fst ` set (be_ops e) = BO_ID ` set H"
proof -
  have m: "mset (map snd (be_ops e)) = mset H" using assms by (simp add: engine_ok_def)
  then show "mset (be_opsList e) = mset H" by (simp add: be_opsList_def)
  then show "set (be_opsList e) = set H" by (rule mset_eq_setD)
  have "fst x = BO_ID (snd x)" if "x \<in> set (be_ops e)" for x using assms that by (auto simp: engine_ok_def)
  then have "fst ` set (be_ops e) = (\<lambda>x. BO_ID (snd x)) ` set (be_ops e)" by (rule image_cong [OF refl])
  also have "\<dots> = BO_ID ` snd ` set (be_ops e)" by (simp add: image_image)
  also have "snd ` set (be_ops e) = set H" using mset_eq_setD [OF m] by simp
  finally show "fst ` set (be_ops e) = BO_ID ` set H" .
qed

lemma engine_ok_dims: "engine_ok n [] e \<Longrightarrow> be_dims e = -1 \<Longrightarrow> engine_ok m [] e"
  by (simp add: engine_ok_def)

lemma effective_plain: "\<forall>p\<in>S. BO_Kind p \<noteq> BKindRetract \<Longrightarrow> effective S = S"
  by (auto simp: effective_def)

lemma engine_ok_view:
  assumes "engine_ok n H e"
  defines "bs \<equiv> box_Materialize (be_strategy e) (be_opsList e)"
  shows "all_good n bs" "\<forall>b\<in>set bs. half_open n b" "box_points bs = {x. fineOf x \<in> box_view_span BLWW (set H)}"
proof -
  have H: "box_history n H" "be_strategy e = BLWW" using assms(1) by (simp_all add: engine_ok_def)
  note s = engine_ok_ops [OF assms(1)]
  have g: "good_bops n (be_opsList e)" "unique_bids (set (be_opsList e))"
    using box_history_good [OF H(1)] box_history_unique [OF H(1)] good_bops_mset [OF s(2)] s(1) by simp_all
  have eff: "effective (set H) = set H" using assms(1) by (intro effective_plain) (simp add: engine_ok_def)
  note m = MaterializeMerged_spec [OF g, of BLWW meta_Union, folded box_Materialize_def]
  show good: "all_good n bs" using m(1) by (simp add: bs_def H(2) box_canonical_def)
  have "\<forall>b\<in>set bs. plain_faces n b"
    unfolding bs_def H(2) using assms(1) s(1) by (intro plain_faces_Materialize) (simp add: engine_ok_def)
  with good show "\<forall>b\<in>set bs. half_open n b" by (auto simp: half_open_faces all_good_def good_box_def)
  show "box_points bs = {x. fineOf x \<in> box_view_span BLWW (set H)}"
    using box_points_bcover [OF all_goodD [OF good]] m(2) s(1) eff by (auto simp: bs_def H(2))
qed

text \<open>Applying a fresh, valid operation to an engine whose store holds its history.\<close>

lemma Apply_to_hub:
  assumes e: "engine_ok n H e" and s: "mem_ops s = H" and o': "good_bop n o'" "BO_TS o' = 0" "meta_ok (Meta (BO_Box o'))"
    and fresh: "BO_ID o' \<notin> BO_ID ` set H" and k: "BO_Kind o' \<noteq> BKindRetract" and f: "plain_faces n (BO_Box o')"
    and c: "h_last (be_clock e) \<noteq> max_int64"
  shows "\<exists>p e' s'. be_Apply box_mem_log hybrid_Clock (\<lambda>_ s. s) o' e s = (None, e', s') \<and> (\<exists>ts. p = o'\<lparr>BO_TS := ts\<rparr>) \<and>
    engine_ok n (H @ [p]) e' \<and> mem_ops s' = H @ [p] \<and> be_dirty e' \<and> be_canonicalize e' = be_canonicalize e \<and>
    box_latest p (set H) \<and> be_dims e' = int n"
proof -
  obtain ts c' where t: "Hybrid_Tick (be_clock e) = (ts, c')" by (cases "Hybrid_Tick (be_clock e)")
  have last: "h_last c' = ts" "i_lt (h_last (be_clock e)) ts"
    using hybrid_clock.tick_last [OF t] hybrid_clock.tick_greater [OF t c] by auto
  let ?p = "o'\<lparr>BO_TS := ts\<rparr>"
  let ?e = "e\<lparr>be_dims := int n, be_clock := Hybrid_Observe ts c', be_ops := AList.update (BO_ID o') ?p (be_ops e),
     be_dirty := True, be_version := be_version e + 1, be_since := be_since e + 1\<rparr>"
  let ?s = "s\<lparr>mem_ops := H @ [?p]\<rparr>"
  note E = e [unfolded engine_ok_def]
  have no: "map_of (be_ops e) (BO_ID o') = None"
    using fresh engine_ok_ops(3) [OF e] by (simp add: map_of_eq_None_iff)
  have up: "AList.update (BO_ID o') v (be_ops e) = be_ops e @ [(BO_ID o', v)]" for v
    using fresh engine_ok_ops(3) [OF e] by (simp add: update_fresh)
  have ens: "be_ensureDims [o'] e = (None, e\<lparr>be_dims := int n\<rparr>)"
    using E o'(1) by (cases e) (auto simp: good_bop_def Let_def)
  have app: "mem_Append (be_version e) [?p] s = (None, ?s)" using E s by (simp add: mem_Append_def)
  have "be_Apply box_mem_log hybrid_Clock (\<lambda>_ s. s) o' e s = (None, ?e, ?s)"
    using o'(1,2) no ens app E k t
    by (simp add: be_Apply_def be_apply_def good_bop_def be_applyLocked.simps be_unseen_def Let_def hybrid_Clock_def
        box_mem_log_eq mem_log_def be_fold_def be_learn_def be_record_def be_applyToView_def)
  moreover have "engine_ok n (H @ [?p]) ?e"
  proof -
    have "good_bop n ?p" using o'(1) by (auto simp: good_bop_def BOp_Validate_iff)
    moreover have "BO_ID a \<noteq> BO_ID o'" if "a \<in> set H" for a using fresh imageI [OF that, of BO_ID] by auto
    ultimately have "box_history n (H @ [?p])" using E o'(3) by simp
    moreover have "h_last (Hybrid_Observe ts c') = ts"
      using last(1) by (simp add: Hybrid_Observe_def advancePast_def i_le_def)
    moreover have "i_le (BO_TS q) ts" if "q \<in> set H" for q
      using E that last(2) by (fastforce simp: i_le_def i_lt_def)
    ultimately show ?thesis
      using E no f k
      by (auto simp: engine_ok_def map_of_eq_None_iff up i_le_def)
  qed
  moreover have "box_latest ?p (set H)" using E last(2) by (fastforce simp: box_latest_def i_lt_def i_le_def)
  ultimately show ?thesis by (intro exI [of _ ?p] exI [of _ ?e] exI [of _ ?s]) auto
qed

subsection \<open>The drawing a log describes\<close>

definition record_box :: "opRecord \<Rightarrow> box" where
  "record_box r = NewBox (or_Min r) (or_Max r)"

definition draws :: "opRecord \<Rightarrow> real list set \<Rightarrow> real list set" where
  "draws r S =
     (if or_Kind r = ''add'' then S \<union> bpoints (record_box r)
      else if or_Kind r = ''remove'' then S - bpoints (record_box r) else S)"

definition drawn :: "opRecord list \<Rightarrow> real list set" where
  "drawn recs = fold draws recs {}"

definition box_records :: "opRecord list \<Rightarrow> opRecord list" where
  "box_records recs = filter (\<lambda>r. or_Kind r \<noteq> ''dims'') recs"

definition log_dims :: "opRecord list \<Rightarrow> int" where
  "log_dims recs =
     (if recs = [] then -1 else if or_Kind (last recs) = ''dims'' then or_Dims (last recs) else int (length (or_Min (last recs))))"

text \<open>The records that a session accepts after a log.\<close>

definition accepted :: "opRecord list \<Rightarrow> opRecord \<Rightarrow> bool" where
  "accepted recs r \<longleftrightarrow>
     (if or_Kind r = ''dims'' then 1 \<le> or_Dims r \<and> or_Dims r \<le> maxDims \<and> (box_records recs = [] \<or> log_dims recs = or_Dims r)
      else (or_Kind r = ''add'' \<or> or_Kind r = ''remove'') \<and> good_box (length (or_Min r)) (record_box r) \<and>
        (log_dims recs = -1 \<or> log_dims recs = int (length (or_Min r))))"

definition valid_log :: "opRecord list \<Rightarrow> bool" where
  "valid_log recs \<longleftrightarrow> (\<forall>i<length recs. accepted (take i recs) (recs ! i))"

lemma log_simps [simp]:
  "drawn [] = {}" "drawn (recs @ [r]) = draws r (drawn recs)"
  "box_records [] = []" "box_records (recs @ [r]) = box_records recs @ (if or_Kind r = ''dims'' then [] else [r])"
  "log_dims [] = -1" "log_dims (recs @ [r]) = (if or_Kind r = ''dims'' then or_Dims r else int (length (or_Min r)))"
  "valid_log []"
  by (simp_all add: drawn_def box_records_def log_dims_def valid_log_def)

lemma valid_log_snoc [simp]: "valid_log (recs @ [r]) \<longleftrightarrow> valid_log recs \<and> accepted recs r"
  by (auto simp: valid_log_def less_Suc_eq nth_append)

definition record_key :: "opRecord \<Rightarrow> box_kind \<times> box" where
  "record_key r = (if or_Kind r = ''add'' then BKindAdd else BKindRemove, record_box r)"

subsection \<open>The invariant\<close>

definition web_cover :: "hybrid box_engine \<Rightarrow> box list" where
  "web_cover e = box_Materialize (be_strategy e) (be_opsList e)"

definition cached_ok :: "web_env \<Rightarrow> string \<Rightarrow> hub \<Rightarrow> bool" where
  "cached_ok E mode h \<longleftrightarrow>
     (let e = bs_engine (hb_set h) in
      be_canonicalize e = web_canon E mode \<and> hb_compact h = web_mode mode \<and>
      (\<not> be_dirty e \<longrightarrow> be_view e = applied (web_canon E mode) (web_cover e) \<and>
         (partitions mode \<longrightarrow> hb_cells h = int (length (fst (recordingPartition (web_cover e)))))) \<and>
      (\<forall>t. hb_idx h = Some t \<longrightarrow> \<not> be_dirty e \<and> BuildRef (we_sub E) (be_view e) = Inr t))"

definition hub_ok :: "web_env \<Rightarrow> string \<Rightarrow> nat \<Rightarrow> box_op list \<Rightarrow> opRecord list \<Rightarrow> hub \<Rightarrow> bool" where
  "hub_ok E mode n H recs h \<longleftrightarrow>
     engine_ok n H (bs_engine (hb_set h)) \<and> mem_ops (hb_store h) = H \<and> cached_ok E mode h \<and>
     map (\<lambda>o'. (BO_Kind o', BO_Box o')) H = map record_key (box_records recs) \<and>
     {x. fineOf x \<in> box_view_span BLWW (set H)} = drawn recs \<and>
     (if H = [] then be_dims (bs_engine (hb_set h)) = -1 else hb_dims h = int n) \<and>
     (hb_dims h = -1 \<or> 1 \<le> hb_dims h) \<and> valid_log recs \<and> (recs \<noteq> [] \<longrightarrow> hb_dims h = log_dims recs)"

abbreviation hub_clock :: "hub \<Rightarrow> hybrid" where
  "hub_clock h \<equiv> be_clock (bs_engine (hb_set h))"

lemma web_mode_partitions: "partitions (web_mode mode) = partitions mode"
  by (auto simp: web_mode_def partitions_def mode_names)

lemma web_mode_ne [simp]: "web_mode mode \<noteq> []"
  by (simp add: web_mode_def mode_names)

lemma hub_ok_outputs [simp]:
  "hub_ok E mode n H recs (h\<lparr>hb_out := a\<rparr>) = hub_ok E mode n H recs h"
  "hub_ok E mode n H recs (h\<lparr>hb_ops := l\<rparr>) = hub_ok E mode n H recs h"
  "hub_ok E mode n H recs (h\<lparr>hb_clients := k\<rparr>) = hub_ok E mode n H recs h"
  "hub_ok E mode n H recs (h\<lparr>hb_file := f\<rparr>) = hub_ok E mode n H recs h"
  "hub_ok E mode n H recs (h\<lparr>hb_persist := p\<rparr>) = hub_ok E mode n H recs h"
  "hub_ok E mode n H recs (h\<lparr>hb_total := p\<rparr>) = hub_ok E mode n H recs h"
  "hub_ok E mode n H recs (h\<lparr>hb_presence := p\<rparr>) = hub_ok E mode n H recs h"
  "hub_ok E mode n H recs (h\<lparr>hb_onEvent := p\<rparr>) = hub_ok E mode n H recs h"
  by (simp_all add: hub_ok_def cached_ok_def Let_def)

lemma cached_ok_dims [simp]: "cached_ok E mode (h\<lparr>hb_dims := d\<rparr>) = cached_ok E mode h"
  by (simp add: cached_ok_def Let_def)

lemma hub_ok_any: "hub_ok E mode n [] recs h \<Longrightarrow> hub_ok E mode m [] recs h"
  by (auto simp: hub_ok_def dest: engine_ok_dims)

lemma hub_ok_ops: "hub_ok E mode n H recs h \<Longrightarrow> H = [] \<longleftrightarrow> box_records recs = []"
  unfolding hub_ok_def by (metis list.map_disc_iff)

subsubsection \<open>Opening\<close>

lemma newHub_ok:
  "\<exists>h. newHubMode E c mode = Some h \<and> hub_ok E mode n [] [] h \<and> hb_ops h = [] \<and> hub_clock h = c \<and> hb_dims h = -1"
proof -
  let ?cfg = "be_apply_options (web_options E mode) c"
  have cfg: "bc_Clock ?cfg = c" "bc_SnapshotEvery ?cfg = 0" "bc_Canonicalize ?cfg = web_canon E mode"
    by (simp_all add: be_apply_options_def web_options_def WithBoxSnapshotEvery_def WithBoxCanonicalizer_def
        be_WithSnapshotEvery_def be_WithCanonicalizer_def web_canon_cases)
  have cover: "box_Materialize BLWW [] = []"
    by (simp add: box_Materialize_def MaterializeMerged_def Effective_def ToBoxes_def box_Segments_def box_normalize_def
        box_Normalize_def NormalizeMerged_def sortBoxes_def sort_slice_def)
  let ?e = "\<lparr>be_strategy = BLWW, be_clock = c, be_snapshotEvery = 0, be_ops = [], be_view = applied (web_canon E mode) [],
      be_adds = [], be_removes = [], be_version = 0, be_since = 0, be_dims = -1, be_dirty = False,
      be_canonicalize = web_canon E mode, be_metaMerge = (case bc_MetaMerge ?cfg of Some m \<Rightarrow> m | None \<Rightarrow> meta_Union)\<rparr>"
  have "be_Open box_mem_log hybrid_Clock BLWW c (web_options E mode) box_mem_New = Inr ?e"
    using cover by (simp add: be_Open_def be_isDefined_def Let_def cfg be_reload_def be_loadSnapshot_def box_mem_log_eq mem_log_def
        mem_snapshotter_def mem_LoadSnapshot_def box_mem_New_def mem_New_def mem_Read_eq be_materializeAll_def be_opsList_def
        be_setView_def be_deriveDims_def applied_def sort_slice_def split: option.split)
  then obtain h where h: "newHubMode E c mode = Some h" "bs_engine (hb_set h) = ?e" "hb_store h = box_mem_New" "hb_idx h = None"
      "hb_compact h = web_mode mode" "hb_cells h = (if partitions mode then snd (recordingPartition []) else 0)"
      "hb_dims h = -1" "hb_ops h = []"
    by (simp add: newHubMode_def OpenBoxStore_def)
  have "hub_ok E mode n [] [] h"
    using h cover by (simp add: hub_ok_def cached_ok_def engine_ok_def web_cover_def be_opsList_def sort_slice_def box_mem_New_def
        mem_New_def bdecides_def recordingPartition_def Let_def)
  with h show ?thesis by simp
qed

subsubsection \<open>The view\<close>

lemma hub_Boxes_ok:
  assumes "hub_ok E mode n H recs h"
  shows "\<exists>h'. hub_Boxes h = (applied (web_canon E mode) (web_cover (bs_engine (hb_set h))), h') \<and>
    hub_ok E mode n H recs h' \<and> \<not> be_dirty (bs_engine (hb_set h')) \<and>
    be_view (bs_engine (hb_set h')) = applied (web_canon E mode) (web_cover (bs_engine (hb_set h))) \<and>
    web_cover (bs_engine (hb_set h')) = web_cover (bs_engine (hb_set h)) \<and>
    h' = h\<lparr>hb_set := hb_set h', hb_cells := hb_cells h'\<rparr> \<and> hub_clock h' = hub_clock h"
proof -
  let ?e = "bs_engine (hb_set h)"
  let ?h = "snd (hub_Boxes h)"
  have v: "be_canonicalize ?e = web_canon E mode" "hb_compact h = web_mode mode"
    "\<not> be_dirty ?e \<Longrightarrow> be_view ?e = applied (web_canon E mode) (web_cover ?e)"
    using assms by (auto simp: hub_ok_def cached_ok_def Let_def)
  have st: "be_strategy ?e = BLWW" using assms by (simp add: hub_ok_def engine_ok_def)
  have e': "bs_engine (hb_set ?h) = be_ensureView ?e"
    by (simp add: hub_Boxes_def bs_Boxes_def be_Materialize_def Let_def split: prod.split)
  have view: "be_view (be_ensureView ?e) = applied (web_canon E mode) (web_cover ?e)"
    using v st by (auto simp: be_ensureView_def be_materializeAll_def Let_def be_setView_def applied_def web_cover_def split: option.split)
  have cover: "web_cover (be_ensureView ?e) = web_cover ?e" by (simp add: web_cover_def be_opsList_def)
  have r: "fst (hub_Boxes h) = applied (web_canon E mode) (web_cover ?e)"
    using view by (simp add: hub_Boxes_def bs_Boxes_def be_Materialize_def Let_def split: prod.split)
  have sel: "hb_store ?h = hb_store h" "hb_idx ?h = hb_idx h" "hb_compact ?h = hb_compact h" "hb_dims ?h = hb_dims h"
    "?h = h\<lparr>hb_set := hb_set ?h, hb_cells := hb_cells ?h\<rparr>"
    by (simp_all add: hub_Boxes_def bs_Boxes_def Let_def split: prod.split)
  have cells: "partitions mode \<Longrightarrow> hb_cells ?h = int (length (fst (recordingPartition (web_cover ?e))))"
    using assms v(2) web_mode_partitions [of mode]
    by (auto simp: hub_Boxes_def bs_Boxes_def Let_def hub_ok_def cached_ok_def web_cover_def recordingPartition_def split: prod.split)
  have same: "be_ensureView ?e = ?e" if "\<not> be_dirty ?e" using that by (simp add: be_ensureView_def)
  have "cached_ok E mode ?h"
    using assms v view cover cells sel same
    by (auto simp: cached_ok_def e' Let_def hub_ok_def)
  moreover have "engine_ok n H (be_ensureView ?e)" using assms by (simp add: hub_ok_def engine_ok_def)
  ultimately have "hub_ok E mode n H recs ?h"
    using assms sel by (simp add: hub_ok_def e')
  then show ?thesis
    using r view cover sel(5) by (intro exI [of _ ?h]) (simp add: e' prod_eq_iff)
qed

lemma hub_view:
  assumes "hub_ok E mode n H recs h" "sound_grid (we_grid E)"
  defines "bs \<equiv> applied (web_canon E mode) (web_cover (bs_engine (hb_set h)))"
  shows "all_good n bs" "box_points bs = drawn recs"
    and "mode = compactPartition \<Longrightarrow> sorted_wrt (\<lambda>c d. bpoints c \<inter> bpoints d = {}) bs"
proof -
  have e: "engine_ok n H (bs_engine (hb_set h))" and d: "{x. fineOf x \<in> box_view_span BLWW (set H)} = drawn recs"
    using assms(1) by (simp_all add: hub_ok_def)
  note c = engine_ok_view [OF e, folded web_cover_def]
  note a = applied_spec [OF assms(2) c(2) c(1), of mode]
  show "all_good n bs" "box_points bs = drawn recs" using a(1,2) c(3) d by (simp_all add: bs_def)
  show "sorted_wrt (\<lambda>c d. bpoints c \<inter> bpoints d = {}) bs" if "mode = compactPartition"
    using a(3) that by (simp add: bs_def)
qed

lemma valid_log_kinds: "valid_log recs \<Longrightarrow> r \<in> set recs \<Longrightarrow> or_Kind r = ''add'' \<or> or_Kind r = ''remove'' \<or> or_Kind r = ''dims''"
  by (induction recs rule: rev_induct) (auto simp: accepted_def split: if_splits)

lemma good_box_length: "good_box (length xs) b \<Longrightarrow> Suc 0 \<le> length xs"
  using good_boxD(4) [of "length xs" b] by (simp add: Suc_le_eq)

lemma log_dims_pos: "valid_log recs \<Longrightarrow> recs \<noteq> [] \<Longrightarrow> 1 \<le> log_dims recs"
  by (cases recs rule: rev_cases) (auto simp: accepted_def dest!: good_box_length split: if_splits)

text \<open>The engine holds as many additions and removals as the log.\<close>

lemma hub_counts:
  assumes "hub_ok E mode n H recs h"
  defines "ops \<equiv> bs_Ops (hb_set h)"
  shows "length ops = length H"
    and "length (filter (\<lambda>o'. BO_Kind o' = BKindAdd) ops) = length (filter (\<lambda>r. or_Kind r = ''add'') recs)"
    and "length (filter (\<lambda>o'. BO_Kind o' \<noteq> BKindAdd) ops) = length (filter (\<lambda>r. or_Kind r = ''remove'') recs)"
proof -
  have e: "engine_ok n H (bs_engine (hb_set h))" and k: "map (\<lambda>o'. (BO_Kind o', BO_Box o')) H = map record_key (box_records recs)"
    and v: "valid_log recs" using assms(1) by (simp_all add: hub_ok_def)
  have m: "mset ops = mset H" using engine_ok_ops(2) [OF e] by (simp add: ops_def bs_Ops_def be_Ops_def)
  then show "length ops = length H" by (rule mset_eq_length)
  have kinds: "map BO_Kind H = map (\<lambda>r. if or_Kind r = ''add'' then BKindAdd else BKindRemove) (box_records recs)"
    using arg_cong [OF k, of "map fst"] by (simp add: comp_def record_key_def cong: map_cong)
  have count: "length (filter (\<lambda>o'. P (BO_Kind o')) ops) =
      length (filter (\<lambda>r. P (if or_Kind r = ''add'' then BKindAdd else BKindRemove)) (box_records recs))" for P
  proof -
    have "length (filter (\<lambda>o'. P (BO_Kind o')) ops) = length (filter (\<lambda>o'. P (BO_Kind o')) H)"
      using m by (metis mset_filter size_mset)
    also have "\<dots> = length (filter P (map BO_Kind H))" by (simp add: filter_map comp_def)
    also have "\<dots> = length (filter (\<lambda>r. P (if or_Kind r = ''add'' then BKindAdd else BKindRemove)) (box_records recs))"
      unfolding kinds by (simp add: filter_map comp_def)
    finally show ?thesis .
  qed
  have "filter (\<lambda>r. (if or_Kind r = ''add'' then BKindAdd else BKindRemove) = BKindAdd) (box_records recs) =
      filter (\<lambda>r. or_Kind r = ''add'') recs"
    unfolding box_records_def filter_filter by (rule filter_cong) auto
  with count [of "\<lambda>k. k = BKindAdd"]
  show "length (filter (\<lambda>o'. BO_Kind o' = BKindAdd) ops) = length (filter (\<lambda>r. or_Kind r = ''add'') recs)" by simp
  have "filter (\<lambda>r. (if or_Kind r = ''add'' then BKindAdd else BKindRemove) \<noteq> BKindAdd) (box_records recs) =
      filter (\<lambda>r. or_Kind r = ''remove'') recs"
    unfolding box_records_def filter_filter by (rule filter_cong) (use valid_log_kinds [OF v] in auto)
  with count [of "\<lambda>k. k \<noteq> BKindAdd"]
  show "length (filter (\<lambda>o'. BO_Kind o' \<noteq> BKindAdd) ops) = length (filter (\<lambda>r. or_Kind r = ''remove'') recs)" by simp
qed

lemma materialize_ok:
  assumes "hub_ok E mode n H recs h"
  shows "\<exists>v h'. materializeLocked h = (v, h') \<and> hub_ok E mode n H recs h' \<and> h' = h\<lparr>hb_set := hb_set h', hb_cells := hb_cells h'\<rparr> \<and>
    hub_clock h' = hub_clock h \<and> wv_Boxes v = applied (web_canon E mode) (web_cover (bs_engine (hb_set h))) \<and>
    wv_Boxes v = be_view (bs_engine (hb_set h')) \<and> \<not> be_dirty (bs_engine (hb_set h')) \<and>
    wv_Adds v = length (filter (\<lambda>r. or_Kind r = ''add'') recs) \<and>
    wv_Removes v = length (filter (\<lambda>r. or_Kind r = ''remove'') recs) \<and> wv_Dims v = hb_dims h \<and> wv_Compact v = web_mode mode"
proof -
  obtain h' where h': "hub_Boxes h = (applied (web_canon E mode) (web_cover (bs_engine (hb_set h))), h')" "hub_ok E mode n H recs h'"
      "\<not> be_dirty (bs_engine (hb_set h'))" "be_view (bs_engine (hb_set h')) = applied (web_canon E mode) (web_cover (bs_engine (hb_set h)))"
      "h' = h\<lparr>hb_set := hb_set h', hb_cells := hb_cells h'\<rparr>" "hub_clock h' = hub_clock h"
    using hub_Boxes_ok [OF assms] by blast
  have c: "hb_compact h = web_mode mode" using assms by (simp add: hub_ok_def cached_ok_def Let_def)
  have d: "hb_dims h' = hb_dims h" using arg_cong [OF h'(5), of hb_dims] by simp
  show ?thesis
    using h' d hub_counts [OF assms] by (simp add: materializeLocked_def c)
qed

subsubsection \<open>Folding a box\<close>

definition takes_box :: "string \<Rightarrow> float64 list \<Rightarrow> float64 list \<Rightarrow> hub \<Rightarrow> bool" where
  "takes_box kind lo hi h \<longleftrightarrow> (kind = ''add'' \<or> kind = ''remove'') \<and> good_box (length lo) (NewBox lo hi) \<and>
     (hb_dims h = -1 \<or> hb_dims h = int (length lo))"

lemma NewBox_Dims [simp]: "Dims (NewBox lo hi) = length lo"
  by (simp add: Dims_def NewBox_def)

lemma foldLocked_rejects:
  assumes h: "hub_ok E mode n H recs h" and no: "\<not> takes_box kind lo hi h"
  shows "\<exists>err d. foldLocked newid kind lo hi h = (Inl err, h\<lparr>hb_dims := d\<rparr>) \<and> hub_ok E mode n H recs (h\<lparr>hb_dims := d\<rparr>)"
proof (cases "Box_Validate (NewBox lo hi)")
  case (Some err)
  then have "foldLocked newid kind lo hi h = (Inl (HBox err), h\<lparr>hb_dims := hb_dims h\<rparr>)" by (simp add: foldLocked_def Let_def)
  with h show ?thesis by (intro exI [of _ "HBox err"] exI [of _ "hb_dims h"]) simp
next
  case None
  then have ok: "box_ok (length lo) (NewBox lo hi)" by (simp add: box_ok_def)
  let ?d = "if hb_dims h = -1 then int (length lo) else hb_dims h"
  have set_dims: "hub_ok E mode n H recs (h\<lparr>hb_dims := ?d\<rparr>)"
  proof (cases "hb_dims h = -1")
    case True
    have "H = []" using h True by (auto simp: hub_ok_def split: if_splits)
    moreover have "recs = []"
    proof (rule ccontr)
      assume "recs \<noteq> []"
      with h True log_dims_pos [of recs] show False by (simp add: hub_ok_def)
    qed
    moreover have "1 \<le> int (length lo)" using box_okD(3) [OF ok] by linarith
    ultimately show ?thesis using h True by (simp add: hub_ok_def)
  next
    case False
    then show ?thesis using h by simp
  qed
  show ?thesis
  proof (cases "hb_dims h \<noteq> -1 \<and> int (length lo) \<noteq> hb_dims h")
    case True
    then have "foldLocked newid kind lo hi h = (Inl (HDims (length lo) (hb_dims h)), h\<lparr>hb_dims := hb_dims h\<rparr>)"
      using None by (simp add: foldLocked_def Let_def)
    with h show ?thesis by (intro exI [of _ "HDims (length lo) (hb_dims h)"] exI [of _ "hb_dims h"]) simp
  next
    case fits: False
    let ?h = "h\<lparr>hb_dims := ?d\<rparr>"
    have invalid: "Box_Empty (NewBox lo hi)" if "kind = ''add'' \<or> kind = ''remove''"
      using no that fits ok by (auto simp: takes_box_def good_box_def)
    have rej: "\<exists>err. bs_Apply box_mem_log hybrid_Clock (\<lambda>_ s. s) o' (hb_set ?h) (hb_store ?h) =
        (Some (BSEngine err), hb_set ?h, hb_store ?h)" if "BOp_Validate o' \<noteq> None" for o'
      using that by (auto simp: bs_Apply_def with_box_engine_def be_Apply_def be_apply_def)
    have "BOp_Validate (bop_New newid k (NewBox lo hi)) \<noteq> None" if "Box_Empty (NewBox lo hi)" for k
      using that by (simp add: BOp_Validate_iff bop_New_def good_box_def del: not_None_eq)
    then have "\<exists>err. foldLocked newid kind lo hi h = (Inl err, ?h)"
      using rej [of "bop_New newid BKindAdd (NewBox lo hi)"] rej [of "bop_New newid BKindRemove (NewBox lo hi)"] None fits invalid
      by (auto simp: foldLocked_def Let_def bs_Add_def bs_Remove_def bop_Add_def bop_Remove_def fold_applied_def)
    with set_dims show ?thesis by blast
  qed
qed

lemma record_box_fields [simp]:
  "or_Min r = lo \<Longrightarrow> or_Max r = hi \<Longrightarrow> record_box r = NewBox lo hi"
  by (simp add: record_box_def)

lemma foldLocked_takes:
  assumes h: "hub_ok E mode n H recs h" and t: "takes_box kind lo hi h"
    and i: "newid \<notin> BO_ID ` set H" "newid \<noteq> []" and c: "h_last (hub_clock h) \<noteq> max_int64"
    and r: "or_Kind r = kind" "or_Min r = lo" "or_Max r = hi"
  shows "\<exists>v h' p. foldLocked newid kind lo hi h = (Inr v, h') \<and> hub_ok E mode (length lo) (H @ [p]) (recs @ [r]) h' \<and> BO_ID p = newid \<and>
    h' = h\<lparr>hb_set := hb_set h', hb_store := hb_store h', hb_idx := None, hb_cells := hb_cells h', hb_dims := int (length lo)\<rparr>"
proof -
  let ?b = "NewBox lo hi" and ?n = "length lo"
  let ?k = "if kind = ''add'' then BKindAdd else BKindRemove"
  let ?o = "bop_New newid ?k ?b"
  have k: "kind = ''add'' \<or> kind = ''remove''" and g: "good_box ?n ?b" and d: "hb_dims h = -1 \<or> hb_dims h = int ?n"
    using t by (auto simp: takes_box_def)
  have h: "hub_ok E mode ?n H recs h"
  proof (cases "H = []")
    case True
    with h show ?thesis using hub_ok_any by blast
  next
    case False
    then have "hb_dims h = int n" using h by (simp add: hub_ok_def)
    with d have "n = ?n" by auto
    with h show ?thesis by simp
  qed
  let ?h = "h\<lparr>hb_dims := int ?n\<rparr>"
  have e: "engine_ok ?n H (bs_engine (hb_set h))" "mem_ops (hb_store h) = H" and v: "cached_ok E mode h"
    and w: "{x. fineOf x \<in> box_view_span BLWW (set H)} = drawn recs" and ops: "map (\<lambda>o'. (BO_Kind o', BO_Box o')) H = map record_key (box_records recs)"
    and l: "valid_log recs" "recs \<noteq> [] \<longrightarrow> hb_dims h = log_dims recs"
    using h by (simp_all add: hub_ok_def)
  have lens: "length hi = ?n" using good_boxD(3) [OF g] by (simp add: NewBox_def)
  have good: "good_bop ?n ?o" using g i(2) by (simp add: good_bop_def BOp_Validate_iff bop_New_def known_bkind_def)
  have o_facts: "BO_TS ?o = 0" "meta_ok (Meta (BO_Box ?o))" "BO_ID ?o \<notin> BO_ID ` set H" "BO_Kind ?o \<noteq> BKindRetract"
      "plain_faces ?n (BO_Box ?o)"
    using i(1) plain_faces_NewBox [OF refl lens] by (simp_all add: bop_New_def) (simp add: NewBox_def meta_ok_def)
  obtain p e' s' ts where a: "be_Apply box_mem_log hybrid_Clock (\<lambda>_ s. s) ?o (bs_engine (hb_set h)) (hb_store h) = (None, e', s')"
      "p = ?o\<lparr>BO_TS := ts\<rparr>" "engine_ok ?n (H @ [p]) e'" "mem_ops s' = H @ [p]" "be_dirty e'"
      "be_canonicalize e' = be_canonicalize (bs_engine (hb_set h))" "box_latest p (set H)" "be_dims e' = int ?n"
    using Apply_to_hub [OF e good o_facts(1-5) c] by blast
  let ?g = "h\<lparr>hb_dims := int ?n, hb_set := \<lparr>bs_engine = e'\<rparr>, hb_store := s', hb_idx := None\<rparr>"
  have p: "BO_Kind p = ?k" "BO_Box p = ?b" "BO_ID p = newid" using a(2) by (simp_all add: bop_New_def)
  have hist: "box_history ?n (H @ [p])" using a(3) by (simp add: engine_ok_def)
  have nr: "\<forall>q\<in>set (H @ [p]). BO_Kind q \<noteq> BKindRetract" using a(3) by (simp add: engine_ok_def)
  have "fineOf x \<in> box_view_span BLWW (set (H @ [p])) \<longleftrightarrow> x \<in> draws r (drawn recs)" for x
  proof -
    have "fineOf x \<in> box_view_span BLWW (set (H @ [p])) \<longleftrightarrow>
        (if fineOf x \<in> bspan ?b then ?k = BKindAdd else fineOf x \<in> box_view_span BLWW (set H))"
      using view_latest [OF hist a(7), of "fineOf x"] effective_plain [OF nr] effective_plain [of "set H"] nr p by simp
    also have "\<dots> \<longleftrightarrow> x \<in> draws r (drawn recs)"
      using k r w mem_bpoints_iff [OF good_boxD(1) [OF g], of x] by (auto simp: draws_def)
    finally show ?thesis .
  qed
  then have draw: "{x. fineOf x \<in> box_view_span BLWW (set (H @ [p]))} = drawn (recs @ [r])" by (auto simp del: set_append)
  have acc: "accepted recs r"
    using k r g l(2) d by (cases "recs = []") (auto simp: accepted_def)
  have "cached_ok E mode ?g" using v a(5,6) by (simp add: cached_ok_def Let_def)
  moreover have "map (\<lambda>o'. (BO_Kind o', BO_Box o')) (H @ [p]) = map record_key (box_records (recs @ [r]))"
    using ops p k r by (auto simp: record_key_def)
  moreover have "1 \<le> int ?n" using good_boxD(4) [OF g] by linarith
  moreover have "int ?n = log_dims (recs @ [r])" using k r by auto
  ultimately have "hub_ok E mode ?n (H @ [p]) (recs @ [r]) ?g"
    using a(3,4) l(1) acc draw by (simp add: hub_ok_def del: box_view_span.simps map_append log_simps set_append)
  then obtain v h' where m: "materializeLocked ?g = (v, h')" "hub_ok E mode ?n (H @ [p]) (recs @ [r]) h'"
      "h' = ?g\<lparr>hb_set := hb_set h', hb_cells := hb_cells h'\<rparr>"
    using materialize_ok by blast
  have hd: "(if hb_dims h = -1 then h\<lparr>hb_dims := int ?n\<rparr> else h) = ?h" using d by (cases h) auto
  have "foldLocked newid kind lo hi h = (Inr v, h')"
  proof -
    have valid: "Box_Validate ?b = None" and fits: "\<not> (hb_dims h \<noteq> -1 \<and> int (Dims ?b) \<noteq> hb_dims h)"
      using g d by (auto simp: good_box_def box_ok_def)
    have ap: "bs_Apply box_mem_log hybrid_Clock (\<lambda>_ s. s) ?o (hb_set ?h) (hb_store ?h) = (None, \<lparr>bs_engine = e'\<rparr>, s')"
      using a(1) by (simp add: bs_Apply_def with_box_engine_def)
    have fa: "fold_applied (?o, None, \<lparr>bs_engine = e'\<rparr>, s') ?h = (Inr v, h')" using m(1) by (simp add: fold_applied_def Let_def)
    from k show ?thesis
    proof
      assume kind: "kind = ''add''"
      then have "bs_Add box_mem_log hybrid_Clock (\<lambda>_ s. s) newid lo hi (hb_set ?h) (hb_store ?h) = (?o, None, \<lparr>bs_engine = e'\<rparr>, s')"
        using ap by (simp add: bs_Add_def bop_Add_def Let_def)
      with kind fa valid fits show ?thesis by (simp only: foldLocked_def Let_def option.case if_False if_True NewBox_Dims hd simp_thms)
    next
      assume kind: "kind = ''remove''"
      then have "bs_Remove box_mem_log hybrid_Clock (\<lambda>_ s. s) newid lo hi (hb_set ?h) (hb_store ?h) = (?o, None, \<lparr>bs_engine = e'\<rparr>, s')"
        using ap by (simp add: bs_Remove_def bop_Remove_def Let_def)
      moreover have "kind \<noteq> ''add''" using kind by simp
      ultimately show ?thesis using fa valid fits kind
        by (simp only: foldLocked_def Let_def option.case if_False if_True NewBox_Dims hd refl)
    qed
  qed
  moreover have "h' = h\<lparr>hb_set := hb_set h', hb_store := hb_store h', hb_idx := None, hb_cells := hb_cells h', hb_dims := int ?n\<rparr>"
    using m(3) arg_cong [OF m(3), of hb_store] by (cases h') (cases h, simp)
  ultimately show ?thesis using m(2) p(3) by blast
qed

lemma foldDims_ok:
  assumes h: "hub_ok E mode n H recs h" and r: "or_Kind r = ''dims''" "or_Dims r = d"
  shows "(\<exists>v h'. foldDimsLocked d h = (Inr v, h') \<and> hub_ok E mode n H (recs @ [r]) h' \<and> hub_clock h' = hub_clock h \<and>
      h' = h\<lparr>hb_set := hb_set h', hb_cells := hb_cells h', hb_dims := d\<rparr>) \<and>
      1 \<le> d \<and> d \<le> maxDims \<and> (box_records recs = [] \<or> hb_dims h = d) \<or>
    (\<exists>err. foldDimsLocked d h = (Inl err, h)) \<and> \<not> (1 \<le> d \<and> d \<le> maxDims \<and> (box_records recs = [] \<or> hb_dims h = d))"
proof (cases "1 \<le> d \<and> d \<le> maxDims \<and> (box_records recs = [] \<or> hb_dims h = d)")
  case True
  have H: "H = [] \<longleftrightarrow> box_records recs = []" using hub_ok_ops [OF h] .
  have len: "length (bs_Ops (hb_set h)) = length H" using hub_counts(1) [OF h] .
  have acc: "accepted recs r" using True r h by (auto simp: accepted_def hub_ok_def)
  have "hub_ok E mode n H (recs @ [r]) (h\<lparr>hb_dims := d\<rparr>)"
    using h True acc r H unfolding hub_ok_def by (auto simp: draws_def)
  then obtain v h' where m: "materializeLocked (h\<lparr>hb_dims := d\<rparr>) = (v, h')" "hub_ok E mode n H (recs @ [r]) h'"
      "h' = h\<lparr>hb_dims := d, hb_set := hb_set h', hb_cells := hb_cells h'\<rparr>" "hub_clock h' = hub_clock h"
    using materialize_ok by fastforce
  have "h' = h\<lparr>hb_set := hb_set h', hb_cells := hb_cells h', hb_dims := d\<rparr>" by (rule trans [OF m(3)]) simp
  moreover have "foldDimsLocked d h = (Inr v, h')" using True len H m(1) by (auto simp: foldDimsLocked_def)
  ultimately show ?thesis using m(2,4) True by blast
next
  case False
  have "\<exists>err. foldDimsLocked d h = (Inl err, h)"
    using False hub_ok_ops [OF h] hub_counts(1) [OF h] by (auto simp: foldDimsLocked_def)
  with False show ?thesis by blast
qed

subsubsection \<open>Searching\<close>

lemma build_loop_good:
  "all_good n bs \<Longrightarrow> d = 0 \<or> d = n \<Longrightarrow> \<exists>d' ks. build_loop bs d kept = Inr (d', ks)"
proof (induction bs arbitrary: d kept)
  case (Cons b bs)
  have "good_box n b" "all_good n bs" using Cons.prems by simp_all
  then show ?case using Cons.IH [of _ "kept @ [b]"] Cons.prems(2) good_boxD [of n b] by (auto simp: box_ok_def)
qed simp

lemma BuildRef_good: "all_good n bs \<Longrightarrow> \<exists>t. BuildRef sub bs = Inr t"
  using build_loop_good [of n bs 0 "[]"] by (auto simp: BuildRef_def build_def)

lemma search_ok:
  assumes h: "hub_ok E mode n H recs h" and g: "sound_grid (we_grid E)"
  defines "bs \<equiv> applied (web_canon E mode) (web_cover (bs_engine (hb_set h)))"
  shows "\<exists>res h'. searchLocked E lo hi h = (res, h') \<and> hub_ok E mode n H recs h' \<and> hub_clock h' = hub_clock h \<and>
    h' = h\<lparr>hb_set := hb_set h', hb_cells := hb_cells h', hb_idx := hb_idx h'\<rparr> \<and>
    (box_ok (length lo) (NewBox lo hi) \<and> (hb_dims h = -1 \<or> hb_dims h = int (length lo)) \<longrightarrow>
      (\<exists>t. BuildRef (we_sub E) bs = Inr t \<and>
        res = Inr \<lparr>sr_Min = lo, sr_Max = hi, sr_Boxes = Search t (NewBox lo hi)\<rparr>))"
proof (cases "box_ok (length lo) (NewBox lo hi) \<and> (hb_dims h = -1 \<or> hb_dims h = int (length lo))")
  case False
  then have "\<exists>err. searchLocked E lo hi h = (Inl err, h)"
    by (auto simp: searchLocked_def Let_def box_ok_def split: option.split)
  then obtain err where "searchLocked E lo hi h = (Inl err, h)" by blast
  with False h show ?thesis by (intro exI [of _ "Inl err"] exI [of _ h]) simp
next
  case True
  then have pre: "Box_Validate (NewBox lo hi) = None" "\<not> (hb_dims h \<noteq> -1 \<and> int (Dims (NewBox lo hi)) \<noteq> hb_dims h)"
    by (auto simp: box_ok_def)
  obtain t where t: "BuildRef (we_sub E) bs = Inr t" using BuildRef_good [OF hub_view(1) [OF h g]] by (auto simp: bs_def)
  let ?res = "Inr \<lparr>sr_Min = lo, sr_Max = hi, sr_Boxes = Search t (NewBox lo hi)\<rparr> :: hub_error + searchResult"
  show ?thesis
  proof (cases "hb_idx h")
    case (Some t')
    have "t' = t" using h Some t by (auto simp: hub_ok_def cached_ok_def Let_def bs_def)
    then have "searchLocked E lo hi h = (?res, h)" using pre Some by (simp add: searchLocked_def Let_def)
    with h t show ?thesis by (intro exI [of _ ?res] exI [of _ h]) simp
  next
    case None
    obtain h' where h': "hub_Boxes h = (bs, h')" "hub_ok E mode n H recs h'" "\<not> be_dirty (bs_engine (hb_set h'))"
        "be_view (bs_engine (hb_set h')) = bs" "h' = h\<lparr>hb_set := hb_set h', hb_cells := hb_cells h'\<rparr>" "hub_clock h' = hub_clock h"
      using hub_Boxes_ok [OF h] unfolding bs_def by blast
    let ?g = "h'\<lparr>hb_idx := Some t\<rparr>"
    have "searchLocked E lo hi h = (?res, ?g)" using pre None h'(1) t by (simp add: searchLocked_def Let_def)
    moreover have "hub_ok E mode n H recs ?g" using h'(2,3,4) t by (simp add: hub_ok_def cached_ok_def Let_def)
    moreover have "?g = h\<lparr>hb_set := hb_set ?g, hb_cells := hb_cells ?g, hb_idx := hb_idx ?g\<rparr>"
      using arg_cong [OF h'(5), of "hb_idx_update (\<lambda>_. Some t)"] by simp
    ultimately show ?thesis using t h'(6) by (intro exI [of _ ?res] exI [of _ ?g]) simp
  qed
qed

subsection \<open>Sessions\<close>

text \<open>
  Each command draws a fresh identifier, and its clock has not reached the largest timestamp. A session that
  was shut down comes back as the replay of its log into a fresh hub, under any mode (\<open>restored\<close>).
\<close>

inductive hub_run :: "web_env \<Rightarrow> string \<Rightarrow> string set \<Rightarrow> hub \<Rightarrow> bool" for E where
  opened: "newHubMode E c mode = Some h \<Longrightarrow> hub_run E mode {} h"
| restored: "hub_run E mode' U' h' \<Longrightarrow> newHubMode E c mode = Some h \<Longrightarrow> map snd rs = hb_ops h' \<Longrightarrow>
    distinct (map fst rs) \<Longrightarrow> [] \<notin> fst ` set rs \<Longrightarrow>
    (\<And>k. k < length rs \<Longrightarrow> h_last (hub_clock (hub_replay (take k rs) h)) \<noteq> max_int64) \<Longrightarrow>
    hub_run E mode (fst ` set rs) (hub_replay rs h)"
| wired: "hub_run E mode U h \<Longrightarrow>
    hub_run E mode U (h\<lparr>hb_onEvent := a, hb_total := b, hb_presence := p, hb_persist := q, hb_file := f\<rparr>)"
| command: "hub_run E mode U h \<Longrightarrow> newid \<notin> U \<Longrightarrow> newid \<noteq> [] \<Longrightarrow> h_last (hub_clock h) \<noteq> max_int64 \<Longrightarrow>
    hub_run E mode (insert newid U) (snd (applyClientOp E newid now client co h))"
| joins: "hub_run E mode U h \<Longrightarrow> hub_run E mode U (fst (snd (hub_join h tot)))"
| leaves: "hub_run E mode U h \<Longrightarrow> hub_run E mode U (fst (hub_leave h tot))"
| viewed: "hub_run E mode U h \<Longrightarrow> hub_run E mode U (snd (hub_snapshot h))"

inductive_cases hub_runE: "hub_run E mode U h"

lemma hub_ok_publish [simp]:
  "hub_ok E mode n H recs (broadcast m h) = hub_ok E mode n H recs h"
  "hub_ok E mode n H recs (publishGlobalPresence tot h) = hub_ok E mode n H recs h"
  "hub_ok E mode n H recs (persistRecord E r h) = hub_ok E mode n H recs h"
  "hb_ops (broadcast m h) = hb_ops h" "hb_ops (publishGlobalPresence tot h) = hb_ops h" "hb_ops (persistRecord E r h) = hb_ops h"
  "hb_dims (broadcast m h) = hb_dims h" "hb_dims (persistRecord E r h) = hb_dims h"
  by (simp_all add: broadcast_def publishGlobalPresence_def persistRecord_def)

lemma logged_simps:
  "logged E r (Inl err, h) = (Inl err, h)"
  "hub_ok E mode n H recs (snd (logged E r (Inr v, h))) = hub_ok E mode n H recs h"
  "hb_ops (snd (logged E r (Inr v, h))) = hb_ops h @ [r]"
  by (simp_all add: logged_def Let_def)

lemma snd_apfst [simp]: "snd (apfst f p) = snd p"
  by (cases p) simp

lemma command_ok:
  fixes now client co
  assumes h: "hub_ok E mode n H (hb_ops h) h" and g: "sound_grid (we_grid E)"
    and i: "newid \<notin> BO_ID ` set H" "newid \<noteq> []" and c: "h_last (hub_clock h) \<noteq> max_int64"
  defines "h' \<equiv> snd (applyClientOp E newid now client co h)"
  shows "\<exists>n' H'. hub_ok E mode n' H' (hb_ops h') h' \<and> BO_ID ` set H' \<subseteq> insert newid (BO_ID ` set H)"
proof -
  consider (dims) "co_Kind co = ''dims''" | (search) "co_Kind co = ''search''"
    | (box) "co_Kind co \<noteq> ''dims''" "co_Kind co \<noteq> ''search''" by blast
  then show ?thesis
  proof cases
    case dims
    let ?r = "\<lparr>or_Client = client, or_Kind = ''dims'', or_Min = [], or_Max = [], or_Dims = co_Dims co, or_At = now\<rparr>"
    have h': "h' = snd (logged E ?r (foldDimsLocked (co_Dims co) h))" using dims by (simp add: h'_def applyClientOp_def setDims_def)
    from foldDims_ok [OF h, of ?r "co_Dims co"] consider
        v g where "foldDimsLocked (co_Dims co) h = (Inr v, g)" "hub_ok E mode n H (hb_ops h @ [?r]) g"
          "g = h\<lparr>hb_set := hb_set g, hb_cells := hb_cells g, hb_dims := co_Dims co\<rparr>"
      | err where "foldDimsLocked (co_Dims co) h = (Inl err, h)" by auto
    then show ?thesis
    proof cases
      case (1 v g)
      have "hb_ops g = hb_ops h" using arg_cong [OF 1(3), of hb_ops] by simp
      with 1 show ?thesis by (intro exI [of _ n] exI [of _ H]) (simp add: h' logged_simps, blast)
    next
      case (2 err)
      with h show ?thesis by (intro exI [of _ n] exI [of _ H]) (simp add: h' logged_simps, blast)
    qed
  next
    case search
    from search_ok [OF h g, of "co_Min co" "co_Max co"] obtain res s where s: "searchLocked E (co_Min co) (co_Max co) h = (res, s)"
        "hub_ok E mode n H (hb_ops h) s" "s = h\<lparr>hb_set := hb_set s, hb_cells := hb_cells s, hb_idx := hb_idx s\<rparr>" by blast
    have "hb_ops s = hb_ops h" using arg_cong [OF s(3), of hb_ops] by simp
    moreover have "hub_ok E mode n H (hb_ops h) h' \<and> hb_ops h' = hb_ops s"
      using search s(1,2) by (cases res) (auto simp: h'_def applyClientOp_def hub_search_def)
    ultimately show ?thesis by (intro exI [of _ n] exI [of _ H]) auto
  next
    case box
    let ?r = "\<lparr>or_Client = client, or_Kind = co_Kind co, or_Min = co_Min co, or_Max = co_Max co, or_Dims = 0, or_At = now\<rparr>"
    have h': "h' = snd (logged E ?r (foldLocked newid (co_Kind co) (co_Min co) (co_Max co) h))"
      using box by (simp add: h'_def applyClientOp_def hub_record_def)
    show ?thesis
    proof (cases "takes_box (co_Kind co) (co_Min co) (co_Max co) h")
      case True
      obtain v g p where g: "foldLocked newid (co_Kind co) (co_Min co) (co_Max co) h = (Inr v, g)"
          "hub_ok E mode (length (co_Min co)) (H @ [p]) (hb_ops h @ [?r]) g" "BO_ID p = newid"
          "g = h\<lparr>hb_set := hb_set g, hb_store := hb_store g, hb_idx := None, hb_cells := hb_cells g,
             hb_dims := int (length (co_Min co))\<rparr>"
        using foldLocked_takes [OF h True i c, of ?r] by auto
      have "hb_ops g = hb_ops h" using arg_cong [OF g(4), of hb_ops] by simp
      with g(1,2,3) show ?thesis
        by (intro exI [of _ "length (co_Min co)"] exI [of _ "H @ [p]"]) (auto simp: h' logged_simps)
    next
      case False
      obtain err d where "foldLocked newid (co_Kind co) (co_Min co) (co_Max co) h = (Inl err, h\<lparr>hb_dims := d\<rparr>)"
          "hub_ok E mode n H (hb_ops h) (h\<lparr>hb_dims := d\<rparr>)"
        using foldLocked_rejects [OF h False] by blast
      then show ?thesis by (intro exI [of _ n] exI [of _ H]) (auto simp: h' logged_simps)
    qed
  qed
qed

lemma replay_ok:
  assumes "hub_ok E mode n H (hb_ops h) h" "hb_dims h = log_dims (hb_ops h)" "valid_log (hb_ops h @ map snd rs)"
    "distinct (map fst rs)" "[] \<notin> fst ` set rs" "BO_ID ` set H \<inter> fst ` set rs = {}"
    "\<And>k. k < length rs \<Longrightarrow> h_last (hub_clock (hub_replay (take k rs) h)) \<noteq> max_int64"
  shows "\<exists>n' H'. hub_ok E mode n' H' (hb_ops h @ map snd rs) (hub_replay rs h) \<and> hb_ops (hub_replay rs h) = hb_ops h @ map snd rs \<and>
    hb_dims (hub_replay rs h) = log_dims (hb_ops h @ map snd rs) \<and> BO_ID ` set H' \<subseteq> BO_ID ` set H \<union> fst ` set rs"
  using assms
proof (induction rs arbitrary: n H h)
  case Nil
  then show ?case by (intro exI [of _ n] exI [of _ H]) simp
next
  case (Cons ir rs)
  obtain i r where ir: "ir = (i, r)" by fastforce
  define f where "f = (if or_Kind r = ''dims'' then snd (foldDimsLocked (or_Dims r) h)
      else snd (foldLocked i (or_Kind r) (or_Min r) (or_Max r) h))"
  define g where "g = f\<lparr>hb_ops := hb_ops f @ [r]\<rparr>"
  have step: "hub_replay (ir # xs) h = hub_replay xs g" for xs by (simp add: ir f_def g_def Let_def)
  have acc: "accepted (hb_ops h) r" using Cons.prems(3) by (auto simp: ir valid_log_def nth_append dest: spec [of _ "length (hb_ops h)"])
  have c: "h_last (hub_clock h) \<noteq> max_int64" using Cons.prems(7) [of 0] by simp
  have "\<exists>n' H'. hub_ok E mode n' H' (hb_ops h @ [r]) f \<and> hb_ops f = hb_ops h \<and> BO_ID ` set H' \<subseteq> insert i (BO_ID ` set H)"
  proof (cases "or_Kind r = ''dims''")
    case True
    have "1 \<le> or_Dims r \<and> or_Dims r \<le> maxDims \<and> (box_records (hb_ops h) = [] \<or> hb_dims h = or_Dims r)"
      using acc True Cons.prems(2) by (simp add: accepted_def)
    with foldDims_ok [OF Cons.prems(1) True refl] obtain v f' where f': "foldDimsLocked (or_Dims r) h = (Inr v, f')"
        "hub_ok E mode n H (hb_ops h @ [r]) f'" "f' = h\<lparr>hb_set := hb_set f', hb_cells := hb_cells f', hb_dims := or_Dims r\<rparr>" by blast
    have "hb_ops f' = hb_ops h" using arg_cong [OF f'(3), of hb_ops] by simp
    with f'(1,2) True show ?thesis unfolding f_def by (intro exI [of _ n] exI [of _ H]) auto
  next
    case False
    have t: "takes_box (or_Kind r) (or_Min r) (or_Max r) h"
      using acc False Cons.prems(2) by (simp add: accepted_def takes_box_def record_box_def)
    have "i \<notin> BO_ID ` set H" "i \<noteq> []" using Cons.prems(5,6) by (auto simp: ir)
    from foldLocked_takes [OF Cons.prems(1) t this c, of r] obtain v f' p where f': "foldLocked i (or_Kind r) (or_Min r) (or_Max r) h = (Inr v, f')"
        "hub_ok E mode (length (or_Min r)) (H @ [p]) (hb_ops h @ [r]) f'" "BO_ID p = i"
        "f' = h\<lparr>hb_set := hb_set f', hb_store := hb_store f', hb_idx := None, hb_cells := hb_cells f', hb_dims := int (length (or_Min r))\<rparr>"
      by auto
    have "hb_ops f' = hb_ops h" using arg_cong [OF f'(4), of hb_ops] by simp
    with f'(1-3) False show ?thesis unfolding f_def by (intro exI [of _ "length (or_Min r)"] exI [of _ "H @ [p]"]) auto
  qed
  then obtain n' H' where f: "hub_ok E mode n' H' (hb_ops h @ [r]) f" "hb_ops f = hb_ops h" "BO_ID ` set H' \<subseteq> insert i (BO_ID ` set H)" by blast
  have ops: "hb_ops g = hb_ops h @ [r]" using f(2) by (simp add: g_def)
  have gok: "hub_ok E mode n' H' (hb_ops g) g" using f(1) unfolding ops by (simp add: g_def)
  have dims: "hb_dims g = log_dims (hb_ops g)" using gok by (simp add: hub_ok_def ops)
  have "h_last (hub_clock (hub_replay (take k rs) g)) \<noteq> max_int64" if "k < length rs" for k
    using Cons.prems(7) [of "Suc k"] that step [of "take k rs"] by simp
  moreover have "distinct (map fst rs)" "[] \<notin> fst ` set rs" using Cons.prems(4,5) by (auto simp: ir)
  moreover have "insert i (BO_ID ` set H) \<inter> fst ` set rs = {}" using Cons.prems(4,6) by (auto simp: ir)
  then have "BO_ID ` set H' \<inter> fst ` set rs = {}" using f(3) by blast
  moreover have "valid_log (hb_ops g @ map snd rs)" using Cons.prems(3) by (simp add: ir ops)
  ultimately obtain n'' H'' where r: "hub_ok E mode n'' H'' (hb_ops g @ map snd rs) (hub_replay rs g)"
      "hb_ops (hub_replay rs g) = hb_ops g @ map snd rs" "hb_dims (hub_replay rs g) = log_dims (hb_ops g @ map snd rs)"
      "BO_ID ` set H'' \<subseteq> BO_ID ` set H' \<union> fst ` set rs"
    using Cons.IH [OF gok dims] by blast
  have "BO_ID ` set H'' \<subseteq> BO_ID ` set H \<union> fst ` set (ir # rs)" using r(4) f(3) by (auto simp: ir)
  with r(1-3) show ?case unfolding step [of rs] ops by (intro exI [of _ n''] exI [of _ H'']) (simp add: ir)
qed

theorem hub_run_ok:
  assumes "hub_run E mode U h" "sound_grid (we_grid E)"
  shows "\<exists>n H. hub_ok E mode n H (hb_ops h) h \<and> BO_ID ` set H \<subseteq> U"
  using assms(1)
proof (induction rule: hub_run.induct)
  case (opened c mode h)
  obtain g where "newHubMode E c mode = Some g" "hub_ok E mode 1 [] [] g" "hb_ops g = []" using newHub_ok by blast
  with opened show ?case by (intro exI [of _ 1] exI [of _ "[]"]) simp
next
  case (restored mode' U' h' c mode h rs)
  obtain g where g: "newHubMode E c mode = Some g" "hub_ok E mode 1 [] [] g" "hb_ops g = []" "hb_dims g = -1"
    using newHub_ok by blast
  then have hg: "h = g" using restored.hyps(2) by simp
  obtain n' H' where "hub_ok E mode' n' H' (hb_ops h') h'" using restored.IH by blast
  then have "valid_log (hb_ops h')" by (simp add: hub_ok_def)
  then have valid: "valid_log (hb_ops h @ map snd rs)" using g(3) hg restored.hyps(3) by simp
  have start: "hub_ok E mode 1 [] (hb_ops h) h" "hb_dims h = log_dims (hb_ops h)" using g(2,3,4) hg by simp_all
  have "BO_ID ` set ([] :: box_op list) \<inter> fst ` set rs = {}" by simp
  from replay_ok [OF start valid restored.hyps(4,5) this restored.hyps(6)] obtain n H where
    H: "hub_ok E mode n H (hb_ops h @ map snd rs) (hub_replay rs h)" "hb_ops (hub_replay rs h) = hb_ops h @ map snd rs"
      "BO_ID ` set H \<subseteq> BO_ID ` set ([] :: box_op list) \<union> fst ` set rs" by blast
  have "BO_ID ` set H \<subseteq> fst ` set rs" using H(3) by simp
  with H(1) have "hub_ok E mode n H (hb_ops (hub_replay rs h)) (hub_replay rs h) \<and> BO_ID ` set H \<subseteq> fst ` set rs"
    unfolding H(2) by (rule conjI)
  then show ?case by (intro exI)
next
  case (wired mode U h a b p q f)
  then show ?case by simp
next
  case (command mode U h newid now client co)
  then obtain n H where H: "hub_ok E mode n H (hb_ops h) h" "BO_ID ` set H \<subseteq> U" by blast
  then have "newid \<notin> BO_ID ` set H" using command.hyps by blast
  let ?h = "snd (applyClientOp E newid now client co h)"
  from command_ok [OF H(1) assms(2) \<open>newid \<notin> BO_ID ` set H\<close> command.hyps(3,4), of now client co] obtain n' H' where
    H': "hub_ok E mode n' H' (hb_ops ?h) ?h" "BO_ID ` set H' \<subseteq> insert newid (BO_ID ` set H)" by (elim exE conjE)
  have "BO_ID ` set H' \<subseteq> insert newid U" using H'(2) H(2) by (rule order_trans [OF _ insert_mono])
  with H'(1) show ?case by (intro exI conjI)
next
  case (joins mode U h tot)
  then show ?case by (simp add: hub_join_def Let_def)
next
  case (leaves mode U h tot)
  then show ?case by (simp add: hub_leave_def Let_def)
next
  case (viewed mode U h)
  then obtain n H where H: "hub_ok E mode n H (hb_ops h) h" "BO_ID ` set H \<subseteq> U" by blast
  obtain v h' where m: "materializeLocked h = (v, h')" "hub_ok E mode n H (hb_ops h) h'" "h' = h\<lparr>hb_set := hb_set h', hb_cells := hb_cells h'\<rparr>"
    using materialize_ok [OF H(1)] by blast
  have "hb_ops h' = hb_ops h" using arg_cong [OF m(3), of hb_ops] by simp
  with m(1,2) H(2) show ?case by (intro exI [of _ n] exI [of _ H]) (simp add: hub_snapshot_def)
qed

lemma hub_run_view:
  assumes "hub_run E mode U h" "sound_grid (we_grid E)"
  defines "v \<equiv> fst (hub_snapshot h)"
  shows "\<exists>n. all_good n (wv_Boxes v)" "box_points (wv_Boxes v) = drawn (hb_ops h)"
    "wv_Adds v = length (filter (\<lambda>r. or_Kind r = ''add'') (hb_ops h))"
    "wv_Removes v = length (filter (\<lambda>r. or_Kind r = ''remove'') (hb_ops h))"
    "wv_Dims v = hb_dims h" "hb_ops h \<noteq> [] \<Longrightarrow> hb_dims h = log_dims (hb_ops h)"
    "mode = compactPartition \<Longrightarrow> sorted_wrt (\<lambda>c d. bpoints c \<inter> bpoints d = {}) (wv_Boxes v)"
proof -
  obtain n H where H: "hub_ok E mode n H (hb_ops h) h" using hub_run_ok [OF assms(1,2)] by blast
  note hv = hub_view [OF H assms(2)]
  obtain h' where m: "materializeLocked h = (v, h')"
      "wv_Boxes v = applied (web_canon E mode) (web_cover (bs_engine (hb_set h)))"
      "wv_Adds v = length (filter (\<lambda>r. or_Kind r = ''add'') (hb_ops h))"
      "wv_Removes v = length (filter (\<lambda>r. or_Kind r = ''remove'') (hb_ops h))" "wv_Dims v = hb_dims h"
    using materialize_ok [OF H] by (auto simp: v_def hub_snapshot_def)
  show "\<exists>n. all_good n (wv_Boxes v)" "box_points (wv_Boxes v) = drawn (hb_ops h)"
    using hv(1,2) by (auto simp: m(2))
  show "mode = compactPartition \<Longrightarrow> sorted_wrt (\<lambda>c d. bpoints c \<inter> bpoints d = {}) (wv_Boxes v)"
    using hv(3) by (simp add: m(2))
  show "wv_Adds v = length (filter (\<lambda>r. or_Kind r = ''add'') (hb_ops h))"
    "wv_Removes v = length (filter (\<lambda>r. or_Kind r = ''remove'') (hb_ops h))" "wv_Dims v = hb_dims h"
    by (fact m)+
  show "hb_ops h \<noteq> [] \<Longrightarrow> hb_dims h = log_dims (hb_ops h)" using H by (simp add: hub_ok_def)
qed

lemma hub_run_search:
  assumes r: "hub_run E mode U h" "sound_grid (we_grid E)"
    and q: "box_ok (length lo) (NewBox lo hi)" "hb_dims h = -1 \<or> hb_dims h = int (length lo)"
  defines "v \<equiv> fst (hub_snapshot h)"
  shows "\<exists>out. fst (hub_search E lo hi h) = Inr \<lparr>sr_Min = lo, sr_Max = hi, sr_Boxes = out\<rparr> \<and>
    mset out = mset (filter (\<lambda>b. bpoints b \<inter> bpoints (NewBox lo hi) \<noteq> {}) (wv_Boxes v)) \<and>
    sorted_wrt (\<lambda>a b. \<not> lessBox b a) out"
proof -
  obtain n H where H: "hub_ok E mode n H (hb_ops h) h" using hub_run_ok [OF r] by blast
  let ?bs = "applied (web_canon E mode) (web_cover (bs_engine (hb_set h)))"
  obtain h' where "materializeLocked h = (v, h')" and v: "wv_Boxes v = ?bs"
    using materialize_ok [OF H] by (auto simp: v_def hub_snapshot_def)
  obtain t s where t: "BuildRef (we_sub E) ?bs = Inr t"
      "searchLocked E lo hi h = (Inr \<lparr>sr_Min = lo, sr_Max = hi, sr_Boxes = Search t (NewBox lo hi)\<rparr>, s)"
    using search_ok [OF H r(2), of lo hi] q by blast
  have b: "Build (we_sub E) ?bs = Inr t" using t(1) by (simp add: BuildRef_def Build_def)
  have feq: "filter (\<lambda>b. \<not> Box_Empty b \<and> bpoints b \<inter> bpoints (NewBox lo hi) \<noteq> {}) ?bs =
      filter (\<lambda>b. bpoints b \<inter> bpoints (NewBox lo hi) \<noteq> {}) ?bs"
    using hub_view(1) [OF H r(2)] by (intro filter_cong) (auto simp: all_good_def dest: good_boxD(6))
  have bok: "box_ok (Dims (NewBox lo hi)) (NewBox lo hi)" using q(1) by simp
  have m: "mset (Search t (NewBox lo hi)) = mset (filter (\<lambda>b. bpoints b \<inter> bpoints (NewBox lo hi) \<noteq> {}) ?bs)"
    by (simp only: Search_exact [OF b bok] feq)
  have "fst (hub_search E lo hi h) = Inr \<lparr>sr_Min = lo, sr_Max = hi, sr_Boxes = Search t (NewBox lo hi)\<rparr>"
    unfolding hub_search_def t(2) by simp
  then show ?thesis unfolding v using m Search_sorted [OF b] by blast
qed

subsection \<open>The log file\<close>

text \<open>A record that the file can hold: finite coordinates, a dimension in range, a time whose text reads back, a short line.\<close>

definition storable_record :: "web_env \<Rightarrow> opRecord \<Rightarrow> bool" where
  "storable_record E r \<longleftrightarrow> (\<forall>x\<in>set (or_Min r) \<union> set (or_Max r). is_fin x) \<and> - (2 ^ 63) \<le> or_Dims r \<and> or_Dims r < 2 ^ 63 \<and>
     we_get_time E (we_put_time E (or_At r)) = Some (or_At r) \<and>
     (\<forall>j. put_opRecord E r = Some j \<longrightarrow> length (json_text (we_float_text E) j) \<le> max_token)"

lemma get_floats_null [simp]: "get_floats JNull = Inr []"
  by (simp add: get_floats_def)

lemma get_put_opRecord:
  assumes "storable_record E r"
  shows "\<exists>j. put_opRecord E r = Some j \<and> get_opRecord E j = Inr r"
proof -
  obtain lo hi where f: "put_floats (or_Min r) = Some lo" "get_floats lo = Inr (or_Min r)"
      "put_floats (or_Max r) = Some hi" "get_floats hi = Inr (or_Max r)"
    using assms put_floats_fin [of "or_Min r"] put_floats_fin [of "or_Max r"] by (auto simp: storable_record_def)
  then show ?thesis
    using assms by (cases r) (auto simp: put_opRecord_def get_opRecord_def get_field_def omit_if_def storable_record_def)
qed

lemma load_lines_append:
  "load_lines E ls acc = Inr recs \<Longrightarrow> load_lines E (ls @ [l]) acc = load_lines E [l] recs"
  by (induction E ls acc rule: load_lines.induct) (auto split: if_splits rawjson.splits sum.splits)

lemma append_then_load:
  assumes "hubStore_load E f = Inr recs" "storable_record E r"
    and io: "we_open_err E = None" "we_open_file_err E = None" "we_write_err E = None"
  shows "\<exists>f'. hubStore_append E r f = (None, f') \<and> hubStore_load E f' = Inr (recs @ [r])"
proof -
  obtain j where j: "put_opRecord E r = Some j" "get_opRecord E j = Inr r" using get_put_opRecord [OF assms(2)] by blast
  have "length (json_text (we_float_text E) j) \<le> max_token" using assms(2) j(1) by (simp add: storable_record_def)
  then have last: "load_lines E [Valid j] recs = Inr (recs @ [r])" using j(2) by simp
  have "load_lines E (lines_of f) [] = Inr recs" using assms(1) io(1) by (auto simp: hubStore_load_def lines_of_def split: option.splits)
  from load_lines_append [OF this, of "Valid j"] last show ?thesis
    using j(1) io by (simp add: hubStore_append_def hubStore_load_def Let_def)
qed

text \<open>So the file of a persisting session holds its log.\<close>

lemma logged_file:
  assumes "hb_persist h" "hubStore_load E (hb_file h) = Inr (hb_ops h)" "storable_record E r"
    and "we_open_err E = None" "we_open_file_err E = None" "we_write_err E = None"
  shows "hubStore_load E (hb_file (snd (logged E r (Inr v, h)))) = Inr (hb_ops (snd (logged E r (Inr v, h))))"
  using append_then_load [OF assms(2,3,4,5,6)] assms(1)
  by (auto simp: logged_def Let_def persistRecord_def broadcast_def)

subsection \<open>Restarting a session\<close>

lemma fst_pairs: "map snd (map (\<lambda>i. (ids i, recs ! i)) [0..<length recs]) = recs"
  "map fst (map (\<lambda>i. (ids i, recs ! i)) [0..<length recs]) = map ids [0..<length recs]"
  by (simp_all add: comp_def map_nth)

lemma hub_run_restart:
  assumes r: "hub_run E mode U h" and g: "sound_grid (we_grid E)" and n: "newHubMode E c mode' = Some h0"
    and f: "hubStore_load E f = Inr (hb_ops h)" "we_mkdir_err E = None"
    and i: "inj ids" "\<And>k. ids k \<noteq> []"
    and clock: "\<And>k. k < length (hb_ops h) \<Longrightarrow>
      h_last (hub_clock (hub_replay (take k (map (\<lambda>i. (ids i, hb_ops h ! i)) [0..<length (hb_ops h)])) h0)) \<noteq> max_int64"
  defines "h' \<equiv> restore_hub E ids True f h0"
  shows "hub_run E mode' (ids ` {..<length (hb_ops h)}) h'" "hb_ops h' = hb_ops h"
proof -
  let ?rs = "map (\<lambda>i. (ids i, hb_ops h ! i)) [0..<length (hb_ops h)]"
  have ids: "distinct (map fst ?rs)" "[] \<notin> fst ` set ?rs"
    using i(1) not_sym [OF i(2)] by (auto simp: comp_def distinct_map inj_on_def)
  have h': "h' = (hub_replay ?rs h0)\<lparr>hb_persist := True, hb_file := f\<rparr>" using f by (simp add: h'_def restore_hub_def Let_def)
  have "hub_run E mode' (fst ` set ?rs) (hub_replay ?rs h0)"
    by (rule hub_run.restored [OF r n fst_pairs(1) ids]) (use clock in simp)
  from hub_run.wired [OF this, where a = "hb_onEvent (hub_replay ?rs h0)" and b = "hb_total (hub_replay ?rs h0)"
      and p = "hb_presence (hub_replay ?rs h0)" and q = True and f = f]
  have "hub_run E mode' (fst ` set ?rs) h'" by (simp add: h')
  moreover have "fst ` set ?rs = ids ` {..<length (hb_ops h)}" by (auto simp: image_image)
  ultimately show "hub_run E mode' (ids ` {..<length (hb_ops h)}) h'" by simp
  obtain g' where g': "newHubMode E c mode' = Some g'" "hub_ok E mode' 1 [] [] g'" "hb_ops g' = []" "hb_dims g' = -1"
    using newHub_ok by blast
  then have hg: "h0 = g'" using n by simp
  obtain n' H' where "hub_ok E mode n' H' (hb_ops h) h" using hub_run_ok [OF r g] by blast
  then have "valid_log (hb_ops h)" by (simp add: hub_ok_def)
  then have v: "valid_log (hb_ops h0 @ map snd ?rs)" unfolding fst_pairs(1) hg g'(3) append_Nil .
  have start: "hub_ok E mode' 1 [] (hb_ops h0) h0" "hb_dims h0 = log_dims (hb_ops h0)" using g'(2,3,4) hg by simp_all
  have e: "BO_ID ` set ([] :: box_op list) \<inter> fst ` set ?rs = {}" by simp
  have "hb_ops (hub_replay ?rs h0) = hb_ops h0 @ map snd ?rs"
    using replay_ok [OF start v ids e] clock by (simp only: length_map length_upt diff_zero) blast
  also have "\<dots> = hb_ops h" unfolding fst_pairs(1) hg g'(3) append_Nil ..
  finally show "hb_ops h' = hb_ops h" by (simp add: h')
qed

end
