(* ===== verification/Demo_Results.thy ===== *)
theory Demo_Results
  imports Web_Session Box_Examples
begin

section \<open>Properties of the visualizer\<close>

text \<open>
  What the canonicalizer of the web visualizer promises, on the boxes that the library produces by default
  (half-open ones), and the face it loses on the others; what the sessions of the visualizer promise: the view
  is the drawing of the log, a search answers for it, and a restart brings it back.
\<close>

subsection \<open>The partition\<close>

text \<open>C12. \<open>Partition\<close> returns on every cover by half-open boxes of one dimension, and its result is a partition: valid,
  non-empty half-open boxes, no two of which share a point, that together cover exactly the points of the
  input.\<close>

theorem partition_tiles:
  assumes "\<forall>b\<in>set boxes. box_ok n b \<and> (\<forall>i<n. loBound b i = Closed \<and> hiBound b i = Open)"
  shows "\<exists>out. Partition boxes = Some out \<and>
      (\<forall>c\<in>set out. good_box n c \<and> MinBound c = [] \<and> MaxBound c = []) \<and>
      (\<Union>c\<in>set out. bpoints c) = (\<Union>b\<in>set boxes. bpoints b) \<and>
      (\<forall>i j. i < j \<longrightarrow> j < length out \<longrightarrow> bpoints (out ! i) \<inter> bpoints (out ! j) = {})"
proof -
  have "\<forall>b\<in>set boxes. half_open n b" using assms by (simp add: half_open_def)
  from Partition_tiles [OF this] show ?thesis
    unfolding tiles_def box_points_def sorted_wrt_iff_nth_less by blast
qed

lemma ex_box_half_open: "loBound (ex_box x y x' y') i = Closed" "hiBound (ex_box x y x' y') i = Open"
  by (simp_all add: ex_box_def NewBox_def loBound_def hiBound_def)

theorem partition_tiles_witness:
  "\<exists>out. Partition [ex_box 0 0 4 4, ex_box 1 1 6 2] = Some out \<and>
      (\<forall>c\<in>set out. good_box 2 c \<and> MinBound c = [] \<and> MaxBound c = []) \<and>
      (\<Union>c\<in>set out. bpoints c) = (\<Union>b\<in>{ex_box 0 0 4 4, ex_box 1 1 6 2}. bpoints b) \<and>
      (\<forall>i j. i < j \<longrightarrow> j < length out \<longrightarrow> bpoints (out ! i) \<inter> bpoints (out ! j) = {})"
  using partition_tiles [of "[ex_box 0 0 4 4, ex_box 1 1 6 2]" 2] by (simp add: ex_box_half_open)

text \<open>A face that is closed above is lost: the cells are rebuilt half-open, so the point \<open>1\<close> of \<open>[0, 1]\<close> is in no cell.\<close>

lemma partition_drops_closed_face:
  defines "b \<equiv> \<lparr>BMin = [Fin 0], BMax = [Fin 1], MinBound = [Closed], MaxBound = [Closed], Meta = NoMeta\<rparr>"
  shows "good_box 1 b \<and> [1] \<in> bpoints b \<and> (\<exists>out. Partition [b] = Some out \<and> [1] \<notin> (\<Union>c\<in>set out. bpoints c))"
proof -
  have g: "good_box 1 b"
    by (simp add: good_box_def box_ok_iff Box_Empty_def b_def loBound_def hiBound_def Dims_def)
  have e: "\<not> Box_Empty b" and d: "Dims b = 1" using g by (auto simp: good_box_def box_ok_def)
  have "slabCoordinates [b] 0 = [Fin 0, Fin 1]"
    using e by (simp add: slabCoordinates_def sort_Float64s_def sort_slice_def b_def)
  then have "slabs [b] 0 = [[\<lparr>BMin = [Fin 0], BMax = [Fin 1], MinBound = [], MaxBound = [], Meta = NoMeta\<rparr>]]"
    by (simp add: slabs_def slabAt_def coversSlab_def slabMinBound_def clip_def b_def)
  then have "Partition [b] = Some [\<lparr>BMin = [Fin 0], BMax = [Fin 1], MinBound = [], MaxBound = [], Meta = NoMeta\<rparr>]"
    using e d by (simp add: Partition_def partition_boxes_cells)
  then show ?thesis using g
    by (simp add: b_def bpoints_def Box_Contains_def loBound_def hiBound_def Dims_def)
qed

subsection \<open>Sessions\<close>

text \<open>C16. In every reachable state of a session, whatever its clients sent and whatever was rejected, and across
  restarts, the view covers exactly the points that the activity log draws, in every compaction mode: union and
  difference of the logged boxes, in order. All its boxes are valid, non-empty and of one dimension, the counts are
  those of the log, and in the partition mode no two boxes share a point.\<close>

theorem session_draws_its_log:
  assumes "hub_run E mode U h" and "sound_grid (we_grid E)"
  shows "(\<Union>b\<in>set (wv_Boxes (fst (hub_snapshot h))). bpoints b) = drawn (hb_ops h) \<and>
    (\<exists>n. \<forall>b\<in>set (wv_Boxes (fst (hub_snapshot h))). good_box n b) \<and>
    wv_Adds (fst (hub_snapshot h)) = length (filter (\<lambda>r. or_Kind r = ''add'') (hb_ops h)) \<and>
    wv_Removes (fst (hub_snapshot h)) = length (filter (\<lambda>r. or_Kind r = ''remove'') (hb_ops h)) \<and>
    (mode = compactPartition \<longrightarrow>
      sorted_wrt (\<lambda>c d. bpoints c \<inter> bpoints d = {}) (wv_Boxes (fst (hub_snapshot h))))"
  using hub_run_view [OF assms] by (simp add: box_points_def all_good_def)

text \<open>The data of the instances: a session in which one client has drawn a square.\<close>

definition ex_web :: web_env where
  "ex_web = \<lparr>we_grid = exact_grid, we_bits = (\<lambda>_. 0), we_sub = f_sub exact, we_put_time = (\<lambda>_. ''0''),
     we_get_time = (\<lambda>_. Some 0), we_float_text = (\<lambda>_. ''0''), we_mkdir_err = None, we_open_err = None,
     we_open_file_err = None, we_write_err = None\<rparr>"

definition ex_clock :: hybrid where
  "ex_clock = \<lparr>h_last = 0, h_wall = (\<lambda>_. 0), h_reads = 0\<rparr>"

definition ex_hub :: "string \<Rightarrow> hub" where
  "ex_hub mode = (case newHubMode ex_web ex_clock mode of Some h \<Rightarrow> h | None \<Rightarrow> undefined)"

definition ex_square :: clientOp where
  "ex_square = \<lparr>co_Kind = ''add'', co_Min = [Fin 0, Fin 0], co_Max = [Fin 4, Fin 4], co_Dims = 0\<rparr>"

definition ex_square_record :: opRecord where
  "ex_square_record = \<lparr>or_Client = ''c'', or_Kind = ''add'', or_Min = [Fin 0, Fin 0], or_Max = [Fin 4, Fin 4], or_Dims = 0, or_At = 0\<rparr>"

definition ex_drawing :: "string \<Rightarrow> hub" where
  "ex_drawing mode = snd (applyClientOp ex_web ''a'' 0 ''c'' ex_square (ex_hub mode))"

lemma ex_hub: "newHubMode ex_web ex_clock mode = Some (ex_hub mode)" "hub_ok ex_web mode 2 [] [] (ex_hub mode)"
  "hb_ops (ex_hub mode) = []" "hub_clock (ex_hub mode) = ex_clock" "hb_dims (ex_hub mode) = -1"
proof -
  obtain h where "newHubMode ex_web ex_clock mode = Some h \<and> hub_ok ex_web mode 2 [] [] h \<and> hb_ops h = [] \<and>
      hub_clock h = ex_clock \<and> hb_dims h = -1"
    using newHub_ok by blast
  moreover from this have "ex_hub mode = h" by (simp add: ex_hub_def)
  ultimately show "newHubMode ex_web ex_clock mode = Some (ex_hub mode)" "hub_ok ex_web mode 2 [] [] (ex_hub mode)"
    "hb_ops (ex_hub mode) = []" "hub_clock (ex_hub mode) = ex_clock" "hb_dims (ex_hub mode) = -1" by simp_all
qed

lemma ex_clock_fresh: "h_last ex_clock \<noteq> max_int64"
  by (simp add: ex_clock_def max_int64_def)

lemma ex_drawing_run: "hub_run ex_web mode {''a''} (ex_drawing mode)"
  unfolding ex_drawing_def
  by (rule hub_run.command [OF hub_run.opened [OF ex_hub(1)]]) (simp_all add: ex_hub(4) ex_clock_fresh)

lemma ex_web_sound: "sound_grid (we_grid ex_web)"
  by (simp add: ex_web_def exact_sound_grid)

lemma ex_drawing_log: "hb_ops (ex_drawing mode) = [ex_square_record]" "hb_dims (ex_drawing mode) = 2"
proof -
  have box: "NewBox [Fin 0, Fin 0] [Fin 4, Fin 4] = ex_box 0 0 4 4" by (simp add: ex_box_def)
  have t: "takes_box ''add'' [Fin 0, Fin 0] [Fin 4, Fin 4] (ex_hub mode)"
    using ex_hub(5) [of mode] by (simp add: takes_box_def box numeral_2_eq_2 [symmetric])
  have c: "h_last (hub_clock (ex_hub mode)) \<noteq> max_int64" using ex_clock_fresh by (simp add: ex_hub(4))
  obtain v h' where f: "foldLocked ''a'' ''add'' [Fin 0, Fin 0] [Fin 4, Fin 4] (ex_hub mode) = (Inr v, h')"
      "h' = (ex_hub mode)\<lparr>hb_set := hb_set h', hb_store := hb_store h', hb_idx := None, hb_cells := hb_cells h',
         hb_dims := int (length [Fin 0, Fin 0])\<rparr>"
    using foldLocked_takes [OF ex_hub(2) t _ _ c, of "''a''" ex_square_record] by (auto simp: ex_square_record_def)
  have e: "ex_drawing mode = snd (logged ex_web ex_square_record (Inr v, h'))"
    by (simp add: ex_drawing_def applyClientOp_def hub_record_def ex_square_def ex_square_record_def f(1))
  have "hb_ops h' = []" "hb_dims h' = 2" using arg_cong [OF f(2), of hb_ops] arg_cong [OF f(2), of hb_dims] ex_hub(3) [of mode] by simp_all
  then show "hb_ops (ex_drawing mode) = [ex_square_record]" "hb_dims (ex_drawing mode) = 2"
    by (simp_all add: e logged_simps) (simp add: logged_def Let_def)
qed

lemma ex_drawing_drawn: "drawn [ex_square_record] = bpoints (ex_box 0 0 4 4)"
  by (simp add: drawn_def draws_def record_box_def ex_square_record_def ex_box_def)

theorem session_draws_its_log_witness:
  "(\<Union>b\<in>set (wv_Boxes (fst (hub_snapshot (ex_drawing compactPartition)))). bpoints b) = bpoints (ex_box 0 0 4 4) \<and>
   wv_Adds (fst (hub_snapshot (ex_drawing compactPartition))) = 1"
  using session_draws_its_log [OF ex_drawing_run ex_web_sound, of compactPartition]
  by (simp add: ex_drawing_log ex_drawing_drawn) (simp add: ex_square_record_def)

text \<open>C19. A search answers for the current view: whatever happened since the index was built, its boxes are exactly
  the boxes of the view that share a point with the query, each as often as in the view, in canonical order.\<close>

theorem search_is_current:
  assumes "hub_run E mode U h" and "sound_grid (we_grid E)"
    and "Box_Validate (NewBox lo hi) = None" and "hb_dims h = -1 \<or> hb_dims h = int (length lo)"
  shows "\<exists>out. fst (hub_search E lo hi h) = Inr \<lparr>sr_Min = lo, sr_Max = hi, sr_Boxes = out\<rparr> \<and>
    mset out = mset (filter (\<lambda>b. bpoints b \<inter> bpoints (NewBox lo hi) \<noteq> {}) (wv_Boxes (fst (hub_snapshot h)))) \<and>
    sorted_wrt (\<lambda>a b. \<not> lessBox b a) out"
  using hub_run_search [OF assms(1,2) _ assms(4)] assms(3) by (simp add: box_ok_def)

theorem search_is_current_witness:
  "\<exists>out. fst (hub_search ex_web [Fin 1, Fin 1] [Fin 2, Fin 2] (ex_drawing compactMerge)) =
       Inr \<lparr>sr_Min = [Fin 1, Fin 1], sr_Max = [Fin 2, Fin 2], sr_Boxes = out\<rparr> \<and>
     mset out = mset (filter (\<lambda>b. bpoints b \<inter> bpoints (ex_box 1 1 2 2) \<noteq> {})
       (wv_Boxes (fst (hub_snapshot (ex_drawing compactMerge)))))"
proof -
  have q: "NewBox [Fin 1, Fin 1] [Fin 2, Fin 2] = ex_box 1 1 2 2" by (simp add: ex_box_def)
  have "Box_Validate (NewBox [Fin 1, Fin 1] [Fin 2, Fin 2]) = None"
    using ex_box_ok [of 1 2 1 2] by (simp add: q box_ok_def)
  from search_is_current [OF ex_drawing_run ex_web_sound this, of compactMerge] show ?thesis
    unfolding q by (auto simp: ex_drawing_log)
qed




text \<open>A command that is rejected can still change the session: a kind that does not exist fixes the dimension, and no record
  says so.\<close>

lemma rejected_command_fixes_dimension:
  fixes mode
  defines "h \<equiv> snd (applyClientOp ex_web ''a'' 0 ''c'' (ex_square\<lparr>co_Kind := ''paint''\<rparr>) (ex_hub mode))"
  shows "hb_dims (ex_hub mode) = -1 \<and> hb_dims h = 2 \<and> hb_ops h = []"
proof -
  have "box_ok 2 (NewBox [Fin 0, Fin 0] [Fin 4, Fin 4])" using ex_box_ok [of 0 4 0 4] by (simp add: ex_box_def)
  then show ?thesis
    using ex_hub(3,5) [of mode]
    by (simp add: h_def applyClientOp_def hub_record_def foldLocked_def ex_square_def box_ok_def Let_def logged_def)
qed

end
