(* ===== verification/Spec2Isabelle.thy ===== *)
theory Spec2Isabelle
  imports Box_Results Divergences Demo_Results
begin

text \<open>
  \<^bold>\<open>eventfulranges\<close> is a Go library of event-sourced, replicated sets of intervals and of n-dimensional boxes. Every
  change is an operation in an append-only log; a strategy resolves conflicts between operations and turns the log
  into a canonical set. Replicas that exchange operations converge. This development models the library and the
  shared-drawing demo built on it, and proves what the parts promise each other.

  \<^bold>\<open>Parts.\<close> The 1-D stack is, from the bottom: interval algebra, operations and clocks, strategies, a log store,
  the engine, the facade \<open>RangeSet\<close>. The engine calls the store through the interfaces of \<open>store/store.go\<close>,
  stamps operations with the clock, and materializes its cached view through the strategy. The n-D stack
  repeats this over boxes, with metadata, retractions, dimension checks and a view that is patched; beside it
  stand the queries (paths, R-tree) and the cover transformers (merging, components). The demo's hub owns a box set
  on an in-memory store, partitions or merges its view, indexes it for searches and logs what its clients do.

  \<^bold>\<open>Theories.\<close> Names of definitions are the names in the source, with a prefix where two packages or HOL share one.
  \<^item> \<open>Go_Prelude\<close>: floats, 64-bit integers, \<open>sort.Slice\<close>, \<open>sort.Search\<close> and the locale \<open>weak_less\<close> of their
    comparisons; \<open>Go_Heap\<close>: \<open>container/heap\<close>.
  \<^item> \<open>Intervals\<close>, \<open>Interval_Sets\<close>, \<open>Sweeps\<close>: \<open>interval/interval.go\<close>, \<open>set.go\<close>, \<open>sweep.go\<close>.
  \<^item> \<open>Range_Ops\<close>: \<open>op/op.go\<close>. \<open>Clocks\<close>: \<open>clock/clock.go\<close>, run sequentially and as a step relation of
    goroutines. \<open>Strategies\<close>: \<open>strategy/strategy.go\<close>.
  \<^item> \<open>Json_Codec\<close>: the stored form of the structs. \<open>Event_Stores\<close>: \<open>store/store.go\<close> and the locales
    \<open>log_contract\<close>, \<open>snapshot_contract\<close>, \<open>compaction_contract\<close>. \<open>Memory_Store\<close>, \<open>Jsonl_Store\<close>: the two
    stores, which meet these contracts by interpretation.
  \<^item> \<open>Range_Engine\<close>: \<open>engine/engine.go\<close>, \<open>snapshot.go\<close>. \<open>Range_Replica\<close>: its correctness, in the locales
    \<open>engine_log\<close> and \<open>engine_compaction\<close>. \<open>Range_Set\<close>: \<open>eventfulranges.go\<close>.
  \<^item> \<open>Metadata\<close>: \<open>meta/meta.go\<close>. \<open>Boxes\<close>: \<open>space/space.go\<close>. \<open>Box_Sets\<close>, \<open>Box_Difference\<close>: \<open>space/set.go\<close>.
    \<open>Box_Ops\<close>: \<open>space/op/op.go\<close>. \<open>Box_Strategies\<close>, \<open>Box_Views\<close>: \<open>space/strategy\<close>. \<open>Box_Stores\<close>:
    \<open>space/store\<close>.
  \<^item> \<open>Box_Engine\<close>: \<open>space/engine\<close>. \<open>Box_Metas\<close>, \<open>Box_Tracking\<close>, \<open>Box_Replica\<close>: its correctness. \<open>Box_Set\<close>:
    \<open>boxes.go\<close>.
  \<^item> \<open>Paths\<close>: \<open>space/path.go\<close>. \<open>Rtree\<close>: \<open>rtree/rtree.go\<close>. \<open>Components\<close>: \<open>space/components.go\<close>.
  \<^item> \<open>Canonical\<close>: \<open>space/canonical.go\<close>. \<open>Scan_Merge\<close>: \<open>space/merge_scan.go\<close>. \<open>Cover_Grid\<close>, \<open>Indexed_Merge\<close>:
    \<open>space/merge_index.go\<close>; \<open>Merge_Rounds\<close> and \<open>Merge_Start\<close> prove that its rounds are those of the greedy merge.
  \<^item> \<open>Partition\<close>: \<open>demo/web/partition.go\<close>. \<open>Web_Hub\<close>: \<open>demo/web/hub.go\<close>, \<open>messages.go\<close>, \<open>persist.go\<close>,
    \<open>sessions.go\<close>. \<open>Half_Open\<close>, \<open>Web_Session\<close>: the invariant of the reachable hubs (\<open>hub_run\<close>) and the drawing
    that a log describes.
  \<^item> \<open>Range_Examples\<close>, \<open>Box_Examples\<close>: concrete data for the instances. \<open>Box_Results\<close>, \<open>Space_Results\<close>,
    \<open>Merge_Results\<close>, \<open>Demo_Results\<close> and this theory: the properties, each with an instance. \<open>Divergences\<close>:
    inputs on which the code departs from its documentation.

  \<^bold>\<open>State.\<close> A Go struct is a record without its lock: every exported method holds the lock for its whole body, so
    methods of one object do not interleave, and what can interleave, other writers of a store, is an argument
    (\<open>env\<close>). Stores are records of functions over a backend state that is passed along. Errors are values of
    datatypes; a map from identifiers is an association list; a slice is a list.

  \<^bold>\<open>Lemmas.\<close> Geometry runs on the doubled line (\<open>finePoint\<close>), where every valid interval is half-open, and on its
  products (\<open>bspan\<close>); \<open>points\<close> and \<open>bpoints\<close> are the real points that the code's own \<open>Contains\<close> accepts. For each
  set operation: the result is canonical, and its points are those of the mathematical operation. For the
  strategies: which operation decides a point, and independence of the order of operations. For the stores: the
  contracts. For the engines: an invariant (\<open>synced\<close>, \<open>in_step\<close>) that ties the engine to the history of its
  log, kept by every method under interference, from which convergence, reopening and compaction follow. For
  the optimized routines (sweep, indexed merge, R-tree, incremental insertion, patched views): equality with a
  plain definition. For the sessions: an invariant of every reachable hub (\<open>hub_ok\<close>) that ties engine, view, index
  and log together.

  \<^bold>\<open>Bounds and termination.\<close> Loops that the code bounds are structural recursions or have a measure; \<open>applyLocked\<close>
  makes at most four attempts, as in the source. Loops whose end needs an argument (\<open>sweep_loop\<close>, \<open>scan_loop\<close>,
  \<open>mg_run\<close>, \<open>partition_loop\<close>, \<open>ds_find\<close>) are partial functions into \<open>option\<close>, and that they return is part of the
  theorems about them. The plain \<open>greedy\<close> merge has fuel, the number of boxes: each round removes a box.
  Timestamps are 64-bit words and wrap; where order matters, a theorem asks that the clock has not reached the
  largest one.

  \<^bold>\<open>Parameters.\<close> Arithmetic on floats where rounding matters: paths (\<open>float_ops\<close>), the cover grid (\<open>grid_ops\<close>, with
  the hypothesis \<open>keeps_order\<close> that binning is monotone), the R-tree's choice of an axis; the bit patterns
  hashed by the merge indexes; the text of a float or a time; wall clocks and random identifiers; the outcomes of
  system calls; other writers of a store. Properties hold for all of them, up to the hypotheses they name.

  \<^bold>\<open>Not modelled.\<close> Torn lines after a failed write, file permissions and locking of files between processes. The
  Kurrent store, a client of an external service. The servers, WebSocket and wasm glue, pub/sub and cache
  libraries, the paint demo with its rasterization, and the command-line demos: input and output around the
  library.
\<close>

section \<open>Replication\<close>

text \<open>C1. Two replicas on in-memory stores exchange their operations, each handing the result of
  \<open>Ops\<close> to the other's \<open>ApplyAll\<close>. Both calls succeed, and the replicas then know the same
  operations and return the same view, whatever their histories were.\<close>

theorem replicas_converge:
  assumes "replica mem_inv (\<lambda>_. 0) mem_ops mem_snap H1 e1 s1" "replica mem_inv (\<lambda>_. 0) mem_ops mem_snap H2 e2 s2"
    and "e_strategy e1 = e_strategy e2" and "unique_ids (set H1 \<union> set H2)" and "\<forall>o'\<in>set H1 \<union> set H2. TS o' \<noteq> 0"
  shows "\<exists>e1' s1' e2' s2'.
      engine_ApplyAll mem_log clk (\<lambda>_ s. s) (engine_Ops e2) e1 s1 = (None, e1', s1') \<and>
      engine_ApplyAll mem_log clk (\<lambda>_ s. s) (engine_Ops e1) e2 s2 = (None, e2', s2') \<and>
      fst (engine_Materialize e1') = fst (engine_Materialize e2') \<and>
      engine_Ops e1' = engine_Ops e2' \<and> set (engine_Ops e1') = set H1 \<union> set H2"
proof -
  have room: "mem_engine.roomy e" for e :: "'c engine" by (simp add: mem_engine.roomy_def)
  have ops: "set (engine_Ops e1) = set H1" "set (engine_Ops e2) = set H2"
    by (rule replica_view(2) [OF assms(1)], rule replica_view(2) [OF assms(2)])
  obtain e1' s1' H1' where r1: "engine_ApplyAll mem_log clk (\<lambda>_ s. s) (engine_Ops e2) e1 s1 = (None, e1', s1')"
      "mem_engine.is_replica H1' e1' s1'" "set H1' = set H1 \<union> set H2" "e_strategy e1' = e_strategy e1"
    using mem_engine.exchange [OF assms(1) room mem_engine.Ops_batch [OF assms(2)], of clk] assms(4,5) ops
    by auto
  obtain e2' s2' H2' where r2: "engine_ApplyAll mem_log clk (\<lambda>_ s. s) (engine_Ops e1) e2 s2 = (None, e2', s2')"
      "mem_engine.is_replica H2' e2' s2'" "set H2' = set H2 \<union> set H1" "e_strategy e2' = e_strategy e2"
    using mem_engine.exchange [OF assms(2) room mem_engine.Ops_batch [OF assms(1)], of clk] assms(4,5) ops
    by (auto simp: Un_commute)
  have "set H1' = set H2'" "e_strategy e1' = e_strategy e2'" using r1 r2 assms(3) by auto
  then show ?thesis
    using replicas_agree [OF r1(2) r2(2)] replica_view(2) [OF r1(2)] r1 r2 by auto
qed

theorem replicas_converge_witness:
  "\<exists>e1' s1' e2' s2'.
      engine_ApplyAll mem_log lamport_Clock (\<lambda>_ s. s) (engine_Ops (ex_engine LWW (20 :: int64) [op2])) (ex_engine LWW (10 :: int64) [op1]) (ex_mem [op1]) = (None, e1', s1') \<and>
      engine_ApplyAll mem_log lamport_Clock (\<lambda>_ s. s) (engine_Ops (ex_engine LWW (10 :: int64) [op1])) (ex_engine LWW (20 :: int64) [op2]) (ex_mem [op2]) = (None, e2', s2') \<and>
      fst (engine_Materialize e1') = fst (engine_Materialize e2') \<and>
      engine_Ops e1' = engine_Ops e2' \<and> set (engine_Ops e1') = {op1, op2}"
  using replicas_converge [OF ex_replica [of "[op1]" LWW 10] ex_replica [of "[op2]" LWW 20], of lamport_Clock]
  by (simp add: isDefined_def unique_ids_def insert_commute)


text \<open>C2. \<open>ApplyAll\<close> while other writers append to the same store between its calls. Whatever they do,
  the engine stays in step with a history that extends the one before: either every operation of the batch
  is in it under its identifier, each identifier once, or the call reports a version conflict. No
  operation that was in the history is lost.\<close>

theorem apply_under_interference:
  assumes "mem_inv s" and "store_holds (\<lambda>_. 0) mem_ops mem_snap H s" and "synced H e"
    and "list_all valid_op ops" and "distinct (map ID ops)"
    and env: "\<forall>k s H. mem_inv s \<longrightarrow> store_holds (\<lambda>_. 0) mem_ops mem_snap H s \<longrightarrow>
      (\<exists>ext. mem_inv (env k s) \<and> store_holds (\<lambda>_. 0) mem_ops mem_snap (H @ ext) (env k s))"
    and r: "engine_ApplyAll mem_log clk env ops e s = (err, e', s')"
  shows "\<exists>ext. mem_inv s' \<and> store_holds (\<lambda>_. 0) mem_ops mem_snap (H @ ext) s' \<and> synced (H @ ext) e' \<and>
      distinct (map ID (H @ ext)) \<and>
      (err = None \<and> ID ` set ops \<subseteq> ID ` set (known e' (H @ ext)) \<or> err = Some (StoreErr ErrVersionConflict))"
proof (cases "ops = []")
  case True
  then show ?thesis
    using assms by (auto simp: engine_ApplyAll_def store_holds_def valid_history_def intro!: exI [of _ "[]"])
next
  case False
  have "mem_engine.outcome H ops e s (applyLocked mem_log clk env 0 ops e s)"
    using assms(1-5) env
    by (intro mem_engine.applyLocked_outcome)
      (auto simp: mem_engine.roomy_def mem_engine.batch_ok_def mem_engine.env_ok_def)
  moreover have "applyLocked mem_log clk env 0 ops e s = (err, e', s')"
    using r False assms(4) validateOps_None [of ops] by (simp add: engine_ApplyAll_def engine_apply_def)
  ultimately show ?thesis
    unfolding mem_engine.outcome_def by (auto simp: store_holds_def valid_history_def)
qed

theorem apply_under_interference_witness:
  "\<exists>ext. mem_inv (snd (snd (engine_ApplyAll mem_log lamport_Clock (\<lambda>_ s. s) [op1] (ex_engine LWW (10 :: int64) []) (ex_mem [])))) \<and>
     store_holds (\<lambda>_. 0) mem_ops mem_snap ext (snd (snd (engine_ApplyAll mem_log lamport_Clock (\<lambda>_ s. s) [op1] (ex_engine LWW (10 :: int64) []) (ex_mem []))))"
proof -
  have r: "replica mem_inv (\<lambda>_. 0) mem_ops mem_snap [] (ex_engine LWW (10 :: int64) []) (ex_mem [])"
    by (rule ex_replica) (simp_all add: isDefined_def)
  obtain err e' s' where a: "engine_ApplyAll mem_log lamport_Clock (\<lambda>_ s. s) [op1] (ex_engine LWW (10 :: int64) []) (ex_mem []) = (err, e', s')"
    by (metis surj_pair)
  have env: "\<forall>k s H. mem_inv s \<longrightarrow> store_holds (\<lambda>_. 0) mem_ops mem_snap H s \<longrightarrow>
      (\<exists>ext. mem_inv s \<and> store_holds (\<lambda>_. 0) mem_ops mem_snap (H @ ext) s)"
    by (metis append_Nil2)
  from apply_under_interference [OF _ _ _ _ _ env a, of "[]"] r show ?thesis
    using a by (auto simp: replica_def)
qed

text \<open>C3. Alone on its store, a batch of valid operations always succeeds, even when the engine is behind the
  log, and the log gains exactly the operations it did not have, in the order given, those without a timestamp
  stamped by the clock.\<close>

theorem apply_alone_appends:
  assumes "mem_inv s" and "store_holds (\<lambda>_. 0) mem_ops mem_snap H s" and "synced H e"
    and "list_all valid_op ops" and "distinct (map ID ops)" and "ops \<noteq> []"
  shows "\<exists>e' s' fresh. engine_ApplyAll mem_log clk (\<lambda>_ s. s) ops e s = (None, e', s') \<and>
      mem_ops s' = H @ fresh \<and> list_all2 stamped (filter (\<lambda>o'. ID o' \<notin> ID ` set H) ops) fresh \<and>
      synced (H @ fresh) e'"
proof -
  have "validateOps ops = None" using assms(4) validateOps_None by simp
  then show ?thesis
    using mem_engine.apply_alone [OF assms(1-3), of ops clk] assms(4-6)
    by (auto simp: engine_ApplyAll_def engine_apply_def mem_engine.roomy_def mem_engine.batch_ok_def
        mem_engine.news_def store_holds_def)
qed

theorem apply_alone_appends_witness:
  "\<exists>e' s' fresh. engine_ApplyAll mem_log lamport_Clock (\<lambda>_ s. s) [op1, op3] (ex_engine LWW (10 :: int64) [op1]) (ex_mem [op1]) = (None, e', s') \<and>
     mem_ops s' = [op1] @ fresh \<and> list_all2 stamped [op3] fresh \<and> synced ([op1] @ fresh) e'"
proof -
  have "replica mem_inv (\<lambda>_. 0) mem_ops mem_snap [op1] (ex_engine LWW (10 :: int64) [op1]) (ex_mem [op1])"
    by (rule ex_replica) (simp_all add: isDefined_def)
  then show ?thesis
    using apply_alone_appends [of "ex_mem [op1]" "[op1]" "ex_engine LWW (10 :: int64) [op1]" "[op1, op3]" lamport_Clock]
    by (simp add: replica_def)
qed

text \<open>C4. An invalid operation in a batch, or a batch known already, leaves engine and store untouched;
  the error names the first invalid operation.\<close>

theorem apply_rejects_invalid:
  assumes "ops = pre @ o' # post" and "list_all valid_op pre" and "Op_Validate o' = Some err"
  shows "engine_ApplyAll lg clk env ops e s = (Some (BadOp (ID o') err), e, s)"
proof -
  have "validateOps (pre @ o' # post) = Some (BadOp (ID o') err)"
    using assms(2) by (induction pre) (auto simp: valid_op_def assms(3))
  then show ?thesis by (simp add: engine_ApplyAll_def engine_apply_def assms(1))
qed

theorem apply_rejects_invalid_witness:
  "engine_ApplyAll mem_log lamport_Clock (\<lambda>_ s. s) [op1, op2\<lparr>ID := []\<rparr>] (ex_engine LWW (10 :: int64) []) (ex_mem []) =
     (Some (BadOp [] ErrMissingID), ex_engine LWW (10 :: int64) [], ex_mem [])"
  using apply_rejects_invalid [of "[op1, op2\<lparr>ID := []\<rparr>]" "[op1]" "op2\<lparr>ID := []\<rparr>" "[]" ErrMissingID]
  by (simp add: Op_Validate_def)



text \<open>C6. Compacting a JSON Lines stream through a replica drops every operation record and keeps the content:
  the stream is one snapshot record, and opening it again gives the same view and the same operations.\<close>

theorem compact_then_reopen:
  assumes "replica (jsonl_inv (quiet J)) (jsonl_base (quiet J)) (jsonl_tail (quiet J)) (jsonl_snap (quiet J)) H e f"
    and "jsonl_fits (quiet J) (e_version e) (snapshot_data (ensureView e))"
  shows "\<exists>e' f'. engine_Compact (jsonl_log (quiet J)) e f = (None, e', f') \<and> jsonl_tail (quiet J) f' = [] \<and>
      (\<exists>e''. engine_Open (jsonl_log (quiet J)) clk (e_strategy e) dflt opts f' = Inr e'' \<and>
         fst (engine_Materialize e'') = fst (engine_Materialize e) \<and> engine_Ops e'' = engine_Ops e)"
proof -
  have r: "jsonl_inv (quiet J) f" "store_holds (jsonl_base (quiet J)) (jsonl_tail (quiet J)) (jsonl_snap (quiet J)) H f"
      "synced H e" "e_version e = int (length H)"
    using assms(1) by (simp_all add: replica_def)
  have "jsonl_base (quiet J) f \<le> nat (e_version e)" using r by (simp add: store_holds_def)
  then obtain f' where f': "engine_Compact (jsonl_log (quiet J)) e f = (None, (ensureView e)\<lparr>e_since := 0\<rparr>, f')"
      "jsonl_inv (quiet J) f'" "jsonl_base (quiet J) f' = nat (e_version e)"
      "store_holds (jsonl_base (quiet J)) (jsonl_tail (quiet J)) (jsonl_snap (quiet J)) H f'"
      "can_open (jsonl_base (quiet J)) (jsonl_snap (quiet J)) (e_strategy e) f'"
    using jsonl_engine.Compact_history [OF r(1-3) _ assms(2)] by blast
  have "isDefined (e_strategy e)" using r(3) by (simp add: synced_def)
  from jsonl_engine.Open_synced [OF f'(2,4) this f'(5), of clk dflt opts]
  obtain e'' where e'': "engine_Open (jsonl_log (quiet J)) clk (e_strategy e) dflt opts f' = Inr e''"
      "replica (jsonl_inv (quiet J)) (jsonl_base (quiet J)) (jsonl_tail (quiet J)) (jsonl_snap (quiet J)) H e'' f'"
      "e_strategy e'' = e_strategy e"
    using f'(2,4) by (auto simp: replica_def)
  have "jsonl_tail (quiet J) f' = []" using f'(3,4) r(4) by (simp add: store_holds_def)
  then show ?thesis using f'(1) e'' replicas_agree [OF e''(2) assms(1)] by auto
qed

theorem compact_then_reopen_witness:
  "\<exists>e' f'. engine_Compact (jsonl_log (quiet (op_env fm))) (ex_engine GrowOnly (10 :: int64) [op1]) ex_stream = (None, e', f') \<and>
     jsonl_tail (quiet (op_env fm)) f' = [] \<and>
     (\<exists>e''. engine_Open (jsonl_log (quiet (op_env fm))) lamport_Clock GrowOnly 0 [] f' = Inr e'' \<and>
        fst (engine_Materialize e'') = fst (engine_Materialize (ex_engine GrowOnly (10 :: int64) [op1])) \<and>
        engine_Ops e'' = engine_Ops (ex_engine GrowOnly (10 :: int64) [op1]))"
  using compact_then_reopen [OF ex_stream_replica [of GrowOnly] ex_fits, of lamport_Clock 0 "[]"]
  by (simp add: isDefined_def)

text \<open>C7. Through the facade, with last-write-wins and a clock ahead of the log, \<open>Add\<close> makes exactly the points of
  the closed interval members and leaves the others as they were, and \<open>Remove\<close> makes exactly those points
  non-members.\<close>

theorem add_remove_points:
  assumes "replica mem_inv (\<lambda>_. 0) mem_ops mem_snap H e s" and "e_strategy e = LWW"
    and "ahead h_last H e" and "newid \<noteq> []" and "newid \<notin> ID ` set H" and "a \<le> b"
  shows "(\<exists>r' s'. snd (rs_Add mem_log hybrid_Clock (\<lambda>_ s. s) newid (Fin a) (Fin b) \<lparr>rs_engine = e\<rparr> s) = (None, r', s') \<and>
        (\<forall>x. fst (rs_Contains (Fin x) r') \<longleftrightarrow> a \<le> x \<and> x \<le> b \<or> fst (rs_Contains (Fin x) \<lparr>rs_engine = e\<rparr>))) \<and>
      (\<exists>r' s'. snd (rs_Remove mem_log hybrid_Clock (\<lambda>_ s. s) newid (Fin a) (Fin b) \<lparr>rs_engine = e\<rparr> s) = (None, r', s') \<and>
        (\<forall>x. fst (rs_Contains (Fin x) r') \<longleftrightarrow> \<not> (a \<le> x \<and> x \<le> b) \<and> fst (rs_Contains (Fin x) \<lparr>rs_engine = e\<rparr>)))"
proof
  let ?iv = "\<lparr>Start = Fin a, End = Fin b, StartBound = Closed, EndBound = Closed\<rparr>"
  have v: "valid_iv ?iv" using assms(6) by (auto simp: valid_iff fine_def fin_point_def)
  have p: "x \<in> points ?iv \<longleftrightarrow> a \<le> x \<and> x \<le> b" for x
    by (auto simp: points_def Interval_Contains_def)
  have room: "mem_engine.roomy e" by (simp add: mem_engine.roomy_def)
  note app = mem_hybrid.Apply_LWW [OF assms(1) room _ _ _ _ assms(3,2)]
  show "\<exists>r' s'. snd (rs_Add mem_log hybrid_Clock (\<lambda>_ s. s) newid (Fin a) (Fin b) \<lparr>rs_engine = e\<rparr> s) = (None, r', s') \<and>
      (\<forall>x. fst (rs_Contains (Fin x) r') \<longleftrightarrow> a \<le> x \<and> x \<le> b \<or> fst (rs_Contains (Fin x) \<lparr>rs_engine = e\<rparr>))"
    using app [of "op_Add newid (Fin a) (Fin b)"] assms(4,5) v p
    by (auto simp: rs_Add_def op_Add_def New_def valid_op_iff)
  show "\<exists>r' s'. snd (rs_Remove mem_log hybrid_Clock (\<lambda>_ s. s) newid (Fin a) (Fin b) \<lparr>rs_engine = e\<rparr> s) = (None, r', s') \<and>
      (\<forall>x. fst (rs_Contains (Fin x) r') \<longleftrightarrow> \<not> (a \<le> x \<and> x \<le> b) \<and> fst (rs_Contains (Fin x) \<lparr>rs_engine = e\<rparr>))"
    using app [of "op_Remove newid (Fin a) (Fin b)"] assms(4,5) v p
    by (auto simp: rs_Remove_def op_Remove_def New_def valid_op_iff)
qed

theorem add_remove_points_witness:
  "\<exists>r' s'. snd (rs_Remove mem_log hybrid_Clock (\<lambda>_ s. s) ''z'' (Fin 2) (Fin 4)
        \<lparr>rs_engine = ex_engine LWW ex_hybrid [op1, op2]\<rparr> (ex_mem [op1, op2])) = (None, r', s') \<and>
      (\<forall>x. fst (rs_Contains (Fin x) r') \<longleftrightarrow> \<not> (2 \<le> x \<and> x \<le> 4) \<and>
         fst (rs_Contains (Fin x) \<lparr>rs_engine = ex_engine LWW ex_hybrid [op1, op2]\<rparr>))"
proof -
  have "ahead h_last [op1, op2] (ex_engine LWW ex_hybrid [op1, op2])"
    by (simp add: ahead_def ex_engine_def ex_hybrid_def max_int64_def i_le_def)
  then show ?thesis
    using add_remove_points [OF ex_replica [of "[op1, op2]" LWW ex_hybrid], of "''z''" 2 4]
    by (simp add: isDefined_def)
qed

section \<open>Conflict resolution\<close>

text \<open>C8. Under last-write-wins and first-write-wins a point belongs to the view exactly when the best of the
  operations that cover it, by timestamp and then identifier, is an addition.\<close>

theorem materialize_decided_points:
  assumes "s = LWW \<or> s = FWW" and "valid_ops ops" and "unique_ids (set ops)"
  shows "x \<in> set_points (Materialize s ops) \<longleftrightarrow>
    (\<exists>o'\<in>set ops. x \<in> points (OpInterval o') \<and> Kind o' = KindAdd \<and>
       (\<forall>p\<in>set ops. x \<in> points (OpInterval p) \<longrightarrow> \<not> better s (winnerOf p) (winnerOf o')))"
proof -
  have v: "x \<in> points (OpInterval o') \<longleftrightarrow> FinePoint (Fin x) False \<in> fspan (OpInterval o')" if "o' \<in> set ops" for o'
    using that assms(2) mem_points_iff by (simp add: valid_ops_def)
  have "\<forall>iv\<in>set (Materialize s ops). valid_iv iv"
    using Materialize_spec(1) [OF assms(2,3)] by (simp add: canonical_def)
  then have "x \<in> set_points (Materialize s ops) \<longleftrightarrow> FinePoint (Fin x) False \<in> view_span s (set ops)"
    using Materialize_spec(2) [OF assms(2,3)] by (simp add: mem_set_points_iff)
  also have "\<dots> \<longleftrightarrow> (\<exists>o'. decides s (set ops) (FinePoint (Fin x) False) o' \<and> Kind o' = KindAdd)"
    using assms(1) by auto
  finally show ?thesis using v by (auto simp: decides_def)
qed

theorem materialize_decided_points_witness:
  "1 \<in> set_points (Materialize LWW [op1, op2]) \<and> 5 / 2 \<notin> set_points (Materialize LWW [op1, op2])"
  using materialize_decided_points [of LWW "[op1, op2]" 1] materialize_decided_points [of LWW "[op1, op2]" "5 / 2"]
  by (simp add: better_def winnerOf_def i_lt_def)

text \<open>C9. The union-based strategies: the additions without the removals, and the additions alone.\<close>

theorem materialize_union_points:
  assumes "valid_ops ops" and "unique_ids (set ops)"
  shows "set_points (Materialize AdditiveWins ops) =
      (\<Union>o'\<in>{o'\<in>set ops. Kind o' = KindAdd}. points (OpInterval o')) -
      (\<Union>o'\<in>{o'\<in>set ops. Kind o' = KindRemove}. points (OpInterval o')) \<and>
    set_points (Materialize GrowOnly ops) = (\<Union>o'\<in>{o'\<in>set ops. Kind o' = KindAdd}. points (OpInterval o'))"
proof -
  have v: "x \<in> points (OpInterval o') \<longleftrightarrow> FinePoint (Fin x) False \<in> fspan (OpInterval o')" if "o' \<in> set ops" for x o'
    using that assms(1) mem_points_iff by (simp add: valid_ops_def)
  have "\<forall>iv\<in>set (Materialize s ops). valid_iv iv" for s
    using Materialize_spec(1) [OF assms] by (simp add: canonical_def)
  then have "x \<in> set_points (Materialize s ops) \<longleftrightarrow> FinePoint (Fin x) False \<in> view_span s (set ops)" for s x
    using Materialize_spec(2) [OF assms] by (simp add: mem_set_points_iff)
  then show ?thesis using v by (auto simp: kind_span_def)
qed

theorem materialize_union_points_witness:
  "set_points (Materialize AdditiveWins [op1, op2]) = {1..5} - {2..3} \<and>
   set_points (Materialize GrowOnly [op1, op2]) = {1..5}"
  using materialize_union_points [of "[op1, op2]"]
  by (auto simp: Collect_conv_if conj_disj_distribR Collect_disj_eq)

text \<open>C10. The view is canonical and does not depend on the order or the multiplicity in which operations are
  listed: replicas that know the same operations have the same view.\<close>

theorem materialize_order_independent:
  assumes "valid_ops ops" and "unique_ids (set ops)" and "set ops = set ops'"
  shows "Materialize s ops = Materialize s ops' \<and> canonical (Materialize s ops)"
  using Materialize_cong [OF assms] Materialize_spec(1) [OF assms(1,2)] by blast

theorem materialize_order_independent_witness:
  "Materialize LWW [op1, op2] = Materialize LWW [op2, op1, op2] \<and> canonical (Materialize LWW [op1, op2])"
  using materialize_order_independent [of "[op1, op2]" "[op2, op1, op2]" LWW] by (auto simp: insert_commute)

text \<open>C11. Incremental resolution: combining the segments of two sets of operations gives the view of their union,
  so a snapshot's segments can stand for the operations it covers.\<close>

theorem combine_segments_incremental:
  assumes "s = LWW \<or> s = FWW" and "valid_ops (A @ B)" and "unique_ids (set A \<union> set B)"
  shows "ToIntervals (CombineSegments s (Segments s A) (Segments s B)) = Materialize s (A @ B)"
proof -
  have "valid_ops A" "valid_ops B" "unique_ids (set A)" "unique_ids (set B)"
    using assms(2,3) by (auto simp: valid_ops_def unique_ids_def intro: inj_on_subset)
  then have "represents s (CombineSegments s (Segments s A) (Segments s B)) (A @ B)"
    using represents_Segments [OF assms(1)] assms(3) by (intro represents_CombineSegments)
  then show ?thesis using ToIntervals_Materialize [OF assms(1)] assms(2,3) by simp
qed

theorem combine_segments_incremental_witness:
  "ToIntervals (CombineSegments LWW (Segments LWW [op1]) (Segments LWW [op2])) = Materialize LWW [op1, op2]"
  using combine_segments_incremental [of LWW "[op1]" "[op2]"] by (simp add: insert_commute)

text \<open>Strategy names: \<open>Parse\<close> inverts \<open>String\<close> on the defined strategies, rejects every other name, and
  \<open>MarshalText\<close> rejects every other strategy.\<close>

theorem strategy_names:
  "(\<forall>s. isDefined s = (\<exists>t. Strategy_MarshalText s = Inr t)) \<and>
   (\<forall>n s. (Strategy_Parse n = Inr s) = (isDefined s \<and> n = Strategy_String s))"
proof (intro conjI allI)
  show "isDefined s = (\<exists>t. Strategy_MarshalText s = Inr t)" for s
    by (cases s) (simp_all add: isDefined_def Strategy_MarshalText_def names_def)
  show "(Strategy_Parse n = Inr s) = (isDefined s \<and> n = Strategy_String s)" for n s
    by (cases s) (auto simp: isDefined_def Strategy_Parse_def Strategy_String_def names_def)
qed

section \<open>Sweeping and interval sets\<close>

text \<open>C13. The sweep terminates on valid intervals and any strict ranking, and its output is a partition of the covered
  points into maximal pieces, in order, each labelled with the index of the winning interval at each of its points.\<close>

theorem sweep_partition:
  assumes "valid_all ivs"
    and "\<And>i j. i < length ivs \<Longrightarrow> j < length ivs \<Longrightarrow> bt i j \<Longrightarrow> \<not> bt j i"
    and "\<And>i j k. i < length ivs \<Longrightarrow> j < length ivs \<Longrightarrow> k < length ivs \<Longrightarrow> bt i k \<Longrightarrow> bt i j \<or> bt j k"
  shows "\<exists>cs. Sweep_result ivs bt = Some cs \<and> Sweep ivs bt = cs \<and> (\<forall>c\<in>set cs. valid_iv (Interval c)) \<and>
    sorted_wrt (\<lambda>c d. ihi (Interval c) \<le> ilo (Interval d) \<and>
      (ihi (Interval c) = ilo (Interval d) \<longrightarrow> Index c \<noteq> Index d)) cs \<and>
    (\<forall>x i. (\<exists>c\<in>set cs. x \<in> fspan (Interval c) \<and> Index c = i) \<longleftrightarrow> is_winner bt ivs x i)"
proof -
  have "ranked bt (length ivs)" using assms(2,3) by (simp add: ranked_def)
  note spec = ranked.Sweep_spec [OF this assms(1) refl]
  show ?thesis
    by (intro exI [of _ "Sweep ivs bt"] conjI allI ballI) (use spec in auto)
qed

theorem sweep_partition_witness:
  "\<exists>cs. Sweep_result [ex_iv 1 5, ex_iv 2 3] (\<lambda>i j. i > j) = Some cs \<and>
     (\<exists>c\<in>set cs. FinePoint (Fin 2) False \<in> fspan (Interval c) \<and> Index c = 1)"
proof -
  have "is_winner (\<lambda>i j. i > j) [ex_iv 1 5, ex_iv 2 3] (FinePoint (Fin 2) False) 1"
    by (auto simp: is_winner_def coverHeap_Less_def fspan_def ex_iv_def fine_def less_Suc_eq)
  moreover obtain cs where "Sweep_result [ex_iv 1 5, ex_iv 2 3] (\<lambda>i j. i > j) = Some cs"
      "\<forall>x i. (\<exists>c\<in>set cs. x \<in> fspan (Interval c) \<and> Index c = i) \<longleftrightarrow> is_winner (\<lambda>i j. i > j) [ex_iv 1 5, ex_iv 2 3] x i"
    using sweep_partition [of "[ex_iv 1 5, ex_iv 2 3]" "\<lambda>i j. i > j"]
    by (force simp: valid_all_def)
  ultimately show ?thesis by blast
qed

text \<open>C14. \<open>Difference\<close> returns a canonical list whose points are exactly those of the first set and not of the second.\<close>

theorem difference_exact:
  assumes "\<forall>iv\<in>set a. valid_iv iv" and "\<forall>iv\<in>set b. valid_iv iv"
  shows "canonical (Difference a b) \<and> set_points (Difference a b) = set_points a - set_points b"
proof -
  have d: "canonical (Difference a b)" "set_span (Difference a b) = set_span a - set_span b"
    using Difference_spec [of a b] assms by (simp_all add: valid_all_def)
  moreover have "\<forall>iv\<in>set (Difference a b). valid_iv iv" using d(1) by (simp add: canonical_def)
  ultimately show ?thesis using assms by (auto simp: mem_set_points_iff)
qed

theorem difference_exact_witness:
  "canonical (Difference [ex_iv 1 5] [ex_iv 2 3]) \<and>
   set_points (Difference [ex_iv 1 5] [ex_iv 2 3]) = set_points [ex_iv 1 5] - set_points [ex_iv 2 3]"
  using difference_exact [of "[ex_iv 1 5]" "[ex_iv 2 3]"] by simp

text \<open>C15. \<open>Normalize\<close> keeps the points of a set, gives the canonical list, and two sets have equal normal forms exactly
  when they have the same points.\<close>

theorem normalize_canonical_form:
  assumes "\<forall>iv\<in>set a. valid_iv iv" and "\<forall>iv\<in>set b. valid_iv iv"
  shows "canonical (Normalize a) \<and> set_points (Normalize a) = set_points a \<and>
    (interval_Equal (Normalize a) (Normalize b) \<longleftrightarrow> set_points a = set_points b)"
proof -
  have c: "canonical (Normalize a)" "canonical (Normalize b)"
    using Normalize_spec(1) assms by blast+
  then have "interval_Equal (Normalize a) (Normalize b) \<longleftrightarrow> Normalize a = Normalize b"
    by (intro interval_Equal_iff) (simp add: canonical_def)
  moreover have "Normalize a = Normalize b \<longleftrightarrow> set_points (Normalize a) = set_points (Normalize b)"
    using canonical_points_unique [OF c] by auto
  ultimately show ?thesis using c Normalize_points assms by simp
qed

theorem normalize_canonical_form_witness:
  "canonical (Normalize [ex_iv 2 5, ex_iv 1 3]) \<and>
   set_points (Normalize [ex_iv 2 5, ex_iv 1 3]) = set_points [ex_iv 2 5, ex_iv 1 3] \<and>
   interval_Equal (Normalize [ex_iv 2 5, ex_iv 1 3]) (Normalize [ex_iv 1 5])"
proof -
  have "set_points [ex_iv 2 5, ex_iv 1 3] = set_points [ex_iv 1 5]" by (auto simp: set_points_def)
  then show ?thesis using normalize_canonical_form [of "[ex_iv 2 5, ex_iv 1 3]" "[ex_iv 1 5]"] by simp
qed

text \<open>\<open>Subtract\<close> splits an interval into at most two valid, separated pieces that cover exactly the points outside the
  cut; \<open>Merge\<close> of two intervals that overlap or touch covers exactly their union.\<close>

theorem subtract_merge_points:
  assumes "valid_iv a" and "valid_iv b"
  shows "length (Subtract a b) \<le> 2 \<and> canonical (Subtract a b) \<and> set_points (Subtract a b) = points a - points b \<and>
    (Interval_Overlaps a b \<or> Interval_Touches a b \<longrightarrow> points (Merge a b) = points a \<union> points b)"
proof (intro conjI impI)
  note p = Subtract_pieces [OF assms]
  show "length (Subtract a b) \<le> 2" by (simp add: Subtract_def split: option.split)
  show "canonical (Subtract a b)" using p(1,3) by (simp add: canonical_def separated_def)
  show "set_points (Subtract a b) = points a - points b"
    using p(1,2) assms by (auto simp: mem_set_points_iff mem_points_iff set_span_def)
  assume "Interval_Overlaps a b \<or> Interval_Touches a b"
  then have "fspan (Merge a b) = fspan a \<union> fspan b"
    using overlaps_or_touches_iff [OF assms] fspan_Merge [OF assms] by blast
  then show "points (Merge a b) = points a \<union> points b"
    using valid_Merge [OF assms] assms by (auto simp: mem_points_iff)
qed

theorem subtract_merge_points_witness:
  "canonical (Subtract (ex_iv 1 5) (ex_iv 2 3)) \<and> set_points (Subtract (ex_iv 1 5) (ex_iv 2 3)) = {1..5} - {2..3} \<and>
   points (Merge (ex_iv 1 5) (ex_iv 5 7)) = {1..7}"
proof -
  have "Interval_Overlaps (ex_iv 1 5) (ex_iv 5 7)"
    by (simp add: Interval_Overlaps_def ex_iv_def maxStart_def minEnd_def)
  moreover have "points (ex_iv a b) = {a..b}" for a b by auto
  ultimately show ?thesis
    using subtract_merge_points [of "ex_iv 1 5" "ex_iv 2 3"] subtract_merge_points [of "ex_iv 1 5" "ex_iv 5 7"]
    by auto
qed

text \<open>C17. \<open>Validate\<close> accepts an interval exactly when its endpoints are finite and it contains a point.\<close>

theorem interval_validate_iff:
  "Interval_Validate iv = None \<longleftrightarrow> is_fin (Start iv) \<and> is_fin (End iv) \<and> points iv \<noteq> {}"
proof
  assume "Interval_Validate iv = None"
  then have "valid_iv iv" by (simp add: valid_iv_def)
  moreover from this have "points iv \<noteq> {}" using valid_points_nonempty by blast
  ultimately show "is_fin (Start iv) \<and> is_fin (End iv) \<and> points iv \<noteq> {}" by (elim validE) simp
next
  assume a: "is_fin (Start iv) \<and> is_fin (End iv) \<and> points iv \<noteq> {}"
  then obtain s e x where "Start iv = Fin s" "End iv = Fin e" "Interval_Contains iv (Fin x)"
    by (auto simp: is_fin_iff points_def)
  then show "Interval_Validate iv = None"
    by (auto simp: Interval_Validate_def Interval_Contains_def split: if_splits)
qed

section \<open>Identifiers, clocks and the stored form\<close>

text \<open>C18. The timestamps a shared clock hands out, however the loads and compare-and-swaps of any number of goroutines
  interleave, are strictly increasing in the order of the successful swaps, hence pairwise different, as long as the largest
  timestamp has not been reached.\<close>

theorem clock_ticks_increase:
  assumes "clock_reach s"
  shows "sorted_wrt i_lt (issued s) \<and> distinct (issued s) \<and> (\<forall>t\<in>set (issued s). i_le t (cell s))"
  using clock_reach_inv [OF assms] sorted_wrt_i_lt_distinct by (auto simp: clock_inv_def)

theorem clock_ticks_increase_witness:
  "\<exists>s :: clock_sys. issued s = [1, 2] \<and> sorted_wrt i_lt (issued s) \<and> distinct (issued s)"
proof -
  define s1 where "s1 = \<lparr>cell = 0, gos = (\<lambda>_. Idle)(0 := Ticking 0), issued = []\<rparr>"
  define s2 where "s2 = \<lparr>cell = 1, gos = (\<lambda>_. Idle), issued = [1]\<rparr>"
  define s3 where "s3 = \<lparr>cell = 1, gos = (\<lambda>_. Idle)(0 := Ticking 1), issued = [1]\<rparr>"
  define s4 where "s4 = \<lparr>cell = 2, gos = (\<lambda>_. Idle), issued = [1, 2]\<rparr>"
  have t1: "clock_step clock_init s1" using tick_load [of clock_init 0] by (simp add: clock_init_def s1_def)
  have t2: "clock_step s1 s2" using tick_swap [of s1 0 0 1 0]
    by (simp add: s1_def s2_def next_ts_def i_le_def fun_upd_idem)
  have t3: "clock_step s2 s3" using tick_load [of s2 0] by (simp add: s2_def s3_def)
  have t4: "clock_step s3 s4" using tick_swap [of s3 0 1 2 0]
    by (simp add: s3_def s4_def next_ts_def i_le_def fun_upd_idem)
  have c: "cell clock_init \<noteq> max_int64" "cell s1 \<noteq> max_int64" "cell s2 \<noteq> max_int64" "cell s3 \<noteq> max_int64"
    by (simp_all add: clock_init_def s1_def s2_def s3_def max_int64_def)
  have "clock_reach s4"
    by (rule clock_reach.step [OF clock_reach.step [OF clock_reach.step [OF clock_reach.step
        [OF clock_reach.start c(1) t1] c(2) t2] c(3) t3] c(4) t4])
  from clock_ticks_increase [OF this] show ?thesis by (intro exI [of _ s4]) (simp add: s4_def)
qed

text \<open>After observing a remote timestamp the hybrid clock's next tick is greater than it, and greater than every tick
  before, unless the largest timestamp was reached.\<close>

theorem hybrid_tick_after_observe:
  assumes "h_last (Hybrid_Observe ts h) \<noteq> max_int64" and "Hybrid_Tick (Hybrid_Observe ts h) = (ts', h')"
  shows "i_lt ts ts' \<and> i_lt (h_last h) ts' \<and> h_last h' = ts'"
  using hybrid_clock.tick_after_observe [OF assms(2,1)] hybrid_clock.tick_last [OF assms(2)] by simp

theorem hybrid_tick_after_observe_witness:
  "i_lt 30 (fst (Hybrid_Tick (Hybrid_Observe 30 ex_hybrid))) \<and> i_lt 20 (fst (Hybrid_Tick (Hybrid_Observe 30 ex_hybrid)))"
proof -
  have "h_last (Hybrid_Observe 30 ex_hybrid) \<noteq> max_int64"
    by (simp add: Hybrid_Observe_def ex_hybrid_def advancePast_def i_le_def max_int64_def)
  from hybrid_tick_after_observe [OF this surjective_pairing] show ?thesis by (simp add: ex_hybrid_def)
qed

text \<open>An identifier determines the instant and the random bytes it was made from: two calls give different identifiers
  unless both agree.\<close>

theorem newID_injective:
  assumes "newID t bs = newID u cs"
  shows "t = u \<and> bs = cs"
  using newID_parts [OF assms] .

theorem newID_injective_witness:
  "newID 100 [1, 2] = newID 100 [1, 2] \<and> (100 :: nat) = 100 \<and> [1, 2 :: 8 word] = [1, 2]"
  using newID_injective [of 100 "[1, 2]" 100 "[1, 2]"] by simp



text \<open>C22. Optimistic concurrency on a JSON Lines stream: an append succeeds only at the current version and is then read back
  exactly; at any other version it reports a conflict and leaves the stream as it was.\<close>

theorem jsonl_append_versions:
  assumes "jsonl_inv (quiet J) f" and "list_all (jsonl_storable (quiet J)) es"
    and "jsonl_count (quiet J) f = Inr n"
  shows "jsonl_Append (quiet J) v es f =
      (if v = n then (None, Some (lines_of f @ map (\<lambda>x. Marshal (enc J x)) es)) else (Some ErrVersionConflict, f)) \<and>
    jsonl_Read (quiet J) n (Some (lines_of f @ map (\<lambda>x. Marshal (enc J x)) es)) = Inr (es, n + int (length es))"
proof -
  have n: "n = int (jsonl_base (quiet J) f + length (jsonl_tail (quiet J) f))"
    using assms(3) jsonl_count_law [OF assms(1)] by simp
  have eq: "jsonl_Append (quiet J) v es f =
      (if v = n then (None, Some (lines_of f @ map (\<lambda>x. Marshal (enc J x)) es)) else (Some ErrVersionConflict, f))" for v
    using assms(3) by (simp add: jsonl_Append_def appendEvents_quiet)
  then have "Append (jsonl_log (quiet J)) n es f = (None, Some (lines_of f @ map (\<lambda>x. Marshal (enc J x)) es))"
    by (simp add: jsonl_log_def)
  from jsonl.Read_after_Append [OF assms(1,2)] this show ?thesis
    using eq n by (simp add: jsonl.top_def jsonl_log_def)
qed

theorem jsonl_append_versions_witness:
  "jsonl_Append (quiet (op_env fm)) 7 [op1] None = (Some ErrVersionConflict, None) \<and>
   jsonl_Append (quiet (op_env fm)) 0 [op1] None = (None, Some [Marshal (put_op op1)]) \<and>
   jsonl_Read (quiet (op_env fm)) 0 (Some [Marshal (put_op op1)]) = Inr ([op1], 1)"
proof -
  have "enc (op_env fm) = put_op" by (simp add: op_env_def)
  then show ?thesis
    using jsonl_append_versions [of "op_env fm" None "[op1]" 0 7] jsonl_append_versions [of "op_env fm" None "[op1]" 0 0]
      op1_storable
    by (simp add: op1_same jsonl_count_def scan_def lines_of_def)
qed

end
